(* ===== verification/V2I_Prelude.thy ===== *)
theory V2I_Prelude
  imports Complex_Main "HOL-Library.Word" "HOL-Library.Char_ord"
begin

text \<open>
  Shared vocabulary of the development: the names of the numeric types and the error codes that
  the C++ sources use, and generic lemmas on lists and options that more than one component needs.
\<close>

type_synonym u8 = "8 word"
type_synonym u32 = "32 word"
type_synonym u64 = "64 word"

text \<open>Error codes of \<^verbatim>\<open>mec/zsfd/inc/std/zasbsc.h\<close>; functions return them negated.\<close>

abbreviation EBADPARM :: int where "EBADPARM \<equiv> 1000"
abbreviation EEXISTS :: int where "EEXISTS \<equiv> 1001"
abbreviation EINVALID :: int where "EINVALID \<equiv> 1002"
abbreviation ELOGIC :: int where "ELOGIC \<equiv> 1003"
abbreviation EEOF :: int where "EEOF \<equiv> 1004"
abbreviation ENOTEXISTS :: int where "ENOTEXISTS \<equiv> 1005"
abbreviation ENOTAVAIL :: int where "ENOTAVAIL \<equiv> 1011"
abbreviation ENOTFOUND :: int where "ENOTFOUND \<equiv> 1017"

section \<open>Lists\<close>

lemma takeWhile_append_stop:
  "\<lbrakk>\<And>x. x \<in> set xs \<Longrightarrow> P x; \<not> P y\<rbrakk> \<Longrightarrow> takeWhile P (xs @ y # ys) = xs"
  by (simp add: takeWhile_append)

lemma dropWhile_append_stop:
  "\<lbrakk>\<And>x. x \<in> set xs \<Longrightarrow> P x; \<not> P y\<rbrakk> \<Longrightarrow> dropWhile P (xs @ y # ys) = y # ys"
  by (simp add: dropWhile_append)

lemma last_in_set_conv: "xs \<noteq> [] \<Longrightarrow> last xs = xs ! (length xs - 1)"
  by (simp add: last_conv_nth)

section \<open>Words\<close>

lemma of_nat_u64_inject:
  assumes "i < 2 ^ 64" and "k < 2 ^ 64"
  shows "(of_nat i :: u64) = of_nat k \<longleftrightarrow> i = k"
proof
  assume "(of_nat i :: u64) = of_nat k"
  then have "unat (of_nat i :: u64) = unat (of_nat k :: u64)" by simp
  with assms show "i = k" by (simp add: unat_of_nat)
qed simp

section \<open>C strings\<close>

text \<open>
  A C string is the part of a character array before its first NUL; the character a
  pointer reads at the end of the string is that NUL.
\<close>

definition c_str :: "string \<Rightarrow> string" where
  "c_str s = takeWhile (\<lambda>c. c \<noteq> CHR 0x00) s"

definition peek :: "string \<Rightarrow> char" where
  "peek s = (case s of [] \<Rightarrow> CHR 0x00 | c # _ \<Rightarrow> c)"

lemma c_str_id: "CHR 0x00 \<notin> set s \<Longrightarrow> c_str s = s"
  by (auto simp: c_str_def takeWhile_eq_all_conv)

lemma c_str_clean [simp]: "CHR 0x00 \<notin> set (c_str s)"
  by (auto simp: c_str_def dest: set_takeWhileD)

lemma c_str_c_str [simp]: "c_str (c_str s) = c_str s"
  by (simp add: c_str_def)

text \<open>\<^verbatim>\<open>strstr\<close> and \<^verbatim>\<open>strchr\<close>: the offset of the first match, \<open>None\<close> for a null pointer.\<close>

fun is_prefix :: "string \<Rightarrow> string \<Rightarrow> bool" where
  "is_prefix [] s = True"
| "is_prefix (p # ps) [] = False"
| "is_prefix (p # ps) (c # cs) = (p = c \<and> is_prefix ps cs)"

fun strstr :: "string \<Rightarrow> string \<Rightarrow> nat option" where
  "strstr s pat =
     (if is_prefix pat s then Some 0
      else (case s of [] \<Rightarrow> None | _ # s' \<Rightarrow> map_option Suc (strstr s' pat)))"

declare strstr.simps [simp del]

fun strchr :: "string \<Rightarrow> char \<Rightarrow> nat option" where
  "strchr [] c = None"
| "strchr (x # xs) c = (if x = c then Some 0 else map_option Suc (strchr xs c))"

lemma is_prefix_append [simp]: "is_prefix p (p @ s)"
  by (induction p) auto

lemma is_prefix_iff: "is_prefix p s \<longleftrightarrow> (\<exists>t. s = p @ t)"
  by (induction p s rule: is_prefix.induct) auto

lemma strstr_Some: "strstr s pat = Some n \<Longrightarrow> n \<le> length s \<and> (\<exists>t. drop n s = pat @ t)"
proof (induction s pat arbitrary: n rule: strstr.induct)
  case (1 s pat)
  show ?case
  proof (cases "is_prefix pat s")
    case True
    then show ?thesis using "1.prems" by (simp add: strstr.simps [of s] is_prefix_iff)
  next
    case False
    with "1.prems" obtain c s' m where m: "s = c # s'" "strstr s' pat = Some m" "n = Suc m"
      by (auto simp: strstr.simps [of s] split: list.splits)
    from "1.IH" [OF False m(1,2)] m show ?thesis by simp
  qed
qed

lemma strchr_None: "strchr s c = None \<longleftrightarrow> c \<notin> set s"
  by (induction s) auto

lemma strchr_Some:
  "strchr s c = Some n \<Longrightarrow> n < length s \<and> s ! n = c \<and> c \<notin> set (take n s)"
proof (induction s arbitrary: n)
  case (Cons x xs)
  then show ?case by (cases n) (auto split: if_splits)
qed simp

lemma strchr_append: "c \<notin> set xs \<Longrightarrow> strchr (xs @ c # ys) c = Some (length xs)"
  by (induction xs) auto

section \<open>Decimal numbers\<close>

definition digit_char :: "nat \<Rightarrow> char" where
  "digit_char d = char_of (48 + d)"

definition is_digit :: "char \<Rightarrow> bool" where
  "is_digit c \<longleftrightarrow> CHR ''0'' \<le> c \<and> c \<le> CHR ''9''"

definition digit_value :: "char \<Rightarrow> nat" where
  "digit_value c = of_char c - 48"

text \<open>\<^verbatim>\<open>std::to_string\<close> on a non-negative number.\<close>

fun nat_to_string :: "nat \<Rightarrow> string" where
  "nat_to_string n =
     (if n < 10 then [digit_char n] else nat_to_string (n div 10) @ [digit_char (n mod 10)])"

declare nat_to_string.simps [simp del]

text \<open>The value of a run of digits, most significant first.\<close>

definition digits_value :: "string \<Rightarrow> nat" where
  "digits_value s = foldl (\<lambda>v c. v * 10 + digit_value c) 0 s"

lemma digit_cases: "d < 10 \<Longrightarrow> d \<in> {0, 1, 2, 3, 4, 5, 6, 7, 8, 9 :: nat}"
  by auto

lemma digit_char_digit [simp]:
  assumes "d < 10"
  shows "is_digit (digit_char d)" "digit_value (digit_char d) = d"
  using digit_cases [OF assms]
  by (auto simp: is_digit_def digit_char_def digit_value_def less_eq_char_def)

lemma nat_to_string_digits: "c \<in> set (nat_to_string n) \<Longrightarrow> is_digit c"
proof (induction n rule: nat_to_string.induct)
  case (1 n)
  then show ?case
    by (cases "n < 10") (auto simp: nat_to_string.simps [of n])
qed

lemma nat_to_string_not_Nil [simp]: "nat_to_string n \<noteq> []"
  by (subst nat_to_string.simps) simp

lemma digits_value_nat_to_string: "digits_value (nat_to_string n) = n"
proof (induction n rule: nat_to_string.induct)
  case (1 n)
  then show ?case
    by (cases "n < 10") (auto simp: nat_to_string.simps [of n] digits_value_def)
qed

lemma nat_to_string_inject: "nat_to_string m = nat_to_string n \<longleftrightarrow> m = n"
  by (metis digits_value_nat_to_string)

end
