(* ===== verification/Viterbi.thy ===== *)
theory Viterbi
  imports V2I_Prelude
begin

text \<open>
  The Viterbi decoder of \<^verbatim>\<open>modules/HMM\<close>. The C++ sources carry the same three loops
  (initialisation, recursion, termination with backtracking) in \<^verbatim>\<open>HMM::viterbiAlgorithm\<close>
  and in the four decoders of \<^verbatim>\<open>HMMLoc\<close>; the loops are modelled once here and each decoder
  instantiates them with its own matrices. A \<^verbatim>\<open>double\<close> is a value of an arbitrary linearly
  ordered type with a zero, and the multiplication is a parameter, so that the optimality
  theorem only uses what rounded multiplication of non-negative numbers satisfies as well:
  it is monotone and keeps signs (the contract \<open>mono_mul\<close>).
\<close>

section \<open>The loops\<close>

text \<open>One time step of the recursion: the bounds of its two loops and the matrices it reads.\<close>

record 'd stage =
  st_prev :: nat
  st_num :: nat
  st_trans :: "nat \<Rightarrow> nat \<Rightarrow> 'd"
  st_emit :: "nat \<Rightarrow> 'd"

text \<open>
  \<^verbatim>\<open>max_prob = 0.0; max_state = 0; for (s = 0; s < n; ++s) if (f(s) > max_prob) ...\<close>:
  the scan of the recursion step and of the termination step.
\<close>

fun argmax_loop :: "(nat \<Rightarrow> 'd::{linorder,zero}) \<Rightarrow> nat \<Rightarrow> 'd \<times> nat" where
  "argmax_loop f 0 = (0, 0)"
| "argmax_loop f (Suc s) =
     (let (max_prob, max_state) = argmax_loop f s
      in if f s > max_prob then (f s, s) else (max_prob, max_state))"

text \<open>\<^verbatim>\<open>delta(t - 1, s_prev) * transitional_prob * emission\<close>, associated to the left.\<close>

definition stage_prob ::
  "('d \<Rightarrow> 'd \<Rightarrow> 'd) \<Rightarrow> 'd list \<Rightarrow> 'd stage \<Rightarrow> nat \<Rightarrow> nat \<Rightarrow> 'd" where
  "stage_prob mul delta st s s_prev =
     mul (mul (delta ! s_prev) (st_trans st s_prev s)) (st_emit st s)"

text \<open>
  Row \<open>t\<close> of \<^verbatim>\<open>delta\<close> and \<^verbatim>\<open>psi\<close>, \<open>w\<close> columns wide. Columns that the loop over \<open>s\<close> does not
  reach keep the zero the matrices are created with.
\<close>

definition viterbi_step ::
  "('d \<Rightarrow> 'd \<Rightarrow> 'd) \<Rightarrow> nat \<Rightarrow> 'd list \<Rightarrow> 'd::{linorder,zero} stage \<Rightarrow> 'd list \<times> nat list" where
  "viterbi_step mul w delta st =
     (let cell = (\<lambda>s. if s < st_num st then argmax_loop (stage_prob mul delta st s) (st_prev st)
                      else (0, 0))
      in (map (\<lambda>s. fst (cell s)) [0..<w], map (\<lambda>s. snd (cell s)) [0..<w]))"

fun viterbi_forward ::
  "('d \<Rightarrow> 'd \<Rightarrow> 'd) \<Rightarrow> nat \<Rightarrow> 'd list \<Rightarrow> 'd::{linorder,zero} stage list \<Rightarrow> ('d list \<times> nat list) list"
where
  "viterbi_forward mul w delta [] = []"
| "viterbi_forward mul w delta (st # sts) =
     (let row = viterbi_step mul w delta st
      in row # viterbi_forward mul w (fst row) sts)"

text \<open>
  \<^verbatim>\<open>best_path[t] = psi(t + 1, best_path[t + 1])\<close> for \<^verbatim>\<open>t = T - 2\<close> down to \<open>0\<close>; the rows of
  \<^verbatim>\<open>psi\<close> come in the order the loop reads them, the last time step first.
\<close>

fun backtrack :: "nat list list \<Rightarrow> nat \<Rightarrow> nat list" where
  "backtrack [] best = [best]"
| "backtrack (psi # psis) best = backtrack psis (psi ! best) @ [best]"

text \<open>
  Recursion, termination and backtracking, from the row \<open>delta0\<close> of the initialisation.
  \<open>nfin\<close> is the bound of the termination loop.
\<close>

definition last_delta ::
  "('d \<Rightarrow> 'd \<Rightarrow> 'd) \<Rightarrow> nat \<Rightarrow> 'd list \<Rightarrow> 'd::{linorder,zero} stage list \<Rightarrow> 'd list" where
  "last_delta mul w delta0 sts = last (delta0 # map fst (viterbi_forward mul w delta0 sts))"

definition viterbi_core ::
  "('d \<Rightarrow> 'd \<Rightarrow> 'd) \<Rightarrow> nat \<Rightarrow> nat \<Rightarrow> 'd list \<Rightarrow> 'd::{linorder,zero} stage list \<Rightarrow> nat list" where
  "viterbi_core mul w nfin delta0 sts =
     (let best_final_state = snd (argmax_loop (\<lambda>s. last_delta mul w delta0 sts ! s) nfin)
      in backtrack (rev (map snd (viterbi_forward mul w delta0 sts))) best_final_state)"

section \<open>Specification: the score of a path\<close>

text \<open>The joint score of a state sequence, accumulated in the order of the recursion.\<close>

fun path_from ::
  "('d \<Rightarrow> 'd \<Rightarrow> 'd) \<Rightarrow> 'd stage list \<Rightarrow> 'd \<Rightarrow> nat \<Rightarrow> nat list \<Rightarrow> 'd" where
  "path_from mul (st # sts) a s (s' # ss) =
     path_from mul sts (mul (mul a (st_trans st s s')) (st_emit st s')) s' ss"
| "path_from mul _ a s _ = a"

fun path_score :: "('d \<Rightarrow> 'd \<Rightarrow> 'd) \<Rightarrow> 'd list \<Rightarrow> 'd stage list \<Rightarrow> nat list \<Rightarrow> 'd" where
  "path_score mul delta0 sts (s # ss) = path_from mul sts (delta0 ! s) s ss"
| "path_score mul delta0 sts [] = delta0 ! 0"

text \<open>A state sequence picks one state of the range of each time step.\<close>

fun valid_tail :: "'d stage list \<Rightarrow> nat list \<Rightarrow> bool" where
  "valid_tail [] ss \<longleftrightarrow> ss = []"
| "valid_tail (st # sts) ss \<longleftrightarrow>
     (case ss of [] \<Rightarrow> False | s # ss' \<Rightarrow> s < st_num st \<and> valid_tail sts ss')"

definition valid_path :: "nat \<Rightarrow> 'd stage list \<Rightarrow> nat list \<Rightarrow> bool" where
  "valid_path n sts p \<longleftrightarrow> (case p of [] \<Rightarrow> False | s # ss \<Rightarrow> s < n \<and> valid_tail sts ss)"

text \<open>Adjacent time steps fit together and every factor is non-negative.\<close>

fun stages_ok :: "nat \<Rightarrow> nat \<Rightarrow> 'd::{linorder,zero} stage list \<Rightarrow> bool" where
  "stages_ok w n [] \<longleftrightarrow> True"
| "stages_ok w n (st # sts) \<longleftrightarrow>
     st_prev st = n \<and> 0 < st_num st \<and> st_num st \<le> w \<and>
     (\<forall>i<n. \<forall>j < st_num st. 0 \<le> st_trans st i j) \<and> (\<forall>j < st_num st. 0 \<le> st_emit st j) \<and>
     stages_ok w (st_num st) sts"

definition final_num :: "nat \<Rightarrow> 'd stage list \<Rightarrow> nat" where
  "final_num n sts = last (n # map st_num sts)"

section \<open>Helper lemmas\<close>

lemma argmax_loop_nonneg: "0 \<le> fst (argmax_loop f n)"
  by (induction n) (auto simp: Let_def split: prod.splits)

lemma argmax_loop_ge: "i < n \<Longrightarrow> f i \<le> fst (argmax_loop f n)"
proof (induction n)
  case (Suc n)
  then show ?case
    by (cases "i = n") (auto simp: Let_def not_less less_Suc_eq split: prod.splits)
qed simp

lemma argmax_loop_pos: "snd (argmax_loop f n) \<noteq> 0 \<Longrightarrow> 0 < f (snd (argmax_loop f n))"
proof (induction n)
  case (Suc n)
  then show ?case
    using argmax_loop_nonneg [of f n] by (auto simp: Let_def split: prod.splits if_splits)
qed simp

lemma argmax_loop_less: "0 < n \<Longrightarrow> snd (argmax_loop f n) < n"
proof (induction n)
  case (Suc n)
  then show ?case by (cases n) (auto simp: Let_def less_Suc_eq split: prod.splits)
qed simp

lemma argmax_loop_state: "snd (argmax_loop f n) = 0 \<and> fst (argmax_loop f n) = 0
    \<or> fst (argmax_loop f n) = f (snd (argmax_loop f n))"
  by (induction n) (auto simp: Let_def split: prod.splits)

lemma argmax_loop_attains:
  assumes "0 < n" and "\<And>i. i < n \<Longrightarrow> 0 \<le> f i"
  shows "f (snd (argmax_loop f n)) = fst (argmax_loop f n)"
proof -
  have "f 0 \<le> fst (argmax_loop f n)" using assms(1) by (rule argmax_loop_ge)
  with assms argmax_loop_state [of f n] show ?thesis by fastforce
qed

lemma length_viterbi_step [simp]:
  "length (fst (viterbi_step mul w d st)) = w"
  "length (snd (viterbi_step mul w d st)) = w"
  by (simp_all add: viterbi_step_def Let_def)

lemma viterbi_step_nth:
  assumes "s < w"
  shows "fst (viterbi_step mul w d st) ! s =
      (if s < st_num st then fst (argmax_loop (stage_prob mul d st s) (st_prev st)) else 0)"
    and "snd (viterbi_step mul w d st) ! s =
      (if s < st_num st then snd (argmax_loop (stage_prob mul d st s) (st_prev st)) else 0)"
  using assms by (simp_all add: viterbi_step_def Let_def)

lemma viterbi_step_nonneg: "x \<in> set (fst (viterbi_step mul w d st)) \<Longrightarrow> 0 \<le> x"
  by (auto simp: viterbi_step_def Let_def argmax_loop_nonneg)

lemma backtrack_not_Nil [simp]: "backtrack psis b \<noteq> []"
  by (induction psis arbitrary: b) auto

lemma backtrack_snoc:
  "backtrack (psis @ [psi]) b = (psi ! hd (backtrack psis b)) # backtrack psis b"
  by (induction psis arbitrary: b) (auto simp: hd_append)

lemma last_backtrack [simp]: "last (backtrack psis b) = b"
  by (cases psis) auto

lemma length_backtrack [simp]: "length (backtrack psis b) = Suc (length psis)"
  by (induction psis arbitrary: b) auto

lemma length_viterbi_forward [simp]: "length (viterbi_forward mul w d sts) = length sts"
  by (induction sts arbitrary: d) (auto simp: Let_def)

lemma last_delta_Nil [simp]: "last_delta mul w d [] = d"
  by (simp add: last_delta_def)

lemma last_delta_Cons [simp]:
  "last_delta mul w d (st # sts) = last_delta mul w (fst (viterbi_step mul w d st)) sts"
  by (simp add: last_delta_def Let_def)

lemma final_num_simps [simp]:
  "final_num n [] = n" "final_num n (st # sts) = final_num (st_num st) sts"
  by (simp_all add: final_num_def)

lemma valid_path_Cons [simp]: "valid_path n sts (s # ss) \<longleftrightarrow> s < n \<and> valid_tail sts ss"
  by (simp add: valid_path_def)

lemma valid_path_hd: "valid_path n sts p \<Longrightarrow> hd p < n"
  by (cases p) (auto simp: valid_path_def)

lemma length_valid_tail: "valid_tail sts ss \<Longrightarrow> length ss = length sts"
  by (induction sts arbitrary: ss) (auto split: list.splits)

lemma length_valid_path: "valid_path n sts p \<Longrightarrow> length p = Suc (length sts)"
  by (cases p) (auto simp: valid_path_def dest: length_valid_tail)

lemma last_delta_row:
  assumes "stages_ok w n sts" and "0 < n" and "n \<le> w"
    and "\<And>i. i < w \<Longrightarrow> 0 \<le> d ! i" and "\<And>i. \<lbrakk>n \<le> i; i < w\<rbrakk> \<Longrightarrow> d ! i = 0"
  shows "final_num n sts \<le> w \<and> 0 < final_num n sts \<and> (\<forall>i<w. 0 \<le> last_delta mul w d sts ! i) \<and>
      (\<forall>i. final_num n sts \<le> i \<longrightarrow> i < w \<longrightarrow> last_delta mul w d sts ! i = 0)"
  using assms
proof (induction sts arbitrary: n d)
  case (Cons st sts)
  then show ?case
    using Cons.IH [of "st_num st" "fst (viterbi_step mul w d st)"]
    by (simp add: viterbi_step_nth argmax_loop_nonneg)
qed auto

lemma last_valid:
  "\<lbrakk>s < n; valid_tail sts ss\<rbrakk> \<Longrightarrow> last (s # ss) < final_num n sts"
proof (induction sts arbitrary: n s ss)
  case (Cons st sts)
  then show ?case by (auto split: list.splits)
qed auto

text \<open>Every index of a decoded path is within the width of the tables.\<close>

lemma argmax_loop_le: "n \<le> w \<Longrightarrow> 0 < w \<Longrightarrow> snd (argmax_loop f n) < w"
  using argmax_loop_less [of n f] by (cases n) auto

lemma forward_psi_bound:
  assumes "0 < w" and "\<forall>st \<in> set sts. st_prev st \<le> w"
  shows "\<forall>psi \<in> set (map snd (viterbi_forward mul w d sts)). length psi = w \<and> (\<forall>i \<in> set psi. i < w)"
  using assms
proof (induction sts arbitrary: d)
  case (Cons st sts)
  have "\<forall>i \<in> set (snd (viterbi_step mul w d st)). i < w"
    using Cons.prems by (auto simp: viterbi_step_def Let_def argmax_loop_le)
  with Cons show ?case by (simp add: Let_def)
qed simp

lemma backtrack_bound:
  assumes "\<forall>psi \<in> set psis. length psi = w \<and> (\<forall>i \<in> set psi. i < w)" and "b < w"
  shows "\<forall>i \<in> set (backtrack psis b). i < w"
  using assms
proof (induction psis arbitrary: b)
  case (Cons psi psis)
  have len: "length psi = w" and all: "\<forall>i \<in> set psi. i < w"
    and rest: "\<forall>psi \<in> set psis. length psi = w \<and> (\<forall>i \<in> set psi. i < w)"
    using Cons.prems(1) by (simp_all only: list.set ball_simps) blast+
  have "psi ! b \<in> set psi" using Cons.prems(2) len by (intro nth_mem) simp
  with all have "psi ! b < w" by blast
  from Cons.IH [OF rest this] Cons.prems(2) show ?case
    by (simp only: backtrack.simps set_append list.set) blast
qed simp

lemma viterbi_core_bound:
  assumes "0 < w" and "nfin \<le> w" and "\<forall>st \<in> set sts. st_prev st \<le> w"
  shows "\<forall>i \<in> set (viterbi_core mul w nfin d sts). i < w"
  unfolding viterbi_core_def Let_def
proof (rule backtrack_bound)
  show "\<forall>psi \<in> set (rev (map snd (viterbi_forward mul w d sts))). length psi = w \<and> (\<forall>i \<in> set psi. i < w)"
    using forward_psi_bound [OF assms(1,3), of mul d] by simp
  show "snd (argmax_loop (\<lambda>s. last_delta mul w d sts ! s) nfin) < w"
    using assms(1,2) by (intro argmax_loop_le)
qed

lemma length_viterbi_core [simp]: "length (viterbi_core mul w nfin d sts) = Suc (length sts)"
  by (simp add: viterbi_core_def Let_def)

lemma last_viterbi_core:
  "last (viterbi_core mul w nfin d sts) = snd (argmax_loop (\<lambda>s. last_delta mul w d sts ! s) nfin)"
  by (simp add: viterbi_core_def Let_def)

lemma argmax_loop_first: "\<lbrakk>\<And>i. \<lbrakk>0 < i; i < n\<rbrakk> \<Longrightarrow> f i \<le> 0\<rbrakk> \<Longrightarrow> snd (argmax_loop f n) = 0"
proof (induction n)
  case (Suc n)
  then have IH: "snd (argmax_loop f n) = 0" by simp
  have "\<not> fst (argmax_loop f n) < f n" if "0 < n"
    using Suc.prems [of n] argmax_loop_nonneg [of f n] that by simp
  with IH show ?case by (cases n) (auto simp: Let_def split: prod.splits)
qed simp

lemma last_delta_snoc: "last_delta mul w d (sts @ [st]) = fst (viterbi_step mul w (last_delta mul w d sts) st)"
  by (induction sts arbitrary: d) (auto simp: Let_def)

text \<open>A last time step with a single state: the termination loop stays at column \<open>0\<close>.\<close>

lemma last_viterbi_core_single:
  assumes "st_num st \<le> 1" and "nfin \<le> w"
  shows "last (viterbi_core mul w nfin d (sts @ [st])) = 0"
  unfolding last_viterbi_core last_delta_snoc
  using assms by (intro argmax_loop_first) (simp add: viterbi_step_nth)

section \<open>The contract of the multiplication, and optimality of the decoded path\<close>

locale mono_mul =
  fixes mul :: "'d::{linorder,zero} \<Rightarrow> 'd \<Rightarrow> 'd"
  assumes mul_nonneg: "\<lbrakk>0 \<le> a; 0 \<le> b\<rbrakk> \<Longrightarrow> 0 \<le> mul a b"
    and mul_mono: "\<lbrakk>0 \<le> a; a \<le> b; 0 \<le> c\<rbrakk> \<Longrightarrow> mul a c \<le> mul b c"
begin

lemma factor_nonneg:
  assumes "stages_ok w n (st # sts)" and "0 \<le> a" and "i < n" and "j < st_num st"
  shows "0 \<le> mul (mul a (st_trans st i j)) (st_emit st j)"
  using assms by (auto intro!: mul_nonneg)

lemma path_from_mono:
  assumes "stages_ok w n sts" and "s < n" and "valid_tail sts ss" and "0 \<le> a" and "a \<le> b"
  shows "path_from mul sts a s ss \<le> path_from mul sts b s ss"
  using assms
proof (induction sts arbitrary: n s ss a b)
  case (Cons st sts)
  then obtain s' ss' where ss: "ss = s' # ss'" "s' < st_num st" "valid_tail sts ss'"
    by (auto split: list.splits)
  let ?f = "\<lambda>x. mul (mul x (st_trans st s s')) (st_emit st s')"
  have "0 \<le> ?f a" using Cons.prems ss by (intro factor_nonneg) auto
  moreover have "?f a \<le> ?f b"
    using Cons.prems ss by (intro mul_mono mul_nonneg) auto
  ultimately show ?case
    using Cons.IH [of "st_num st" s' ss' "?f a" "?f b"] Cons.prems ss by simp
qed simp

lemma step_upper:
  assumes "stages_ok w n (st # sts)" and "s < n" and "s' < st_num st"
  shows "mul (mul (d ! s) (st_trans st s s')) (st_emit st s')
      \<le> fst (viterbi_step mul w d st) ! s'"
  using assms argmax_loop_ge [of s n "stage_prob mul d st s'"]
  by (auto simp: viterbi_step_nth stage_prob_def)

lemma path_upper:
  assumes "stages_ok w n sts" and "s < n" and "valid_tail sts ss"
    and "\<And>i. i < n \<Longrightarrow> 0 \<le> d ! i"
  shows "path_from mul sts (d ! s) s ss \<le> last_delta mul w d sts ! last (s # ss)"
  using assms
proof (induction sts arbitrary: n s ss d)
  case (Cons st sts)
  then obtain s' ss' where ss: "ss = s' # ss'" "s' < st_num st" "valid_tail sts ss'"
    by (auto split: list.splits)
  let ?d = "fst (viterbi_step mul w d st)"
  let ?a = "mul (mul (d ! s) (st_trans st s s')) (st_emit st s')"
  have w: "st_num st \<le> w" using Cons.prems by simp
  have nn: "0 \<le> ?d ! i" if "i < st_num st" for i
    using that w by (auto intro!: viterbi_step_nonneg nth_mem)
  have ok: "stages_ok w (st_num st) sts" using Cons.prems by simp
  have "path_from mul sts ?a s' ss' \<le> path_from mul sts (?d ! s') s' ss'"
    using Cons.prems ss ok
    by (intro path_from_mono [of w "st_num st"] step_upper factor_nonneg) auto
  also have "\<dots> \<le> last_delta mul w ?d sts ! last (s' # ss')"
    using ok ss nn by (intro Cons.IH) auto
  finally show ?case using ss by simp
qed simp

lemma backtrack_attains:
  assumes "stages_ok w n sts" and "0 < n" and "b < final_num n sts"
    and "\<And>i. i < n \<Longrightarrow> 0 \<le> d ! i"
  defines "p \<equiv> backtrack (rev (map snd (viterbi_forward mul w d sts))) b"
  shows "valid_path n sts p \<and> path_score mul d sts p = last_delta mul w d sts ! b"
  using assms(1-4) unfolding p_def
proof (induction sts arbitrary: n d)
  case (Cons st sts)
  let ?d = "fst (viterbi_step mul w d st)"
  let ?q = "backtrack (rev (map snd (viterbi_forward mul w ?d sts))) b"
  have w: "st_num st \<le> w" and num: "0 < st_num st" and prev: "st_prev st = n"
    using Cons.prems by auto
  have nn: "0 \<le> ?d ! i" if "i < st_num st" for i
    using that w by (auto intro!: viterbi_step_nonneg nth_mem)
  have IH: "valid_path (st_num st) sts ?q" "path_score mul ?d sts ?q = last_delta mul w ?d sts ! b"
    using Cons.IH [of "st_num st" ?d] Cons.prems nn num by auto
  obtain s' ss where q: "?q = s' # ss" by (cases ?q) auto
  let ?s = "snd (viterbi_step mul w d st) ! s'"
  have s': "s' < st_num st" using IH(1) q by simp
  have s: "?s < n" using s' w prev \<open>0 < n\<close> by (simp add: viterbi_step_nth argmax_loop_less)
  have "stage_prob mul d st s' ?s = ?d ! s'"
    using s' w prev Cons.prems
    by (simp add: viterbi_step_nth) (intro argmax_loop_attains; auto simp: stage_prob_def intro!: mul_nonneg)
  then have "path_from mul (st # sts) (d ! ?s) ?s (s' # ss) = path_score mul ?d sts ?q"
    by (simp add: q stage_prob_def)
  then show ?case
    using IH s s' q by (simp add: Let_def backtrack_snoc)
qed auto

theorem core_optimal:
  assumes "stages_ok w n sts" and "0 < n" and "n \<le> w" and "length d = w"
    and "\<And>i. i < w \<Longrightarrow> 0 \<le> d ! i" and "\<And>i. \<lbrakk>n \<le> i; i < w\<rbrakk> \<Longrightarrow> d ! i = 0"
  shows "valid_path n sts (viterbi_core mul w w d sts)"
    and "valid_path n sts p \<Longrightarrow> path_score mul d sts p \<le> path_score mul d sts (viterbi_core mul w w d sts)"
proof -
  let ?D = "last_delta mul w d sts"
  let ?b = "snd (argmax_loop (\<lambda>s. ?D ! s) w)"
  note D = last_delta_row [OF assms(1-3,5,6), of mul]
  have b: "?b < final_num n sts"
  proof (rule ccontr)
    assume ge: "\<not> ?b < final_num n sts"
    then have "?D ! ?b = 0" using D assms(2,3) argmax_loop_less [of w "\<lambda>s. ?D ! s"] by simp
    moreover have "?b \<noteq> 0" using ge D by simp
    ultimately show False using argmax_loop_pos [of "\<lambda>s. ?D ! s" w] by simp
  qed
  have att: "valid_path n sts (viterbi_core mul w w d sts)
      \<and> path_score mul d sts (viterbi_core mul w w d sts) = ?D ! ?b"
    unfolding viterbi_core_def Let_def
    using assms b by (intro backtrack_attains) auto
  then show "valid_path n sts (viterbi_core mul w w d sts)" by simp
  assume p: "valid_path n sts p"
  then obtain s ss where p': "p = s # ss" "s < n" "valid_tail sts ss"
    by (cases p) (auto simp: valid_path_def)
  have "path_score mul d sts p \<le> ?D ! last p"
    using path_upper [OF assms(1) p'(2,3)] assms(3,5) p' by simp
  also have "\<dots> \<le> fst (argmax_loop (\<lambda>s. ?D ! s) w)"
    using D last_valid [OF p'(2,3)] p'(1) by (intro argmax_loop_ge) simp
  also have "\<dots> = ?D ! ?b"
    using D by (intro argmax_loop_attains [symmetric]) auto
  finally show "path_score mul d sts p \<le> path_score mul d sts (viterbi_core mul w w d sts)"
    using att by simp
qed

end

interpretation real_mul: mono_mul "(*) :: real \<Rightarrow> real \<Rightarrow> real"
  by unfold_locales (auto intro: mult_right_mono)

section \<open>Properties\<close>

text \<open>
  C1: The path the Viterbi loops return is a state sequence of the model, and no state
  sequence has a greater score, for every multiplication that is monotone and keeps signs
  on non-negative numbers (rounded floating-point multiplication included), for time steps
  with different state sets, and also when all scores vanish.
\<close>

theorem viterbi_optimal:
  assumes "mono_mul mul" and "stages_ok w n sts" and "0 < n" and "n \<le> w" and "length d = w"
    and "\<forall>i<w. 0 \<le> d ! i" and "\<forall>i. n \<le> i \<and> i < w \<longrightarrow> d ! i = 0"
  shows "valid_path n sts (viterbi_core mul w w d sts) \<and>
    (\<forall>p. valid_path n sts p \<longrightarrow> path_score mul d sts p \<le> path_score mul d sts (viterbi_core mul w w d sts))"
  using mono_mul.core_optimal [OF assms(1-5)] assms(6,7) by simp

definition sample_stage :: "real stage" where
  "sample_stage = \<lparr>st_prev = 2, st_num = 1, st_trans = (\<lambda>i j. if i = 1 then 1 / 2 else 1 / 4),
     st_emit = (\<lambda>_. 1)\<rparr>"

theorem viterbi_optimal_witness:
  "viterbi_core (*) 2 2 [1 / 3, 2 / 3] [sample_stage] = [1, 0] \<and>
   path_score (*) [1 / 3, 2 / 3] [sample_stage] [0, 0] \<le> path_score (*) [1 / 3, 2 / 3] [sample_stage] [1, 0]"
proof -
  have core: "viterbi_core (*) 2 2 [1 / 3, 2 / 3] [sample_stage] = [1, 0]"
    by (simp add: viterbi_core_def viterbi_step_def stage_prob_def sample_stage_def Let_def numeral_2_eq_2)
  have "valid_path 2 [sample_stage] (viterbi_core (*) 2 2 [1 / 3, 2 / 3] [sample_stage]) \<and>
    (\<forall>p. valid_path 2 [sample_stage] p \<longrightarrow> path_score (*) [1 / 3, 2 / 3] [sample_stage] p
      \<le> path_score (*) [1 / 3, 2 / 3] [sample_stage] (viterbi_core (*) 2 2 [1 / 3, 2 / 3] [sample_stage]))"
    by (rule viterbi_optimal [OF real_mul.mono_mul_axioms])
      (auto simp: sample_stage_def less_Suc_eq numeral_2_eq_2)
  moreover have "valid_path 2 [sample_stage] [0, 0]" by (simp add: sample_stage_def)
  ultimately have "path_score (*) [1 / 3, 2 / 3] [sample_stage] [0, 0]
      \<le> path_score (*) [1 / 3, 2 / 3] [sample_stage] (viterbi_core (*) 2 2 [1 / 3, 2 / 3] [sample_stage])"
    by blast
  with core show ?thesis by (simp only: core)
qed

end
