(* ===== verification/Civ_Map.thy ===== *)
theory Civ_Map
  imports V2I_Prelude
begin

text \<open>
  The line map of \<^verbatim>\<open>civmap/map.cpp\<close> and the segment projection it shares with
  \<^verbatim>\<open>hdmap_impl::get_line_projection_distance\<close>. Coordinates are modelled as exact reals.
  A point of the sources is an \<^verbatim>\<open>Eigen::Vector3d\<close>; the distance routines read and write its
  first two coordinates only, and the third one of an output vector keeps whatever the
  caller's vector held.
\<close>

type_synonym pt2 = "real \<times> real"
type_synonym pt3 = "real \<times> real \<times> real"

abbreviation xy :: "pt3 \<Rightarrow> pt2" where
  "xy p \<equiv> (fst p, fst (snd p))"

section \<open>Projection of a point onto a segment\<close>

text \<open>\<^verbatim>\<open>POINT_DISTANCE(x, y)\<close>\<close>

definition point_distance :: "real \<Rightarrow> real \<Rightarrow> real" where
  "point_distance dx dy = sqrt (dx * dx + dy * dy)"

text \<open>The nearest point of the segment and its distance, with the three branches of the code.\<close>

definition segment_projection :: "pt2 \<Rightarrow> pt2 \<Rightarrow> pt2 \<Rightarrow> pt2 \<times> real" where
  "segment_projection p1 p2 p =
     (let (x, y) = p; (x1, y1) = p1; (x2, y2) = p2;
          cross = (x2 - x1) * (x - x1) + (y2 - y1) * (y - y1)
      in if cross \<le> 0 then ((x1, y1), point_distance (x - x1) (y - y1))
         else
           let d2 = (x2 - x1) * (x2 - x1) + (y2 - y1) * (y2 - y1)
           in if cross \<ge> d2 then ((x2, y2), point_distance (x - x2) (y - y2))
              else
                let r = cross / d2;
                    px = x1 + (x2 - x1) * r;
                    py = y1 + (y2 - y1) * r
                in ((px, py), point_distance (x - px) (py - y)))"

text \<open>Points of a segment, by the parameter along it.\<close>

definition on_segment :: "pt2 \<Rightarrow> pt2 \<Rightarrow> real \<Rightarrow> pt2" where
  "on_segment p1 p2 t = (fst p1 + (fst p2 - fst p1) * t, snd p1 + (snd p2 - snd p1) * t)"

definition pt_dist :: "pt2 \<Rightarrow> pt2 \<Rightarrow> real" where
  "pt_dist p q = point_distance (fst p - fst q) (snd p - snd q)"

lemma point_distance_le:
  "a * a + b * b \<le> c * c + d * d \<Longrightarrow> point_distance a b \<le> point_distance c d"
  by (simp add: point_distance_def)

lemma point_distance_nonneg [simp]: "0 \<le> point_distance a b"
  by (simp add: point_distance_def)

lemma point_distance_minus: "point_distance a (b - c) = point_distance a (c - b)"
  by (simp add: point_distance_def algebra_simps)

lemma square_dist_param:
  fixes ux uy dx dy t :: real
  shows "(ux - dx * t) * (ux - dx * t) + (uy - dy * t) * (uy - dy * t) =
    (ux * ux + uy * uy) - 2 * t * (dx * ux + dy * uy) + t * t * (dx * dx + dy * dy)"
  by (simp add: algebra_simps)

lemma quadratic_min_start:
  fixes c d t :: real
  assumes "c \<le> 0" and "0 \<le> t" and "0 \<le> d"
  shows "0 \<le> - 2 * t * c + t * t * d"
proof -
  have "t * c \<le> 0" using assms by (simp add: mult_nonneg_nonpos)
  moreover have "0 \<le> t * t * d" using assms by simp
  ultimately show ?thesis by simp
qed

lemma quadratic_min_end:
  fixes c d t :: real
  assumes "d \<le> c" and "t \<le> 1" and "0 \<le> d"
  shows "- 2 * c + d \<le> - 2 * t * c + t * t * d"
proof -
  have "0 \<le> (1 - t) * (2 * (c - d))" using assms by (intro mult_nonneg_nonneg) auto
  moreover have "0 \<le> (1 - t) * (1 - t) * d" using assms by (intro mult_nonneg_nonneg) auto
  ultimately show ?thesis by (simp add: algebra_simps)
qed

lemma quadratic_min_mid:
  fixes c d t :: real
  assumes "0 < d"
  shows "- 2 * (c / d) * c + (c / d) * (c / d) * d \<le> - 2 * t * c + t * t * d"
proof -
  have "0 \<le> d * ((t - c / d) * (t - c / d))" using assms by simp
  also have "\<dots> = - 2 * t * c + t * t * d + c * c / d"
    using assms by (simp add: field_simps)
  finally show ?thesis using assms by (simp add: field_simps)
qed

lemma pt_dist_param_le:
  assumes "- 2 * r * c + r * r * d \<le> - 2 * t * c + t * t * d"
    and "c = (fst p2 - fst p1) * (fst p - fst p1) + (snd p2 - snd p1) * (snd p - snd p1)"
    and "d = (fst p2 - fst p1) * (fst p2 - fst p1) + (snd p2 - snd p1) * (snd p2 - snd p1)"
  shows "pt_dist p (on_segment p1 p2 r) \<le> pt_dist p (on_segment p1 p2 t)"
proof -
  have sq: "(fst p - fst (on_segment p1 p2 u)) * (fst p - fst (on_segment p1 p2 u)) +
      (snd p - snd (on_segment p1 p2 u)) * (snd p - snd (on_segment p1 p2 u)) =
      ((fst p - fst p1) * (fst p - fst p1) + (snd p - snd p1) * (snd p - snd p1))
        + (- 2 * u * c + u * u * d)" for u
    using square_dist_param [of "fst p - fst p1" "fst p2 - fst p1" u "snd p - snd p1" "snd p2 - snd p1"]
    by (simp add: on_segment_def assms(2,3) diff_diff_eq [symmetric])
  show ?thesis
    unfolding pt_dist_def by (rule point_distance_le) (use assms(1) in \<open>simp add: sq\<close>)
qed

text \<open>The projection lies on the segment and no point of the segment is closer.\<close>

lemma segment_projection_closest:
  assumes "segment_projection p1 p2 p = (q, s)"
  shows "\<exists>r. 0 \<le> r \<and> r \<le> 1 \<and> q = on_segment p1 p2 r \<and> s = pt_dist p q \<and>
    (\<forall>t. 0 \<le> t \<longrightarrow> t \<le> 1 \<longrightarrow> s \<le> pt_dist p (on_segment p1 p2 t))"
proof -
  obtain x y x1 y1 x2 y2 where [simp]: "p = (x, y)" "p1 = (x1, y1)" "p2 = (x2, y2)"
    by (cases p; cases p1; cases p2) auto
  define c where "c = (x2 - x1) * (x - x1) + (y2 - y1) * (y - y1)"
  define d where "d = (x2 - x1) * (x2 - x1) + (y2 - y1) * (y2 - y1)"
  have d0: "0 \<le> d" by (simp add: d_def)
  have le: "pt_dist p (on_segment p1 p2 r) \<le> pt_dist p (on_segment p1 p2 t)"
    if "- 2 * r * c + r * r * d \<le> - 2 * t * c + t * t * d" for r t
    using that by (rule pt_dist_param_le) (simp_all add: c_def d_def)
  consider "c \<le> 0" | "0 < c" "d \<le> c" | "0 < c" "c < d" by linarith
  then show ?thesis
  proof cases
    case 1
    then have "q = on_segment p1 p2 0" and "s = pt_dist p q"
      using assms by (auto simp: segment_projection_def c_def [symmetric] on_segment_def pt_dist_def)
    then show ?thesis
      using quadratic_min_start [OF 1 _ d0] le [of 0] by (intro exI [of _ 0]) auto
  next
    case 2
    then have "q = on_segment p1 p2 1" and "s = pt_dist p q"
      using assms
      by (auto simp: segment_projection_def c_def [symmetric] d_def [symmetric] on_segment_def pt_dist_def)
    then show ?thesis
      using quadratic_min_end [OF 2(2) _ d0] le [of 1] by (intro exI [of _ 1]) auto
  next
    case 3
    then have "q = on_segment p1 p2 (c / d)" and "s = pt_dist p q"
      using assms
      by (auto simp: segment_projection_def Let_def c_def [symmetric] d_def [symmetric]
          on_segment_def pt_dist_def point_distance_minus)
    then show ?thesis
      using 3 le [of "c / d", OF quadratic_min_mid] by (intro exI [of _ "c / d"]) auto
  qed
qed

section \<open>Distances to a curve and to the map\<close>

text \<open>\<^verbatim>\<open>#define MAXVAL 2147483647\<close>, converted to \<^verbatim>\<open>double\<close> where it is returned.\<close>

abbreviation MAXVAL :: real where
  "MAXVAL \<equiv> 2147483647"

text \<open>
  The output parameter \<^verbatim>\<open>pt_nearest_enu\<close> is the last argument and the second component of the
  result; its third coordinate is not written.
\<close>

definition min_distance_point_to_line :: "pt3 \<Rightarrow> pt3 list \<Rightarrow> pt3 \<Rightarrow> real \<times> pt3" where
  "min_distance_point_to_line pt_enu line_segment_two_points pt_nearest_enu =
     (if length line_segment_two_points \<noteq> 2 then (MAXVAL, pt_nearest_enu)
      else let (q, s) = segment_projection (xy (line_segment_two_points ! 0))
                          (xy (line_segment_two_points ! 1)) (xy pt_enu)
           in (s, (fst q, snd q, snd (snd pt_nearest_enu))))"

text \<open>
  The loop of \<^verbatim>\<open>get_distance_pt_curve_enu\<close> over consecutive points; its state is
  \<^verbatim>\<open>closest_distance\<close>, \<^verbatim>\<open>cross_pt_curve\<close> and the local \<^verbatim>\<open>crossing_pt_line\<close>.
\<close>

fun curve_scan :: "pt3 \<Rightarrow> pt3 list \<Rightarrow> real \<times> pt3 \<times> pt3 \<Rightarrow> real \<times> pt3 \<times> pt3" where
  "curve_scan pt_enu (a # b # rest) (closest_distance, cross_pt_curve, crossing_pt_line) =
     (let (distance_to_line, crossing) = min_distance_point_to_line pt_enu [a, b] crossing_pt_line
      in curve_scan pt_enu (b # rest)
           (if distance_to_line < closest_distance then (distance_to_line, crossing, crossing)
            else (closest_distance, cross_pt_curve, crossing)))"
| "curve_scan pt_enu _ st = st"

text \<open>\<open>uninit\<close> is the indeterminate value of the local vector before its first assignment.\<close>

definition get_distance_pt_curve_enu :: "pt3 \<Rightarrow> pt3 \<Rightarrow> pt3 list \<Rightarrow> pt3 \<Rightarrow> real \<times> pt3" where
  "get_distance_pt_curve_enu uninit pt_enu curve cross_pt_curve =
     (if length curve < 2 then (MAXVAL, cross_pt_curve)
      else let (closest_distance, cross, _) = curve_scan pt_enu curve (MAXVAL, cross_pt_curve, uninit)
           in (closest_distance, cross))"

record ZMapLineSegment =
  seg_id :: string
  seg_points :: "pt3 list"

record CivMap =
  civ_lines :: "ZMapLineSegment list"
  id_indicator :: nat

text \<open>
  \<open>lla2enu\<close> is \<^verbatim>\<open>ConvertLLAToENU(Earth::GetOrigin(), _)\<close>, a call of GeographicLib.
\<close>

definition get_curves_enu :: "(pt3 \<Rightarrow> pt3) \<Rightarrow> CivMap \<Rightarrow> ZMapLineSegment list" where
  "get_curves_enu lla2enu m =
     map (\<lambda>l. \<lparr>seg_id = seg_id l, seg_points = map lla2enu (seg_points l)\<rparr>) (civ_lines m)"

fun map_scan :: "pt3 \<Rightarrow> pt3 \<Rightarrow> ZMapLineSegment list \<Rightarrow> real \<times> pt3 \<Rightarrow> real \<times> pt3" where
  "map_scan uninit pt_enu [] st = st"
| "map_scan uninit pt_enu (curve_enu # rest) (closest_distance, cross_pt_map_enu) =
     (let (distance, cross) = get_distance_pt_curve_enu uninit pt_enu (seg_points curve_enu) uninit
      in map_scan uninit pt_enu rest
           (if distance < closest_distance then (distance, cross)
            else (closest_distance, cross_pt_map_enu)))"

definition get_distance_pt_map_enu ::
  "pt3 \<Rightarrow> (pt3 \<Rightarrow> pt3) \<Rightarrow> CivMap \<Rightarrow> pt3 \<Rightarrow> pt3 \<Rightarrow> real \<times> pt3" where
  "get_distance_pt_map_enu uninit lla2enu m pt_enu cross_pt_map_enu =
     map_scan uninit pt_enu (get_curves_enu lla2enu m) (MAXVAL, cross_pt_map_enu)"

definition get_distance_pt_map_llh ::
  "pt3 \<Rightarrow> (pt3 \<Rightarrow> pt3) \<Rightarrow> (pt3 \<Rightarrow> pt3) \<Rightarrow> CivMap \<Rightarrow> pt3 \<Rightarrow> real \<times> pt3" where
  "get_distance_pt_map_llh uninit lla2enu enu2lla m pt_llh =
     (let (distance, cross_pt_map_enu) = get_distance_pt_map_enu uninit lla2enu m (lla2enu pt_llh) uninit
      in (distance, enu2lla cross_pt_map_enu))"

definition get_lanes_near_enu ::
  "pt3 \<Rightarrow> (pt3 \<Rightarrow> pt3) \<Rightarrow> CivMap \<Rightarrow> pt3 \<Rightarrow> real \<Rightarrow> ZMapLineSegment list" where
  "get_lanes_near_enu uninit lla2enu m pt_enu threshold =
     filter (\<lambda>c. fst (get_distance_pt_curve_enu uninit pt_enu (seg_points c) uninit) < threshold)
       (get_curves_enu lla2enu m)"

definition get_distance_curve_cuvre_enu ::
  "pt3 \<Rightarrow> ZMapLineSegment \<Rightarrow> ZMapLineSegment \<Rightarrow> real" where
  "get_distance_curve_cuvre_enu uninit curve0 curve1 =
     fold (\<lambda>pt_enu min_distance.
         let distance = fst (get_distance_pt_curve_enu uninit pt_enu (seg_points curve1) uninit)
         in if distance < min_distance then distance else min_distance)
       (seg_points curve0) MAXVAL"

subsection \<open>The point set of a polyline\<close>

fun on_curve :: "pt3 list \<Rightarrow> pt2 \<Rightarrow> bool" where
  "on_curve (a # b # rest) q \<longleftrightarrow>
     (\<exists>t. 0 \<le> t \<and> t \<le> 1 \<and> q = on_segment (xy a) (xy b) t) \<or> on_curve (b # rest) q"
| "on_curve _ q \<longleftrightarrow> False"

lemma min_distance_two:
  assumes "min_distance_point_to_line p [a, b] z = (d, q)"
  shows "on_curve [a, b] (xy q) \<and> d = pt_dist (xy p) (xy q) \<and>
    (\<forall>r. on_curve [a, b] r \<longrightarrow> d \<le> pt_dist (xy p) r)"
proof -
  obtain q' where proj: "segment_projection (xy a) (xy b) (xy p) = (q', d)" and q: "xy q = q'"
    using assms by (auto simp: min_distance_point_to_line_def split: prod.splits)
  from segment_projection_closest [OF proj] q show ?thesis by auto
qed

text \<open>
  What a scan with \<^verbatim>\<open>if (distance < closest) ...\<close> over the point sets \<open>S\<close> leaves behind: a lower
  bound of all distances, and either the old best or the distance to a point of \<open>S\<close>.
\<close>

definition scan_result ::
  "(pt2 \<Rightarrow> bool) \<Rightarrow> pt2 \<Rightarrow> real \<Rightarrow> pt3 \<Rightarrow> real \<Rightarrow> pt3 \<Rightarrow> bool" where
  "scan_result S p best c best' c' \<longleftrightarrow>
     (\<forall>q. S q \<longrightarrow> best' \<le> pt_dist p q) \<and>
     (best' = best \<and> c' = c \<or> best' < best \<and> S (xy c') \<and> best' = pt_dist p (xy c'))"

lemma scan_result_less: "scan_result S p best c best' c' \<Longrightarrow> best' \<le> best"
  by (auto simp: scan_result_def)

lemma scan_result_bound:
  assumes "scan_result S2 p d e best' c'" and "\<forall>q. S1 q \<longrightarrow> d' \<le> pt_dist p q" and "d \<le> d'"
  shows "\<forall>q. S1 q \<or> S2 q \<longrightarrow> best' \<le> pt_dist p q"
proof (intro allI impI)
  fix q
  assume "S1 q \<or> S2 q"
  then show "best' \<le> pt_dist p q"
  proof
    assume "S1 q"
    with assms(2) have "d' \<le> pt_dist p q" by blast
    with scan_result_less [OF assms(1)] assms(3) show ?thesis by simp
  next
    assume "S2 q"
    with assms(1) show ?thesis unfolding scan_result_def by blast
  qed
qed

lemma scan_result_improve:
  assumes "scan_result S2 p d e best' c'" and "d < best" and "\<forall>q. S1 q \<longrightarrow> d \<le> pt_dist p q"
    and "S1 (xy e)" and "d = pt_dist p (xy e)"
  shows "scan_result (\<lambda>q. S1 q \<or> S2 q) p best c best' c'"
proof -
  note all = scan_result_bound [OF assms(1,3) order_refl]
  from assms(1) consider "best' = d" "c' = e" | "best' < d" "S2 (xy c')" "best' = pt_dist p (xy c')"
    unfolding scan_result_def by blast
  then show ?thesis
    unfolding scan_result_def using all assms(2,4,5) by cases simp_all
qed

lemma scan_result_keep:
  assumes "scan_result S2 p best c best' c'" and "\<not> d < best" and "\<forall>q. S1 q \<longrightarrow> d \<le> pt_dist p q"
  shows "scan_result (\<lambda>q. S1 q \<or> S2 q) p best c best' c'"
proof -
  note all = scan_result_bound [OF assms(1,3)]
  from assms(1) consider "best' = best" "c' = c" | "best' < best" "S2 (xy c')" "best' = pt_dist p (xy c')"
    unfolding scan_result_def by blast
  then show ?thesis
    unfolding scan_result_def using all assms(2) by cases simp_all
qed

lemma curve_scan_min:
  assumes "curve_scan p curve (best, cp, cl) = (best', cp', cl')"
  shows "scan_result (on_curve curve) (xy p) best cp best' cp'"
  using assms
proof (induction p curve "(best, cp, cl)" arbitrary: best cp cl rule: curve_scan.induct)
  case (1 p a b rest best cp cl)
  obtain d c where dc: "min_distance_point_to_line p [a, b] cl = (d, c)"
    by (cases "min_distance_point_to_line p [a, b] cl")
  note two = min_distance_two [OF dc]
  have step: "on_curve (a # b # rest) = (\<lambda>q. on_curve [a, b] q \<or> on_curve (b # rest) q)"
    by (rule ext) simp
  show ?case
  proof (cases "d < best")
    case True
    with "1.prems" dc have "curve_scan p (b # rest) (d, c, c) = (best', cp', cl')" by simp
    from "1.hyps" [OF dc [symmetric] refl, unfolded if_P [OF True], OF refl this] two True
    show ?thesis unfolding step by (intro scan_result_improve) auto
  next
    case False
    with "1.prems" dc have "curve_scan p (b # rest) (best, cp, c) = (best', cp', cl')" by simp
    from "1.hyps" [OF dc [symmetric] refl, unfolded if_not_P [OF False], OF refl this] two False
    show ?thesis unfolding step by (intro scan_result_keep) auto
  qed
qed (auto simp: scan_result_def)

lemma on_curve_length: "on_curve curve q \<Longrightarrow> 2 \<le> length curve"
  by (induction curve q rule: on_curve.induct) auto

text \<open>The curve distance is the minimum over the polyline, capped at \<^verbatim>\<open>MAXVAL\<close>.\<close>

lemma get_distance_pt_curve_min:
  assumes "get_distance_pt_curve_enu u p curve z = (d, c)"
  shows "scan_result (on_curve curve) (xy p) MAXVAL z d c"
proof (cases "length curve < 2")
  case True
  with assms show ?thesis
    by (auto simp: get_distance_pt_curve_enu_def scan_result_def dest: on_curve_length)
next
  case False
  with assms obtain cl where "curve_scan p curve (MAXVAL, z, u) = (d, c, cl)"
    by (auto simp: get_distance_pt_curve_enu_def split: prod.splits)
  then show ?thesis by (rule curve_scan_min)
qed

lemma get_distance_pt_curve_nonneg: "0 \<le> fst (get_distance_pt_curve_enu u p curve z)"
  using get_distance_pt_curve_min [of u p curve z]
  by (cases "get_distance_pt_curve_enu u p curve z") (auto simp: pt_dist_def scan_result_def)

definition on_map :: "ZMapLineSegment list \<Rightarrow> pt2 \<Rightarrow> bool" where
  "on_map ls q \<longleftrightarrow> (\<exists>l \<in> set ls. on_curve (seg_points l) q)"

lemma on_map_simps:
  "on_map [] = (\<lambda>q. False)"
  "on_map (l # ls) = (\<lambda>q. on_curve (seg_points l) q \<or> on_map ls q)"
  by (simp_all add: on_map_def fun_eq_iff)

lemma map_scan_min:
  assumes "map_scan u p ls (best, c) = (best', c')" and "best \<le> MAXVAL"
  shows "scan_result (on_map ls) (xy p) best c best' c'"
  using assms
proof (induction ls arbitrary: best c)
  case Nil
  then show ?case by (simp add: on_map_simps scan_result_def)
next
  case (Cons l ls)
  obtain d e where de: "get_distance_pt_curve_enu u p (seg_points l) u = (d, e)"
    by (cases "get_distance_pt_curve_enu u p (seg_points l) u")
  note min = get_distance_pt_curve_min [OF de, unfolded scan_result_def]
  show ?case
  proof (cases "d < best")
    case True
    with Cons.prems de have "map_scan u p ls (d, e) = (best', c')" by simp
    from Cons.IH [OF this] min True Cons.prems(2)
    show ?thesis unfolding on_map_simps by (intro scan_result_improve) auto
  next
    case False
    with Cons.prems de have "map_scan u p ls (best, c) = (best', c')" by simp
    from Cons.IH [OF this] min False Cons.prems(2)
    show ?thesis unfolding on_map_simps by (intro scan_result_keep) auto
  qed
qed

section \<open>Reading the map file\<close>

text \<open>
  \<^verbatim>\<open>civ::common::util::split\<close>: \<^verbatim>\<open>strtok\<close> yields the non-empty runs of characters that are not in
  the delimiter string, on the part of the line before a NUL.
\<close>

function split_tokens :: "string \<Rightarrow> string \<Rightarrow> string list" where
  "split_tokens pattern s =
     (case dropWhile (\<lambda>c. c \<in> set pattern) s of
        [] \<Rightarrow> []
      | t \<Rightarrow> takeWhile (\<lambda>c. c \<notin> set pattern) t
              # split_tokens pattern (dropWhile (\<lambda>c. c \<notin> set pattern) t))"
  by pat_completeness auto
termination
proof (relation "measure (\<lambda>(pattern, s). length s)", goal_cases)
  case (2 pattern s c cs)
  then have "c \<notin> set pattern" and "length (c # cs) \<le> length s"
    by (auto simp: dropWhile_eq_Cons_conv) (metis length_dropWhile_le 2 length_Cons)
  then show ?case using length_dropWhile_le [of "\<lambda>c. c \<notin> set pattern" cs] by simp
qed simp

declare split_tokens.simps [simp del]

definition split :: "string \<Rightarrow> string \<Rightarrow> string list" where
  "split str pattern = split_tokens (c_str pattern) (c_str str)"

datatype read_error = MissingField | StodThrows

text \<open>
  \<^verbatim>\<open>stod(split_result[i])\<close>: reading past the end of the vector is undefined behaviour, an
  unreadable field makes \<^verbatim>\<open>std::stod\<close> throw. \<open>stod\<close> is the library conversion.
\<close>

definition field :: "(string \<Rightarrow> real option) \<Rightarrow> string list \<Rightarrow> nat \<Rightarrow> read_error + real" where
  "field stod toks i =
     (if i < length toks
      then (case stod (toks ! i) of None \<Rightarrow> Inl StodThrows | Some v \<Rightarrow> Inr v)
      else Inl MissingField)"

definition parse_point :: "(string \<Rightarrow> real option) \<Rightarrow> string \<Rightarrow> read_error + pt3" where
  "parse_point stod str_data =
     (let split_result = split str_data '' ''
      in case field stod split_result 0 of Inl e \<Rightarrow> Inl e | Inr lat \<Rightarrow>
         (case field stod split_result 1 of Inl e \<Rightarrow> Inl e | Inr lon \<Rightarrow>
         (case field stod split_result 2 of Inl e \<Rightarrow> Inl e | Inr alt \<Rightarrow> Inr (lat, lon, alt))))"

text \<open>The \<^verbatim>\<open>getline\<close> loop; the last argument collects the points of the current line.\<close>

fun read_lines ::
  "(string \<Rightarrow> real option) \<Rightarrow> string list \<Rightarrow> CivMap \<Rightarrow> pt3 list \<Rightarrow> read_error + CivMap" where
  "read_lines stod [] m line = Inr m"
| "read_lines stod (str_data # rest) m line =
     (if strstr str_data ''---'' \<noteq> None
      then read_lines stod rest
             \<lparr>civ_lines = civ_lines m @ [\<lparr>seg_id = nat_to_string (id_indicator m), seg_points = line\<rparr>],
              id_indicator = id_indicator m + 1\<rparr> []
      else (case parse_point stod str_data of
              Inl e \<Rightarrow> Inl e
            | Inr (lat, lon, alt) \<Rightarrow>
                if alt > 100 \<or> alt < - 100 then read_lines stod rest m line
                else read_lines stod rest m (line @ [(lat, lon, alt)])))"

text \<open>\<open>file\<close> is \<open>None\<close> when the file cannot be opened, else its lines.\<close>

definition ReadData ::
  "(string \<Rightarrow> real option) \<Rightarrow> string list option \<Rightarrow> CivMap \<Rightarrow> read_error + bool \<times> CivMap" where
  "ReadData stod file m =
     (let m0 = m\<lparr>id_indicator := 0, civ_lines := []\<rparr>
      in case file of
           None \<Rightarrow> Inr (False, m0)
         | Some strs \<Rightarrow> (case read_lines stod strs m0 [] of
                           Inl e \<Rightarrow> Inl e | Inr m' \<Rightarrow> Inr (True, m')))"

text \<open>The trajectory reader keeps the points of all lines, with the same altitude filter.\<close>

fun read_points :: "(string \<Rightarrow> real option) \<Rightarrow> string list \<Rightarrow> pt3 list \<Rightarrow> read_error + pt3 list" where
  "read_points stod [] pts = Inr pts"
| "read_points stod (str_data # rest) pts =
     (case parse_point stod str_data of
        Inl e \<Rightarrow> Inl e
      | Inr (lat, lon, alt) \<Rightarrow>
          if alt > 100 \<or> alt < - 100 then read_points stod rest pts
          else read_points stod rest (pts @ [(lat, lon, alt)]))"

definition ReadTrajectory ::
  "(string \<Rightarrow> real option) \<Rightarrow> string list option \<Rightarrow> pt3 list \<Rightarrow> read_error + bool \<times> pt3 list" where
  "ReadTrajectory stod file points =
     (case file of
        None \<Rightarrow> Inr (False, [])
      | Some strs \<Rightarrow> (case read_points stod strs [] of Inl e \<Rightarrow> Inl e | Inr p \<Rightarrow> Inr (True, p)))"

definition get_trajectory_enu :: "(pt3 \<Rightarrow> pt3) \<Rightarrow> pt3 list \<Rightarrow> pt3 list" where
  "get_trajectory_enu lla2enu points = map lla2enu points"

definition flat_points :: "pt3 list \<Rightarrow> bool" where
  "flat_points ps \<longleftrightarrow> (\<forall>p \<in> set ps. \<bar>snd (snd p)\<bar> \<le> 100)"

definition civ_map_ok :: "CivMap \<Rightarrow> bool" where
  "civ_map_ok m \<longleftrightarrow> id_indicator m = length (civ_lines m) \<and>
     map seg_id (civ_lines m) = map nat_to_string [0..<length (civ_lines m)] \<and>
     (\<forall>l \<in> set (civ_lines m). flat_points (seg_points l))"

lemma civ_map_ok_push:
  "\<lbrakk>civ_map_ok m; flat_points ps\<rbrakk> \<Longrightarrow>
    civ_map_ok \<lparr>civ_lines = civ_lines m @ [\<lparr>seg_id = nat_to_string (id_indicator m), seg_points = ps\<rparr>],
      id_indicator = id_indicator m + 1\<rparr>"
  by (auto simp: civ_map_ok_def)

lemma read_lines_ok:
  "\<lbrakk>read_lines stod strs m ps = Inr m'; civ_map_ok m; flat_points ps\<rbrakk> \<Longrightarrow>
    civ_map_ok m' \<and> length (civ_lines m') =
      length (civ_lines m) + length (filter (\<lambda>s. strstr s ''---'' \<noteq> None) strs)"
proof (induction stod strs m ps rule: read_lines.induct)
  case (2 stod str_data rest m line)
  show ?case
  proof (cases "strstr str_data ''---'' \<noteq> None")
    case True
    with "2.IH"(1) [OF True] "2.prems" civ_map_ok_push [OF "2.prems"(2,3)]
    show ?thesis by (simp add: flat_points_def)
  next
    case False
    with "2.prems"(1) obtain lat lon alt where p: "parse_point stod str_data = Inr (lat, lon, alt)"
      by (auto split: sum.splits)
    show ?thesis
    proof (cases "alt > 100 \<or> alt < - 100")
      case True
      with False p "2.IH"(2) [OF _ p refl refl] "2.prems" show ?thesis by simp
    next
      case alt: False
      then have "flat_points (line @ [(lat, lon, alt)])"
        using "2.prems"(3) by (auto simp: flat_points_def)
      with alt False p "2.IH"(3) [OF _ p refl refl] "2.prems" show ?thesis by simp
    qed
  qed
qed simp

section \<open>Properties\<close>

text \<open>
  C8: The distance from a point to a curve is the least distance to any point of the
  polyline, and the crossing point it reports lies on the polyline at that distance,
  whenever the polyline comes within \<^verbatim>\<open>MAXVAL\<close> of the point; otherwise the result is \<^verbatim>\<open>MAXVAL\<close>.
\<close>

theorem curve_distance_minimal:
  assumes "get_distance_pt_curve_enu uninit p curve z = (d, c)"
  shows "(\<forall>q. on_curve curve q \<longrightarrow> d \<le> pt_dist (xy p) q) \<and>
    (if \<exists>q. on_curve curve q \<and> pt_dist (xy p) q < MAXVAL
     then on_curve curve (xy c) \<and> d = pt_dist (xy p) (xy c) else d = MAXVAL \<and> c = z)"
proof -
  note min = get_distance_pt_curve_min [OF assms, unfolded scan_result_def]
  then have all: "\<forall>q. on_curve curve q \<longrightarrow> d \<le> pt_dist (xy p) q" by blast
  show ?thesis
  proof (cases "\<exists>q. on_curve curve q \<and> pt_dist (xy p) q < MAXVAL")
    case True
    then have "d < MAXVAL" using all by (meson le_less_trans)
    with min have "on_curve curve (xy c) \<and> d = pt_dist (xy p) (xy c)" by simp
    with True all show ?thesis by (simp only: if_True)
  next
    case False
    then have "\<not> (d < MAXVAL \<and> on_curve curve (xy c) \<and> d = pt_dist (xy p) (xy c))" by metis
    with min have "d = MAXVAL \<and> c = z" by blast
    with False all show ?thesis by (simp only: if_False)
  qed
qed

theorem curve_distance_minimal_witness:
  "on_curve [(0, 0, 0), (10, 0, 0)] (5, 0) \<and>
    fst (get_distance_pt_curve_enu (0, 0, 0) (5, 3, 0) [(0, 0, 0), (10, 0, 0)] (0, 0, 0)) \<le> pt_dist (5, 3) (5, 0)"
proof -
  have on: "on_curve [(0, 0, 0), (10, 0, 0)] (5, 0)"
    by (simp add: on_segment_def) (intro exI [of _ "1 / 2"]; simp)
  show ?thesis
    using curve_distance_minimal [OF surjective_pairing
        [of "get_distance_pt_curve_enu (0, 0, 0) (5, 3, 0) [(0, 0, 0), (10, 0, 0)] (0, 0, 0)"]] on
    by (auto simp del: on_curve.simps)
qed

text \<open>
  Reading a map file keeps one line segment per separator line, numbered from zero by
  its printed position, and stores no point whose altitude is outside \<open>-100 .. 100\<close>; a file
  that cannot be opened leaves an empty map.
\<close>

theorem ReadData_map:
  assumes "ReadData stod content m = Inr (ok, m')"
  shows "civ_map_ok m' \<and> (ok \<longleftrightarrow> content \<noteq> None) \<and>
    length (civ_lines m') =
      (case content of None \<Rightarrow> 0 | Some strs \<Rightarrow> length (filter (\<lambda>s. strstr s ''---'' \<noteq> None) strs))"
proof -
  have ok0: "civ_map_ok (m\<lparr>id_indicator := 0, civ_lines := []\<rparr>)" by (simp add: civ_map_ok_def)
  have flat0: "flat_points []" by (simp add: flat_points_def)
  show ?thesis
  proof (cases content)
    case None
    with assms ok0 show ?thesis by (auto simp: ReadData_def)
  next
    case (Some strs)
    with assms have "read_lines stod strs (m\<lparr>id_indicator := 0, civ_lines := []\<rparr>) [] = Inr m'" and "ok"
      by (auto simp: ReadData_def split: sum.splits)
    with read_lines_ok [OF this(1) ok0 flat0] Some show ?thesis by simp
  qed
qed

theorem ReadData_map_witness:
  "ReadData (\<lambda>_. Some 1) (Some [''---'', ''--- x'']) \<lparr>civ_lines = [], id_indicator = 7\<rparr> =
     Inr (True, \<lparr>civ_lines = [\<lparr>seg_id = ''0'', seg_points = []\<rparr>, \<lparr>seg_id = ''1'', seg_points = []\<rparr>],
       id_indicator = 2\<rparr>) \<and>
   civ_map_ok \<lparr>civ_lines = [\<lparr>seg_id = ''0'', seg_points = []\<rparr>, \<lparr>seg_id = ''1'', seg_points = []\<rparr>],
       id_indicator = 2\<rparr>"
proof -
  have r: "ReadData (\<lambda>_. Some 1) (Some [''---'', ''--- x'']) \<lparr>civ_lines = [], id_indicator = 7\<rparr> =
     Inr (True, \<lparr>civ_lines = [\<lparr>seg_id = ''0'', seg_points = []\<rparr>, \<lparr>seg_id = ''1'', seg_points = []\<rparr>],
       id_indicator = 2\<rparr>)"
    by (simp add: ReadData_def strstr.simps nat_to_string.simps digit_char_def char_of_def bit_Suc_0_iff)
  from ReadData_map [OF r] r show ?thesis by simp
qed

end
