(* ===== verification/Hdmap_Lanes.thy ===== *)
theory Hdmap_Lanes
  imports Civ_Map
begin

text \<open>
  The lane queries of the HD map (\<^verbatim>\<open>mec/mapcore/hdmap-impl.cpp\<close>) that the lane-level
  localisation calls: the lanes near a point or a trajectory, the distance from a point to
  the centre line of a lane, and the lane transition matrix. The model keeps what these
  routines read of the loaded map: validity, the bounding box of the header, the centre
  points of the lane segments, and the transition table with the entries that
  \<^verbatim>\<open>std::map::operator[]\<close> adds to it.
\<close>

section \<open>State\<close>

record laneseg =
  ls_center :: "pt3 list option"
  ls_lane :: bool

record hd_header =
  persistence :: bool
  xmin :: real
  xmax :: real
  ymin :: real
  ymax :: real

text \<open>
  \<^verbatim>\<open>hdmap_lanesect_transition\<close>. The sets and maps of the struct are lists here: membership,
  emptiness and lookup of a key are all the code uses.
\<close>

record lanesect_transition =
  lsc_prev_index :: "u64 list"
  lsc_next_index :: "u64 list"
  lsc_left_index :: "(u64 \<times> u64) list"
  lsc_right_index :: "(u64 \<times> u64) list"

type_synonym transitions = "(u64 \<times> lanesect_transition option) list"

record hdmap_impl =
  hd_valid :: bool
  lanebdy_kdtree :: bool
  hd_hdr :: "hd_header option"
  lanesegs :: "laneseg list"
  lsc_transitions :: transitions

section \<open>Projection onto a centre-line segment\<close>

text \<open>
  Returns the error code and the output parameters \<^verbatim>\<open>ppt\<close> and \<^verbatim>\<open>s\<close>, which keep their old
  values when an argument is null.
\<close>

definition get_line_projection_distance ::
  "pt3 option \<Rightarrow> pt3 option \<Rightarrow> pt3 \<Rightarrow> pt3 \<times> real \<Rightarrow> int \<times> pt3 \<times> real" where
  "get_line_projection_distance pt1 pt2 pt old =
     (case (pt1, pt2) of
        (Some (x1, y1, _), Some (x2, y2, _)) \<Rightarrow>
          (let (x, y, _) = pt;
               cross = (x2 - x1) * (x - x1) + (y2 - y1) * (y - y1)
           in if cross \<le> 0 then (0, (x1, y1, 0), point_distance (x - x1) (y - y1))
              else let d2 = (x2 - x1) * (x2 - x1) + (y2 - y1) * (y2 - y1)
                   in if cross \<ge> d2 then (0, (x2, y2, 0), point_distance (x - x2) (y - y2))
                      else let r = cross / d2;
                               px = x1 + (x2 - x1) * r;
                               py = y1 + (y2 - y1) * r
                           in (0, (px, py, 0), point_distance (px - x) (py - y)))
      | _ \<Rightarrow> (- 1000, fst old, snd old))"

lemma point_distance_minus_left: "point_distance (a - b) c = point_distance (b - a) c"
  by (simp add: point_distance_def algebra_simps)

lemma get_line_projection_distance_eq:
  "get_line_projection_distance (Some a) (Some b) p old =
     (let (q, s) = segment_projection (xy a) (xy b) (xy p) in (0, (fst q, snd q, 0), s))"
  by (cases a; cases b; cases p)
    (simp add: get_line_projection_distance_def segment_projection_def Let_def point_distance_minus_left)

section \<open>Lanes near a point\<close>

text \<open>The inner loop over consecutive centre points, left at the first segment in range.\<close>

fun lane_hit :: "pt3 \<Rightarrow> real \<Rightarrow> pt3 list \<Rightarrow> pt3 \<times> real \<Rightarrow> bool \<times> pt3 \<times> real" where
  "lane_hit src radius (a # b # rest) old =
     (let (_, des, distance) = get_line_projection_distance (Some a) (Some b) src old
      in if distance < radius then (True, des, distance)
         else lane_hit src radius (b # rest) (des, distance))"
| "lane_hit src radius _ old = (False, old)"

text \<open>The loop over the lane segments, from index \<open>i\<close>; \<open>old\<close> is the pair \<^verbatim>\<open>des\<close>, \<^verbatim>\<open>distance\<close>.\<close>

fun lanes_loop ::
  "pt3 \<Rightarrow> real \<Rightarrow> nat \<Rightarrow> laneseg list \<Rightarrow> pt3 \<times> real \<Rightarrow> u64 list \<Rightarrow> u64 list" where
  "lanes_loop src radius i [] old tmp = tmp"
| "lanes_loop src radius i (ls # rest) old tmp =
     (if ls_center ls = None \<or> \<not> ls_lane ls then lanes_loop src radius (Suc i) rest old tmp
      else let (hit, des, distance) = lane_hit src radius (the (ls_center ls)) old;
               tmp' = (if hit \<and> of_nat i \<notin> set tmp then tmp @ [of_nat i] else tmp)
           in lanes_loop src radius (Suc i) rest (des, distance) tmp')"

definition lanes_near_pt_impl :: "hdmap_impl \<Rightarrow> pt3 \<Rightarrow> real \<Rightarrow> u64 list" where
  "lanes_near_pt_impl m p3d radius =
     (if \<not> lanebdy_kdtree m then []
      else case hd_hdr m of
        None \<Rightarrow> []
      | Some hdr \<Rightarrow>
          if \<not> persistence hdr then []
          else if lanesegs m = [] then []
          else if fst p3d < xmin hdr \<or> fst p3d > xmax hdr
            \<or> fst (snd p3d) < ymin hdr \<or> fst (snd p3d) > ymax hdr then []
          else lanes_loop (fst p3d, fst (snd p3d), 0) radius 0 (lanesegs m) ((0, 0, 0), 0) [])"

text \<open>The lanes near a trajectory, each once, in the order the points meet them.\<close>

fun add_new :: "u64 list \<Rightarrow> u64 list \<Rightarrow> u64 list" where
  "add_new tmp [] = tmp"
| "add_new tmp (l # ls) = add_new (if l \<in> set tmp then tmp else tmp @ [l]) ls"

fun trajectory_loop :: "hdmap_impl \<Rightarrow> real \<Rightarrow> pt3 list \<Rightarrow> u64 list \<Rightarrow> u64 list" where
  "trajectory_loop m radius [] tmp = tmp"
| "trajectory_loop m radius (p # ps) tmp =
     trajectory_loop m radius ps (add_new tmp (lanes_near_pt_impl m p radius))"

definition lanes_near_trajectory_impl :: "hdmap_impl \<Rightarrow> pt3 list \<Rightarrow> real \<Rightarrow> u64 list" where
  "lanes_near_trajectory_impl m trajectory radius =
     (if \<not> lanebdy_kdtree m then []
      else case hd_hdr m of
        None \<Rightarrow> []
      | Some hdr \<Rightarrow>
          if \<not> persistence hdr then []
          else if lanesegs m = [] then []
          else trajectory_loop m radius trajectory [])"

section \<open>Distance from a point to the centre line of a lane\<close>

fun center_scan :: "pt3 \<Rightarrow> bool \<Rightarrow> pt3 list \<Rightarrow> real \<times> pt3 \<Rightarrow> pt3 \<times> real \<Rightarrow> real \<times> pt3" where
  "center_scan src first (a # b # rest) (distance, cross) old =
     (let (_, des, s) = get_line_projection_distance (Some a) (Some b) src old
      in center_scan src False (b # rest)
           (if first then (s, des) else if s < distance then (s, des) else (distance, cross))
           (des, s))"
| "center_scan src first _ st old = st"

definition distance_pt_curve_impl :: "hdmap_impl \<Rightarrow> pt3 \<Rightarrow> u64 \<Rightarrow> pt3 \<Rightarrow> real \<times> pt3" where
  "distance_pt_curve_impl m pt_enu lane_id cross_pt_curve =
     (case hd_hdr m of
        None \<Rightarrow> (- 1, cross_pt_curve)
      | Some hdr \<Rightarrow>
          if \<not> persistence hdr then (- 2, cross_pt_curve)
          else if lanesegs m = [] then (- 3, cross_pt_curve)
          else if unat lane_id \<ge> length (lanesegs m) then (- 4, cross_pt_curve)
          else (case ls_center (lanesegs m ! unat lane_id) of
                  None \<Rightarrow> (- 5, cross_pt_curve)
                | Some pts \<Rightarrow> center_scan (fst pt_enu, fst (snd pt_enu), 0) True pts
                                (0, cross_pt_curve) ((0, 0, 0), 0)))"

section \<open>The lane transition matrix\<close>

text \<open>\<^verbatim>\<open>std::map::operator[]\<close>: a missing key is added with the default value.\<close>

definition op_index :: "'v \<Rightarrow> ('k \<times> 'v) list \<Rightarrow> 'k \<Rightarrow> 'v \<times> ('k \<times> 'v) list" where
  "op_index dflt m k =
     (case map_of m k of Some v \<Rightarrow> (v, m) | None \<Rightarrow> (dflt, (k, dflt) # m))"

definition op_store :: "('k \<times> 'v) list \<Rightarrow> 'k \<Rightarrow> 'v \<Rightarrow> ('k \<times> 'v) list" where
  "op_store m k v = (k, v) # filter (\<lambda>(k', _). k' \<noteq> k) m"

text \<open>
  One cell of the matrix: \<open>1\<close> on the same lane, \<open>0.7\<close> for a successor and for the lane stored
  under key \<open>0\<close> of the left and right neighbours, else \<open>0\<close>.
\<close>

definition side_cell :: "u64 \<Rightarrow> (u64 \<times> u64) list \<Rightarrow> real \<Rightarrow> real \<times> (u64 \<times> u64) list" where
  "side_cell lane_id2 side v =
     (if side \<noteq> []
      then (let (n, side') = op_index 0 side 0 in (if lane_id2 = n then 7 / 10 else v, side'))
      else (v, side))"

definition trans_cell :: "transitions \<Rightarrow> u64 \<Rightarrow> u64 \<Rightarrow> real \<times> transitions" where
  "trans_cell T lane_id1 lane_id2 =
     (if lane_id1 = lane_id2 then (1, T)
      else let (lanesect, T1) = op_index None T lane_id1
           in case lanesect of
                None \<Rightarrow> (0, T1)
              | Some l \<Rightarrow>
                  (let v0 = (if lane_id2 \<in> set (lsc_next_index l) then 7 / 10 else 0);
                       (v1, left') = side_cell lane_id2 (lsc_left_index l) v0;
                       (v2, right') = side_cell lane_id2 (lsc_right_index l) v1
                   in (v2, op_store T1 lane_id1
                         (Some (l\<lparr>lsc_left_index := left', lsc_right_index := right'\<rparr>)))))"

fun trans_row :: "transitions \<Rightarrow> u64 \<Rightarrow> u64 list \<Rightarrow> real list \<times> transitions" where
  "trans_row T lane_id1 [] = ([], T)"
| "trans_row T lane_id1 (j # js) =
     (let (v, T1) = trans_cell T lane_id1 j; (vs, T2) = trans_row T1 lane_id1 js
      in (v # vs, T2))"

definition normalise_row :: "real list \<Rightarrow> real list" where
  "normalise_row row = (let s = sum_list row in if s > 0 then map (\<lambda>v. v / s) row else row)"

fun trans_rows :: "transitions \<Rightarrow> u64 list \<Rightarrow> u64 list \<Rightarrow> real list list \<times> transitions" where
  "trans_rows T [] lanes_id_2 = ([], T)"
| "trans_rows T (i # is) lanes_id_2 =
     (let (row, T1) = trans_row T i lanes_id_2; (rows, T2) = trans_rows T1 is lanes_id_2
      in (normalise_row row # rows, T2))"

definition CalculateTransitionalProbability_impl ::
  "hdmap_impl \<Rightarrow> u64 list \<Rightarrow> u64 list \<Rightarrow> real list list \<times> hdmap_impl" where
  "CalculateTransitionalProbability_impl m lanes_id_1 lanes_id_2 =
     (let (M, T) = trans_rows (lsc_transitions m) lanes_id_1 lanes_id_2
      in (M, m\<lparr>lsc_transitions := T\<rparr>))"

section \<open>The public interface\<close>

text \<open>\<open>None\<close> is an \<^verbatim>\<open>hdmap\<close> whose \<^verbatim>\<open>_data\<close> is null.\<close>

type_synonym hdmap = "hdmap_impl option"

definition hdmap_live :: "hdmap \<Rightarrow> bool" where
  "hdmap_live h \<longleftrightarrow> (case h of None \<Rightarrow> False | Some m \<Rightarrow> hd_valid m)"

definition get_lanes_near_pt_enu :: "hdmap \<Rightarrow> pt3 \<Rightarrow> real \<Rightarrow> u64 list" where
  "get_lanes_near_pt_enu h p3d radius =
     (case h of None \<Rightarrow> []
      | Some m \<Rightarrow> if hd_valid m then lanes_near_pt_impl m p3d radius else [])"

definition get_lanes_near_trajectory_enu :: "hdmap \<Rightarrow> pt3 list \<Rightarrow> real \<Rightarrow> u64 list" where
  "get_lanes_near_trajectory_enu h trajectory radius =
     (case h of None \<Rightarrow> []
      | Some m \<Rightarrow> if hd_valid m then lanes_near_trajectory_impl m trajectory radius else [])"

definition CalculateTransitionalProbability ::
  "hdmap \<Rightarrow> u64 list \<Rightarrow> u64 list \<Rightarrow> real list list \<times> hdmap" where
  "CalculateTransitionalProbability h lanes_id_1 lanes_id_2 =
     (case h of None \<Rightarrow> ([], h)
      | Some m \<Rightarrow>
          if hd_valid m
          then (let (M, m') = CalculateTransitionalProbability_impl m lanes_id_1 lanes_id_2
                in (M, Some m'))
          else ([], h))"

definition get_distance_pt_lane_enu :: "hdmap \<Rightarrow> pt3 \<Rightarrow> u64 \<Rightarrow> pt3 \<Rightarrow> real \<times> pt3" where
  "get_distance_pt_lane_enu h pt_enu lane_id cross_pt_curve =
     (case h of None \<Rightarrow> (- 1002, cross_pt_curve)
      | Some m \<Rightarrow> if hd_valid m then distance_pt_curve_impl m pt_enu lane_id cross_pt_curve
                  else (- 1002, cross_pt_curve))"

section \<open>Lemmas: lanes near a point\<close>

definition curve_within :: "pt3 \<Rightarrow> real \<Rightarrow> pt3 list \<Rightarrow> bool" where
  "curve_within src radius pts \<longleftrightarrow> (\<exists>q. on_curve pts q \<and> pt_dist (xy src) q < radius)"

definition lane_near :: "pt3 \<Rightarrow> real \<Rightarrow> laneseg \<Rightarrow> bool" where
  "lane_near src radius ls \<longleftrightarrow> ls_lane ls \<and>
     (case ls_center ls of None \<Rightarrow> False | Some pts \<Rightarrow> curve_within src radius pts)"

lemma curve_within_Cons:
  "curve_within src radius (a # b # rest) \<longleftrightarrow>
     curve_within src radius [a, b] \<or> curve_within src radius (b # rest)"
  by (auto simp: curve_within_def)

lemma curve_within_two:
  assumes "segment_projection (xy a) (xy b) (xy src) = (q, s)"
  shows "curve_within src radius [a, b] \<longleftrightarrow> s < radius"
proof -
  obtain r where r: "0 \<le> r" "r \<le> 1" "q = on_segment (xy a) (xy b) r" "s = pt_dist (xy src) q"
    "\<forall>t. 0 \<le> t \<longrightarrow> t \<le> 1 \<longrightarrow> s \<le> pt_dist (xy src) (on_segment (xy a) (xy b) t)"
    using segment_projection_closest [OF assms] by blast
  show ?thesis
  proof
    assume "curve_within src radius [a, b]"
    then obtain t where "0 \<le> t" "t \<le> 1" "pt_dist (xy src) (on_segment (xy a) (xy b) t) < radius"
      unfolding curve_within_def by auto
    with r(5) show "s < radius" by (meson le_less_trans)
  next
    assume "s < radius"
    then show "curve_within src radius [a, b]"
      unfolding curve_within_def using r(1-4) by (intro exI [of _ q]) auto
  qed
qed

lemma lane_hit_iff: "fst (lane_hit src radius pts old) \<longleftrightarrow> curve_within src radius pts"
proof (induction src radius pts old rule: lane_hit.induct)
  case (1 src radius a b rest old)
  obtain q s where qs: "segment_projection (xy a) (xy b) (xy src) = (q, s)"
    by (cases "segment_projection (xy a) (xy b) (xy src)")
  show ?case
    using "1.IH" [of "(0, (fst q, snd q, 0), s)" 0 "((fst q, snd q, 0), s)" "(fst q, snd q, 0)" s] curve_within_two [OF qs] qs
    by (auto simp: get_line_projection_distance_eq curve_within_Cons [of src radius a])
qed (auto simp: curve_within_def)

lemma lanes_loop_eq:
  assumes "i + length lss < 2 ^ 64" and "set tmp \<subseteq> of_nat ` {..<i}"
  shows "lanes_loop src radius i lss old tmp =
    tmp @ map (\<lambda>(k, _). of_nat k) (filter (\<lambda>(_, ls). lane_near src radius ls) (enumerate i lss))"
  using assms
proof (induction src radius i lss old tmp rule: lanes_loop.induct)
  case (2 src radius i ls rest old tmp)
  have fresh: "(of_nat i :: u64) \<notin> set tmp"
  proof
    assume "(of_nat i :: u64) \<in> set tmp"
    then obtain j where "j < i" "(of_nat i :: u64) = of_nat j" using "2.prems"(2) by auto
    with of_nat_u64_inject [of i j] "2.prems"(1) show False by simp
  qed
  have sub: "set tmp \<subseteq> of_nat ` {..<Suc i}" using "2.prems"(2) by auto
  show ?case
  proof (cases "ls_center ls = None \<or> \<not> ls_lane ls")
    case True
    then have "\<not> lane_near src radius ls" by (auto simp: lane_near_def)
    with "2.IH"(1) [OF True] "2.prems" sub True show ?thesis by simp
  next
    case False
    then obtain pts where pts: "ls_center ls = Some pts" "ls_lane ls" by auto
    obtain hit des d where h: "lane_hit src radius pts old = (hit, des, d)"
      by (cases "lane_hit src radius pts old")
    have "hit \<longleftrightarrow> lane_near src radius ls"
      using lane_hit_iff [of src radius pts old] h pts by (simp add: lane_near_def)
    then show ?thesis
      using "2.IH"(2) [OF False _ refl refl refl] h pts sub "2.prems" fresh by (auto simp: Let_def)
  qed
qed simp

lemma set_add_new: "set (add_new tmp ls) = set tmp \<union> set ls"
  by (induction tmp ls rule: add_new.induct) auto

lemma distinct_add_new: "distinct tmp \<Longrightarrow> distinct (add_new tmp ls)"
  by (induction tmp ls rule: add_new.induct) auto

lemma set_trajectory_loop:
  "set (trajectory_loop m radius ps tmp) = set tmp \<union> (\<Union>p \<in> set ps. set (lanes_near_pt_impl m p radius))"
  by (induction m radius ps tmp rule: trajectory_loop.induct) (auto simp: set_add_new)

lemma distinct_trajectory_loop: "distinct tmp \<Longrightarrow> distinct (trajectory_loop m radius ps tmp)"
  by (induction m radius ps tmp rule: trajectory_loop.induct) (auto simp: distinct_add_new)

text \<open>The map is loaded far enough for the lane queries to run.\<close>

definition lanes_ready :: "hdmap_impl \<Rightarrow> bool" where
  "lanes_ready m \<longleftrightarrow> lanebdy_kdtree m \<and> lanesegs m \<noteq> [] \<and>
     (case hd_hdr m of None \<Rightarrow> False | Some hdr \<Rightarrow> persistence hdr)"

definition in_box :: "hdmap_impl \<Rightarrow> pt3 \<Rightarrow> bool" where
  "in_box m p \<longleftrightarrow> (case hd_hdr m of None \<Rightarrow> False
     | Some hdr \<Rightarrow> xmin hdr \<le> fst p \<and> fst p \<le> xmax hdr \<and>
         ymin hdr \<le> fst (snd p) \<and> fst (snd p) \<le> ymax hdr)"

lemma lanes_near_pt_impl_eq:
  assumes "length (lanesegs m) < 2 ^ 64"
  shows "lanes_near_pt_impl m p radius =
    (if lanes_ready m \<and> in_box m p
     then map (\<lambda>(k, _). of_nat k)
       (filter (\<lambda>(_, ls). lane_near p radius ls) (enumerate 0 (lanesegs m)))
     else [])"
proof -
  have near: "lane_near (fst p, fst (snd p), 0) radius = lane_near p radius"
    by (auto simp: lane_near_def curve_within_def fun_eq_iff split: option.splits)
  show ?thesis
    using lanes_loop_eq [of 0 "lanesegs m" "[]" "(fst p, fst (snd p), 0)" radius] assms
    by (auto simp: lanes_near_pt_impl_def lanes_ready_def in_box_def near split: option.splits)
qed

lemma lanes_near_pt_not_ready: "\<not> lanes_ready m \<Longrightarrow> lanes_near_pt_impl m p radius = []"
  by (auto simp: lanes_near_pt_impl_def lanes_ready_def split: option.splits)

lemma lanes_near_trajectory_impl_set:
  "set (lanes_near_trajectory_impl m ps radius) = (\<Union>p \<in> set ps. set (lanes_near_pt_impl m p radius))"
proof (cases "lanes_ready m")
  case True
  then show ?thesis
    by (auto simp: lanes_near_trajectory_impl_def lanes_ready_def set_trajectory_loop split: option.splits)
next
  case False
  then show ?thesis
    using lanes_near_pt_not_ready [OF False]
    by (auto simp: lanes_near_trajectory_impl_def lanes_ready_def split: option.splits)
qed

lemma distinct_lanes_near_trajectory: "distinct (lanes_near_trajectory_impl m ps radius)"
  by (auto simp: lanes_near_trajectory_impl_def distinct_trajectory_loop split: option.splits)

section \<open>Lemmas: the transition matrix\<close>

text \<open>The value a cell gets, as a function of the table before the call.\<close>

definition side_value :: "(u64 \<times> u64) list \<Rightarrow> u64" where
  "side_value side = (case map_of side 0 of None \<Rightarrow> 0 | Some v \<Rightarrow> v)"

definition linked :: "lanesect_transition \<Rightarrow> u64 \<Rightarrow> bool" where
  "linked l b \<longleftrightarrow> b \<in> set (lsc_next_index l) \<or>
     lsc_left_index l \<noteq> [] \<and> b = side_value (lsc_left_index l) \<or>
     lsc_right_index l \<noteq> [] \<and> b = side_value (lsc_right_index l)"

definition lane_entry :: "transitions \<Rightarrow> u64 \<Rightarrow> lanesect_transition option" where
  "lane_entry T a = (case map_of T a of None \<Rightarrow> None | Some e \<Rightarrow> e)"

definition cell_value :: "transitions \<Rightarrow> u64 \<Rightarrow> u64 \<Rightarrow> real" where
  "cell_value T a b =
     (if a = b then 1
      else case lane_entry T a of None \<Rightarrow> 0 | Some l \<Rightarrow> if linked l b then 7 / 10 else 0)"

definition transition_matrix :: "transitions \<Rightarrow> u64 list \<Rightarrow> u64 list \<Rightarrow> real list list" where
  "transition_matrix T is js = map (\<lambda>a. normalise_row (map (cell_value T a) js)) is"

lemma op_index_entry:
  "op_index None T a = (e, T1) \<Longrightarrow> e = lane_entry T a \<and> lane_entry T1 = lane_entry T"
  by (auto simp: op_index_def lane_entry_def fun_eq_iff split: option.splits if_splits)

lemma lane_entry_store [simp]:
  "lane_entry (op_store T a e) = (lane_entry T)(a := e)"
proof (rule ext)
  fix b
  show "lane_entry (op_store T a e) b = ((lane_entry T)(a := e)) b"
    by (induction T) (auto simp: lane_entry_def op_store_def)
qed

lemma side_cell_eq:
  "side_cell b side v = (v', side') \<Longrightarrow>
    v' = (if side \<noteq> [] \<and> b = side_value side then 7 / 10 else v) \<and>
    (side' = [] \<longleftrightarrow> side = []) \<and> side_value side' = side_value side"
  by (auto simp: side_cell_def op_index_def side_value_def split: if_splits option.splits)

lemma trans_cell_eq:
  assumes "trans_cell T a b = (v, T')"
  shows "v = cell_value T a b \<and> cell_value T' = cell_value T"
proof (cases "a = b")
  case True
  with assms show ?thesis by (auto simp: trans_cell_def cell_value_def)
next
  case False
  obtain e T1 where e: "op_index None T a = (e, T1)" by (cases "op_index None T a")
  note entry = op_index_entry [OF e]
  have T1: "cell_value T1 = cell_value T" using entry by (auto simp: cell_value_def fun_eq_iff)
  show ?thesis
  proof (cases e)
    case None
    with assms False e entry T1 show ?thesis
      by (auto simp: trans_cell_def cell_value_def fun_eq_iff)
  next
    case (Some l)
    obtain v1 left' where l1: "side_cell b (lsc_left_index l)
        (if b \<in> set (lsc_next_index l) then 7 / 10 else 0) = (v1, left')"
      by (cases "side_cell b (lsc_left_index l) (if b \<in> set (lsc_next_index l) then 7 / 10 else 0)")
    obtain v2 right' where l2: "side_cell b (lsc_right_index l) v1 = (v2, right')"
      by (cases "side_cell b (lsc_right_index l) v1")
    let ?l' = "l\<lparr>lsc_left_index := left', lsc_right_index := right'\<rparr>"
    have res: "v = v2" "T' = op_store T1 a (Some ?l')"
      using assms False e Some l1 l2 by (auto simp: trans_cell_def)
    have link: "linked ?l' = linked l" "v2 = (if linked l b then 7 / 10 else 0)"
      using side_cell_eq [OF l1] side_cell_eq [OF l2] by (auto simp: linked_def fun_eq_iff)
    have "cell_value T' = cell_value T"
      using entry link(1) Some by (auto simp: res cell_value_def fun_eq_iff split: option.splits)
    moreover have "v = cell_value T a b"
      using entry link(2) Some False by (auto simp: res cell_value_def split: option.splits)
    ultimately show ?thesis by simp
  qed
qed

lemma trans_row_eq:
  "trans_row T a js = (row, T') \<Longrightarrow> row = map (cell_value T a) js \<and> cell_value T' = cell_value T"
proof (induction T a js arbitrary: row T' rule: trans_row.induct)
  case (2 T a j js)
  then show ?case
    by (auto split: prod.splits dest!: trans_cell_eq)
qed simp

lemma trans_rows_eq:
  "trans_rows T is js = (M, T') \<Longrightarrow> M = transition_matrix T is js \<and> cell_value T' = cell_value T"
proof (induction T "is" js arbitrary: M T' rule: trans_rows.induct)
  case (2 T i "is" js)
  then show ?case
    by (auto simp: transition_matrix_def split: prod.splits dest!: trans_row_eq)
qed (simp add: transition_matrix_def)

lemma cell_value_nonneg [simp]: "0 \<le> cell_value T a b"
  by (simp add: cell_value_def split: option.splits)

lemma normalise_row_nonneg: "\<lbrakk>\<And>v. v \<in> set row \<Longrightarrow> 0 \<le> v; v \<in> set (normalise_row row)\<rbrakk> \<Longrightarrow> 0 \<le> v"
  by (auto simp: normalise_row_def Let_def split: if_splits)

lemma sum_list_divide: "sum_list (map (\<lambda>v. v / c) xs) = sum_list xs / (c :: real)"
  by (induction xs) (auto simp: add_divide_distrib)

lemma normalise_row_sum:
  assumes "\<And>v. v \<in> set row \<Longrightarrow> 0 \<le> v"
  shows "sum_list (normalise_row row) = (if sum_list row = 0 then 0 else 1)"
  using sum_list_nonneg [of row] assms
  by (auto simp: normalise_row_def Let_def sum_list_divide not_less)

lemma sum_list_member_le:
  fixes xs :: "real list"
  shows "\<lbrakk>\<And>v. v \<in> set xs \<Longrightarrow> 0 \<le> v; x \<in> set xs\<rbrakk> \<Longrightarrow> x \<le> sum_list xs"
  by (induction xs) (auto intro: add_increasing sum_list_nonneg add_increasing2)

section \<open>Properties\<close>


definition sample_hd :: hdmap_impl where
  "sample_hd = \<lparr>hd_valid = True, lanebdy_kdtree = True,
     hd_hdr = Some \<lparr>persistence = True, xmin = 0, xmax = 10, ymin = 0, ymax = 100\<rparr>,
     lanesegs = [\<lparr>ls_center = Some [(0, 0, 0), (10, 0, 0)], ls_lane = True\<rparr>,
                 \<lparr>ls_center = Some [(0, 100, 0), (10, 100, 0)], ls_lane = True\<rparr>],
     lsc_transitions = [(0, Some \<lparr>lsc_prev_index = [], lsc_next_index = [1],
                          lsc_left_index = [], lsc_right_index = []\<rparr>)]\<rparr>"


text \<open>
  C11: The lane transition matrix is a function of the transition table before the call,
  although the lookups with \<^verbatim>\<open>operator[]\<close> add entries to the table while it is computed; the
  table after the call gives the same matrices, so that repeated calls agree.
\<close>

theorem transition_matrix_refines:
  assumes "CalculateTransitionalProbability_impl m is js = (M, m')"
  shows "M = transition_matrix (lsc_transitions m) is js \<and>
    fst (CalculateTransitionalProbability_impl m' is' js') = transition_matrix (lsc_transitions m) is' js'"
proof -
  obtain T where T: "trans_rows (lsc_transitions m) is js = (M, T)" "m' = m\<lparr>lsc_transitions := T\<rparr>"
    using assms by (auto simp: CalculateTransitionalProbability_impl_def split: prod.splits)
  obtain M2 T2 where T2: "trans_rows T is' js' = (M2, T2)" by (cases "trans_rows T is' js'")
  from trans_rows_eq [OF T(1)] trans_rows_eq [OF T2] T(2) T2
  show ?thesis by (auto simp: CalculateTransitionalProbability_impl_def transition_matrix_def)
qed

theorem transition_matrix_refines_witness:
  "fst (CalculateTransitionalProbability_impl sample_hd [0, 1] [0, 1]) =
     transition_matrix (lsc_transitions sample_hd) [0, 1] [0, 1]"
  using transition_matrix_refines [OF surjective_pairing] by blast



end
