(* ===== verification/Hmm_Loc.thy ===== *)
theory Hmm_Loc
  imports Viterbi Hdmap_Lanes
begin

text \<open>
  The decoders of \<^verbatim>\<open>modules/HMM\<close>: \<^verbatim>\<open>HMM\<close> (the textbook two-state model) and \<^verbatim>\<open>HMMLoc\<close> (lane-level
  localisation on the line map and on the HD map), each an instance of the loops of
  \<open>Viterbi\<close>. An index outside an Eigen matrix or a vector stops the program; that is the
  value \<open>Inl IndexOutOfRange\<close>. The normal distribution of Boost is the parameter \<open>ncdf\<close>
  (mean, standard deviation, point), which throws \<^verbatim>\<open>std::domain_error\<close> unless the deviation is
  positive.
\<close>

datatype hmm_error = IndexOutOfRange | DomainError

section \<open>The class HMM\<close>

record 'd hmm =
  num_states :: nat
  num_observations :: nat
  transition_probs :: "'d list list"
  initial_probs :: "'d list"
  emission_probs :: "'d list list"

definition HMM_ctor :: "real hmm" where
  "HMM_ctor = \<lparr>num_states = 2, num_observations = 2,
     transition_probs = [[7 / 10, 3 / 10], [4 / 10, 6 / 10]],
     initial_probs = [6 / 10, 4 / 10],
     emission_probs = [[9 / 10, 1 / 10], [2 / 10, 8 / 10]]\<rparr>"

text \<open>One time step of the recursion for the observed symbol \<open>ob\<close>.\<close>

definition hmm_stage :: "'d hmm \<Rightarrow> int \<Rightarrow> 'd stage" where
  "hmm_stage h ob =
     \<lparr>st_prev = num_states h, st_num = num_states h,
      st_trans = (\<lambda>s_prev s. transition_probs h ! s_prev ! s),
      st_emit = (\<lambda>s. emission_probs h ! s ! nat ob)\<rparr>"

definition hmm_init :: "('d \<Rightarrow> 'd \<Rightarrow> 'd) \<Rightarrow> 'd hmm \<Rightarrow> int \<Rightarrow> 'd list" where
  "hmm_init mul h ob =
     map (\<lambda>s. mul (initial_probs h ! s) (emission_probs h ! s ! nat ob)) [0..<num_states h]"

text \<open>
  \<^verbatim>\<open>HMM::viterbiAlgorithm\<close>. The emission matrix is an \<^verbatim>\<open>Eigen::Matrix2d\<close>: a symbol other than
  \<open>0\<close> and \<open>1\<close> is out of range, and so is row \<open>0\<close> of the tables for an empty sequence.
\<close>

definition HMM_viterbiAlgorithm ::
  "('d \<Rightarrow> 'd \<Rightarrow> 'd) \<Rightarrow> 'd::{linorder,zero} hmm \<Rightarrow> int list \<Rightarrow> hmm_error + nat list" where
  "HMM_viterbiAlgorithm mul h observations =
     (case observations of
        [] \<Rightarrow> Inl IndexOutOfRange
      | o0 # obs \<Rightarrow>
          if list_all (\<lambda>ob. 0 \<le> ob \<and> ob < 2) observations
          then Inr (viterbi_core mul (num_states h) (num_states h) (hmm_init mul h o0)
                      (map (hmm_stage h) obs))
          else Inl IndexOutOfRange)"

definition HMM_EmissionProbability ::
  "(real \<Rightarrow> real \<Rightarrow> real \<Rightarrow> real) \<Rightarrow> real \<Rightarrow> real \<Rightarrow> real \<Rightarrow> hmm_error + real" where
  "HMM_EmissionProbability ncdf w sigma d =
     (if w \<le> 0 then Inr 0
      else if d < 0 then Inr 0
      else if sigma < 0 then Inr 0
      else if sigma = 0 then Inl DomainError
      else let cdf_up = ncdf d sigma (w / 2); cdf_down = ncdf d sigma (- w / 2)
           in Inr ((cdf_up - cdf_down) / w))"

text \<open>
  \<^verbatim>\<open>HMMLoc::viterbiAlgorithm(const std::vector<int>&)\<close> is the same code on local copies of the
  same matrices.
\<close>

definition HMMLoc_viterbiAlgorithm :: "int list \<Rightarrow> hmm_error + nat list" where
  "HMMLoc_viterbiAlgorithm observations = HMM_viterbiAlgorithm (*) HMM_ctor observations"

section \<open>The class HMMLoc\<close>

record HMMLoc =
  loc_num_states :: nat
  lane_width :: real
  gps_sigma :: real
  near_threshold :: real
  initial_range :: real
  sp_map :: CivMap
  sp_hdmap :: hdmap

definition HMMLoc_ctor :: HMMLoc where
  "HMMLoc_ctor = \<lparr>loc_num_states = 2, lane_width = 7 / 2, gps_sigma = 4, near_threshold = 5,
     initial_range = 5, sp_map = \<lparr>civ_lines = [], id_indicator = 0\<rparr>, sp_hdmap = None\<rparr>"

definition CDF_normal ::
  "(real \<Rightarrow> real \<Rightarrow> real \<Rightarrow> real) \<Rightarrow> real \<Rightarrow> real \<Rightarrow> real \<Rightarrow> real \<Rightarrow> hmm_error + real" where
  "CDF_normal ncdf low_limit up_limit sigma mean =
     (if up_limit \<le> low_limit then Inr 0
      else if sigma \<le> 0 then Inl DomainError
      else let cdf_up = ncdf mean sigma up_limit; cdf_low = ncdf mean sigma low_limit
           in Inr (cdf_up - cdf_low))"

definition CDF ::
  "(real \<Rightarrow> real \<Rightarrow> real \<Rightarrow> real) \<Rightarrow> real \<Rightarrow> real \<Rightarrow> real \<Rightarrow> hmm_error + real" where
  "CDF ncdf w sigma d =
     (if w \<le> 0 then Inr 0
      else if d < 0 then Inr 0
      else if sigma < 0 then Inr 0
      else (case CDF_normal ncdf (- w / 2) (w / 2) sigma d of
              Inl e \<Rightarrow> Inl e
            | Inr cdf \<Rightarrow> Inr (cdf / w)))"

text \<open>
  The emission probability of a lane. The deviation of the class is positive, so that the
  call of \<open>CDF\<close> returns (lemma \<open>CDF_returns\<close>).
\<close>

definition EmissionProbability_lane ::
  "(real \<Rightarrow> real \<Rightarrow> real \<Rightarrow> real) \<Rightarrow> HMMLoc \<Rightarrow> u64 \<Rightarrow> pt3 \<Rightarrow> real" where
  "EmissionProbability_lane ncdf l state obs_pt_enu =
     (let distance = fst (get_distance_pt_lane_enu (sp_hdmap l) obs_pt_enu state (0, 0, 0))
      in projr (CDF ncdf (lane_width l) (gps_sigma l) distance))"

definition EmissionProbability_curve ::
  "(real \<Rightarrow> real \<Rightarrow> real \<Rightarrow> real) \<Rightarrow> HMMLoc \<Rightarrow> ZMapLineSegment \<Rightarrow> pt3 \<Rightarrow> real" where
  "EmissionProbability_curve ncdf l state pt_enu =
     (let distance = fst (get_distance_pt_curve_enu (0, 0, 0) pt_enu (seg_points state) (0, 0, 0))
      in projr (CDF ncdf (lane_width l) (gps_sigma l) distance))"

subsection \<open>Decoding on the line map\<close>

text \<open>
  \<^verbatim>\<open>std::stoi\<close> on the identifiers of the map: all of them are printed numbers
  (lemma \<open>read_lines_ok\<close>).
\<close>

definition stoi :: "string \<Rightarrow> nat" where
  "stoi s = digits_value (takeWhile is_digit s)"

text \<open>Insertion into the \<^verbatim>\<open>std::set\<close> ordered by the numeric identifier: equal keys keep the first.\<close>

fun set_insert :: "ZMapLineSegment list \<Rightarrow> ZMapLineSegment \<Rightarrow> ZMapLineSegment list" where
  "set_insert [] c = [c]"
| "set_insert (x # xs) c =
     (if stoi (seg_id c) = stoi (seg_id x) then x # xs
      else if stoi (seg_id c) < stoi (seg_id x) then c # x # xs
      else x # set_insert xs c)"

definition GenerateStateFromTrajectory ::
  "(pt3 \<Rightarrow> pt3) \<Rightarrow> HMMLoc \<Rightarrow> pt3 list \<Rightarrow> ZMapLineSegment list" where
  "GenerateStateFromTrajectory lla2enu l points =
     foldl set_insert []
       (concat (map (\<lambda>pt. get_lanes_near_enu (0, 0, 0) lla2enu (sp_map l) pt (near_threshold l)) points))"

text \<open>
  \<^verbatim>\<open>transition_matrix.block<1, 4>(i, 0)\<close>: the sum and the division touch the first four columns of
  row \<open>i\<close>; with fewer than four columns Eigen stops the program.
\<close>

definition civ_trans_row :: "ZMapLineSegment list \<Rightarrow> nat \<Rightarrow> real list" where
  "civ_trans_row states i =
     (let row = map (\<lambda>j. if i = j then 1
                         else exp (- get_distance_curve_cuvre_enu (0, 0, 0) (states ! i) (states ! j) / 5))
                  [0..<length states];
          s = sum_list (take 4 row)
      in map (\<lambda>v. v / s) (take 4 row) @ drop 4 row)"

definition civ_CalculateTransitionalProbability ::
  "ZMapLineSegment list \<Rightarrow> hmm_error + real list list" where
  "civ_CalculateTransitionalProbability states =
     (if states \<noteq> [] \<and> length states < 4 then Inl IndexOutOfRange
      else Inr (map (civ_trans_row states) [0..<length states]))"

text \<open>
  The decoder on the line map. Its termination loop runs to the member \<^verbatim>\<open>num_states_\<close>, not to the
  number of states of the trajectory.
\<close>

definition viterbiAlgorithm_trajectory ::
  "(real \<Rightarrow> real \<Rightarrow> real \<Rightarrow> real) \<Rightarrow> (pt3 \<Rightarrow> pt3) \<Rightarrow> HMMLoc \<Rightarrow> pt3 list \<Rightarrow>
     hmm_error + ZMapLineSegment list" where
  "viterbiAlgorithm_trajectory ncdf lla2enu l points =
     (let states = GenerateStateFromTrajectory lla2enu l points; n = length states
      in case civ_CalculateTransitionalProbability states of
           Inl e \<Rightarrow> Inl e
         | Inr M \<Rightarrow>
             if points = [] \<or> n < loc_num_states l then Inl IndexOutOfRange
             else
               let emit = (\<lambda>p s. EmissionProbability_curve ncdf l (states ! s) p);
                   delta0 = map (\<lambda>s. (1 / real n) * emit (hd points) s) [0..<n];
                   stages = map (\<lambda>p. \<lparr>st_prev = n, st_num = n,
                              st_trans = (\<lambda>i j. M ! i ! j), st_emit = emit p\<rparr>) (tl points)
               in Inr (map (\<lambda>i. states ! i) (viterbi_core (*) n (loc_num_states l) delta0 stages)))"

subsection \<open>Decoding on the HD map\<close>

text \<open>
  \<^verbatim>\<open>viterbiAlgorithmHDMap\<close>: the states are all lanes near the trajectory. The result carries the
  HD map with the entries the transition lookup added.
\<close>

definition viterbiAlgorithmHDMap ::
  "(real \<Rightarrow> real \<Rightarrow> real \<Rightarrow> real) \<Rightarrow> HMMLoc \<Rightarrow> pt3 list \<Rightarrow> hmm_error + u64 list \<times> HMMLoc" where
  "viterbiAlgorithmHDMap ncdf l points =
     (let lanes = get_lanes_near_trajectory_enu (sp_hdmap l) points (initial_range l);
          n = length lanes;
          (M, h') = CalculateTransitionalProbability (sp_hdmap l) lanes lanes
      in if points = [] \<or> lanes = [] then Inl IndexOutOfRange
         else
           let emit = (\<lambda>p s. EmissionProbability_lane ncdf l (lanes ! s) p);
               delta0 = map (\<lambda>s. (1 / real n) * emit (hd points) s) [0..<n];
               stages = map (\<lambda>p. \<lparr>st_prev = n, st_num = n,
                          st_trans = (\<lambda>i j. M ! i ! j), st_emit = emit p\<rparr>) (tl points)
           in Inr (map (\<lambda>i. lanes ! i) (viterbi_core (*) n n delta0 stages), l\<lparr>sp_hdmap := h'\<rparr>))"

text \<open>
  \<^verbatim>\<open>viterbiAlgorithmHDMap2\<close> takes the map as an argument for the lanes and the transitions; the
  emission probabilities still come from the member \<^verbatim>\<open>sp_hdmap_\<close>. Step \<open>t\<close> ranges over the lanes
  near point \<open>t\<close> (\<^verbatim>\<open>time_nodes[t]\<close>). The loop below builds the time steps and threads the map.
\<close>

fun hd2_stages ::
  "(real \<Rightarrow> real \<Rightarrow> real \<Rightarrow> real) \<Rightarrow> HMMLoc \<Rightarrow> hdmap \<Rightarrow> u64 list \<Rightarrow> pt3 list \<Rightarrow>
     real stage list \<times> hdmap" where
  "hd2_stages ncdf l h nodes [] = ([], h)"
| "hd2_stages ncdf l h nodes (p # ps) =
     (let lanes_neighbour = get_lanes_near_pt_enu h p (initial_range l);
          (M, h1) = CalculateTransitionalProbability h nodes lanes_neighbour;
          st = \<lparr>st_prev = length nodes, st_num = length lanes_neighbour,
                st_trans = (\<lambda>i j. M ! i ! j),
                st_emit = (\<lambda>s. EmissionProbability_lane ncdf l (lanes_neighbour ! s) p)\<rparr>;
          (sts, h2) = hd2_stages ncdf l h1 lanes_neighbour ps
      in (st # sts, h2))"

definition viterbiAlgorithmHDMap2_with ::
  "(real \<Rightarrow> real \<Rightarrow> real \<Rightarrow> real) \<Rightarrow> HMMLoc \<Rightarrow> hdmap \<Rightarrow> pt3 list \<Rightarrow> hmm_error + u64 list \<times> hdmap" where
  "viterbiAlgorithmHDMap2_with ncdf l h points =
     (if points = [] then Inr ([], h)
      else
        let lanes = get_lanes_near_trajectory_enu h points (initial_range l);
            n = length lanes;
            (_, h1) = CalculateTransitionalProbability h lanes lanes;
            delta0 = map (\<lambda>s. (1 / real n) * EmissionProbability_lane ncdf l (lanes ! s) (hd points)) [0..<n];
            (stages, h2) = hd2_stages ncdf l h1 lanes (tl points)
        in if lanes = [] \<or> \<not> list_all (\<lambda>st. st_num st \<le> n) stages then Inl IndexOutOfRange
           else Inr (map (\<lambda>i. lanes ! i) (viterbi_core (*) n n delta0 stages), h2))"

definition viterbiAlgorithmHDMap2 ::
  "(real \<Rightarrow> real \<Rightarrow> real \<Rightarrow> real) \<Rightarrow> HMMLoc \<Rightarrow> pt3 list \<Rightarrow> hmm_error + u64 list \<times> HMMLoc" where
  "viterbiAlgorithmHDMap2 ncdf l points =
     (case viterbiAlgorithmHDMap2_with ncdf l (sp_hdmap l) points of
        Inl e \<Rightarrow> Inl e
      | Inr (best_states, h) \<Rightarrow> Inr (best_states, l\<lparr>sp_hdmap := h\<rparr>))"

section \<open>Lemmas: emission probabilities\<close>

text \<open>What a cumulative distribution function promises: values in the unit interval, monotone.\<close>

definition normal_cdf :: "(real \<Rightarrow> real \<Rightarrow> real \<Rightarrow> real) \<Rightarrow> bool" where
  "normal_cdf ncdf \<longleftrightarrow> (\<forall>m s x. 0 < s \<longrightarrow> 0 \<le> ncdf m s x \<and> ncdf m s x \<le> 1) \<and>
     (\<forall>m s x y. 0 < s \<longrightarrow> x \<le> y \<longrightarrow> ncdf m s x \<le> ncdf m s y)"

lemma normal_cdf_diff:
  assumes "normal_cdf ncdf" and "0 < s" and "x \<le> y"
  shows "0 \<le> ncdf m s y - ncdf m s x" and "ncdf m s y - ncdf m s x \<le> 1"
proof -
  from assms have "ncdf m s x \<le> ncdf m s y" and "0 \<le> ncdf m s x" and "ncdf m s y \<le> 1"
    unfolding normal_cdf_def by blast+
  then show "0 \<le> ncdf m s y - ncdf m s x" and "ncdf m s y - ncdf m s x \<le> 1" by simp_all
qed

lemma CDF_bounds:
  assumes "normal_cdf ncdf" and "0 < sigma"
  shows "\<exists>p. CDF ncdf w sigma d = Inr p \<and> 0 \<le> p \<and> (0 < w \<longrightarrow> p \<le> 1 / w)"
proof (cases "w \<le> 0 \<or> d < 0")
  case True
  then show ?thesis using assms(2) by (auto simp: CDF_def)
next
  case False
  then have "- w / 2 \<le> w / 2" by simp
  note diff = normal_cdf_diff [OF assms this, of d]
  from False assms(2)
  have "CDF ncdf w sigma d = Inr ((ncdf d sigma (w / 2) - ncdf d sigma (- w / 2)) / w)"
    by (auto simp: CDF_def CDF_normal_def)
  with diff False show ?thesis by (auto intro!: divide_right_mono divide_nonneg_pos)
qed

lemma CDF_returns: "0 < sigma \<Longrightarrow> \<exists>p. CDF ncdf w sigma d = Inr p"
  by (auto simp: CDF_def CDF_normal_def)

lemma emission_lane_nonneg:
  assumes "normal_cdf ncdf" and "0 < gps_sigma l"
  shows "0 \<le> EmissionProbability_lane ncdf l state p"
proof -
  obtain v where "CDF ncdf (lane_width l) (gps_sigma l)
      (fst (get_distance_pt_lane_enu (sp_hdmap l) p state (0, 0, 0))) = Inr v" "0 \<le> v"
    using CDF_bounds [OF assms] by blast
  then show ?thesis by (simp add: EmissionProbability_lane_def)
qed

section \<open>Lemmas: joint probabilities\<close>

text \<open>The factors of a state sequence after its first state.\<close>

fun joint_tail ::
  "(nat \<Rightarrow> nat \<Rightarrow> real) \<Rightarrow> (nat \<Rightarrow> 'o \<Rightarrow> real) \<Rightarrow> nat \<Rightarrow> 'o list \<Rightarrow> nat list \<Rightarrow> real" where
  "joint_tail A B s (ob # obs) (s' # ss) = A s s' * B s' ob * joint_tail A B s' obs ss"
| "joint_tail A B s _ _ = 1"

text \<open>\<open>\<pi>(s\<^sub>0) B(s\<^sub>0, o\<^sub>0) \<Prod> A(s\<^sub>t\<^sub>-\<^sub>1, s\<^sub>t) B(s\<^sub>t, o\<^sub>t)\<close>\<close>

fun joint_prob ::
  "(nat \<Rightarrow> real) \<Rightarrow> (nat \<Rightarrow> nat \<Rightarrow> real) \<Rightarrow> (nat \<Rightarrow> 'o \<Rightarrow> real) \<Rightarrow> 'o list \<Rightarrow> nat list \<Rightarrow> real" where
  "joint_prob P A B (ob # obs) (s # ss) = P s * B s ob * joint_tail A B s obs ss"
| "joint_prob P A B _ _ = 1"

definition uniform_stage :: "nat \<Rightarrow> (nat \<Rightarrow> nat \<Rightarrow> 'd) \<Rightarrow> (nat \<Rightarrow> 'o \<Rightarrow> 'd) \<Rightarrow> 'o \<Rightarrow> 'd stage" where
  "uniform_stage n A B ob = \<lparr>st_prev = n, st_num = n, st_trans = A, st_emit = (\<lambda>s. B s ob)\<rparr>"

lemma path_from_joint:
  "length ss = length obs \<Longrightarrow>
    path_from (*) (map (uniform_stage n A B) obs) a s ss = a * joint_tail A B s obs ss"
proof (induction obs arbitrary: a s ss)
  case (Cons ob obs)
  then obtain s' ss' where "ss = s' # ss'" by (cases ss) auto
  with Cons show ?case by (simp add: uniform_stage_def algebra_simps)
qed simp

lemma valid_tail_uniform:
  "valid_tail (map (uniform_stage n A B) obs) ss \<longleftrightarrow> length ss = length obs \<and> (\<forall>s \<in> set ss. s < n)"
  by (induction obs arbitrary: ss) (auto simp: uniform_stage_def split: list.splits)

lemma stages_ok_uniform:
  assumes "0 < n" and "\<And>i j. \<lbrakk>i < n; j < n\<rbrakk> \<Longrightarrow> 0 \<le> A i j"
    and "\<And>j ob. \<lbrakk>j < n; ob \<in> set obs\<rbrakk> \<Longrightarrow> 0 \<le> B j ob"
  shows "stages_ok n n (map (uniform_stage n A B) obs)"
  using assms by (induction obs) (auto simp: uniform_stage_def)

text \<open>
  The instance of the decoder with the same states at every step: the decoded sequence has
  the greatest joint probability among all state sequences.
\<close>

lemma uniform_optimal:
  fixes A :: "nat \<Rightarrow> nat \<Rightarrow> real"
  assumes "0 < n" and "\<And>i j. \<lbrakk>i < n; j < n\<rbrakk> \<Longrightarrow> 0 \<le> A i j"
    and "\<And>j ob. \<lbrakk>j < n; ob \<in> set (o0 # obs)\<rbrakk> \<Longrightarrow> 0 \<le> B j ob" and "\<And>i. i < n \<Longrightarrow> 0 \<le> P i"
  defines "p \<equiv> viterbi_core (*) n n (map (\<lambda>s. P s * B s o0) [0..<n]) (map (uniform_stage n A B) obs)"
  shows "length p = Suc (length obs) \<and> (\<forall>s \<in> set p. s < n) \<and>
    (\<forall>q. length q = Suc (length obs) \<longrightarrow> (\<forall>s \<in> set q. s < n) \<longrightarrow>
      joint_prob P A B (o0 # obs) q \<le> joint_prob P A B (o0 # obs) p)"
proof -
  let ?d = "map (\<lambda>s. P s * B s o0) [0..<n]"
  let ?sts = "map (uniform_stage n A B) obs"
  have ok: "stages_ok n n ?sts" using assms(1-3) by (intro stages_ok_uniform) auto
  have nn: "i < n \<Longrightarrow> 0 \<le> ?d ! i" for i using assms(3,4) by simp
  have path: "valid_path n ?sts q \<longleftrightarrow> length q = Suc (length obs) \<and> (\<forall>s \<in> set q. s < n)" for q
    by (cases q) (auto simp: valid_path_def valid_tail_uniform)
  have score: "path_score (*) ?d ?sts q = joint_prob P A B (o0 # obs) q" if "valid_path n ?sts q" for q
    using that by (cases q) (auto simp: valid_path_def valid_tail_uniform path_from_joint)
  note opt = real_mul.core_optimal [OF ok assms(1) order_refl _ nn]
  have v: "valid_path n ?sts p" unfolding p_def by (rule opt) auto
  have "path_score (*) ?d ?sts q \<le> path_score (*) ?d ?sts p" if "valid_path n ?sts q" for q
    unfolding p_def by (rule opt) (use that in auto)
  with v show ?thesis using path score by simp
qed

section \<open>Lemmas: the HD map during decoding\<close>

lemma distinct_lanes_loop: "distinct tmp \<Longrightarrow> distinct (lanes_loop src radius i lss old tmp)"
  by (induction src radius i lss old tmp rule: lanes_loop.induct) (auto simp: Let_def split: prod.splits)

lemma distinct_lanes_near_pt: "distinct (get_lanes_near_pt_enu h p radius)"
  by (auto simp: get_lanes_near_pt_enu_def lanes_near_pt_impl_def distinct_lanes_loop split: option.splits)

lemma distinct_lanes_near_traj: "distinct (get_lanes_near_trajectory_enu h ps radius)"
  by (auto simp: get_lanes_near_trajectory_enu_def distinct_lanes_near_trajectory split: option.splits)

lemma lanes_near_traj_set:
  "set (get_lanes_near_trajectory_enu h ps radius) = (\<Union>p \<in> set ps. set (get_lanes_near_pt_enu h p radius))"
  by (auto simp: get_lanes_near_trajectory_enu_def get_lanes_near_pt_enu_def
      lanes_near_trajectory_impl_set split: option.splits)

text \<open>The transition lookup changes the transition table only, and not what it means.\<close>

definition same_map :: "hdmap \<Rightarrow> hdmap \<Rightarrow> bool" where
  "same_map h h' \<longleftrightarrow> (case (h, h') of
     (None, None) \<Rightarrow> True
   | (Some m, Some m') \<Rightarrow> m' = m\<lparr>lsc_transitions := lsc_transitions m'\<rparr> \<and>
       cell_value (lsc_transitions m') = cell_value (lsc_transitions m)
   | _ \<Rightarrow> False)"

lemma same_map_refl [simp]: "same_map h h"
  by (simp add: same_map_def split: option.splits)

lemma same_map_trans: "\<lbrakk>same_map a b; same_map b c\<rbrakk> \<Longrightarrow> same_map a c"
  by (auto simp: same_map_def split: option.splits)
    (metis (no_types, lifting) hdmap_impl.surjective hdmap_impl.update_convs(5))

lemma same_map_lanes:
  assumes "same_map h h'"
  shows "get_lanes_near_pt_enu h' = get_lanes_near_pt_enu h"
proof (cases h)
  case (Some m)
  with assms obtain T where "h' = Some (m\<lparr>lsc_transitions := T\<rparr>)"
    by (auto simp: same_map_def split: option.splits)
  then show ?thesis
    using Some by (intro ext)
      (simp add: get_lanes_near_pt_enu_def lanes_near_pt_impl_def split: option.splits)
qed (use assms in \<open>auto simp: same_map_def split: option.splits\<close>)

lemma CalculateTransitionalProbability_eq:
  assumes "CalculateTransitionalProbability h is js = (M, h')"
  shows "M = (case h of None \<Rightarrow> []
      | Some m \<Rightarrow> if hd_valid m then transition_matrix (lsc_transitions m) is js else [])"
    and "same_map h h'"
  using assms
  by (auto simp: CalculateTransitionalProbability_def CalculateTransitionalProbability_impl_def
      same_map_def split: option.splits if_splits prod.splits dest: trans_rows_eq)

lemma hd2_stages_nums:
  assumes "hd2_stages ncdf l h nodes ps = (sts, h')"
  shows "map st_num sts = map (\<lambda>p. length (get_lanes_near_pt_enu h p (initial_range l))) ps"
  using assms
proof (induction ncdf l h nodes ps arbitrary: sts h' rule: hd2_stages.induct)
  case (2 ncdf l h nodes p ps)
  obtain M h1 where M: "CalculateTransitionalProbability h nodes
      (get_lanes_near_pt_enu h p (initial_range l)) = (M, h1)"
    by (cases "CalculateTransitionalProbability h nodes (get_lanes_near_pt_enu h p (initial_range l))")
  note same = same_map_lanes [OF CalculateTransitionalProbability_eq(2) [OF M]]
  show ?case
    using "2.prems" "2.IH" [OF refl M [symmetric] refl refl] M same
    by (auto simp: Let_def split: prod.splits)
qed simp

lemma hd2_stages_prevs:
  assumes "hd2_stages ncdf l h nodes ps = (sts, h')"
  shows "map st_prev sts = butlast (length nodes # map st_num sts)"
  using assms
proof (induction ncdf l h nodes ps arbitrary: sts h' rule: hd2_stages.induct)
  case (2 ncdf l h nodes p ps)
  obtain M h1 where M: "CalculateTransitionalProbability h nodes
      (get_lanes_near_pt_enu h p (initial_range l)) = (M, h1)"
    by (cases "CalculateTransitionalProbability h nodes (get_lanes_near_pt_enu h p (initial_range l))")
  show ?case
    using "2.prems" "2.IH" [OF refl M [symmetric] refl refl] M
    by (auto simp: Let_def split: prod.splits)
qed simp

lemma hd2_stages_same:
  assumes "hd2_stages ncdf l h nodes ps = (sts, h')"
  shows "same_map h h'"
  using assms
proof (induction ncdf l h nodes ps arbitrary: sts h' rule: hd2_stages.induct)
  case (2 ncdf l h nodes p ps)
  obtain M h1 where M: "CalculateTransitionalProbability h nodes
      (get_lanes_near_pt_enu h p (initial_range l)) = (M, h1)"
    by (cases "CalculateTransitionalProbability h nodes (get_lanes_near_pt_enu h p (initial_range l))")
  from "2.prems" M obtain sts' where
    "hd2_stages ncdf l h1 (get_lanes_near_pt_enu h p (initial_range l)) ps = (sts', h')"
    by (auto simp: Let_def split: prod.splits)
  from same_map_trans [OF CalculateTransitionalProbability_eq(2) [OF M] "2.IH" [OF refl M [symmetric] refl refl this]]
  show ?case .
qed simp

lemma lanes_near_pt_le:
  assumes "p \<in> set ps"
  shows "length (get_lanes_near_pt_enu h p radius) \<le> length (get_lanes_near_trajectory_enu h ps radius)"
proof -
  have "set (get_lanes_near_pt_enu h p radius) \<subseteq> set (get_lanes_near_trajectory_enu h ps radius)"
    using assms by (auto simp: lanes_near_traj_set)
  then have "card (set (get_lanes_near_pt_enu h p radius)) \<le> card (set (get_lanes_near_trajectory_enu h ps radius))"
    by (intro card_mono) auto
  then show ?thesis
    by (simp add: distinct_card [OF distinct_lanes_near_pt] distinct_card [OF distinct_lanes_near_traj])
qed

text \<open>The time steps of \<^verbatim>\<open>viterbiAlgorithmHDMap2\<close> stay within the columns of its tables.\<close>

lemma hd2_stages_fit:
  assumes "hd2_stages ncdf l h1 (get_lanes_near_trajectory_enu h points (initial_range l)) (tl points) = (sts, h2)"
    and "same_map h h1"
  shows "list_all (\<lambda>st. st_num st \<le> length (get_lanes_near_trajectory_enu h points (initial_range l))) sts"
    and "\<forall>st \<in> set sts. st_prev st \<le> length (get_lanes_near_trajectory_enu h points (initial_range l))"
proof -
  let ?n = "length (get_lanes_near_trajectory_enu h points (initial_range l))"
  have "x \<le> ?n" if "x \<in> set (map st_num sts)" for x
    using that lanes_near_pt_le [of _ points h "initial_range l"]
    unfolding hd2_stages_nums [OF assms(1)] same_map_lanes [OF assms(2)]
    by (cases points) auto
  then have num: "\<forall>x \<in> set (map st_num sts). x \<le> ?n" by blast
  then show "list_all (\<lambda>st. st_num st \<le> ?n) sts" by (simp add: list_all_iff)
  have "\<forall>x \<in> set (map st_prev sts). x \<le> ?n"
  proof
    fix x assume "x \<in> set (map st_prev sts)"
    then have "x \<in> set (?n # map st_num sts)"
      unfolding hd2_stages_prevs [OF assms(1)] by (rule in_set_butlastD)
    with num show "x \<le> ?n" by auto
  qed
  then show "\<forall>st \<in> set sts. st_prev st \<le> ?n" by simp
qed

lemma HDMap2_with_eq:
  assumes "points \<noteq> []"
    and "CalculateTransitionalProbability h (get_lanes_near_trajectory_enu h points (initial_range l))
      (get_lanes_near_trajectory_enu h points (initial_range l)) = (M, h1)"
    and "hd2_stages ncdf l h1 (get_lanes_near_trajectory_enu h points (initial_range l)) (tl points) = (sts, h2)"
    and "get_lanes_near_trajectory_enu h points (initial_range l) = lanes" and "lanes \<noteq> []"
  shows "viterbiAlgorithmHDMap2_with ncdf l h points =
    Inr (map (\<lambda>i. lanes ! i) (viterbi_core (*) (length lanes) (length lanes)
      (map (\<lambda>s. (1 / real (length lanes)) * EmissionProbability_lane ncdf l (lanes ! s) (hd points)) [0..<length lanes])
      sts), h2)"
proof -
  have "same_map h h1" using assms(2) by (rule CalculateTransitionalProbability_eq)
  from hd2_stages_fit(1) [OF assms(3) this] assms show ?thesis
    by (simp add: viterbiAlgorithmHDMap2_with_def Let_def)
qed

section \<open>Properties\<close>

text \<open>
  The two-state decoder returns, for every non-empty sequence of the symbols \<open>0\<close> and \<open>1\<close>,
  a state sequence of the same length with the greatest joint probability under the
  matrices of the constructor; every other input is an index error.
\<close>

theorem HMM_viterbi_most_likely:
  "if observations \<noteq> [] \<and> list_all (\<lambda>ob. 0 \<le> ob \<and> ob < 2) observations
   then \<exists>p. HMM_viterbiAlgorithm (*) HMM_ctor observations = Inr p \<and>
     length p = length observations \<and> (\<forall>s \<in> set p. s < 2) \<and>
     (\<forall>q. length q = length observations \<longrightarrow> (\<forall>s \<in> set q. s < 2) \<longrightarrow>
       joint_prob (\<lambda>s. initial_probs HMM_ctor ! s) (\<lambda>i j. transition_probs HMM_ctor ! i ! j)
         (\<lambda>s ob. emission_probs HMM_ctor ! s ! nat ob) observations q \<le>
       joint_prob (\<lambda>s. initial_probs HMM_ctor ! s) (\<lambda>i j. transition_probs HMM_ctor ! i ! j)
         (\<lambda>s ob. emission_probs HMM_ctor ! s ! nat ob) observations p)
   else HMM_viterbiAlgorithm (*) HMM_ctor observations = Inl IndexOutOfRange"
proof (cases "observations \<noteq> [] \<and> list_all (\<lambda>ob. 0 \<le> ob \<and> ob < 2) observations")
  case True
  then obtain o0 obs where ob: "observations = o0 # obs" by (cases observations) auto
  let ?A = "\<lambda>i j. transition_probs HMM_ctor ! i ! j"
  let ?B = "\<lambda>s ob. emission_probs HMM_ctor ! s ! nat ob"
  let ?P = "\<lambda>s. initial_probs HMM_ctor ! s"
  have n: "num_states HMM_ctor = 2" by (simp add: HMM_ctor_def)
  have st: "hmm_stage HMM_ctor = uniform_stage 2 ?A ?B"
    by (simp add: hmm_stage_def uniform_stage_def fun_eq_iff HMM_ctor_def)
  have A: "0 \<le> ?A i j" if "i < 2" "j < 2" for i j
    using that by (auto simp: HMM_ctor_def less_2_cases_iff)
  have B: "0 \<le> ?B j ob" if "j < 2" "ob \<in> set (o0 # obs)" for j ob
  proof -
    have "nat ob < 2" using True that(2) unfolding ob list_all_iff by auto
    then show ?thesis using that(1) by (auto simp: HMM_ctor_def less_2_cases_iff)
  qed
  have P: "0 \<le> ?P i" if "i < 2" for i using that by (auto simp: HMM_ctor_def less_2_cases_iff)
  have run: "HMM_viterbiAlgorithm (*) HMM_ctor observations =
      Inr (viterbi_core (*) 2 2 (map (\<lambda>s. ?P s * ?B s o0) [0..<2]) (map (uniform_stage 2 ?A ?B) obs))"
    using True by (simp add: ob HMM_viterbiAlgorithm_def n st hmm_init_def)
  have two: "(0 :: nat) < 2" by simp
  from uniform_optimal [OF two A B P] True run show ?thesis by (simp add: ob)
next
  case False
  then show ?thesis by (auto simp: HMM_viterbiAlgorithm_def split: list.splits)
qed

theorem HMM_viterbi_most_likely_witness:
  "\<exists>p. HMM_viterbiAlgorithm (*) HMM_ctor [0, 1, 1] = Inr p \<and> length p = 3 \<and>
     joint_prob (\<lambda>s. initial_probs HMM_ctor ! s) (\<lambda>i j. transition_probs HMM_ctor ! i ! j)
         (\<lambda>s ob. emission_probs HMM_ctor ! s ! nat ob) [0, 1, 1] [0, 0, 0] \<le>
     joint_prob (\<lambda>s. initial_probs HMM_ctor ! s) (\<lambda>i j. transition_probs HMM_ctor ! i ! j)
         (\<lambda>s ob. emission_probs HMM_ctor ! s ! nat ob) [0, 1, 1] p"
proof -
  have l: "length [0, 0, 0 :: nat] = length [0, 1, 1 :: int]" "\<forall>s \<in> set [0, 0, 0 :: nat]. s < 2" by simp_all
  have c: "[0, 1, 1 :: int] \<noteq> [] \<and> list_all (\<lambda>ob. 0 \<le> ob \<and> ob < 2) [0, 1, 1 :: int]" by simp
  from HMM_viterbi_most_likely [of "[0, 1, 1]", unfolded if_P [OF c]] l
  show ?thesis by (metis length_Cons list.size(3) numeral_3_eq_3)
qed

text \<open>
  C2: On a loaded HD map with at least one lane near the trajectory, the lane decoder returns
  one lane per point, and its lane sequence has the greatest joint probability (uniform
  prior, normalised lane transitions, Gaussian lane emission) among all sequences of the
  lanes near the trajectory.
\<close>

theorem HDMap_viterbi_most_likely:
  assumes "normal_cdf ncdf" and "0 < gps_sigma l" and "points \<noteq> []"
    and "sp_hdmap l = Some m" and "hd_valid m"
    and "get_lanes_near_trajectory_enu (sp_hdmap l) points (initial_range l) = lanes" and "lanes \<noteq> []"
  defines "J \<equiv> joint_prob (\<lambda>s. 1 / real (length lanes))
    (\<lambda>i j. transition_matrix (lsc_transitions m) lanes lanes ! i ! j)
    (\<lambda>s p. EmissionProbability_lane ncdf l (lanes ! s) p) points"
  shows "\<exists>path l'. viterbiAlgorithmHDMap ncdf l points = Inr (map (\<lambda>i. lanes ! i) path, l') \<and>
    length path = length points \<and> (\<forall>s \<in> set path. s < length lanes) \<and>
    (\<forall>q. length q = length points \<longrightarrow> (\<forall>s \<in> set q. s < length lanes) \<longrightarrow> J q \<le> J path)"
proof -
  obtain M h' where M: "CalculateTransitionalProbability (sp_hdmap l) lanes lanes = (M, h')"
    by (cases "CalculateTransitionalProbability (sp_hdmap l) lanes lanes")
  then have Meq: "M = transition_matrix (lsc_transitions m) lanes lanes"
    using CalculateTransitionalProbability_eq(1) [OF M] assms(4,5) by simp
  obtain p0 ps where pts: "points = p0 # ps" using assms(3) by (cases points) auto
  let ?n = "length lanes" and ?A = "\<lambda>i j. M ! i ! j"
  let ?B = "\<lambda>s p. EmissionProbability_lane ncdf l (lanes ! s) p"
  let ?P = "\<lambda>s :: nat. 1 / real (length lanes)"
  have A: "0 \<le> ?A i j" if "i < ?n" "j < ?n" for i j
  proof -
    have len: "length (normalise_row r) = length r" for r by (simp add: normalise_row_def Let_def)
    have "?A i j \<in> set (normalise_row (map (cell_value (lsc_transitions m) (lanes ! i)) lanes))"
      using that by (simp add: Meq transition_matrix_def len)
    then show ?thesis by (rule normalise_row_nonneg [rotated]) auto
  qed
  have B: "0 \<le> ?B j p" for j p by (rule emission_lane_nonneg [OF assms(1,2)])
  have n: "0 < ?n" using assms(7) by simp
  have run: "viterbiAlgorithmHDMap ncdf l points =
      Inr (map (\<lambda>i. lanes ! i) (viterbi_core (*) ?n ?n (map (\<lambda>s. ?P s * ?B s p0) [0..<?n])
        (map (uniform_stage ?n ?A ?B) ps)), l\<lparr>sp_hdmap := h'\<rparr>)"
    using assms(6,7) M by (simp add: viterbiAlgorithmHDMap_def pts Let_def uniform_stage_def [abs_def])
  have P: "0 \<le> ?P i" for i by simp
  note opt = uniform_optimal [of ?n ?A p0 ps ?B ?P, OF n A B P]
  have J: "J = joint_prob ?P ?A ?B (p0 # ps)" unfolding J_def Meq pts ..
  show ?thesis
    unfolding J run unfolding pts length_Cons
    by (rule exI, rule exI [of _ "l\<lparr>sp_hdmap := h'\<rparr>"], rule conjI, rule refl, rule opt)
qed

text \<open>A piecewise linear distribution function and a localiser on the sample map.\<close>

definition ramp_cdf :: "real \<Rightarrow> real \<Rightarrow> real \<Rightarrow> real" where
  "ramp_cdf m s x = max 0 (min 1 ((x - m) / (2 * s) + 1 / 2))"

lemma normal_cdf_ramp: "normal_cdf ramp_cdf"
proof -
  have "max 0 (min 1 ((x - m) / (2 * s) + 1 / 2)) \<le> max 0 (min 1 ((y - m) / (2 * s) + 1 / 2))"
    if "0 < s" "x \<le> y" for m s x y :: real
    using that by (intro max.mono min.mono add_right_mono divide_right_mono) simp_all
  then show ?thesis by (simp add: normal_cdf_def ramp_cdf_def)
qed

definition sample_loc :: HMMLoc where
  "sample_loc = HMMLoc_ctor\<lparr>sp_hdmap := Some sample_hd\<rparr>"

lemma lane_near_center:
  assumes "ls_lane ls" and "ls_center ls = Some ((x, y, z) # (x', y, z') # rest)" and "x < x'" and "0 < radius"
  shows "lane_near ((x + x') / 2, y, w) radius ls"
proof -
  have "on_curve ((x, y, z) # (x', y, z') # rest) ((x + x') / 2, y)"
    by (auto simp: on_segment_def intro!: exI [of _ "1 / 2"]) (simp add: field_simps)
  then have "curve_within ((x + x') / 2, y, w) radius ((x, y, z) # (x', y, z') # rest)"
    unfolding curve_within_def using assms(4)
    by (intro exI [of _ "((x + x') / 2, y)"]) (simp add: pt_dist_def point_distance_def)
  with assms(1,2) show ?thesis by (simp add: lane_near_def)
qed

lemma sample_loc_lane: "0 \<in> set (get_lanes_near_pt_enu (sp_hdmap sample_loc) (5, 0, 0) (initial_range sample_loc))"
proof -
  have "lane_near (5, 0, 0) 5 (lanesegs sample_hd ! 0)"
    using lane_near_center [of "lanesegs sample_hd ! 0" 0 0 0 10 0 "[]" 5 0] by (simp add: sample_hd_def)
  then have "0 \<in> set (lanes_near_pt_impl sample_hd (5, 0, 0) 5)"
    by (subst lanes_near_pt_impl_eq) (auto simp: sample_hd_def lanes_ready_def in_box_def)
  then show ?thesis by (simp add: sample_loc_def HMMLoc_ctor_def get_lanes_near_pt_enu_def sample_hd_def)
qed

lemma sample_loc_lanes:
  "get_lanes_near_trajectory_enu (sp_hdmap sample_loc) [(5, 0, 0), (5, 0, 0)] (initial_range sample_loc) \<noteq> []"
  using sample_loc_lane lanes_near_traj_set [of "sp_hdmap sample_loc" "[(5, 0, 0), (5, 0, 0)]" "initial_range sample_loc"]
  by fastforce

theorem HDMap_viterbi_most_likely_witness:
  "normal_cdf ramp_cdf \<and>
   (\<exists>path l'. viterbiAlgorithmHDMap ramp_cdf sample_loc [(5, 0, 0), (5, 0, 0)] =
      Inr (map (\<lambda>i. get_lanes_near_trajectory_enu (sp_hdmap sample_loc) [(5, 0, 0), (5, 0, 0)]
         (initial_range sample_loc) ! i) path, l') \<and> length path = 2)"
proof -
  have m: "sp_hdmap sample_loc = Some sample_hd" "hd_valid sample_hd" "0 < gps_sigma sample_loc"
    by (simp_all add: sample_loc_def HMMLoc_ctor_def sample_hd_def)
  have ne: "[(5, 0, 0), (5, 0, 0)] \<noteq> ([] :: pt3 list)" by simp
  from HDMap_viterbi_most_likely [OF normal_cdf_ramp m(3) ne m(1,2) refl sample_loc_lanes]
  show ?thesis using normal_cdf_ramp by auto
qed

text \<open>
  The decoder with per-point candidates always returns when some lane is near the
  trajectory, whatever the map it is given and the map of the class are: one lane per point,
  every one of them near the trajectory, no table index out of range, and the map it is given
  means the same afterwards. Without any lane near the trajectory it indexes an empty vector.
\<close>

theorem HDMap2_total:
  assumes "points \<noteq> []"
  shows "if get_lanes_near_trajectory_enu h points (initial_range l) = []
    then viterbiAlgorithmHDMap2_with ncdf l h points = Inl IndexOutOfRange
    else \<exists>best h'. viterbiAlgorithmHDMap2_with ncdf l h points = Inr (best, h') \<and>
      length best = length points \<and> same_map h h' \<and>
      (\<forall>lane \<in> set best. \<exists>p \<in> set points. lane \<in> set (get_lanes_near_pt_enu h p (initial_range l)))"
proof -
  define lanes where "lanes = get_lanes_near_trajectory_enu h points (initial_range l)"
  obtain M h1 where M: "CalculateTransitionalProbability h lanes lanes = (M, h1)"
    by (cases "CalculateTransitionalProbability h lanes lanes")
  obtain sts h2 where S: "hd2_stages ncdf l h1 lanes (tl points) = (sts, h2)"
    by (cases "hd2_stages ncdf l h1 lanes (tl points)")
  show ?thesis
  proof (cases "lanes = []")
    case True
    with assms M S show ?thesis
      by (simp add: viterbiAlgorithmHDMap2_with_def Let_def lanes_def [symmetric])
  next
    case False
    have same: "same_map h h1" using M by (rule CalculateTransitionalProbability_eq)
    note run = HDMap2_with_eq [OF assms M [unfolded lanes_def] S [unfolded lanes_def]
        lanes_def [symmetric] False]
    let ?p = "viterbi_core (*) (length lanes) (length lanes)
      (map (\<lambda>s. (1 / real (length lanes)) * EmissionProbability_lane ncdf l (lanes ! s) (hd points)) [0..<length lanes]) sts"
    have fit: "\<forall>st \<in> set sts. st_prev st \<le> length lanes"
      using hd2_stages_fit(2) [OF S [unfolded lanes_def] same] by (simp add: lanes_def)
    have "\<forall>i \<in> set ?p. i < length lanes"
      using False by (intro viterbi_core_bound fit) auto
    then have sub: "set (map ((!) lanes) ?p) \<subseteq> set lanes" by auto
    have "length (map st_num sts) = length (tl points)" by (simp add: hd2_stages_nums [OF S])
    then have len: "length (map ((!) lanes) ?p) = length points" using assms by simp
    have near: "lane \<in> set lanes \<Longrightarrow>
        \<exists>p \<in> set points. lane \<in> set (get_lanes_near_pt_enu h p (initial_range l))" for lane
      unfolding lanes_def lanes_near_traj_set by blast
    have all: "\<forall>lane \<in> set (map ((!) lanes) ?p).
        \<exists>p \<in> set points. lane \<in> set (get_lanes_near_pt_enu h p (initial_range l))"
      using sub near by blast
    have "same_map h h2" using same_map_trans [OF same hd2_stages_same [OF S]] .
    from this len all show ?thesis
      unfolding run lanes_def [symmetric] if_not_P [OF False]
      by (rule_tac exI, rule_tac exI [of _ h2], intro conjI) (rule refl | assumption)+
  qed
qed

theorem HDMap2_total_witness:
  "\<exists>best h'. viterbiAlgorithmHDMap2_with ramp_cdf sample_loc (sp_hdmap sample_loc) [(5, 0, 0), (5, 0, 0)] =
     Inr (best, h') \<and> length best = 2"
proof -
  have ne: "[(5, 0, 0), (5, 0, 0)] \<noteq> ([] :: pt3 list)" by simp
  from HDMap2_total [OF ne, of "sp_hdmap sample_loc" sample_loc ramp_cdf, unfolded if_not_P [OF sample_loc_lanes]]
  show ?thesis by auto
qed

text \<open>
  The decoder with per-point candidates uses an index into the candidates of the last
  point as an index into the lanes of the whole trajectory: when exactly one lane is near the
  last of several points, the decoder reports the first lane of the trajectory there, and not
  that lane.
\<close>

theorem HDMap2_last_lane:
  assumes "2 \<le> length points" and "get_lanes_near_pt_enu h (last points) (initial_range l) = [lane]"
    and "viterbiAlgorithmHDMap2_with ncdf l h points = Inr (best, h')"
  shows "last best = hd (get_lanes_near_trajectory_enu h points (initial_range l))"
proof -
  define lanes where "lanes = get_lanes_near_trajectory_enu h points (initial_range l)"
  from assms(1) have ne: "points \<noteq> []" "tl points \<noteq> []" by (cases points; auto)+
  obtain M h1 where M: "CalculateTransitionalProbability h lanes lanes = (M, h1)"
    by (cases "CalculateTransitionalProbability h lanes lanes")
  obtain sts h2 where S: "hd2_stages ncdf l h1 lanes (tl points) = (sts, h2)"
    by (cases "hd2_stages ncdf l h1 lanes (tl points)")
  have same: "same_map h h1" using M by (rule CalculateTransitionalProbability_eq)
  have "lane \<in> set lanes" using assms(2) ne(1) by (auto simp: lanes_def lanes_near_traj_set intro!: bexI [of _ "last points"])
  then have lanes: "lanes \<noteq> []" by auto
  note nums = hd2_stages_nums [OF S]
  have sts: "sts \<noteq> []" using nums ne(2) by (metis list.map_disc_iff)
  have "st_num (last sts) = last (map st_num sts)" using sts by (simp add: last_map)
  also have "\<dots> = 1"
    unfolding nums same_map_lanes [OF same] using ne assms(2) by (simp add: last_map last_tl)
  finally have "st_num (last sts) \<le> 1" by simp
  from last_viterbi_core_single [OF this order_refl, where sts = "butlast sts"] sts
  have z: "last (viterbi_core (*) (length lanes) (length lanes) d sts) = 0" for d :: "real list" by simp
  have nn: "viterbi_core (*) (length lanes) (length lanes) d sts \<noteq> []" for d :: "real list"
    by (metis length_viterbi_core list.size(3) nat.distinct(1))
  from HDMap2_with_eq [OF ne(1) M [unfolded lanes_def] S [unfolded lanes_def] lanes_def [symmetric] lanes]
  show ?thesis using assms(3) lanes
    by (auto simp: last_map [OF nn] z hd_conv_nth lanes_def [symmetric])
qed

lemma sample_lanes_eval:
  "get_lanes_near_pt_enu (Some sample_hd) (5, 0, 0) 5 = [0]"
  "get_lanes_near_pt_enu (Some sample_hd) (5, 100, 0) 5 = [1]"
  by (simp_all add: get_lanes_near_pt_enu_def lanes_near_pt_impl_def sample_hd_def
      get_line_projection_distance_def point_distance_def Let_def)

theorem HDMap2_last_lane_witness:
  "\<exists>best h'. viterbiAlgorithmHDMap2_with ramp_cdf sample_loc (Some sample_hd) [(5, 0, 0), (5, 100, 0)] = Inr (best, h') \<and>
     last best = 0 \<and> 0 \<notin> set (get_lanes_near_pt_enu (Some sample_hd) (5, 100, 0) (initial_range sample_loc))"
proof -
  have five: "initial_range sample_loc = 5" by (simp add: sample_loc_def HMMLoc_ctor_def)
  have lanes: "get_lanes_near_trajectory_enu (Some sample_hd) [(5, 0, 0), (5, 100, 0)] 5 = [0, 1]"
    using sample_lanes_eval
    by (simp add: get_lanes_near_trajectory_enu_def get_lanes_near_pt_enu_def lanes_near_trajectory_impl_def sample_hd_def)
  obtain M h1 where M: "CalculateTransitionalProbability (Some sample_hd) [0, 1] [0, 1] = (M, h1)"
    by (cases "CalculateTransitionalProbability (Some sample_hd) [0, 1] [0, 1]")
  obtain sts h2 where S: "hd2_stages ramp_cdf sample_loc h1 [0, 1] [(5, 100, 0)] = (sts, h2)"
    by (cases "hd2_stages ramp_cdf sample_loc h1 [0, 1] [(5, 100, 0)]")
  obtain best h' where run: "viterbiAlgorithmHDMap2_with ramp_cdf sample_loc (Some sample_hd)
      [(5, 0, 0), (5, 100, 0)] = Inr (best, h')"
    using HDMap2_with_eq [of "[(5, 0, 0), (5, 100, 0)]" "Some sample_hd" sample_loc M h1 ramp_cdf sts h2 "[0, 1]"]
      M S by (simp add: five lanes)
  have two: "2 \<le> length [(5, 0, 0), (5, 100, 0 :: real) :: real \<times> real \<times> real]" by simp
  from HDMap2_last_lane [OF two _ run] have "last best = 0"
    using sample_lanes_eval(2) by (simp add: five lanes)
  with run sample_lanes_eval(2) show ?thesis by (simp add: five)
qed

text \<open>
  The line-map decoder ends in one of its first two states, whichever of the lines near
  the trajectory the observations favour: its termination loop is bounded by the member
  \<^verbatim>\<open>num_states_\<close>, which the constructor sets to two, and not by the number of states.
\<close>

theorem trajectory_last_state:
  assumes "loc_num_states l = loc_num_states HMMLoc_ctor"
    and "viterbiAlgorithm_trajectory ncdf lla2enu l points = Inr path"
  shows "last path \<in> set (take 2 (GenerateStateFromTrajectory lla2enu l points))"
proof -
  define states where "states = GenerateStateFromTrajectory lla2enu l points"
  have two: "loc_num_states l = 2" using assms(1) by (simp add: HMMLoc_ctor_def)
  have "2 \<le> length states \<and> (\<exists>(d :: real list) sts. path = map (\<lambda>i. states ! i) (viterbi_core (*) (length states) 2 d sts))"
    using assms(2) two unfolding viterbiAlgorithm_trajectory_def states_def [symmetric]
    by (simp add: Let_def not_less split: sum.splits if_splits) blast
  then obtain d :: "real list" and sts where n: "2 \<le> length states"
    and path: "path = map (\<lambda>i. states ! i) (viterbi_core (*) (length states) 2 d sts)"
    by blast
  let ?p = "viterbi_core (*) (length states) 2 d sts"
  have "?p \<noteq> []" by (metis length_viterbi_core list.size(3) nat.distinct(1))
  then have "last path = states ! last ?p" by (simp add: path last_map)
  moreover have "last ?p < 2" unfolding last_viterbi_core by (rule argmax_loop_less) simp
  ultimately show ?thesis using n unfolding states_def [symmetric]
    by (auto simp: in_set_conv_nth intro!: exI [of _ "last ?p"])
qed

text \<open>Four lines along one road, all near the observed points.\<close>

definition sample_line :: "string \<Rightarrow> ZMapLineSegment" where
  "sample_line i = \<lparr>seg_id = i, seg_points = [(0, 0, 0), (10, 0, 0)]\<rparr>"

definition sample_civ :: HMMLoc where
  "sample_civ = HMMLoc_ctor\<lparr>sp_map := \<lparr>civ_lines = map sample_line [''0'', ''1'', ''2'', ''3''], id_indicator = 4\<rparr>\<rparr>"

lemma sample_civ_states:
  "GenerateStateFromTrajectory id sample_civ [(5, 0, 0)] = map sample_line [''0'', ''1'', ''2'', ''3'']"
  by (simp add: GenerateStateFromTrajectory_def sample_civ_def HMMLoc_ctor_def sample_line_def
      get_lanes_near_enu_def get_curves_enu_def get_distance_pt_curve_enu_def min_distance_point_to_line_def segment_projection_def
      point_distance_def Let_def stoi_def is_digit_def digit_value_def digits_value_def)

theorem trajectory_last_state_witness:
  "\<exists>path. viterbiAlgorithm_trajectory ramp_cdf id sample_civ [(5, 0, 0)] = Inr path \<and>
     last path \<in> set (map sample_line [''0'', ''1''])"
proof -
  have two: "loc_num_states sample_civ = 2" by (simp add: sample_civ_def HMMLoc_ctor_def)
  have run: "\<exists>path. viterbiAlgorithm_trajectory ramp_cdf id sample_civ [(5, 0, 0)] = Inr path"
    by (simp add: viterbiAlgorithm_trajectory_def sample_civ_states civ_CalculateTransitionalProbability_def
        two Let_def)
  have n: "loc_num_states sample_civ = loc_num_states HMMLoc_ctor" by (simp add: sample_civ_def)
  from run obtain path where path: "viterbiAlgorithm_trajectory ramp_cdf id sample_civ [(5, 0, 0)] = Inr path" ..
  from trajectory_last_state [OF n path] path show ?thesis by (simp add: sample_civ_states)
qed

end
