(* ===== verification/Fifo_Buffer.thy ===== *)
theory Fifo_Buffer
  imports V2I_Prelude
begin

text \<open>
  The chunked byte queue of \<^verbatim>\<open>mec/zsfd/utils/fifobuffer.cpp\<close>: at most 256 chunks of 4096 bytes, each
  with a list node in its first 16 bytes, in an intrusive list; \<^verbatim>\<open>_start\<close> is an offset in the first
  chunk, \<^verbatim>\<open>_end\<close> one in the last, and \<^verbatim>\<open>_chkoff\<close> with \<^verbatim>\<open>_offset\<close> is a read cursor.

  The bytes of the chunks are an explicit store from addresses to contents, so that fresh
  memory holds arbitrary bytes and a write to one chunk leaves the others alone. The intrusive
  list is the list of the addresses in it. The theory shows that the buffer is a queue of bytes
  with a cursor, with what \<^verbatim>\<open>append\<close> loses when the 256 chunks do not suffice.
\<close>

section \<open>State\<close>

abbreviation chunk_size :: nat where "chunk_size \<equiv> 4096"
abbreviation header_size :: nat where "header_size \<equiv> 16"
abbreviation max_chunkcnt :: nat where "max_chunkcnt \<equiv> 256"

record fifobuffer_impl =
  fb_heap :: "nat \<Rightarrow> nat \<Rightarrow> u8"
  fb_brk :: nat
  fb_chunklist :: "nat list"
  fb_start :: nat
  fb_end :: nat
  fb_offset :: nat
  fb_chkoff :: "nat option"
  fb_chunkcnt :: nat
  fb_locked :: bool

text \<open>The constructor, on a store whose free addresses start at \<open>brk\<close>.\<close>

definition fifobuffer_ctor :: "(nat \<Rightarrow> nat \<Rightarrow> u8) \<Rightarrow> nat \<Rightarrow> fifobuffer_impl" where
  "fifobuffer_ctor heap brk =
     \<lparr>fb_heap = heap, fb_brk = brk, fb_chunklist = [], fb_start = 0, fb_end = 0, fb_offset = 0,
      fb_chkoff = None, fb_chunkcnt = 0, fb_locked = False\<rparr>"

text \<open>\<^verbatim>\<open>memcpy\<close> from and to the bytes of a chunk.\<close>

definition bytes :: "(nat \<Rightarrow> nat \<Rightarrow> u8) \<Rightarrow> nat \<Rightarrow> nat \<Rightarrow> nat \<Rightarrow> u8 list" where
  "bytes heap a first last1 = map (heap a) [first..<last1]"

definition store :: "(nat \<Rightarrow> nat \<Rightarrow> u8) \<Rightarrow> nat \<Rightarrow> nat \<Rightarrow> u8 list \<Rightarrow> nat \<Rightarrow> nat \<Rightarrow> u8" where
  "store heap a pos bs =
     heap(a := (\<lambda>i. if pos \<le> i \<and> i < pos + length bs then bs ! (i - pos) else heap a i))"

section \<open>Operations\<close>

definition fb_enter :: "fifobuffer_impl \<Rightarrow> bool \<times> fifobuffer_impl" where
  "fb_enter f = (if fb_locked f then (False, f) else (True, f\<lparr>fb_locked := True\<rparr>))"

definition fb_exit :: "fifobuffer_impl \<Rightarrow> fifobuffer_impl" where
  "fb_exit f = f\<lparr>fb_locked := False\<rparr>"

definition drain :: "fifobuffer_impl \<Rightarrow> fifobuffer_impl" where
  "drain f = f\<lparr>fb_chunklist := [], fb_start := 0, fb_end := 0, fb_chunkcnt := 0,
                fb_chkoff := None, fb_offset := 0\<rparr>"

definition fb_empty :: "fifobuffer_impl \<Rightarrow> bool" where
  "fb_empty f \<longleftrightarrow> fb_chunkcnt f = 0 \<or> (fb_chunkcnt f = 1 \<and> fb_start f = fb_end f)"

text \<open>The sizes are computed in \<^verbatim>\<open>size_t\<close>, whose subtraction wraps around.\<close>

definition getsize :: "fifobuffer_impl \<Rightarrow> u64" where
  "getsize f =
     (if fb_chunkcnt f = 0 then 0
      else of_nat chunk_size * of_nat (fb_chunkcnt f) - of_nat (fb_start f)
             - (of_nat chunk_size - of_nat (fb_end f))
             - of_nat header_size * (of_nat (fb_chunkcnt f) - 1))"

definition get_availsize :: "fifobuffer_impl \<Rightarrow> u64" where
  "get_availsize f =
     (of_nat max_chunkcnt - of_nat (fb_chunkcnt f)) * of_nat chunk_size
       + (if fb_chunkcnt f \<noteq> 0 then of_nat chunk_size - of_nat (fb_end f) else 0)"

definition append_getsize :: "fifobuffer_impl \<Rightarrow> nat" where
  "append_getsize f =
     (if fb_chunkcnt f = 0 then chunk_size - header_size
      else if fb_end f < chunk_size then chunk_size - fb_end f
      else if fb_chunkcnt f < max_chunkcnt then chunk_size - header_size
      else 0)"

definition release_chunk :: "fifobuffer_impl \<Rightarrow> int \<times> fifobuffer_impl" where
  "release_chunk f =
     (if fb_chunkcnt f = 0 then (- 1, f)
      else let f1 = f\<lparr>fb_chunklist := tl (fb_chunklist f), fb_chunkcnt := fb_chunkcnt f - 1\<rparr>
           in (0, if fb_chunkcnt f1 \<noteq> 0 then f1\<lparr>fb_start := header_size\<rparr>
                  else f1\<lparr>fb_start := 0, fb_end := 0\<rparr>))"

definition append_chunk :: "fifobuffer_impl \<Rightarrow> nat option \<times> fifobuffer_impl" where
  "append_chunk f =
     (if fb_chunkcnt f = max_chunkcnt then (None, f)
      else let chk = fb_brk f;
               f1 = f\<lparr>fb_brk := Suc chk, fb_end := header_size\<rparr>;
               f2 = (if fb_chunkcnt f = 0 then f1\<lparr>fb_start := fb_end f1\<rparr> else f1)
           in (Some chk, f2\<lparr>fb_chunklist := fb_chunklist f @ [chk], fb_chunkcnt := Suc (fb_chunkcnt f)\<rparr>))"

text \<open>The loop of \<^verbatim>\<open>remove_discard\<close>: the bytes copied to \<^verbatim>\<open>dst\<close> and the buffer after it.\<close>

function remove_loop :: "fifobuffer_impl \<Rightarrow> nat \<Rightarrow> u8 list \<times> fifobuffer_impl" where
  "remove_loop f sz =
     (if fb_chunkcnt f = 0 then ([], f)
      else let content_size = (if fb_chunkcnt f = 1 then fb_end f - fb_start f
                               else chunk_size - fb_start f);
               chk = hd (fb_chunklist f)
           in if content_size \<le> sz
              then let bs = bytes (fb_heap f) chk (fb_start f) (fb_start f + content_size);
                       (rest, f') = remove_loop (snd (release_chunk f)) (sz - content_size)
                   in (bs @ rest, f')
              else (bytes (fb_heap f) chk (fb_start f) (fb_start f + sz),
                    f\<lparr>fb_start := fb_start f + sz\<rparr>))"
  by auto
termination
  by (relation "measure (\<lambda>(f, _). fb_chunkcnt f)") (auto simp: release_chunk_def Let_def)

declare remove_loop.simps [simp del]

definition remove_discard :: "fifobuffer_impl \<Rightarrow> nat \<Rightarrow> u8 list \<times> fifobuffer_impl" where
  "remove_discard f sz =
     (if sz = 0 then ([], f)
      else if fb_chunkcnt f = 0 then ([], f)
      else let (bs, f1) = remove_loop f sz in (bs, f1\<lparr>fb_chkoff := None, fb_offset := 0\<rparr>))"

text \<open>\<^verbatim>\<open>remove\<close> hands the bytes to the caller; \<^verbatim>\<open>discard\<close> passes a null buffer and returns their number.\<close>

definition fb_remove :: "fifobuffer_impl \<Rightarrow> nat \<Rightarrow> u8 list \<times> fifobuffer_impl" where
  "fb_remove f sz = remove_discard f sz"

definition fb_discard :: "fifobuffer_impl \<Rightarrow> nat \<Rightarrow> nat \<times> fifobuffer_impl" where
  "fb_discard f sz = (let (bs, f1) = remove_discard f sz in (length bs, f1))"

text \<open>The loop of \<^verbatim>\<open>append\<close>: the number of bytes taken from \<^verbatim>\<open>src\<close> and the buffer after it.\<close>

function append_loop :: "fifobuffer_impl \<Rightarrow> u8 list \<Rightarrow> nat \<times> fifobuffer_impl" where
  "append_loop f src =
     (if src = [] then (0, f)
      else if fb_chunkcnt f \<noteq> 0 \<and> fb_end f < chunk_size
      then let content_size = chunk_size - fb_end f;
               chk = last (fb_chunklist f)
           in if content_size < length src
              then let f1 = f\<lparr>fb_heap := store (fb_heap f) chk (fb_end f) (take content_size src),
                              fb_end := header_size\<rparr>
                   in case append_chunk f1 of
                        (None, f2) \<Rightarrow> (content_size, f2)
                      | (Some _, f2) \<Rightarrow>
                          (let (n, f3) = append_loop f2 (drop content_size src)
                           in (content_size + n, f3))
              else (length src, f\<lparr>fb_heap := store (fb_heap f) chk (fb_end f) src,
                                   fb_end := fb_end f + length src\<rparr>)
      else case append_chunk f of
             (None, f1) \<Rightarrow> (0, f1)
           | (Some _, f1) \<Rightarrow> append_loop f1 src)"
  by auto
termination
  by (relation "measure (\<lambda>(f, src). 2 * length src +
        (if fb_chunkcnt f \<noteq> 0 \<and> fb_end f < chunk_size then 0 else 1))")
    (auto simp: append_chunk_def Let_def split: if_splits)

declare append_loop.simps [simp del]

definition fb_append :: "fifobuffer_impl \<Rightarrow> u8 list \<Rightarrow> nat \<times> fifobuffer_impl" where
  "fb_append f src = (if src = [] then (0, f) else append_loop f src)"

text \<open>
  A descriptor as the results \<^verbatim>\<open>read\<close> will give: bytes that arrive together, an interrupted
  call, another error (such as \<^verbatim>\<open>EAGAIN\<close>); then end of file. A call takes at most the bytes it
  asks for and leaves the rest.
\<close>

datatype read_event = Got "u8 list" | Eintr | Eagain

fun nonblk_read :: "nat \<Rightarrow> read_event list \<Rightarrow> u8 list \<times> read_event list" where
  "nonblk_read n evs =
     (if n = 0 then ([], evs)
      else case evs of
        [] \<Rightarrow> ([], [])
      | Eintr # evs' \<Rightarrow> nonblk_read n evs'
      | Eagain # evs' \<Rightarrow> ([], evs')
      | Got bs # evs' \<Rightarrow>
          if bs = [] then ([], evs')
          else if n < length bs then (take n bs, Got (drop n bs) # evs')
          else let (rest, evs'') = nonblk_read (n - length bs) evs' in (bs @ rest, evs''))"

declare nonblk_read.simps [simp del]

lemma nonblk_read_length: "length (fst (nonblk_read n evs)) \<le> n"
proof (induction n evs rule: nonblk_read.induct)
  case (1 n evs)
  show ?case
    using "1.IH" by (subst nonblk_read.simps) (fastforce split: list.splits read_event.splits prod.splits)
qed

text \<open>\<^verbatim>\<open>append(int fd, size_t sz)\<close>.\<close>

function append_fd_loop ::
  "fifobuffer_impl \<Rightarrow> read_event list \<Rightarrow> nat \<Rightarrow> nat \<times> fifobuffer_impl \<times> read_event list" where
  "append_fd_loop f fd sz =
     (if sz = 0 then (0, f, fd)
      else if fb_chunkcnt f \<noteq> 0 \<and> fb_end f < chunk_size
      then let content_size = chunk_size - fb_end f;
               chk = last (fb_chunklist f)
           in if content_size < sz
              then let (bs, fd1) = nonblk_read content_size fd;
                       rsz = length bs;
                       f1 = f\<lparr>fb_heap := store (fb_heap f) chk (fb_end f) bs\<rparr>
                   in if rsz < content_size then (rsz, f1\<lparr>fb_end := fb_end f1 + rsz\<rparr>, fd1)
                      else case append_chunk (f1\<lparr>fb_end := header_size\<rparr>) of
                        (None, f2) \<Rightarrow> (rsz, f2, fd1)
                      | (Some _, f2) \<Rightarrow>
                          (let (n, f3, fd2) = append_fd_loop f2 fd1 (sz - rsz) in (rsz + n, f3, fd2))
              else let (bs, fd1) = nonblk_read sz fd
                   in (length bs, f\<lparr>fb_heap := store (fb_heap f) chk (fb_end f) bs,
                                     fb_end := fb_end f + length bs\<rparr>, fd1)
      else case append_chunk f of
             (None, f1) \<Rightarrow> (0, f1, fd)
           | (Some _, f1) \<Rightarrow> append_fd_loop f1 fd sz)"
  by auto
termination
  by (relation "measure (\<lambda>(f, fd, sz). 2 * sz +
        (if fb_chunkcnt f \<noteq> 0 \<and> fb_end f < chunk_size then 0 else 1))")
    (auto simp: append_chunk_def Let_def split: if_splits)

declare append_fd_loop.simps [simp del]

definition fb_append_fd ::
  "fifobuffer_impl \<Rightarrow> read_event list \<Rightarrow> nat \<Rightarrow> nat \<times> fifobuffer_impl \<times> read_event list" where
  "fb_append_fd f fd sz = (if sz = 0 then (0, f, fd) else append_fd_loop f fd sz)"

subsection \<open>The read cursor\<close>

text \<open>
  \<^verbatim>\<open>calc_offset\<close>: the chunk and the offset behind its header of byte \<open>pos\<close>. The last chunk visited
  is the result when the loop runs off the list.
\<close>

fun calc_loop :: "nat \<Rightarrow> nat \<Rightarrow> nat \<Rightarrow> nat option \<Rightarrow> nat list \<Rightarrow> nat option \<times> nat" where
  "calc_loop fin start pos chk [] = (chk, pos + start - header_size)"
| "calc_loop fin start pos chk (a # as) =
     (let chksz = (if as = [] then fin - start else chunk_size - start)
      in if chksz > pos then (Some a, pos + start - header_size)
         else calc_loop fin header_size (pos - chksz) (Some a) as)"

definition calc_offset :: "fifobuffer_impl \<Rightarrow> nat \<Rightarrow> (nat option \<times> nat) option" where
  "calc_offset f pos =
     (if pos \<ge> unat (getsize f) then None
      else Some (calc_loop (fb_end f) (fb_start f) pos None (fb_chunklist f)))"

text \<open>The list from chunk \<open>a\<close> on: what a loop that starts at its node visits.\<close>

definition from_chunk :: "nat list \<Rightarrow> nat \<Rightarrow> nat list" where
  "from_chunk as a = dropWhile (\<lambda>x. x \<noteq> a) as"

definition getoffset :: "fifobuffer_impl \<Rightarrow> nat list \<times> nat" where
  "getoffset f =
     (case fb_chkoff f of
        Some a \<Rightarrow> (from_chunk (fb_chunklist f) a, fb_offset f + header_size)
      | None \<Rightarrow> (fb_chunklist f, fb_start f + fb_offset f))"

fun delta_loop :: "nat \<Rightarrow> nat \<Rightarrow> nat \<Rightarrow> nat list \<Rightarrow> (nat \<times> nat) option" where
  "delta_loop fin start delta [] = None"
| "delta_loop fin start delta (a # as) =
     (let chksz = (if as = [] then fin - start else chunk_size - start)
      in if chksz > delta then Some (a, delta + start - header_size)
         else delta_loop fin header_size (delta - chksz) as)"

definition calc_offset_delta :: "fifobuffer_impl \<Rightarrow> nat \<Rightarrow> int \<times> fifobuffer_impl" where
  "calc_offset_delta f delta =
     (if delta = 0 then (0, f)
      else let (item, start) = getoffset f
           in case delta_loop (fb_end f) start delta item of
                Some (chk, off) \<Rightarrow> (0, f\<lparr>fb_chkoff := Some chk, fb_offset := off\<rparr>)
              | None \<Rightarrow> (- EEOF, f))"

text \<open>\<^verbatim>\<open>seek\<close>; the enumeration \<^verbatim>\<open>fb_seektype\<close> has the values \<open>0\<close> (set) and \<open>1\<close> (current).\<close>

definition fb_seek :: "fifobuffer_impl \<Rightarrow> nat \<Rightarrow> int \<Rightarrow> int \<times> fifobuffer_impl" where
  "fb_seek f pos st =
     (if st = 0 then
        (case calc_offset f pos of
           None \<Rightarrow> (- 1, f)
         | Some (chk, off) \<Rightarrow> (0, f\<lparr>fb_chkoff := chk, fb_offset := off\<rparr>))
      else if st = 1 then calc_offset_delta f pos
      else (- EBADPARM, f))"

text \<open>
  The loop of \<^verbatim>\<open>read_data\<close>: the bytes, and the variables \<^verbatim>\<open>chkoff\<close> and \<^verbatim>\<open>off\<close>, which are unset when
  the loop body never runs.
\<close>

fun read_loop ::
  "(nat \<Rightarrow> nat \<Rightarrow> u8) \<Rightarrow> nat \<Rightarrow> nat \<Rightarrow> nat \<Rightarrow> (nat \<times> nat) option \<Rightarrow> nat list \<Rightarrow>
     u8 list \<times> (nat \<times> nat) option" where
  "read_loop heap fin pos sz vars [] = ([], vars)"
| "read_loop heap fin pos sz vars (a # as) =
     (if sz = 0 then ([], vars)
      else let remain = (if as = [] then fin - pos else chunk_size - pos)
           in if remain \<ge> sz then (bytes heap a pos (pos + sz), Some (a, pos + sz))
              else let (bs, vars') = read_loop heap fin header_size (sz - remain) (Some (a, pos + remain)) as
                   in (bytes heap a pos (pos + remain) @ bs, vars'))"

text \<open>\<^verbatim>\<open>None\<close> is the read of the unset variables when the buffer has no chunk.\<close>

definition fb_read :: "fifobuffer_impl \<Rightarrow> nat \<Rightarrow> (u8 list \<times> fifobuffer_impl) option" where
  "fb_read f sz =
     (if sz = 0 then Some ([], f)
      else let (item, start) = getoffset f
           in case read_loop (fb_heap f) (fb_end f) start sz None item of
                (bs, Some (chkoff, off)) \<Rightarrow>
                  Some (bs, f\<lparr>fb_offset := off - header_size, fb_chkoff := Some chkoff\<rparr>)
              | (_, None) \<Rightarrow> None)"

definition peekdata :: "fifobuffer_impl \<Rightarrow> nat \<Rightarrow> nat \<Rightarrow> u8 list" where
  "peekdata f pos sz =
     (case calc_offset f pos of
        Some (Some chk, off) \<Rightarrow>
          fst (read_loop (fb_heap f) (fb_end f) (off + header_size) sz None
                 (from_chunk (fb_chunklist f) chk))
      | _ \<Rightarrow> [])"

section \<open>The byte sequence of a chunk list\<close>

lemma length_bytes [simp]: "length (bytes h a i j) = j - i"
  by (simp add: bytes_def)

lemma bytes_empty [simp]: "j \<le> i \<Longrightarrow> bytes h a i j = []"
  by (simp add: bytes_def)

lemma bytes_append: "\<lbrakk>i \<le> j; j \<le> k\<rbrakk> \<Longrightarrow> bytes h a i j @ bytes h a j k = bytes h a i k"
  unfolding bytes_def map_append [symmetric] by (metis le_Suc_ex upt_add_eq_append)

lemma take_bytes: "i + n \<le> j \<Longrightarrow> take n (bytes h a i j) = bytes h a i (i + n)"
  by (simp add: bytes_def take_map)

lemma drop_bytes: "drop n (bytes h a i j) = bytes h a (i + n) j"
  by (simp add: bytes_def drop_map)

lemma bytes_store_before [simp]: "bytes (store h a e bs) b i j = bytes h b i j" if "b \<noteq> a \<or> j \<le> e"
  using that by (auto simp: bytes_def store_def)

lemma bytes_store_new [simp]: "bytes (store h a e bs) a e (e + length bs) = bs"
  by (rule nth_equalityI) (auto simp: bytes_def store_def)

lemma bytes_store_extend:
  "i \<le> e \<Longrightarrow> bytes (store h a e bs) a i (e + length bs) = bytes h a i e @ bs"
  using bytes_append [of i e "e + length bs" "store h a e bs" a] by simp

text \<open>Bytes from offset \<open>s\<close> of the first chunk to offset \<open>e\<close> of the last.\<close>

fun chunk_span :: "(nat \<Rightarrow> nat \<Rightarrow> u8) \<Rightarrow> nat \<Rightarrow> nat \<Rightarrow> nat list \<Rightarrow> u8 list" where
  "chunk_span h s e [] = []"
| "chunk_span h s e (a # as) =
     (if as = [] then bytes h a s e else bytes h a s chunk_size @ chunk_span h header_size e as)"

definition span_ok :: "nat \<Rightarrow> nat \<Rightarrow> nat list \<Rightarrow> bool" where
  "span_ok s e as \<longleftrightarrow> header_size \<le> s \<and> s \<le> chunk_size \<and> header_size \<le> e \<and> e \<le> chunk_size \<and>
     (length as = 1 \<longrightarrow> s \<le> e)"

lemma span_ok_tl: "span_ok s e (a # as) \<Longrightarrow> span_ok header_size e as"
  by (simp add: span_ok_def)

lemma span_store:
  "\<lbrakk>as \<noteq> []; distinct as; span_ok s e as\<rbrakk> \<Longrightarrow>
    chunk_span (store h (last as) e bs) s (e + length bs) as = chunk_span h s e as @ bs"
proof (induction as arbitrary: s)
  case (Cons a as)
  show ?case
  proof (cases "as = []")
    case True
    with Cons.prems show ?thesis by (simp add: bytes_store_extend span_ok_def)
  next
    case False
    then have "a \<noteq> last as" using Cons.prems(2) last_in_set by fastforce
    with False Cons.IH [of header_size] Cons.prems span_ok_tl [OF Cons.prems(3)] show ?thesis by simp
  qed
qed simp

lemma span_snoc: "as \<noteq> [] \<Longrightarrow> chunk_span h s header_size (as @ [a]) = chunk_span h s chunk_size as"
  by (induction as arbitrary: s) auto

lemma length_span:
  "\<lbrakk>as \<noteq> []; span_ok s e as\<rbrakk> \<Longrightarrow>
    int (length (chunk_span h s e as)) = int chunk_size * int (length as) - int s - (int chunk_size - int e)
      - int header_size * (int (length as) - 1)"
proof (induction as arbitrary: s)
  case (Cons a as)
  show ?case
  proof (cases "as = []")
    case True
    with Cons.prems show ?thesis by (simp add: span_ok_def)
  next
    case False
    with Cons.IH [OF False span_ok_tl [OF Cons.prems(2)]] Cons.prems(2) show ?thesis
      by (simp add: span_ok_def algebra_simps)
  qed
qed simp

lemma from_chunk_Cons [simp]:
  "from_chunk (a # as) a = a # as" "b \<noteq> a \<Longrightarrow> from_chunk (a # as) b = from_chunk as b"
  by (simp_all add: from_chunk_def)

lemma from_chunk_in:
  assumes "a \<in> set as"
  shows "from_chunk as a \<noteq> []" and "last (from_chunk as a) = last as"
    and "set (from_chunk as a) \<subseteq> set as" and "distinct as \<Longrightarrow> distinct (from_chunk as a)"
    and "from_chunk (as @ bs) a = from_chunk as a @ bs"
  using assms by (induction as) (auto simp: from_chunk_def)

text \<open>The three loops over the chunks, as functions of the byte sequence.\<close>

text \<open>A place in the list: a chunk and an offset in it, with the bytes from there on.\<close>

definition at_place :: "(nat \<Rightarrow> nat \<Rightarrow> u8) \<Rightarrow> nat \<Rightarrow> nat list \<Rightarrow> nat \<Rightarrow> nat \<Rightarrow> u8 list \<Rightarrow> bool" where
  "at_place h e as a p bs \<longleftrightarrow> a \<in> set as \<and> span_ok p e (from_chunk as a) \<and> chunk_span h p e (from_chunk as a) = bs"

lemma at_place_tl: "\<lbrakk>at_place h e as b p bs; distinct (a # as)\<rbrakk> \<Longrightarrow> at_place h e (a # as) b p bs"
  by (cases "b = a") (auto simp: at_place_def)

lemma read_loop_bytes:
  "span_ok s e as \<Longrightarrow> fst (read_loop h e s sz v as) = take sz (chunk_span h s e as)"
proof (induction as arbitrary: s sz v)
  case (Cons a as)
  note IH = Cons.IH [OF span_ok_tl [OF Cons.prems]]
  from Cons.prems show ?case
    by (auto simp: Let_def IH take_bytes span_ok_def split: prod.splits)
      (metis IH fst_conv)+
qed simp

lemma read_loop_place:
  "\<lbrakk>span_ok s e as; distinct as; as \<noteq> []; 0 < sz\<rbrakk> \<Longrightarrow>
    \<exists>a p. snd (read_loop h e s sz v as) = Some (a, p) \<and> header_size \<le> p \<and>
      at_place h e as a p (drop sz (chunk_span h s e as))"
proof (induction as arbitrary: s sz v)
  case (Cons a as)
  let ?r = "if as = [] then e - s else chunk_size - s"
  show ?case
  proof (cases "sz \<le> ?r")
    case True
    with Cons.prems have "at_place h e (a # as) a (s + sz) (drop sz (chunk_span h s e (a # as)))"
      by (auto simp: at_place_def span_ok_def drop_bytes)
    with True Cons.prems show ?thesis by (auto simp: span_ok_def)
  next
    case False
    show ?thesis
    proof (cases "as = []")
      case True
      with Cons.prems False have "at_place h e [a] a e (drop sz (chunk_span h s e [a]))"
        by (auto simp: at_place_def span_ok_def)
      with True False Cons.prems show ?thesis by (auto simp: span_ok_def)
    next
      case ne: False
      from Cons.IH [OF span_ok_tl [OF Cons.prems(1)] _ ne, of "sz - ?r" "Some (a, s + ?r)"] Cons.prems(2) False
      obtain b p where b: "snd (read_loop h e header_size (sz - ?r) (Some (a, s + ?r)) as) = Some (b, p)"
        "header_size \<le> p" "at_place h e as b p (drop (sz - ?r) (chunk_span h header_size e as))"
        by auto
      with False ne Cons.prems at_place_tl [OF b(3) Cons.prems(2)] show ?thesis
        by (auto simp: Let_def split: prod.splits)
    qed
  qed
qed simp

lemma delta_loop_place:
  "\<lbrakk>span_ok s e as; distinct as\<rbrakk> \<Longrightarrow>
    (case delta_loop e s d as of
       Some (a, off) \<Rightarrow> d < length (chunk_span h s e as) \<and>
         at_place h e as a (off + header_size) (drop d (chunk_span h s e as))
     | None \<Rightarrow> length (chunk_span h s e as) \<le> d)"
proof (induction as arbitrary: s d)
  case (Cons a as)
  let ?r = "if as = [] then e - s else chunk_size - s"
  show ?case
  proof (cases "d < ?r")
    case True
    with Cons.prems show ?thesis
      by (auto simp: at_place_def span_ok_def drop_bytes add.commute)
  next
    case False
    then have run: "delta_loop e s d (a # as) = delta_loop e header_size (d - ?r) as"
      by (simp add: Let_def)
    from Cons.IH [OF span_ok_tl [OF Cons.prems(1)], of "d - ?r"] Cons.prems(2) False
    show ?thesis unfolding run
      by (cases "as = []") (auto simp: at_place_tl split: option.splits)
  qed
qed simp

lemma calc_loop_delta:
  "delta_loop e s d as = Some (a, off) \<Longrightarrow> calc_loop e s d c as = (Some a, off)"
  by (induction as arbitrary: s d c) (auto simp: Let_def split: if_splits)

section \<open>Invariant and abstraction\<close>

definition cursor_ok :: "fifobuffer_impl \<Rightarrow> bool" where
  "cursor_ok f \<longleftrightarrow> (case fb_chkoff f of
     None \<Rightarrow> fb_offset f = 0
   | Some a \<Rightarrow> a \<in> set (fb_chunklist f) \<and>
       span_ok (fb_offset f + header_size) (fb_end f) (from_chunk (fb_chunklist f) a))"

definition fifo_inv :: "fifobuffer_impl \<Rightarrow> bool" where
  "fifo_inv f \<longleftrightarrow> fb_chunkcnt f = length (fb_chunklist f) \<and> fb_chunkcnt f \<le> max_chunkcnt \<and>
     distinct (fb_chunklist f) \<and> (\<forall>a \<in> set (fb_chunklist f). a < fb_brk f) \<and>
     (if fb_chunklist f = [] then fb_start f = 0 \<and> fb_end f = 0
      else span_ok (fb_start f) (fb_end f) (fb_chunklist f)) \<and>
     fb_start f < chunk_size \<and> cursor_ok f"

text \<open>The bytes in the buffer, and those from the read cursor on.\<close>

definition contents :: "fifobuffer_impl \<Rightarrow> u8 list" where
  "contents f = chunk_span (fb_heap f) (fb_start f) (fb_end f) (fb_chunklist f)"

definition unread :: "fifobuffer_impl \<Rightarrow> u8 list" where
  "unread f = (let (item, start) = getoffset f in chunk_span (fb_heap f) start (fb_end f) item)"

text \<open>How many bytes \<^verbatim>\<open>append\<close> can take without losing any.\<close>

definition capacity :: "fifobuffer_impl \<Rightarrow> nat" where
  "capacity f = (max_chunkcnt - fb_chunkcnt f) * (chunk_size - header_size)
     + (if fb_chunkcnt f = 0 then 0 else chunk_size - fb_end f)"

lemma fifo_inv_ctor: "fifo_inv (fifobuffer_ctor heap brk)" and contents_ctor: "contents (fifobuffer_ctor heap brk) = []"
  by (simp_all add: fifo_inv_def fifobuffer_ctor_def cursor_ok_def contents_def)

lemma drain_spec: "fifo_inv f \<Longrightarrow> fifo_inv (drain f) \<and> contents (drain f) = [] \<and> unread (drain f) = []"
  by (simp add: fifo_inv_def drain_def cursor_ok_def contents_def unread_def getoffset_def)

lemma unread_no_cursor: "\<lbrakk>fifo_inv f; fb_chkoff f = None\<rbrakk> \<Longrightarrow> unread f = contents f"
  by (simp add: fifo_inv_def cursor_ok_def unread_def getoffset_def contents_def)

lemma cursor_span:
  assumes "fifo_inv f" and "getoffset f = (item, start)" and "fb_chunklist f \<noteq> []"
  shows "span_ok start (fb_end f) item" and "distinct item" and "item \<noteq> []"
    and "set item \<subseteq> set (fb_chunklist f)" and "last item = last (fb_chunklist f)"
    and "unread f = chunk_span (fb_heap f) start (fb_end f) item"
    and "\<And>a. a \<in> set item \<Longrightarrow> from_chunk (fb_chunklist f) a = from_chunk item a"
proof -
  have *: "from_chunk as a = from_chunk (from_chunk as b) a"
    if "a \<in> set (from_chunk as b)" "distinct as" for a b and as :: "nat list"
    using that
  proof (induction as)
    case (Cons x as)
    then show ?case using from_chunk_in(3) [of b as]
      by (cases "x = b"; cases "x = a"; cases "b \<in> set as") (auto simp: from_chunk_def dest: set_dropWhileD)
  qed (simp add: from_chunk_def)
  show "span_ok start (fb_end f) item" "distinct item" "item \<noteq> []"
    "set item \<subseteq> set (fb_chunklist f)" "last item = last (fb_chunklist f)"
    "unread f = chunk_span (fb_heap f) start (fb_end f) item"
    "\<And>a. a \<in> set item \<Longrightarrow> from_chunk (fb_chunklist f) a = from_chunk item a"
    using assms *
    by (auto simp: fifo_inv_def cursor_ok_def getoffset_def unread_def from_chunk_in split: option.splits
        dest: from_chunk_in(3))
qed

lemma getsize_contents:
  assumes "fifo_inv f"
  shows "getsize f = of_nat (length (contents f))" and "length (contents f) < 2 ^ 64"
proof -
  show "getsize f = of_nat (length (contents f))"
  proof (cases "fb_chunklist f = []")
    case False
    then have "int (length (contents f)) = int chunk_size * int (fb_chunkcnt f) - int (fb_start f)
        - (int chunk_size - int (fb_end f)) - int header_size * (int (fb_chunkcnt f) - 1)"
      using assms length_span by (simp add: fifo_inv_def contents_def)
    then have "(of_int (int (length (contents f))) :: u64) = of_int (int chunk_size * int (fb_chunkcnt f)
        - int (fb_start f) - (int chunk_size - int (fb_end f)) - int header_size * (int (fb_chunkcnt f) - 1))"
      by (rule arg_cong)
    then show ?thesis using assms False by (simp add: getsize_def fifo_inv_def)
  qed (use assms in \<open>simp add: fifo_inv_def getsize_def contents_def\<close>)
  have "length (contents f) \<le> chunk_size * length (fb_chunklist f)"
  proof (cases "fb_chunklist f = []")
    case False
    from length_span [of "fb_chunklist f" "fb_start f" "fb_end f" "fb_heap f"] False assms
    show ?thesis by (simp add: fifo_inv_def contents_def span_ok_def)
  qed (simp add: contents_def)
  with assms show "length (contents f) < 2 ^ 64" by (simp add: fifo_inv_def)
qed

lemma unat_getsize: "fifo_inv f \<Longrightarrow> unat (getsize f) = length (contents f)"
  using getsize_contents [of f] by (simp add: unat_of_nat)

lemma fb_empty_iff: "fifo_inv f \<Longrightarrow> fb_empty f \<longleftrightarrow> contents f = []"
proof (cases "fb_chunklist f")
  case (Cons a as)
  assume inv: "fifo_inv f"
  have "bytes h a i j = [] \<longleftrightarrow> j \<le> i" for h i j by (auto simp: bytes_def)
  with inv Cons show ?thesis
    by (auto simp: fb_empty_def fifo_inv_def contents_def span_ok_def)
qed (simp add: fb_empty_def fifo_inv_def contents_def)

subsection \<open>Removing\<close>

lemma release_chunk_eq:
  "\<lbrakk>fb_chunkcnt f = length (fb_chunklist f); fb_chunklist f = a # as\<rbrakk> \<Longrightarrow>
    snd (release_chunk f) = f\<lparr>fb_chunklist := as, fb_chunkcnt := length as,
      fb_start := (if as = [] then 0 else header_size), fb_end := (if as = [] then 0 else fb_end f)\<rparr>"
  by (simp add: release_chunk_def Let_def)

text \<open>The part of the invariant that the loop keeps, without the cursor.\<close>

abbreviation rewound :: "fifobuffer_impl \<Rightarrow> fifobuffer_impl" where
  "rewound f \<equiv> f\<lparr>fb_chkoff := None, fb_offset := 0\<rparr>"

lemma fifo_inv_rewound: "fifo_inv f \<Longrightarrow> fifo_inv (rewound f)"
  by (simp add: fifo_inv_def cursor_ok_def)

text \<open>One round of the loop: the whole chunk, or a part of it.\<close>

lemma remove_round:
  assumes "fifo_inv (rewound f)" and "fb_chunklist f = a # as"
  defines "c \<equiv> (if fb_chunkcnt f = 1 then fb_end f - fb_start f else chunk_size - fb_start f)"
  shows "contents f = bytes (fb_heap f) a (fb_start f) (fb_start f + c) @ contents (snd (release_chunk f))"
    and "fifo_inv (rewound (snd (release_chunk f)))"
    and "sz < c \<Longrightarrow> fifo_inv (rewound (f\<lparr>fb_start := fb_start f + sz\<rparr>))"
    and "sz < c \<Longrightarrow> contents (f\<lparr>fb_start := fb_start f + sz\<rparr>) = drop sz (contents f)"
proof -
  have cnt: "fb_chunkcnt f = length (fb_chunklist f)" using assms(1) by (simp add: fifo_inv_def)
  have ok: "span_ok (fb_start f) (fb_end f) (a # as)" using assms(1,2) by (simp add: fifo_inv_def)
  have ne: "as = [] \<longleftrightarrow> fb_chunkcnt f = 1" using cnt assms(2) by simp
  show "contents f = bytes (fb_heap f) a (fb_start f) (fb_start f + c) @ contents (snd (release_chunk f))"
    using ok ne by (cases as) (simp_all add: contents_def release_chunk_eq [OF cnt assms(2)] assms(2) span_ok_def c_def)
  show "fifo_inv (rewound (snd (release_chunk f)))"
    using assms(1,2) span_ok_tl [OF ok]
    by (simp add: release_chunk_eq [OF cnt assms(2)] fifo_inv_def cursor_ok_def)
  show "fifo_inv (rewound (f\<lparr>fb_start := fb_start f + sz\<rparr>))" if "sz < c"
    using assms(1,2) ok ne that by (cases as) (auto simp: fifo_inv_def cursor_ok_def span_ok_def c_def)
  show "contents (f\<lparr>fb_start := fb_start f + sz\<rparr>) = drop sz (contents f)" if "sz < c"
    using assms(2) that ne ok by (cases as) (auto simp: contents_def drop_bytes span_ok_def c_def)
qed

lemma remove_loop_spec:
  assumes "fifo_inv (rewound f)"
  shows "fst (remove_loop f sz) = take sz (contents f) \<and> fifo_inv (rewound (snd (remove_loop f sz))) \<and>
    contents (snd (remove_loop f sz)) = drop sz (contents f)"
  using assms
proof (induction "fb_chunkcnt f" arbitrary: f sz)
  case 0
  then have "remove_loop f sz = ([], f)" by (subst remove_loop.simps) simp
  moreover have "fb_chunklist f = []" using 0 by (simp add: fifo_inv_def)
  ultimately show ?case using 0 by (simp add: contents_def)
next
  case (Suc n)
  obtain a as where Cons: "fb_chunklist f = a # as"
    using Suc.prems Suc.hyps(2) by (cases "fb_chunklist f") (auto simp: fifo_inv_def)
  let ?f = "snd (release_chunk f)"
  define c where "c = (if fb_chunkcnt f = 1 then fb_end f - fb_start f else chunk_size - fb_start f)"
  note round = remove_round [OF Suc.prems Cons, folded c_def]
  have cnt: "fb_chunkcnt f \<noteq> 0" "n = fb_chunkcnt ?f"
    using Suc.hyps(2) by (auto simp: release_chunk_def Let_def)
  have run: "remove_loop f sz =
      (if c \<le> sz then (bytes (fb_heap f) a (fb_start f) (fb_start f + c) @ fst (remove_loop ?f (sz - c)),
          snd (remove_loop ?f (sz - c)))
       else (bytes (fb_heap f) a (fb_start f) (fb_start f + sz), f\<lparr>fb_start := fb_start f + sz\<rparr>))"
    using cnt(1) Cons unfolding remove_loop.simps [of f sz] Let_def c_def [symmetric]
    by (simp add: case_prod_beta)
  show ?case
  proof (cases "c \<le> sz")
    case True
    with Suc.hyps(1) [OF cnt(2) round(2), of "sz - c"] show ?thesis
      unfolding run round(1) by simp
  next
    case False
    then have "bytes (fb_heap f) a (fb_start f) (fb_start f + sz) = take sz (contents f)"
      unfolding round(1) by (simp add: take_bytes)
    with False round(3,4) [of sz] show ?thesis unfolding run by simp
  qed
qed

lemma remove_spec:
  assumes "fifo_inv f" and "fb_remove f sz = (bs, f')"
  shows "bs = take sz (contents f)" and "fifo_inv f'" and "contents f' = drop sz (contents f)"
    and "0 < sz \<Longrightarrow> unread f' = contents f'"
proof -
  note loop = remove_loop_spec [OF fifo_inv_rewound [OF assms(1)], of sz]
  have nil: "fb_chunkcnt f = 0 \<Longrightarrow> contents f = [] \<and> unread f = []"
    using assms(1) by (auto simp: fifo_inv_def contents_def unread_def getoffset_def cursor_ok_def split: option.splits)
  have c: "contents (rewound g) = contents g" for g by (simp add: contents_def)
  show "bs = take sz (contents f)" "fifo_inv f'" "contents f' = drop sz (contents f)"
    using assms loop nil by (auto simp: fb_remove_def remove_discard_def c split: if_splits prod.splits)
  show "unread f' = contents f'" if "0 < sz"
  proof (cases "fb_chunkcnt f = 0")
    case True
    with assms(2) nil show ?thesis by (auto simp: fb_remove_def remove_discard_def split: if_splits)
  next
    case False
    with that assms(2) have "fb_chkoff f' = None"
      by (auto simp: fb_remove_def remove_discard_def split: prod.splits)
    with \<open>fifo_inv f'\<close> show ?thesis by (rule unread_no_cursor)
  qed
qed

subsection \<open>Appending\<close>

text \<open>A write behind the end of the last chunk.\<close>

abbreviation written :: "fifobuffer_impl \<Rightarrow> u8 list \<Rightarrow> fifobuffer_impl" where
  "written f bs \<equiv> f\<lparr>fb_heap := store (fb_heap f) (last (fb_chunklist f)) (fb_end f) bs,
                     fb_end := fb_end f + length bs\<rparr>"

lemma getoffset_written: "getoffset (f\<lparr>fb_heap := h, fb_end := e\<rparr>) = getoffset f"
  by (simp add: getoffset_def split: option.splits)

lemma written_spec:
  assumes "fifo_inv f" and "fb_chunkcnt f \<noteq> 0" and "fb_end f + length bs \<le> chunk_size"
  shows "contents (written f bs) = contents f @ bs" and "unread (written f bs) = unread f @ bs"
    and "fifo_inv (written f bs)"
proof -
  have ne: "fb_chunklist f \<noteq> []" using assms(1,2) by (auto simp: fifo_inv_def)
  obtain item start where c: "getoffset f = (item, start)" by (cases "getoffset f")
  note span = cursor_span [OF assms(1) c ne]
  show "contents (written f bs) = contents f @ bs"
    using assms(1) ne by (simp add: contents_def fifo_inv_def span_store)
  show "unread (written f bs) = unread f @ bs"
    using span_store [OF span(3,2,1)] by (simp add: unread_def getoffset_written c span(5))
  have grow: "span_ok s e as \<Longrightarrow> e + length bs \<le> chunk_size \<Longrightarrow> span_ok s (e + length bs) as" for s e as
    by (auto simp: span_ok_def)
  show "fifo_inv (written f bs)"
    using assms ne grow by (auto simp: fifo_inv_def cursor_ok_def split: option.splits)
qed

lemma append_chunk_end [simp]: "fb_chunkcnt f \<noteq> max_chunkcnt \<Longrightarrow> append_chunk (f\<lparr>fb_end := e\<rparr>) = append_chunk f"
  by (simp add: append_chunk_def Let_def)

lemma append_chunk_spec:
  assumes "fifo_inv f" and "fb_chunkcnt f \<noteq> max_chunkcnt" and "fb_chunkcnt f \<noteq> 0 \<Longrightarrow> fb_end f = chunk_size"
  obtains chk f' where "append_chunk f = (Some chk, f')" and "fifo_inv f'" and "contents f' = contents f"
    and "unread f' = unread f" and "fb_chunkcnt f' = Suc (fb_chunkcnt f)" and "fb_end f' = header_size"
proof (cases "fb_chunklist f = []")
  case True
  with assms show ?thesis
    by (intro that [of "fb_brk f" "snd (append_chunk f)"])
      (auto simp: append_chunk_def Let_def fifo_inv_def cursor_ok_def contents_def unread_def
        getoffset_def span_ok_def split: option.splits)
next
  case False
  let ?f = "snd (append_chunk f)"
  have cnt: "fb_chunkcnt f \<noteq> 0" using assms(1) False by (simp add: fifo_inv_def)
  then have fin: "fb_end f = chunk_size" by (rule assms(3))
  have eq: "append_chunk f = (Some (fb_brk f), f\<lparr>fb_brk := Suc (fb_brk f), fb_end := header_size,
      fb_chunklist := fb_chunklist f @ [fb_brk f], fb_chunkcnt := Suc (fb_chunkcnt f)\<rparr>)"
    using assms(2) cnt by (simp add: append_chunk_def Let_def)
  obtain item start where c: "getoffset f = (item, start)" by (cases "getoffset f")
  note span = cursor_span [OF assms(1) c False]
  have c': "getoffset ?f = (item @ [fb_brk f], start)"
    using c assms(1) by (auto simp: getoffset_def eq fifo_inv_def cursor_ok_def from_chunk_in split: option.splits)
  have grow: "span_ok s chunk_size as \<Longrightarrow> as \<noteq> [] \<Longrightarrow> span_ok s header_size (as @ [b])" for s as and b :: nat
    by (auto simp: span_ok_def)
  have "fifo_inv ?f"
    using assms(1,2) False fin grow
    by (auto simp: eq fifo_inv_def cursor_ok_def from_chunk_in less_Suc_eq split: option.splits)
  moreover have "contents ?f = contents f" using False fin by (simp add: contents_def eq span_snoc)
  moreover have "unread ?f = unread f" using span(3) fin by (simp add: unread_def c c') (simp add: eq span_snoc)
  ultimately show ?thesis
    by (intro that [of "fb_brk f" ?f]) (simp_all add: eq)
qed

text \<open>What a call of \<^verbatim>\<open>append\<close> promises when the bytes fit.\<close>

definition appended :: "fifobuffer_impl \<Rightarrow> u8 list \<Rightarrow> nat \<Rightarrow> fifobuffer_impl \<Rightarrow> bool" where
  "appended f bs n f' \<longleftrightarrow> n = length bs \<and> fifo_inv f' \<and> contents f' = contents f @ bs \<and>
     unread f' = unread f @ bs \<and> capacity f' + length bs = capacity f"

lemma appended_trans: "\<lbrakk>appended f bs n g; appended g cs m f'\<rbrakk> \<Longrightarrow> appended f (bs @ cs) (n + m) f'"
  by (auto simp: appended_def)

lemma appended_written:
  assumes "fifo_inv f" and "fb_chunkcnt f \<noteq> 0" and "fb_end f + length bs \<le> chunk_size"
  shows "appended f bs (length bs) (written f bs)"
  using written_spec [OF assms] assms(2,3) by (auto simp: appended_def capacity_def)

lemma appended_chunk:
  assumes "fifo_inv f" and "fb_chunkcnt f \<noteq> max_chunkcnt" and "fb_chunkcnt f \<noteq> 0 \<Longrightarrow> fb_end f = chunk_size"
  obtains chk f' where "append_chunk f = (Some chk, f')" and "appended f [] 0 f'"
    and "fb_chunkcnt f' \<noteq> 0" and "fb_end f' = header_size"
proof -
  obtain chk f' where f': "append_chunk f = (Some chk, f')" "fifo_inv f'" "contents f' = contents f"
    "unread f' = unread f" "fb_chunkcnt f' = Suc (fb_chunkcnt f)" "fb_end f' = header_size"
    using assms by (rule append_chunk_spec)
  have "fb_chunkcnt f \<le> max_chunkcnt" using assms(1) by (simp add: fifo_inv_def)
  with f' assms(2,3) have "capacity f' = capacity f" by (auto simp: capacity_def)
  with f' show ?thesis by (intro that) (auto simp: appended_def)
qed

text \<open>A full chunk followed by a new one, the step both loops share.\<close>

lemma appended_full:
  assumes "fifo_inv f" and "fb_chunkcnt f \<noteq> 0" and "fb_end f + length bs = chunk_size"
    and "fb_chunkcnt f \<noteq> max_chunkcnt"
  obtains chk f' where "append_chunk (f\<lparr>fb_heap := store (fb_heap f) (last (fb_chunklist f)) (fb_end f) bs,
      fb_end := header_size\<rparr>) = (Some chk, f')" and "appended f bs (length bs) f'" 
proof -
  have w: "appended f bs (length bs) (written f bs)" using assms by (intro appended_written) auto
  then have inv: "fifo_inv (written f bs)" by (simp add: appended_def)
  obtain chk f' where f': "append_chunk (written f bs) = (Some chk, f')" "appended (written f bs) [] 0 f'"
    by (rule appended_chunk [OF inv]) (use assms in auto)
  have "append_chunk ((written f bs)\<lparr>fb_end := header_size\<rparr>) = (Some chk, f')"
    using f'(1) assms(4) by (subst append_chunk_end) auto
  with appended_trans [OF w f'(2)] show ?thesis by (intro that) auto
qed

lemma capacity_more: "\<lbrakk>fifo_inv f; fb_chunkcnt f \<noteq> 0; chunk_size - fb_end f < capacity f\<rbrakk> \<Longrightarrow> fb_chunkcnt f \<noteq> max_chunkcnt"
  by (auto simp: capacity_def)

lemma append_loop_fits:
  "\<lbrakk>fifo_inv f; length src \<le> capacity f\<rbrakk> \<Longrightarrow> \<exists>f'. append_loop f src = (length src, f') \<and> appended f src (length src) f'"
proof (induction f src rule: append_loop.induct)
  case (1 f src)
  let ?c = "chunk_size - fb_end f"
  consider (nil) "src = []" | (part) "src \<noteq> []" "fb_chunkcnt f \<noteq> 0 \<and> fb_end f < chunk_size" "\<not> ?c < length src"
    | (full) "src \<noteq> []" "fb_chunkcnt f \<noteq> 0 \<and> fb_end f < chunk_size" "?c < length src"
    | (new) "src \<noteq> []" "\<not> (fb_chunkcnt f \<noteq> 0 \<and> fb_end f < chunk_size)" by blast
  then show ?case
  proof cases
    case nil
    with "1.prems" show ?thesis by (subst append_loop.simps) (simp add: appended_def)
  next
    case part
    with "1.prems" appended_written [of f src] show ?thesis by (subst append_loop.simps) (auto simp: Let_def)
  next
    case full
    have cnt: "fb_chunkcnt f \<noteq> max_chunkcnt" using full "1.prems" by (intro capacity_more) auto
    have len: "length (take ?c src) = ?c" using full(3) by simp
    from full len have "fb_end f + length (take ?c src) = chunk_size" by simp
    from appended_full [OF "1.prems"(1) _ this cnt] full(2) obtain chk f1 where
      f1: "append_chunk (f\<lparr>fb_heap := store (fb_heap f) (last (fb_chunklist f)) (fb_end f) (take ?c src),
        fb_end := header_size\<rparr>) = (Some chk, f1)" "appended f (take ?c src) ?c f1"
      unfolding len by blast
    have p: "fifo_inv f1" "length (drop ?c src) \<le> capacity f1"
      using f1(2) "1.prems"(2) full(3) by (auto simp: appended_def)
    from "1.IH"(1) [OF full(1,2) refl refl full(3) refl f1(1) [symmetric] refl p]
    obtain f2 where f2: "append_loop f1 (drop ?c src) = (length (drop ?c src), f2)"
      "appended f1 (drop ?c src) (length (drop ?c src)) f2" by blast
    have run: "append_loop f src = (?c + length (drop ?c src), f2)"
      using full f1(1) f2(1) by (subst append_loop.simps) (simp add: Let_def)
    from appended_trans [OF f1(2) f2(2)] full(3) show ?thesis unfolding run by simp
  next
    case new
    have e: "fb_chunkcnt f \<noteq> 0 \<Longrightarrow> fb_end f = chunk_size"
      using new "1.prems"(1) by (auto simp: fifo_inv_def span_ok_def split: if_splits)
    have cnt: "fb_chunkcnt f \<noteq> max_chunkcnt"
      using new(1) "1.prems"(2) e by (auto simp: capacity_def)
    from appended_chunk [OF "1.prems"(1) cnt e] obtain chk f1 where
      f1: "append_chunk f = (Some chk, f1)" "appended f [] 0 f1" by blast
    have p: "fifo_inv f1" "length src \<le> capacity f1" using f1(2) "1.prems"(2) by (auto simp: appended_def)
    from "1.IH"(2) [OF new f1(1) [symmetric] refl p] obtain f2 where
      f2: "append_loop f1 src = (length src, f2)" "appended f1 src (length src) f2" by blast
    have run: "append_loop f src = (length src, f2)"
      using new f1(1) f2(1) by (subst append_loop.simps) auto
    from appended_trans [OF f1(2) f2(2)] show ?thesis unfolding run by simp
  qed
qed

lemma append_fits:
  assumes "fifo_inv f" and "length src \<le> capacity f"
  obtains f' where "fb_append f src = (length src, f')" and "appended f src (length src) f'"
proof -
  have "append_loop f [] = (0, f)" by (subst append_loop.simps) simp
  then have "fb_append f src = append_loop f src" by (simp add: fb_append_def)
  with append_loop_fits [OF assms] that show ?thesis by auto
qed

text \<open>
  When they do not fit, the loop fills the last chunk, sets \<^verbatim>\<open>_end\<close> for the chunk it is about to
  add, and leaves it there when there is no such chunk.
\<close>

lemma chunk_span_cut:
  "\<lbrakk>1 < length as; span_ok s chunk_size as\<rbrakk> \<Longrightarrow>
    chunk_span h s header_size as = take (length (chunk_span h s chunk_size as) - (chunk_size - header_size))
      (chunk_span h s chunk_size as)"
proof (induction as arbitrary: s)
  case (Cons a as)
  show ?case
  proof (cases "1 < length as")
    case True
    have len: "chunk_size - header_size \<le> length (chunk_span h header_size chunk_size as)"
      using length_span [of as header_size chunk_size h] True by (cases as) (simp_all add: span_ok_def)
    from True Cons.IH [OF True span_ok_tl [OF Cons.prems(2)]] len show ?thesis
      by (auto simp: add.commute)
  next
    case False
    with Cons.prems obtain b where "as = [b]" by (cases as) auto
    then show ?thesis by simp
  qed
qed simp

definition overflowed :: "fifobuffer_impl \<Rightarrow> u8 list \<Rightarrow> nat \<Rightarrow> fifobuffer_impl \<Rightarrow> bool" where
  "overflowed f src n f' \<longleftrightarrow> n = capacity f \<and> fb_chunkcnt f' = max_chunkcnt \<and> fifo_inv (rewound f') \<and>
     (if capacity f = 0 then f' = f
      else fb_end f' = header_size \<and>
        contents f' = take (length (contents f) + capacity f - (chunk_size - header_size)) (contents f @ src))"

lemma overflowed_written:
  assumes "fifo_inv f" and "fb_chunkcnt f = max_chunkcnt" and "fb_end f < chunk_size"
    and "chunk_size - fb_end f < length src"
  shows "overflowed f src (chunk_size - fb_end f)
    (f\<lparr>fb_heap := store (fb_heap f) (last (fb_chunklist f)) (fb_end f) (take (chunk_size - fb_end f) src),
       fb_end := header_size\<rparr>)"
proof -
  let ?bs = "take (chunk_size - fb_end f) src" and ?w = "written f (take (chunk_size - fb_end f) src)"
  have "fb_chunkcnt f \<noteq> 0" "fb_end f + length ?bs \<le> chunk_size" using assms by auto
  note w = written_spec [OF assms(1) this]
  have e: "fb_end ?w = chunk_size" using assms(3,4) by simp
  have cap: "capacity f = chunk_size - fb_end f" using assms(2) by (simp add: capacity_def)
  have as: "1 < length (fb_chunklist ?w)" "span_ok (fb_start ?w) chunk_size (fb_chunklist ?w)"
    using w(3) assms(2) e unfolding fifo_inv_def by (auto split: if_splits)
  have "contents (?w\<lparr>fb_end := header_size\<rparr>) =
      take (length (contents ?w) - (chunk_size - header_size)) (contents ?w)"
    using chunk_span_cut [OF as, of "fb_heap ?w"] e by (simp add: contents_def)
  then have c: "contents (?w\<lparr>fb_end := header_size\<rparr>) =
      take (length (contents f) + capacity f - (chunk_size - header_size)) (contents f @ src)"
    using assms(4) cap unfolding w(1) by (auto simp: take_append)
  have "fifo_inv (rewound (?w\<lparr>fb_end := header_size\<rparr>))"
    using w(3) as by (auto simp: fifo_inv_def cursor_ok_def span_ok_def)
  with c cap assms(2,3) show ?thesis by (simp add: overflowed_def)
qed

lemma append_loop_overflow:
  "\<lbrakk>fifo_inv f; capacity f < length src\<rbrakk> \<Longrightarrow> overflowed f src (fst (append_loop f src)) (snd (append_loop f src))"
proof (induction f src rule: append_loop.induct)
  case (1 f src)
  let ?c = "chunk_size - fb_end f"
  have ne: "src \<noteq> []" using "1.prems" by auto
  show ?case
  proof (cases "fb_chunkcnt f \<noteq> 0 \<and> fb_end f < chunk_size")
    case True
    then have full: "?c < length src" using "1.prems"(2) by (auto simp: capacity_def)
    show ?thesis
    proof (cases "fb_chunkcnt f = max_chunkcnt")
      case max: True
      then have "append_loop f src = (?c, f\<lparr>fb_heap := store (fb_heap f) (last (fb_chunklist f)) (fb_end f)
          (take ?c src), fb_end := header_size\<rparr>)"
        using ne True full by (subst append_loop.simps) (simp add: Let_def append_chunk_def)
      with overflowed_written [OF "1.prems"(1) max _ full] True show ?thesis by simp
    next
      case cnt: False
      have len: "length (take ?c src) = ?c" using full by simp
      from True len have "fb_end f + length (take ?c src) = chunk_size" by simp
      from appended_full [OF "1.prems"(1) _ this cnt] True obtain chk f1 where
        f1: "append_chunk (f\<lparr>fb_heap := store (fb_heap f) (last (fb_chunklist f)) (fb_end f) (take ?c src),
          fb_end := header_size\<rparr>) = (Some chk, f1)" "appended f (take ?c src) ?c f1"
        unfolding len by blast
      have p: "fifo_inv f1" "capacity f1 < length (drop ?c src)"
        using f1(2) "1.prems"(2) full by (auto simp: appended_def)
      have "fb_chunkcnt f \<le> max_chunkcnt" using "1.prems"(1) by (simp add: fifo_inv_def)
      then have cap: "capacity f1 \<noteq> 0" using f1(2) cnt True by (auto simp: appended_def capacity_def)
      note IH = "1.IH"(1) [OF ne True refl refl full refl f1(1) [symmetric] refl p]
      have run: "append_loop f src = (?c + fst (append_loop f1 (drop ?c src)), snd (append_loop f1 (drop ?c src)))"
        using ne True full f1(1) by (subst append_loop.simps) (simp add: Let_def case_prod_beta)
      have capf: "capacity f = ?c + capacity f1" using f1(2) full by (auto simp: appended_def)
      from IH f1(2) cap show ?thesis
        unfolding run overflowed_def appended_def by (simp add: capf ac_simps)
    qed
  next
    case False
    have e: "fb_chunkcnt f \<noteq> 0 \<Longrightarrow> fb_end f = chunk_size"
      using False "1.prems"(1) by (auto simp: fifo_inv_def span_ok_def split: if_splits)
    show ?thesis
    proof (cases "fb_chunkcnt f = max_chunkcnt")
      case True
      then have "append_loop f src = (0, f)"
        using ne e by (subst append_loop.simps) (simp add: append_chunk_def)
      with True e fifo_inv_rewound [OF "1.prems"(1)] show ?thesis by (simp add: overflowed_def capacity_def)
    next
      case cnt: False
      from appended_chunk [OF "1.prems"(1) cnt e] obtain chk f1 where
        f1: "append_chunk f = (Some chk, f1)" "appended f [] 0 f1" "fb_chunkcnt f1 \<noteq> 0" "fb_end f1 = header_size"
        by blast
      have p: "fifo_inv f1" "capacity f1 < length src" using f1(2) "1.prems"(2) by (auto simp: appended_def)
      note IH = "1.IH"(2) [OF ne False f1(1) [symmetric] refl p]
      have cap: "capacity f1 \<noteq> 0" using f1(3,4) by (simp add: capacity_def)
      have run: "append_loop f src = append_loop f1 src"
        using ne False f1(1) by (subst append_loop.simps) auto
      from IH f1(2) cap show ?thesis unfolding run overflowed_def appended_def by simp
    qed
  qed
qed

text \<open>Reading in two parts is reading at once, unless the first part is short.\<close>

lemma nonblk_read_add:
  "nonblk_read (a + b) evs =
     (let (x, e1) = nonblk_read a evs
      in if length x < a then (x, e1) else let (y, e2) = nonblk_read b e1 in (x @ y, e2))"
proof (induction evs arbitrary: a)
  case Nil
  then show ?case by (simp add: nonblk_read.simps)
next
  case (Cons ev evs)
  show ?case
  proof (cases "a = 0")
    case True
    then show ?thesis by (simp add: nonblk_read.simps [of 0] case_prod_beta)
  next
    case a: False
    show ?thesis
    proof (cases ev)
      case (Got bs)
      consider "bs = []" | "bs \<noteq> []" "length bs \<le> a" | "bs \<noteq> []" "a < length bs" by linarith
      then show ?thesis
      proof cases
        case 2
        have "nonblk_read (a + b) (ev # evs) = (bs @ fst (nonblk_read (a - length bs + b) evs),
            snd (nonblk_read (a - length bs + b) evs))"
          using 2 a Got by (subst nonblk_read.simps) (simp add: case_prod_beta)
        moreover have "nonblk_read a (ev # evs) = (bs @ fst (nonblk_read (a - length bs) evs),
            snd (nonblk_read (a - length bs) evs))"
          using 2 a Got by (subst nonblk_read.simps) (simp add: case_prod_beta)
        ultimately show ?thesis
          using Cons.IH [of "a - length bs"] 2 by (auto simp: case_prod_beta Let_def split: if_splits)
      next
        case 3
        then have r: "nonblk_read a (ev # evs) = (take a bs, Got (drop a bs) # evs)"
          using a Got by (subst nonblk_read.simps) simp
        have "bs = take a bs @ drop a bs" by simp
        show ?thesis
          unfolding r using 3 a Got
          by (subst (1 2) nonblk_read.simps) (auto simp: case_prod_beta take_add add.commute min_def)
      qed (use a Got in \<open>simp add: nonblk_read.simps [of _ "_ # _"]\<close>)
    qed (use a Cons.IH in \<open>simp_all add: nonblk_read.simps [of _ "_ # _"]\<close>)
  qed
qed

lemma append_fd_loop_fits:
  "\<lbrakk>fifo_inv f; sz \<le> capacity f\<rbrakk> \<Longrightarrow>
    \<exists>f'. append_fd_loop f fd sz = (length (fst (nonblk_read sz fd)), f', snd (nonblk_read sz fd)) \<and>
      appended f (fst (nonblk_read sz fd)) (length (fst (nonblk_read sz fd))) f'"
proof (induction f fd sz rule: append_fd_loop.induct)
  case (1 f fd sz)
  let ?c = "chunk_size - fb_end f"
  consider (nil) "sz = 0" | (part) "sz \<noteq> 0" "fb_chunkcnt f \<noteq> 0 \<and> fb_end f < chunk_size" "\<not> ?c < sz"
    | (full) "sz \<noteq> 0" "fb_chunkcnt f \<noteq> 0 \<and> fb_end f < chunk_size" "?c < sz"
    | (new) "sz \<noteq> 0" "\<not> (fb_chunkcnt f \<noteq> 0 \<and> fb_end f < chunk_size)" by blast
  then show ?case
  proof cases
    case nil
    with "1.prems" show ?thesis
      by (subst append_fd_loop.simps) (simp add: appended_def nonblk_read.simps)
  next
    case part
    have "appended f (fst (nonblk_read sz fd)) (length (fst (nonblk_read sz fd))) (written f (fst (nonblk_read sz fd)))"
      using part "1.prems" nonblk_read_length [of sz fd] by (intro appended_written) auto
    with part show ?thesis by (subst append_fd_loop.simps) (simp add: Let_def case_prod_beta)
  next
    case full
    obtain bs fd1 where r: "nonblk_read ?c fd = (bs, fd1)" by (cases "nonblk_read ?c fd")
    have len: "length bs \<le> ?c" using nonblk_read_length [of ?c fd] r by simp
    have add: "nonblk_read sz fd = (if length bs < ?c then (bs, fd1)
        else (bs @ fst (nonblk_read (sz - ?c) fd1), snd (nonblk_read (sz - ?c) fd1)))"
      using nonblk_read_add [of ?c "sz - ?c" fd] full(3) r by (simp add: case_prod_beta Let_def)
    show ?thesis
    proof (cases "length bs < ?c")
      case True
      then have run: "append_fd_loop f fd sz = (length bs, written f bs, fd1)"
        using full r by (subst append_fd_loop.simps) (simp add: Let_def)
      have "appended f bs (length bs) (written f bs)"
        using full(2) "1.prems" len by (intro appended_written) auto
      with True show ?thesis unfolding run add by simp
    next
      case False
      with len have c: "length bs = ?c" by simp
      have cnt: "fb_chunkcnt f \<noteq> max_chunkcnt" using full "1.prems" by (intro capacity_more) auto
      from full c have "fb_end f + length bs = chunk_size" by simp
      from appended_full [OF "1.prems"(1) _ this cnt] full(2) obtain chk f1 where
        f1: "append_chunk (f\<lparr>fb_heap := store (fb_heap f) (last (fb_chunklist f)) (fb_end f) bs,
          fb_end := header_size\<rparr>) = (Some chk, f1)" "appended f bs (length bs) f1" by blast
      have p: "fifo_inv f1" "sz - length bs \<le> capacity f1"
        using f1(2) "1.prems"(2) by (auto simp: appended_def)
      note IH = "1.IH"(1) [OF full(1,2) refl refl full(3) refl r [symmetric] refl refl False f1(1) [symmetric] refl p]
      then obtain f2 where f2: "append_fd_loop f1 fd1 (sz - length bs) =
          (length (fst (nonblk_read (sz - length bs) fd1)), f2, snd (nonblk_read (sz - length bs) fd1))"
        "appended f1 (fst (nonblk_read (sz - length bs) fd1)) (length (fst (nonblk_read (sz - length bs) fd1))) f2"
        by blast
      have run: "append_fd_loop f fd sz = (length bs + length (fst (nonblk_read (sz - length bs) fd1)), f2,
          snd (nonblk_read (sz - length bs) fd1))"
        using full r False f1(1) f2(1) by (subst append_fd_loop.simps) (simp add: Let_def)
      from appended_trans [OF f1(2) f2(2)] False c show ?thesis unfolding run add by simp
    qed
  next
    case new
    have e: "fb_chunkcnt f \<noteq> 0 \<Longrightarrow> fb_end f = chunk_size"
      using new "1.prems"(1) by (auto simp: fifo_inv_def span_ok_def split: if_splits)
    have cnt: "fb_chunkcnt f \<noteq> max_chunkcnt"
      using new(1) "1.prems"(2) e by (auto simp: capacity_def)
    from appended_chunk [OF "1.prems"(1) cnt e] obtain chk f1 where
      f1: "append_chunk f = (Some chk, f1)" "appended f [] 0 f1" by blast
    have p: "fifo_inv f1" "sz \<le> capacity f1" using f1(2) "1.prems"(2) by (auto simp: appended_def)
    from "1.IH"(2) [OF new f1(1) [symmetric] refl p] obtain f2 where
      f2: "append_fd_loop f1 fd sz = (length (fst (nonblk_read sz fd)), f2, snd (nonblk_read sz fd))"
      "appended f1 (fst (nonblk_read sz fd)) (length (fst (nonblk_read sz fd))) f2" by blast
    have run: "append_fd_loop f fd sz = (length (fst (nonblk_read sz fd)), f2, snd (nonblk_read sz fd))"
      using new f1(1) f2(1) by (subst append_fd_loop.simps) auto
    from appended_trans [OF f1(2) f2(2)] show ?thesis unfolding run by simp
  qed
qed

subsection \<open>Reading through the cursor\<close>

lemma contents_unread_nil: "\<lbrakk>fifo_inv f; fb_chunklist f = []\<rbrakk> \<Longrightarrow> contents f = [] \<and> unread f = []"
  by (auto simp: fifo_inv_def contents_def unread_def getoffset_def cursor_ok_def split: option.splits)

text \<open>Moving the cursor to a place the loops computed.\<close>

lemma at_place_cursor:
  assumes "fifo_inv f" and "at_place (fb_heap f) (fb_end f) (fb_chunklist f) a (off + header_size) bs"
  defines "f' \<equiv> f\<lparr>fb_chkoff := Some a, fb_offset := off\<rparr>"
  shows "fifo_inv f'" and "contents f' = contents f" and "unread f' = bs" and "capacity f' = capacity f"
  using assms by (auto simp: fifo_inv_def at_place_def cursor_ok_def contents_def unread_def getoffset_def capacity_def)

lemma at_place_item:
  assumes "fifo_inv f" and "getoffset f = (item, start)" and "fb_chunklist f \<noteq> []"
    and "at_place h e item a p bs"
  shows "at_place h e (fb_chunklist f) a p bs"
  using assms(4) cursor_span(4,7) [OF assms(1-3)] by (auto simp: at_place_def)

lemma read_spec:
  assumes "fifo_inv f" and "0 < sz"
  shows "if fb_chunklist f = [] then fb_read f sz = None
    else \<exists>f'. fb_read f sz = Some (take sz (unread f), f') \<and> fifo_inv f' \<and> contents f' = contents f \<and>
      unread f' = drop sz (unread f) \<and> capacity f' = capacity f"
proof (cases "fb_chunklist f = []")
  case True
  with assms show ?thesis
    by (auto simp: fb_read_def getoffset_def fifo_inv_def cursor_ok_def split: option.splits)
next
  case False
  obtain item start where c: "getoffset f = (item, start)" by (cases "getoffset f")
  note span = cursor_span [OF assms(1) c False]
  from read_loop_place [OF span(1,2,3) assms(2), of "fb_heap f" None] obtain a p where
    p: "snd (read_loop (fb_heap f) (fb_end f) start sz None item) = Some (a, p)" "header_size \<le> p"
    "at_place (fb_heap f) (fb_end f) item a p (drop sz (chunk_span (fb_heap f) start (fb_end f) item))" by blast
  have swap: "f\<lparr>fb_offset := p - header_size, fb_chkoff := Some a\<rparr> = f\<lparr>fb_chkoff := Some a, fb_offset := p - header_size\<rparr>"
    by simp
  have run: "fb_read f sz = Some (take sz (unread f), f\<lparr>fb_offset := p - header_size, fb_chkoff := Some a\<rparr>)"
    using assms(2) p(1) read_loop_bytes [OF span(1), of "fb_heap f" sz None]
    by (auto simp: fb_read_def c span(6) split: prod.splits)
  have "at_place (fb_heap f) (fb_end f) (fb_chunklist f) a (p - header_size + header_size) (drop sz (unread f))"
    using at_place_item [OF assms(1) c False p(3)] p(2) by (simp add: span(6))
  from at_place_cursor [OF assms(1) this] False show ?thesis
    unfolding run swap by auto
qed

lemma seek_cur_spec:
  assumes "fifo_inv f" and "fb_seek f d 1 = (r, f')"
  shows "if d = 0 \<or> d < length (unread f)
    then r = 0 \<and> fifo_inv f' \<and> contents f' = contents f \<and> unread f' = drop d (unread f)
    else r = - EEOF \<and> f' = f"
proof (cases "d = 0 \<or> fb_chunklist f = []")
  case True
  have "getoffset f = ([], 0)" if "fb_chunklist f = []"
    using assms(1) that by (auto simp: getoffset_def fifo_inv_def cursor_ok_def split: option.splits)
  with True assms contents_unread_nil [OF assms(1)] show ?thesis
    by (cases "d = 0") (auto simp: fb_seek_def calc_offset_delta_def)
next
  case False
  then have ne: "fb_chunklist f \<noteq> []" by simp
  obtain item start where c: "getoffset f = (item, start)" by (cases "getoffset f")
  note span = cursor_span [OF assms(1) c ne]
  note place = delta_loop_place [OF span(1,2), where d = d and h = "fb_heap f"]
  show ?thesis
  proof (cases "delta_loop (fb_end f) start d item")
    case None
    with place have "\<not> d < length (unread f)" by (simp add: span(6))
    with None False assms(2) show ?thesis by (auto simp: fb_seek_def calc_offset_delta_def c)
  next
    case (Some x)
    obtain a off where x: "x = (a, off)" by (cases x)
    with Some place have lt: "d < length (unread f)"
      and "at_place (fb_heap f) (fb_end f) item a (off + header_size) (drop d (unread f))"
      by (simp_all add: span(6))
    note at = at_place_cursor [OF assms(1) at_place_item [OF assms(1) c ne this(2)]]
    from False Some x assms(2) have "f' = f\<lparr>fb_chkoff := Some a, fb_offset := off\<rparr>" "r = 0"
      by (auto simp: fb_seek_def calc_offset_delta_def c)
    with at lt show ?thesis by simp
  qed
qed

lemma calc_offset_spec:
  assumes "fifo_inv f"
  shows "if pos < length (contents f)
    then \<exists>a off. calc_offset f pos = Some (Some a, off) \<and>
      at_place (fb_heap f) (fb_end f) (fb_chunklist f) a (off + header_size) (drop pos (contents f))
    else calc_offset f pos = None"
proof (cases "pos < length (contents f)")
  case True
  then have ne: "fb_chunklist f \<noteq> []" using contents_unread_nil [OF assms] by auto
  with assms have ok: "span_ok (fb_start f) (fb_end f) (fb_chunklist f)" "distinct (fb_chunklist f)"
    by (simp_all add: fifo_inv_def)
  from delta_loop_place [OF ok, where d = pos and h = "fb_heap f"] True obtain a off where
    d: "delta_loop (fb_end f) (fb_start f) pos (fb_chunklist f) = Some (a, off)"
    "at_place (fb_heap f) (fb_end f) (fb_chunklist f) a (off + header_size) (drop pos (contents f))"
    by (auto simp: contents_def split: option.splits)
  from calc_loop_delta [OF d(1)] d(2) True show ?thesis
    by (auto simp: calc_offset_def unat_getsize [OF assms])
qed (simp add: calc_offset_def unat_getsize [OF assms])

lemma seek_set_spec:
  assumes "fifo_inv f" and "fb_seek f pos 0 = (r, f')"
  shows "if pos < length (contents f)
    then r = 0 \<and> fifo_inv f' \<and> contents f' = contents f \<and> unread f' = drop pos (contents f)
    else r = - 1 \<and> f' = f"
  using calc_offset_spec [OF assms(1), of pos] assms(2) at_place_cursor [OF assms(1)]
  by (auto simp: fb_seek_def split: if_splits)

lemma peekdata_spec:
  assumes "fifo_inv f"
  shows "peekdata f pos sz = take sz (drop pos (contents f))"
  using calc_offset_spec [OF assms, of pos]
  by (auto simp: peekdata_def at_place_def read_loop_bytes split: if_splits)

section \<open>The contract of a bounded queue\<close>

datatype 'b queue_op = Put "'b list" | Take nat

text \<open>A sequence of calls, with the bytes the removals return.\<close>

fun run_ops :: "('s \<Rightarrow> 'b list \<Rightarrow> nat \<times> 's) \<Rightarrow> ('s \<Rightarrow> nat \<Rightarrow> 'b list \<times> 's) \<Rightarrow> 's \<Rightarrow> 'b queue_op list \<Rightarrow> 'b list \<times> 's"
where
  "run_ops app rem s [] = ([], s)"
| "run_ops app rem s (Put bs # ops) = run_ops app rem (snd (app s bs)) ops"
| "run_ops app rem s (Take k # ops) =
     (let (bs, s') = rem s k; (rest, s'') = run_ops app rem s' ops in (bs @ rest, s''))"

fun puts :: "'b queue_op list \<Rightarrow> 'b list" where
  "puts [] = []"
| "puts (Put bs # ops) = bs @ puts ops"
| "puts (Take k # ops) = puts ops"

locale bounded_queue =
  fixes inv :: "'s \<Rightarrow> bool" and elems :: "'s \<Rightarrow> 'b list" and room :: "'s \<Rightarrow> nat"
    and app :: "'s \<Rightarrow> 'b list \<Rightarrow> nat \<times> 's" and rem :: "'s \<Rightarrow> nat \<Rightarrow> 'b list \<times> 's"
  assumes app_law: "\<lbrakk>inv s; length bs \<le> room s; app s bs = (n, s')\<rbrakk> \<Longrightarrow>
      n = length bs \<and> inv s' \<and> elems s' = elems s @ bs \<and> room s' + length bs = room s"
    and rem_law: "\<lbrakk>inv s; rem s k = (bs, s')\<rbrakk> \<Longrightarrow>
      bs = take k (elems s) \<and> inv s' \<and> elems s' = drop k (elems s) \<and> room s \<le> room s'"
begin

lemma run_ops_fifo:
  assumes "inv s" and "length (puts ops) \<le> room s" and "run_ops app rem s ops = (out, s')"
  shows "out @ elems s' = elems s @ puts ops \<and> inv s'"
  using assms
proof (induction ops arbitrary: s out)
  case Nil
  then show ?case by simp
next
  case (Cons op ops)
  show ?case
  proof (cases op)
    case (Put bs)
    obtain n s1 where a: "app s bs = (n, s1)" by (cases "app s bs")
    from app_law [OF Cons.prems(1) _ a] Cons.prems(2) Put
    have "inv s1" "elems s1 = elems s @ bs" "length (puts ops) \<le> room s1" by auto
    with Cons.IH [of s1 out] Cons.prems(3) Put a show ?thesis by simp
  next
    case (Take k)
    obtain bs s1 where r: "rem s k = (bs, s1)" by (cases "rem s k")
    obtain rest where rest: "run_ops app rem s1 ops = (rest, s')" "out = bs @ rest"
      using Cons.prems(3) Take r by (auto split: prod.splits)
    from rem_law [OF Cons.prems(1) r] Cons.prems(2) Take
    have "inv s1" "bs @ elems s1 = elems s" "length (puts ops) \<le> room s1" by auto
    with Cons.IH [OF this(1,3) rest(1)] rest(2) Take show ?thesis
      by (metis append.assoc puts.simps(3))
  qed
qed

end

lemma capacity_release: "\<lbrakk>fifo_inv (rewound f); fb_chunkcnt f \<noteq> 0\<rbrakk> \<Longrightarrow> capacity f \<le> capacity (snd (release_chunk f))"
  by (auto simp: capacity_def release_chunk_def Let_def fifo_inv_def span_ok_def diff_Suc split: if_splits nat.splits)

lemma capacity_remove_loop: "fifo_inv (rewound f) \<Longrightarrow> capacity f \<le> capacity (snd (remove_loop f sz))"
proof (induction "fb_chunkcnt f" arbitrary: f sz)
  case 0
  then show ?case by (subst remove_loop.simps) simp
next
  case (Suc n)
  obtain a as where Cons: "fb_chunklist f = a # as"
    using Suc.prems Suc.hyps(2) by (cases "fb_chunklist f") (auto simp: fifo_inv_def)
  have cnt: "fb_chunkcnt f \<noteq> 0" "n = fb_chunkcnt (snd (release_chunk f))"
    using Suc.hyps(2) by (auto simp: release_chunk_def Let_def)
  note IH = Suc.hyps(1) [OF cnt(2) remove_round(2) [OF Suc.prems Cons]]
  have start: "capacity (f\<lparr>fb_start := k\<rparr>) = capacity f" for k by (simp add: capacity_def)
  show ?case
    using capacity_release [OF Suc.prems cnt(1)] IH cnt(1)
    by (subst remove_loop.simps) (auto simp: Let_def start case_prod_beta intro: order_trans)
qed

lemma capacity_remove: "\<lbrakk>fifo_inv f; fb_remove f sz = (bs, f')\<rbrakk> \<Longrightarrow> capacity f \<le> capacity f'"
  using capacity_remove_loop [OF fifo_inv_rewound, of f sz]
  by (auto simp: fb_remove_def remove_discard_def capacity_def split: if_splits prod.splits)

interpretation fifo: bounded_queue fifo_inv contents capacity fb_append fb_remove
proof unfold_locales
  fix s bs n s'
  assume "fifo_inv s" and "length bs \<le> capacity s" and "fb_append s bs = (n, s')"
  with append_fits [of s bs] show "n = length bs \<and> fifo_inv s' \<and> contents s' = contents s @ bs \<and>
      capacity s' + length bs = capacity s"
    by (auto simp: appended_def)
next
  fix s k bs s'
  assume "fifo_inv s" and "fb_remove s k = (bs, s')"
  with remove_spec [of s k bs s'] capacity_remove [of s k bs s']
  show "bs = take k (contents s) \<and> fifo_inv s' \<and> contents s' = drop k (contents s) \<and> capacity s \<le> capacity s'"
    by blast
qed

section \<open>Properties\<close>

text \<open>
  C5: A new buffer is a first-in first-out queue: for every sequence of appends and removals
  that appends at most 256 * 4080 bytes in all, the bytes removed followed by those still in
  the buffer are exactly the bytes appended, in order, and the buffer stays well formed.
\<close>

theorem fifo_order:
  assumes "length (puts ops) \<le> 256 * 4080"
    and "run_ops fb_append fb_remove (fifobuffer_ctor heap brk) ops = (out, f')"
  shows "out @ contents f' = puts ops \<and> fifo_inv f'"
proof -
  have "length (puts ops) \<le> capacity (fifobuffer_ctor heap brk)"
    using assms(1) by (simp add: capacity_def fifobuffer_ctor_def)
  from fifo.run_ops_fifo [OF fifo_inv_ctor this assms(2)] show ?thesis
    by (simp add: contents_ctor)
qed

theorem fifo_order_witness:
  "fst (run_ops fb_append fb_remove (fifobuffer_ctor (\<lambda>_ _. 0) 0) [Put [1, 2, 3], Take 2, Put [4], Take 5])
     @ contents (snd (run_ops fb_append fb_remove (fifobuffer_ctor (\<lambda>_ _. 0) 0)
         [Put [1, 2, 3], Take 2, Put [4], Take 5])) = [1, 2, 3, 4]"
  using fifo_order [OF _ surjective_pairing, of "[Put [1, 2, 3], Take 2, Put [4], Take 5]" "\<lambda>_ _. 0" 0] by simp

text \<open>
  The size that the buffer computes in \<^verbatim>\<open>size_t\<close> arithmetic is the number of bytes in it,
  with no wrap-around, and \<^verbatim>\<open>empty()\<close> holds exactly when there are none.
\<close>

theorem fifo_getsize:
  assumes "fifo_inv f"
  shows "unat (getsize f) = length (contents f) \<and> (fb_empty f \<longleftrightarrow> contents f = [])"
  using unat_getsize [OF assms] fb_empty_iff [OF assms] by blast

theorem fifo_getsize_witness:
  "unat (getsize (fifobuffer_ctor (\<lambda>_ _. 0) 0)) = length (contents (fifobuffer_ctor (\<lambda>_ _. 0) 0))"
  using fifo_getsize [OF fifo_inv_ctor] by blast

text \<open>
  The cursor reads the buffer as it is: after \<^verbatim>\<open>seek(pos)\<close> to a byte in the buffer, \<^verbatim>\<open>read\<close>
  returns what \<^verbatim>\<open>peekdata\<close> shows there, the bytes from \<open>pos\<close> on across all chunk borders, moves
  the cursor behind them and takes nothing out of the buffer; a seek to the end or behind it
  fails and moves nothing.
\<close>

theorem fifo_cursor:
  assumes "fifo_inv f" and "0 < sz" and "fb_seek f pos 0 = (r, f1)"
  shows "if pos < length (contents f)
    then r = 0 \<and> peekdata f pos sz = take sz (drop pos (contents f)) \<and>
      (\<exists>f2. fb_read f1 sz = Some (take sz (drop pos (contents f)), f2) \<and> fifo_inv f2 \<and>
        contents f2 = contents f \<and> unread f2 = drop (pos + sz) (contents f))
    else r = - 1 \<and> f1 = f \<and> peekdata f pos sz = []"
proof (cases "pos < length (contents f)")
  case True
  then have r: "r = 0" "fifo_inv f1" "contents f1 = contents f" "unread f1 = drop pos (contents f)"
    using seek_set_spec [OF assms(1,3)] by auto
  have ne: "fb_chunklist f1 \<noteq> []" using contents_unread_nil [OF r(2)] r(3) True by auto
  from read_spec [OF r(2) assms(2)] ne r(3,4)
  have "\<exists>f2. fb_read f1 sz = Some (take sz (drop pos (contents f)), f2) \<and> fifo_inv f2 \<and>
      contents f2 = contents f \<and> unread f2 = drop (pos + sz) (contents f)"
    by (auto simp: add.commute)
  with True r(1) peekdata_spec [OF assms(1)] show ?thesis by simp
next
  case False
  with seek_set_spec [OF assms(1,3)] peekdata_spec [OF assms(1)] show ?thesis by simp
qed

text \<open>A buffer with one chunk that holds three bytes.\<close>

definition sample_fifo :: fifobuffer_impl where
  "sample_fifo = \<lparr>fb_heap = (\<lambda>_ i. of_nat i), fb_brk = 1, fb_chunklist = [0], fb_start = 16, fb_end = 19,
     fb_offset = 0, fb_chkoff = None, fb_chunkcnt = 1, fb_locked = False\<rparr>"

lemma sample_fifo_ok: "fifo_inv sample_fifo" "contents sample_fifo = [16, 17, 18]"
  by (simp_all add: sample_fifo_def fifo_inv_def cursor_ok_def span_ok_def contents_def bytes_def upt_rec)

theorem fifo_cursor_witness:
  "\<exists>f2. fb_read (snd (fb_seek sample_fifo 1 0)) 5 = Some ([17, 18], f2) \<and> contents f2 = [16, 17, 18]"
  using fifo_cursor [OF sample_fifo_ok(1) _ surjective_pairing, of 5 1] by (auto simp: sample_fifo_ok(2))

text \<open>
  Appending from a descriptor stores exactly the bytes that one read of the same size
  would deliver, however the chunks split it, and leaves the descriptor where that read would.
\<close>

theorem fifo_append_fd:
  assumes "fifo_inv f" and "sz \<le> capacity f"
  shows "\<exists>f'. fb_append_fd f fd sz = (length (fst (nonblk_read sz fd)), f', snd (nonblk_read sz fd)) \<and>
    fifo_inv f' \<and> contents f' = contents f @ fst (nonblk_read sz fd) \<and>
    unread f' = unread f @ fst (nonblk_read sz fd)"
proof -
  have "append_fd_loop f fd 0 = (0, f, fd)" by (subst append_fd_loop.simps) simp
  then have "fb_append_fd f fd sz = append_fd_loop f fd sz" by (simp add: fb_append_fd_def)
  with append_fd_loop_fits [OF assms, of fd] show ?thesis by (auto simp: appended_def)
qed

theorem fifo_append_fd_witness:
  "\<exists>f'. fb_append_fd sample_fifo [Eintr, Got [1, 2], Eagain] 3 = (2, f', []) \<and> contents f' = [16, 17, 18, 1, 2]"
proof -
  have "nonblk_read 3 [Eintr, Got [1, 2], Eagain] = ([1, 2], [])" by (simp add: nonblk_read.simps)
  moreover have "3 \<le> capacity sample_fifo" by (simp add: capacity_def sample_fifo_def)
  ultimately show ?thesis
    using fifo_append_fd [OF sample_fifo_ok(1), of 3 "[Eintr, Got [1, 2], Eagain]"]
    by (auto simp: sample_fifo_ok(2))
qed

text \<open>
  An append of more bytes than the 256 chunks can take reports all bytes it had room for
  as stored, but drops the whole last chunk: \<^verbatim>\<open>_end\<close> already points behind the header of the
  chunk that could not be added, so that 4080 bytes vanish from the buffer.
\<close>

theorem fifo_append_overflow:
  assumes "fifo_inv f" and "0 < capacity f" and "capacity f < length src"
  shows "fst (fb_append f src) = capacity f \<and>
    contents (snd (fb_append f src)) = take (length (contents f) + capacity f - 4080) (contents f @ src)"
  using append_loop_overflow [OF assms(1,3)] assms(2,3) by (auto simp: fb_append_def overflowed_def)

definition sample_full :: fifobuffer_impl where
  "sample_full = \<lparr>fb_heap = (\<lambda>_ _. 7), fb_brk = 256, fb_chunklist = [0..<256], fb_start = 16, fb_end = 4095,
     fb_offset = 0, fb_chkoff = None, fb_chunkcnt = 256, fb_locked = False\<rparr>"

theorem fifo_append_overflow_witness:
  "fst (fb_append sample_full [1, 2]) = 1 \<and>
   length (contents (snd (fb_append sample_full [1, 2]))) + 4080 = length (contents sample_full) + 1"
proof -
  have ne: "[0..<256] \<noteq> ([] :: nat list)" by simp
  have inv: "fifo_inv sample_full"
    by (simp add: sample_full_def fifo_inv_def cursor_ok_def span_ok_def del: upt_conv_Cons)
  have cap: "capacity sample_full = 1" by (simp add: capacity_def sample_full_def)
  have "int (length (contents sample_full)) = 4096 * 256 - 16 - (4096 - 4095) - 16 * 255"
    using length_span [of "[0..<256]" 16 4095] unfolding contents_def
    by (simp add: sample_full_def span_ok_def)
  then show ?thesis using fifo_append_overflow [OF inv, of "[1, 2]"] by (simp add: cap)
qed

end
