(* ===== verification/Json.thy ===== *)
theory Json
  imports Uri
begin

text \<open>
  The JSON reader and writer of \<^verbatim>\<open>mec/zsfd/utils/json.cpp\<close>. A text is the list of its characters
  before the NUL. Parsing gives a value and the rest of the text, a failure (the null pointer),
  or a fault: an access behind the NUL, or a write behind the buffer that the first pass over a
  string measured. \<^verbatim>\<open>double\<close> arithmetic is exact arithmetic on reals, and \<open>fmt_double\<close> stands for
  \<^verbatim>\<open>sprintf\<close> on numbers that are not small integers. The recursion of the parser runs on fuel, of
  which twice the length of the text is enough (\<open>json_parse_terminates\<close>).
\<close>

section \<open>Values\<close>

text \<open>A number carries \<^verbatim>\<open>valuedouble\<close> and \<^verbatim>\<open>valueint\<close>.\<close>

datatype json = JFalse | JTrue | JNull | JNumber real int | JString string
  | JArray "json list" | JObject "(string \<times> json) list"

datatype 'a parsed = Parsed 'a string | Failed | Fault | OutOfFuel

abbreviation quote :: char where "quote \<equiv> CHR 0x22"
abbreviation backslash :: char where "backslash \<equiv> CHR 0x5C"

section \<open>Reading\<close>

definition skip :: "string \<Rightarrow> string" where
  "skip s = dropWhile (\<lambda>c. of_char c \<le> (32 :: nat)) s"

subsection \<open>Numbers\<close>

definition pow10 :: "int \<Rightarrow> real" where
  "pow10 k = (if k \<ge> 0 then 10 ^ nat k else 1 / 10 ^ nat (- k))"

text \<open>\<^verbatim>\<open>(int64_t)n\<close>; outside the range the processor gives the smallest integer.\<close>

definition to_int64 :: "real \<Rightarrow> int" where
  "to_int64 n = (let t = (if n \<ge> 0 then \<lfloor>n\<rfloor> else \<lceil>n\<rceil>)
     in if - (2 ^ 63) \<le> t \<and> t < 2 ^ 63 then t else - (2 ^ 63))"

text \<open>The loop \<^verbatim>\<open>n = n * 10.0 + (*num++ - '0')\<close> over a run of digits.\<close>

fun digit_loop :: "real \<Rightarrow> string \<Rightarrow> real \<times> string" where
  "digit_loop n [] = (n, [])"
| "digit_loop n (c # cs) =
     (if is_digit c then digit_loop (n * 10 + real (digit_value c)) cs else (n, c # cs))"

fun subscale_loop :: "nat \<Rightarrow> string \<Rightarrow> nat \<times> string" where
  "subscale_loop k [] = (k, [])"
| "subscale_loop k (c # cs) =
     (if is_digit c then subscale_loop (k * 10 + digit_value c) cs else (k, c # cs))"

text \<open>The parts of \<^verbatim>\<open>parse_number\<close> in their order: sign, leading zero, integer part, fraction, exponent.\<close>

definition number_sign :: "string \<Rightarrow> real \<times> string" where
  "number_sign num =
     (case num of c # cs \<Rightarrow> if c = CHR ''-'' then (- 1, cs) else (1, num) | [] \<Rightarrow> (1, num))"

definition number_zero :: "string \<Rightarrow> string" where
  "number_zero num = (case num of c # cs \<Rightarrow> if c = CHR ''0'' then cs else num | [] \<Rightarrow> num)"

definition number_int :: "string \<Rightarrow> real \<times> string" where
  "number_int num =
     (case num of c # _ \<Rightarrow> if CHR ''1'' \<le> c \<and> c \<le> CHR ''9'' then digit_loop 0 num else (0, num)
      | [] \<Rightarrow> (0, num))"

definition number_frac :: "real \<Rightarrow> string \<Rightarrow> real \<times> int \<times> string" where
  "number_frac n num =
     (case num of
        d # c # cs \<Rightarrow>
          if d = CHR ''.'' \<and> is_digit c
          then (let (n', s) = digit_loop n (c # cs) in (n', - (int (length (c # cs)) - int (length s)), s))
          else (n, 0, num)
      | _ \<Rightarrow> (n, 0, num))"

definition number_exp :: "string \<Rightarrow> nat \<times> int \<times> string" where
  "number_exp num =
     (case num of
        e # cs \<Rightarrow>
          if e = CHR ''e'' \<or> e = CHR ''E''
          then (let (signsubscale, t) = (case cs of
                    c # t \<Rightarrow> if c = CHR ''+'' then (1, t) else if c = CHR ''-'' then (- 1, t) else (1, cs)
                  | [] \<Rightarrow> (1, cs));
                    (subscale, t') = subscale_loop 0 t
                in (subscale, signsubscale, t'))
          else (0, 1, num)
      | [] \<Rightarrow> (0, 1, num))"

definition parse_number :: "string \<Rightarrow> json \<times> string" where
  "parse_number num =
     (let (sign, s1) = number_sign num;
          (n1, s2) = number_int (number_zero s1);
          (n2, scale, s3) = number_frac n1 s2;
          (subscale, signsubscale, s4) = number_exp s3;
          n = sign * n2 * pow10 (scale + int subscale * signsubscale)
      in (JNumber n (to_int64 n), s4))"

subsection \<open>Strings\<close>

text \<open>\<^verbatim>\<open>parse_hex4\<close>: \<open>0\<close> unless four hexadecimal digits follow.\<close>

definition parse_hex4 :: "string \<Rightarrow> nat" where
  "parse_hex4 s =
     (case s of
        a # b # c # d # _ \<Rightarrow>
          (case (hex_digit a, hex_digit b, hex_digit c, hex_digit d) of
             (Some w, Some x, Some y, Some z) \<Rightarrow> ((w * 16 + x) * 16 + y) * 16 + z
           | _ \<Rightarrow> 0)
      | _ \<Rightarrow> 0)"

text \<open>The transcoding to UTF-8, last byte first in the code.\<close>

definition utf8_encode :: "nat \<Rightarrow> string" where
  "utf8_encode uc =
     (if uc < 0x80 then [char_of uc]
      else if uc < 0x800 then [char_of (0xC0 + uc div 64), char_of (0x80 + uc mod 64)]
      else if uc < 0x10000 then
        [char_of (0xE0 + uc div 4096), char_of (0x80 + uc div 64 mod 64), char_of (0x80 + uc mod 64)]
      else [char_of (0xF0 + uc div 262144), char_of (0x80 + uc div 4096 mod 64),
            char_of (0x80 + uc div 64 mod 64), char_of (0x80 + uc mod 64)])"

text \<open>The first pass measures the string; a backslash before the NUL steps over the NUL.\<close>

fun scan_len :: "string \<Rightarrow> nat option" where
  "scan_len [] = Some 0"
| "scan_len (c # cs) =
     (if c = quote then Some 0
      else if c = backslash then (case cs of [] \<Rightarrow> None | _ # cs' \<Rightarrow> map_option Suc (scan_len cs'))
      else map_option Suc (scan_len cs))"

text \<open>
  The escape \<^verbatim>\<open>\u\<close> before the text \<open>cs\<close>: the bytes it gives and the rest, \<open>None\<close> when the pointer
  moves behind the NUL.
\<close>

definition unicode_escape :: "string \<Rightarrow> (string \<times> string) option" where
  "unicode_escape cs =
     (let uc = parse_hex4 cs
      in if length cs < 4 then None
         else if (0xDC00 \<le> uc \<and> uc \<le> 0xDFFF) \<or> uc = 0 then Some ([], drop 4 cs)
         else if 0xD800 \<le> uc \<and> uc \<le> 0xDBFF then
           (if take 2 (drop 4 cs) \<noteq> [backslash, CHR ''u''] then Some ([], drop 4 cs)
            else let uc2 = parse_hex4 (drop 6 cs)
                 in if length cs < 10 then None
                    else if uc2 < 0xDC00 \<or> uc2 > 0xDFFF then Some ([], drop 10 cs)
                    else Some (utf8_encode (0x10000 + (uc mod 1024 * 1024 + uc2 mod 1024)), drop 10 cs))
         else Some (utf8_encode uc, drop 4 cs))"

definition simple_escape :: "char \<Rightarrow> char" where
  "simple_escape c =
     (if c = CHR ''b'' then CHR 0x08 else if c = CHR ''f'' then CHR 0x0C else if c = CHR ''n'' then CHR 0x0A
      else if c = CHR ''r'' then CHR 0x0D else if c = CHR ''t'' then CHR 0x09 else c)"

lemma unicode_escape_length: "unicode_escape cs = Some (bs, r) \<Longrightarrow> length r \<le> length cs"
  by (auto simp: unicode_escape_def Let_def split: if_splits)

text \<open>The second pass copies to \<open>out\<close>.\<close>

function copy_loop :: "string \<Rightarrow> string \<Rightarrow> (string \<times> string) option" where
  "copy_loop [] out = Some (out, [])"
| "copy_loop (c # cs) out =
     (if c = quote then Some (out, cs)
      else if c \<noteq> backslash then copy_loop cs (out @ [c])
      else case cs of
        [] \<Rightarrow> None
      | e # cs' \<Rightarrow>
          if e = CHR ''u'' then
            (case unicode_escape cs' of None \<Rightarrow> None | Some (bs, rest) \<Rightarrow> copy_loop rest (out @ bs))
          else copy_loop cs' (out @ [simple_escape e]))"
  by pat_completeness auto
termination
  by (relation "measure (\<lambda>(s, _). length s)") (auto dest: unicode_escape_length)

definition parse_string :: "string \<Rightarrow> string parsed" where
  "parse_string str =
     (case str of
        [] \<Rightarrow> Failed
      | c # cs \<Rightarrow>
          if c \<noteq> quote then Failed
          else (case scan_len cs of
                  None \<Rightarrow> Fault
                | Some len \<Rightarrow>
                    (case copy_loop cs [] of
                       None \<Rightarrow> Fault
                     | Some (out, rest) \<Rightarrow> if length out > len then Fault else Parsed out rest)))"

subsection \<open>Values\<close>

text \<open>
  \<^verbatim>\<open>parse_value\<close>, and the loops of \<^verbatim>\<open>parse_array\<close> and \<^verbatim>\<open>parse_object\<close> behind the opening bracket, with
  the items read so far.
\<close>

fun parse_value :: "nat \<Rightarrow> string \<Rightarrow> json parsed"
and parse_elems :: "nat \<Rightarrow> string \<Rightarrow> json list \<Rightarrow> json parsed"
and parse_members :: "nat \<Rightarrow> string \<Rightarrow> (string \<times> json) list \<Rightarrow> json parsed" where
  "parse_value 0 s = OutOfFuel"
| "parse_value (Suc n) s =
     (if is_prefix ''null'' s then Parsed JNull (drop 4 s)
      else if is_prefix ''false'' s then Parsed JFalse (drop 5 s)
      else if is_prefix ''true'' s then Parsed JTrue (drop 4 s)
      else case s of
        [] \<Rightarrow> Failed
      | c # cs \<Rightarrow>
          if c = quote then
            (case parse_string s of Parsed str r \<Rightarrow> Parsed (JString str) r
             | Failed \<Rightarrow> Failed | Fault \<Rightarrow> Fault | OutOfFuel \<Rightarrow> OutOfFuel)
          else if c = CHR ''-'' \<or> is_digit c then (case parse_number s of (v, r) \<Rightarrow> Parsed v r)
          else if c = CHR ''['' then
            (case skip cs of
               x # r \<Rightarrow> if x = CHR '']'' then Parsed (JArray []) r else parse_elems n (x # r) []
             | [] \<Rightarrow> parse_elems n [] [])
          else if c = CHR ''{'' then
            (case skip cs of
               x # r \<Rightarrow> if x = CHR ''}'' then Parsed (JObject []) r else parse_members n (x # r) []
             | [] \<Rightarrow> parse_members n [] [])
          else Failed)"
| "parse_elems 0 s acc = OutOfFuel"
| "parse_elems (Suc n) s acc =
     (case parse_value n (skip s) of
        Parsed v r \<Rightarrow>
          (case skip r of
             [] \<Rightarrow> Failed
           | c # cs \<Rightarrow>
               if c = CHR '','' then parse_elems n (skip cs) (acc @ [v])
               else if c = CHR '']'' then Parsed (JArray (acc @ [v])) cs
               else Failed)
      | Failed \<Rightarrow> Failed | Fault \<Rightarrow> Fault | OutOfFuel \<Rightarrow> OutOfFuel)"
| "parse_members 0 s acc = OutOfFuel"
| "parse_members (Suc n) s acc =
     (case parse_string (skip s) of
        Parsed name r \<Rightarrow>
          (case skip r of
             [] \<Rightarrow> Failed
           | c # cs \<Rightarrow>
               if c \<noteq> CHR '':'' then Failed
               else (case parse_value n (skip cs) of
                  Parsed v r' \<Rightarrow>
                    (case skip r' of
                       [] \<Rightarrow> Failed
                     | c # cs \<Rightarrow>
                         if c = CHR '','' then parse_members n (skip cs) (acc @ [(name, v)])
                         else if c = CHR ''}'' then Parsed (JObject (acc @ [(name, v)])) cs
                         else Failed)
                | Failed \<Rightarrow> Failed | Fault \<Rightarrow> Fault | OutOfFuel \<Rightarrow> OutOfFuel))
      | Failed \<Rightarrow> Failed | Fault \<Rightarrow> Fault | OutOfFuel \<Rightarrow> OutOfFuel)"

definition cJSON_Parse :: "string \<Rightarrow> json parsed" where
  "cJSON_Parse text = (let s = skip (c_str text) in parse_value (2 * length s + 2) s)"

text \<open>\<^verbatim>\<open>json::parse\<close>: the null object for a null pointer and for a failure.\<close>

definition json_parse :: "string option \<Rightarrow> json option parsed" where
  "json_parse buffer =
     (case buffer of
        None \<Rightarrow> Parsed None []
      | Some text \<Rightarrow>
          (case cJSON_Parse text of Parsed v r \<Rightarrow> Parsed (Some v) r
           | Failed \<Rightarrow> Parsed None [] | Fault \<Rightarrow> Fault | OutOfFuel \<Rightarrow> OutOfFuel))"

section \<open>Writing\<close>

definition print_int :: "int \<Rightarrow> string" where
  "print_int i = (if i < 0 then CHR ''-'' # nat_to_string (nat (- i)) else nat_to_string (nat i))"

definition print_number :: "(real \<Rightarrow> string) \<Rightarrow> real \<Rightarrow> int \<Rightarrow> string" where
  "print_number fmt_double d valueint =
     (if d = 0 then ''0''
      else if \<bar>real_of_int valueint - d\<bar> \<le> 1 / 2 ^ 52 \<and> d \<le> 2147483647 \<and> d \<ge> - 2147483648
      then print_int valueint
      else fmt_double d)"

text \<open>A digit of \<^verbatim>\<open>sprintf(ptr2, "u%04x", token)\<close>.\<close>

definition hex_lower :: "nat \<Rightarrow> char" where
  "hex_lower d = (if d < 10 then char_of (48 + d) else char_of (87 + d))"

definition escape_char :: "char \<Rightarrow> string" where
  "escape_char c =
     (if of_char c > (31 :: nat) \<and> c \<noteq> quote \<and> c \<noteq> backslash then [c]
      else backslash #
        (if c = backslash then [backslash] else if c = quote then [quote]
         else if c = CHR 0x08 then ''b'' else if c = CHR 0x0C then ''f'' else if c = CHR 0x0A then ''n''
         else if c = CHR 0x0D then ''r'' else if c = CHR 0x09 then ''t''
         else [CHR ''u'', CHR ''0'', CHR ''0'', hex_lower (of_char c div 16), hex_lower (of_char c mod 16)]))"

definition print_string_ptr :: "string \<Rightarrow> string" where
  "print_string_ptr str =
     (if list_all (\<lambda>c. \<not> (((0 :: nat) < of_char c \<and> of_char c < (32 :: nat)) \<or> c = quote \<or> c = backslash)) str
      then quote # str @ [quote]
      else quote # concat (map escape_char str) @ [quote])"

definition tabs :: "nat \<Rightarrow> string" where
  "tabs n = replicate n CHR 0x09"

text \<open>\<^verbatim>\<open>print_value\<close>, \<^verbatim>\<open>print_array\<close> and \<^verbatim>\<open>print_object\<close> without a print buffer, as \<^verbatim>\<open>cJSON_Print\<close> calls them.\<close>

fun print_value :: "(real \<Rightarrow> string) \<Rightarrow> nat \<Rightarrow> bool \<Rightarrow> json \<Rightarrow> string"
and print_elems :: "(real \<Rightarrow> string) \<Rightarrow> nat \<Rightarrow> bool \<Rightarrow> json list \<Rightarrow> string"
and print_members :: "(real \<Rightarrow> string) \<Rightarrow> nat \<Rightarrow> bool \<Rightarrow> (string \<times> json) list \<Rightarrow> string" where
  "print_value fd depth fmt JNull = ''null''"
| "print_value fd depth fmt JFalse = ''false''"
| "print_value fd depth fmt JTrue = ''true''"
| "print_value fd depth fmt (JNumber d i) = print_number fd d i"
| "print_value fd depth fmt (JString s) = print_string_ptr s"
| "print_value fd depth fmt (JArray vs) =
     (if vs = [] then ''[]'' else ''['' @ print_elems fd (depth + 1) fmt vs @ '']'')"
| "print_value fd depth fmt (JObject ms) =
     (if ms = [] then ''{'' @ (if fmt then CHR 0x0A # tabs (depth - 1) else []) @ ''}''
      else ''{'' @ (if fmt then [CHR 0x0A] else []) @ print_members fd (depth + 1) fmt ms
        @ (if fmt then tabs depth else []) @ ''}'')"
| "print_elems fd depth fmt [] = []"
| "print_elems fd depth fmt (v # vs) =
     print_value fd depth fmt v @
       (if vs = [] then [] else (if fmt then '', '' else '','') @ print_elems fd depth fmt vs)"
| "print_members fd depth fmt [] = []"
| "print_members fd depth fmt (m # ms) =
     (if fmt then tabs depth else []) @ print_string_ptr (fst m) @ '':'' @ (if fmt then [CHR 0x09] else [])
       @ print_value fd depth fmt (snd m) @ (if ms = [] then [] else '','')
       @ (if fmt then [CHR 0x0A] else []) @ print_members fd depth fmt ms"

text \<open>\<^verbatim>\<open>jsonobject::serialize\<close>; \<open>None\<close> is the constant null object.\<close>

definition serialize :: "(real \<Rightarrow> string) \<Rightarrow> bool \<Rightarrow> json option \<Rightarrow> string" where
  "serialize fd format j = (case j of None \<Rightarrow> ''{}'' | Some v \<Rightarrow> print_value fd 0 format v)"

section \<open>Lemmas: skipping and strings\<close>

lemma skip_idem [simp]: "skip (skip s) = skip s"
  unfolding skip_def by (induction s) auto

lemma skip_Nil [simp]: "skip [] = []"
  by (simp add: skip_def)

lemma skip_Cons [simp]: "skip (c # cs) = (if of_char c \<le> (32 :: nat) then skip cs else c # cs)"
  by (simp add: skip_def)

lemma skip_blanks: "\<forall>c \<in> set ws. of_char c \<le> (32 :: nat) \<Longrightarrow> skip (ws @ s) = skip s"
  by (induction ws) auto

lemma skip_tabs [simp]: "skip (tabs n @ s) = skip s"
  by (rule skip_blanks) (auto simp: tabs_def)

lemma length_skip: "length (skip s) \<le> length s"
  unfolding skip_def by (rule length_dropWhile_le)

lemma hex_lower_table:
  "list_all (\<lambda>d. hex_digit (hex_lower d) = Some d \<and> hex_lower d \<noteq> quote \<and> hex_lower d \<noteq> backslash
    \<and> hex_lower d \<noteq> CHR 0x00) [0..<16]"
  by code_simp

lemma hex_lower_digit:
  assumes "d < 16"
  shows "hex_digit (hex_lower d) = Some d" "hex_lower d \<noteq> quote" "hex_lower d \<noteq> backslash"
    "hex_lower d \<noteq> CHR 0x00"
  using hex_lower_table assms unfolding list_all_iff by auto

text \<open>The three shapes of an escaped character.\<close>

lemma escape_char_cases:
  obtains (plain) "escape_char c = [c]" "c \<noteq> quote" "c \<noteq> backslash"
  | (simple) e where "escape_char c = [backslash, e]" "e \<noteq> CHR ''u''" "simple_escape e = c"
  | (code) "escape_char c = [backslash, CHR ''u'', CHR ''0'', CHR ''0'', hex_lower (of_char c div 16),
      hex_lower (of_char c mod 16)]" "of_char c \<le> (31 :: nat)"
proof (cases "of_char c > (31 :: nat) \<and> c \<noteq> quote \<and> c \<noteq> backslash")
  case True
  then show ?thesis by (intro plain) (auto simp: escape_char_def)
next
  case False
  show ?thesis
  proof (cases "c \<in> {backslash, quote, CHR 0x08, CHR 0x0C, CHR 0x0A, CHR 0x0D, CHR 0x09}")
    case True
    then show ?thesis
      by (elim insertE emptyE)
        (rule simple [of "escape_char c ! 1"]; simp add: escape_char_def simple_escape_def)+
  next
    case F: False
    with False show ?thesis by (intro code) (auto simp: escape_char_def)
  qed
qed

lemma nibbles: "of_char (c :: char) div 16 < (16 :: nat)" "of_char (c :: char) mod 16 < (16 :: nat)"
  using nat_of_char_less_256 [of c] by (auto simp: less_mult_imp_div_less)

text \<open>One escaped character is measured at least once, and copied back as itself.\<close>

lemma scan_escape:
  assumes "scan_len s = Some n"
  obtains m where "scan_len (escape_char c @ s) = Some m" "n < m"
proof (cases c rule: escape_char_cases)
  case plain
  with assms show ?thesis by (intro that [of "Suc n"]) simp_all
next
  case (simple e)
  with assms show ?thesis by (intro that [of "Suc n"]) simp_all
next
  case code
  note hex = hex_lower_digit(2,3) [OF nibbles(1) [of c]] hex_lower_digit(2,3) [OF nibbles(2) [of c]]
  show ?thesis by (rule that [of "n + 5"]) (simp_all add: code(1) hex assms)
qed

lemma of_char_zero: "of_char c = (0 :: nat) \<longleftrightarrow> c = CHR 0x00"
proof -
  have "of_char (CHR 0x00) = (0 :: nat)" by simp
  then show ?thesis by (metis of_char_eq_iff)
qed

lemma parse_hex4_code:
  "parse_hex4 (CHR ''0'' # CHR ''0'' # hex_lower (of_char c div 16) # hex_lower (of_char c mod 16) # s) = of_char c"
proof -
  have z: "hex_digit (CHR ''0'') = Some 0" by (simp add: hex_digit_def less_eq_char_def)
  show ?thesis
    by (simp add: parse_hex4_def z hex_lower_digit(1) [OF nibbles(1) [of c]] hex_lower_digit(1) [OF nibbles(2) [of c]])
qed

lemma copy_escape:
  assumes "c \<noteq> CHR 0x00"
  shows "copy_loop (escape_char c @ s) out = copy_loop s (out @ [c])"
proof (cases c rule: escape_char_cases)
  case code
  have "unicode_escape (CHR ''0'' # CHR ''0'' # hex_lower (of_char c div 16) # hex_lower (of_char c mod 16) # s)
      = Some ([c], s)"
    unfolding unicode_escape_def Let_def parse_hex4_code
    using code(2) assms by (simp add: utf8_encode_def of_char_zero)
  then show ?thesis unfolding code(1) by simp
qed simp_all

lemma scan_escapes:
  "\<exists>n \<ge> length s. scan_len (concat (map escape_char s) @ quote # r) = Some n"
proof (induction s)
  case (Cons c s)
  then obtain n where n: "n \<ge> length s" "scan_len (concat (map escape_char s) @ quote # r) = Some n" by blast
  from scan_escape [OF n(2), of c]
  obtain m where "scan_len (escape_char c @ concat (map escape_char s) @ quote # r) = Some m" "n < m" .
  with n(1) show ?case by (intro exI [of _ m]) simp
qed simp

lemma copy_escapes:
  "CHR 0x00 \<notin> set s \<Longrightarrow> copy_loop (concat (map escape_char s) @ quote # r) out = Some (out @ s, r)"
proof (induction s arbitrary: out)
  case (Cons c s)
  then have "c \<noteq> CHR 0x00" by auto
  with Cons show ?case by (simp add: copy_escape)
qed simp

lemma print_string_escapes:
  assumes "CHR 0x00 \<notin> set s"
  shows "print_string_ptr s = quote # concat (map escape_char s) @ [quote]"
proof (cases "list_all (\<lambda>c. \<not> (((0 :: nat) < of_char c \<and> of_char c < (32 :: nat)) \<or> c = quote \<or> c = backslash)) s")
  case True
  have "escape_char c = [c]" if "c \<in> set s" for c
  proof -
    have "of_char c \<noteq> (0 :: nat)" using that assms by (auto simp: of_char_zero)
    with True that show ?thesis unfolding list_all_iff escape_char_def by fastforce
  qed
  then have "map escape_char s = map (\<lambda>c. [c]) s" by (intro map_cong refl)
  then have "concat (map escape_char s) = s" by (simp only: concat_map_singleton map_ident)
  with True show ?thesis unfolding print_string_ptr_def by simp
next
  case False
  then show ?thesis unfolding print_string_ptr_def by (simp only: if_False)
qed

text \<open>A string is read back from its printed form, and reading stops behind the closing quote.\<close>

lemma parse_print_string:
  assumes "CHR 0x00 \<notin> set s"
  shows "parse_string (print_string_ptr s @ r) = Parsed s r"
proof -
  obtain n where "n \<ge> length s" "scan_len (concat (map escape_char s) @ quote # r) = Some n"
    using scan_escapes by blast
  with copy_escapes [OF assms, of r "[]"] show ?thesis
    by (simp add: parse_string_def print_string_escapes [OF assms])
qed

section \<open>Lemmas: numbers\<close>

text \<open>What may follow a printed value: nothing, a blank, a comma or a closing bracket.\<close>

definition stops :: "string \<Rightarrow> bool" where
  "stops r \<longleftrightarrow> (case r of [] \<Rightarrow> True | c # _ \<Rightarrow> of_char c \<le> (32 :: nat) \<or> c \<in> set '',]}'')"

lemma stops_head:
  assumes "stops (c # r)"
  shows "\<not> is_digit c" "c \<noteq> CHR ''.''" "c \<noteq> CHR ''e''" "c \<noteq> CHR ''E''"
  using assms by (auto simp: stops_def is_digit_def less_eq_char_def)

lemma digit_loop_stop: "stops r \<Longrightarrow> digit_loop n r = (n, r)"
  using stops_head(1) [of "hd r" "tl r"] by (cases r) simp_all

lemma digit_loop_run:
  "\<lbrakk>list_all is_digit ds; stops r\<rbrakk> \<Longrightarrow>
    digit_loop (real k) (ds @ r) = (real (foldl (\<lambda>v c. v * 10 + digit_value c) k ds), r)"
proof (induction ds arbitrary: k)
  case (Cons c ds)
  then have "digit_loop (real (k * 10 + digit_value c)) (ds @ r)
      = (real (foldl (\<lambda>v c. v * 10 + digit_value c) (k * 10 + digit_value c) ds), r)"
    by (intro Cons.IH) simp_all
  moreover have "real (k * 10 + digit_value c) = real k * 10 + real (digit_value c)" by simp
  ultimately show ?case using Cons.prems(1) by (simp only: append_Cons digit_loop.simps foldl_Cons list.pred_inject if_True)
qed (simp add: digit_loop_stop)

lemma nat_to_string_head:
  assumes "0 < n"
  obtains c cs where "nat_to_string n = c # cs" "CHR ''1'' \<le> c" "c \<le> CHR ''9''"
  using assms
proof (induction n arbitrary: thesis rule: nat_to_string.induct)
  case (1 n)
  show ?case
  proof (cases "n < 10")
    case True
    with 1 show ?thesis
      using digit_cases [OF True]
      by (intro "1.prems"(1) [of "digit_char n" "[]"])
        (auto simp: nat_to_string.simps [of n] digit_char_def less_eq_char_def)
  next
    case False
    then have "0 < n div 10" by auto
    from "1.IH" [OF False _ this] obtain c cs where "nat_to_string (n div 10) = c # cs" "CHR ''1'' \<le> c" "c \<le> CHR ''9''"
      by blast
    with False show ?thesis
      by (intro "1.prems"(1) [of c "cs @ [digit_char (n mod 10)]"]) (simp_all add: nat_to_string.simps [of n])
  qed
qed

lemma to_int64_int:
  assumes "- 2147483648 \<le> i" and "i \<le> 2147483647"
  shows "to_int64 (real_of_int i) = i"
  using assms by (simp add: to_int64_def)

lemma number_tail:
  assumes "stops r"
  shows "number_frac n r = (n, 0, r)" and "number_exp r = (0, 1, r)" and "number_int r = (0, r)"
  using stops_head [of "hd r" "tl r"] assms
  by (auto split: list.splits simp: number_frac_def number_exp_def number_int_def is_digit_def less_eq_char_def)

lemma number_digits:
  assumes "0 < n" and "stops r"
  shows "number_sign (nat_to_string n @ r) = (1, nat_to_string n @ r)"
    and "number_int (number_zero (nat_to_string n @ r)) = (real n, r)"
proof -
  obtain c cs where s: "nat_to_string n = c # cs" "CHR ''1'' \<le> c" "c \<le> CHR ''9''"
    using nat_to_string_head [OF assms(1)] .
  then have c: "c \<noteq> CHR ''-''" "c \<noteq> CHR ''0''" by (auto simp: less_eq_char_def)
  have "digit_loop 0 (c # cs @ r) = (real n, r)"
    using digit_loop_run [of "nat_to_string n" r 0, OF _ assms(2)] nat_to_string_digits [of _ n]
      digits_value_nat_to_string [of n]
    by (simp del: digit_loop.simps add: s(1) digits_value_def list_all_iff)
  with c s(2,3) show "number_int (number_zero (nat_to_string n @ r)) = (real n, r)"
    by (simp del: digit_loop.simps add: number_zero_def number_int_def s(1))
  show "number_sign (nat_to_string n @ r) = (1, nat_to_string n @ r)"
    using c by (simp add: number_sign_def s(1))
qed

lemma parse_positive:
  assumes "0 < n" and "stops r"
  shows "parse_number (nat_to_string n @ r) = (JNumber (real n) (to_int64 (real n)), r)"
    and "parse_number (CHR ''-'' # nat_to_string n @ r) = (JNumber (- real n) (to_int64 (- real n)), r)"
proof -
  have "number_sign (CHR ''-'' # nat_to_string n @ r) = (- 1, nat_to_string n @ r)" by (simp add: number_sign_def)
  then show "parse_number (CHR ''-'' # nat_to_string n @ r) = (JNumber (- real n) (to_int64 (- real n)), r)"
    by (simp add: parse_number_def number_digits [OF assms] number_tail [OF assms(2)] pow10_def Let_def)
qed (simp add: parse_number_def number_digits [OF assms] number_tail [OF assms(2)] pow10_def Let_def)

lemma parse_zero:
  assumes "stops r"
  shows "parse_number (CHR ''0'' # r) = (JNumber 0 0, r)"
  by (simp add: parse_number_def number_sign_def number_zero_def number_tail [OF assms] pow10_def to_int64_def)

lemma parse_print_number:
  assumes "- 2147483648 \<le> i" and "i \<le> 2147483647" and "stops r"
  shows "parse_number (print_number fd (real_of_int i) i @ r) = (JNumber (real_of_int i) i, r)"
proof (cases "i = 0")
  case True
  with assms show ?thesis by (simp add: print_number_def parse_zero)
next
  case False
  have p: "print_number fd (real_of_int i) i = print_int i"
    using False assms(1,2) by (simp add: print_number_def)
  have "real (nat (- i)) = - real_of_int i" if "i < 0" using that by simp
  then show ?thesis
    using False assms parse_positive [of "nat (- i)" r] parse_positive [of "nat i" r] to_int64_int [of i]
    by (auto simp: p print_int_def)
qed

section \<open>Printed values are read back\<close>

text \<open>
  The values that survive printing: strings without a NUL and integers in the range of \<^verbatim>\<open>int\<close>,
  which \<^verbatim>\<open>print_number\<close> writes out in full.
\<close>

fun json_ok :: "json \<Rightarrow> bool" where
  "json_ok (JNumber d i) \<longleftrightarrow> d = real_of_int i \<and> - 2147483648 \<le> i \<and> i \<le> 2147483647"
| "json_ok (JString s) \<longleftrightarrow> CHR 0x00 \<notin> set s"
| "json_ok (JArray vs) \<longleftrightarrow> list_all json_ok vs"
| "json_ok (JObject ms) \<longleftrightarrow> list_all (\<lambda>(k, v). CHR 0x00 \<notin> set k \<and> json_ok v) ms"
| "json_ok _ \<longleftrightarrow> True"

lemma print_int_head:
  obtains c cs where "print_int i = c # cs" "c = CHR ''-'' \<or> is_digit c"
proof (cases "i < 0")
  case True
  then show ?thesis by (intro that [of "CHR ''-''" "nat_to_string (nat (- i))"]) (simp_all add: print_int_def)
next
  case False
  obtain c cs where c: "nat_to_string (nat i) = c # cs" by (cases "nat_to_string (nat i)") simp_all
  with nat_to_string_digits [of c "nat i"] False show ?thesis
    by (intro that [of c cs]) (simp_all add: print_int_def)
qed

lemma print_number_head:
  assumes "- 2147483648 \<le> i" and "i \<le> 2147483647"
  obtains c cs where "print_number fd (real_of_int i) i = c # cs" "c = CHR ''-'' \<or> is_digit c"
proof -
  have z: "''0'' = print_int 0" by code_simp
  have p: "print_number fd (real_of_int i) i = print_int i"
    using assms by (auto simp: print_number_def z)
  obtain c cs where "print_int i = c # cs" "c = CHR ''-'' \<or> is_digit c" by (rule print_int_head)
  with p show ?thesis by (intro that [of c cs]) simp_all
qed

lemma number_start:
  assumes "c = CHR ''-'' \<or> is_digit c"
  shows "\<not> of_char c \<le> (32 :: nat)" "c \<notin> set ''nft[{]}'' \<union> {quote}"
  using assms by (auto simp: is_digit_def less_eq_char_def)

lemma parse_value_number:
  assumes "c = CHR ''-'' \<or> is_digit c"
  shows "parse_value (Suc n) (c # cs) = (case parse_number (c # cs) of (v, r) \<Rightarrow> Parsed v r)"
  using assms number_start(2) [OF assms] by auto

lemma parse_value_string:
  assumes "CHR 0x00 \<notin> set s"
  shows "parse_value (Suc n) (print_string_ptr s @ r) = Parsed (JString s) r"
proof -
  have "parse_value (Suc n) (print_string_ptr s @ r)
      = (case parse_string (print_string_ptr s @ r) of Parsed str r \<Rightarrow> Parsed (JString str) r
         | Failed \<Rightarrow> Failed | Fault \<Rightarrow> Fault | OutOfFuel \<Rightarrow> OutOfFuel)"
    by (simp add: print_string_escapes [OF assms])
  then show ?thesis by (simp add: parse_print_string [OF assms])
qed

text \<open>A printed value begins with a character that is neither a blank nor a closing bracket.\<close>

lemma print_value_head:
  assumes "json_ok j"
  obtains c cs where "print_value fd depth fmt j = c # cs" "\<not> of_char c \<le> (32 :: nat)" "c \<noteq> CHR '']''"
proof (cases j)
  case (JNumber d i)
  with assms obtain c cs where "print_number fd d i = c # cs" "c = CHR ''-'' \<or> is_digit c"
    using print_number_head [of i fd] by auto
  with JNumber number_start [of c] show ?thesis by (intro that [of c cs]) auto
next
  case (JString s)
  with assms show ?thesis by (intro that [of quote "concat (map escape_char s) @ [quote]"]) (simp_all add: print_string_escapes)
next
  case (JArray vs)
  then show ?thesis by (intro that [of "CHR ''[''" "tl (print_value fd depth fmt j)"]) simp_all
next
  case (JObject ms)
  then show ?thesis by (intro that [of "CHR ''{''" "tl (print_value fd depth fmt j)"]) simp_all
qed (use that in auto)

lemma bracket_not_digit [simp]: "\<not> is_digit (CHR ''['')" "\<not> is_digit (CHR ''{'')"
  by (simp_all add: is_digit_def less_eq_char_def)

lemma stops_simps [simp]:
  "stops []" "stops (CHR '']'' # r)" "stops (CHR '','' # r)" "stops (CHR ''}'' # r)" "stops (CHR 0x0A # r)"
  by (simp_all add: stops_def)

lemma stops_newline: "stops ((if fmt then [CHR 0x0A] else []) @ tabs n @ CHR ''}'' # r)"
  by (cases n) (auto simp: stops_def tabs_def)

lemma skip_quote: "CHR 0x00 \<notin> set k \<Longrightarrow> skip (print_string_ptr k @ r) = print_string_ptr k @ r"
  by (simp add: print_string_escapes)

lemma skip_value: "json_ok v \<Longrightarrow> skip (print_value fd depth fmt v @ r) = print_value fd depth fmt v @ r"
  by (rule print_value_head [of v fd depth fmt]) simp_all

lemma parse_skip:
  "parse_elems n (skip s) acc = parse_elems n s acc" "parse_members n (skip s) mem = parse_members n s mem"
  by (cases n; simp)+

lemma parse_elems_blank: "parse_elems n (CHR 0x20 # s) acc = parse_elems n s acc"
  using parse_skip(1) [of n "CHR 0x20 # s" acc] parse_skip(1) [of n s acc] by simp

lemma parse_members_blank: "parse_members n (CHR 0x0A # s) mem = parse_members n s mem"
  using parse_skip(2) [of n "CHR 0x0A # s" mem] parse_skip(2) [of n s mem] by simp

lemma print_elems_head:
  assumes "list_all json_ok vs" and "vs \<noteq> []"
  obtains c cs where "print_elems fd depth fmt vs = c # cs" "\<not> of_char c \<le> (32 :: nat)" "c \<noteq> CHR '']''"
proof -
  from assms obtain v ws where vs: "vs = v # ws" "json_ok v" by (cases vs) auto
  obtain c cs where "print_value fd depth fmt v = c # cs" "\<not> of_char c \<le> (32 :: nat)" "c \<noteq> CHR '']''"
    using print_value_head [OF vs(2)] .
  with vs(1) show ?thesis by (intro that [of c "tl (print_elems fd depth fmt vs)"]) simp_all
qed

lemma skip_members:
  assumes "list_all (\<lambda>(k, v). CHR 0x00 \<notin> set k \<and> json_ok v) ms" and "ms \<noteq> []"
  obtains cs where "skip (print_members fd depth fmt ms @ r) = quote # cs"
proof -
  from assms obtain k v ns where ms: "ms = (k, v) # ns" "CHR 0x00 \<notin> set k" by (cases ms) auto
  show ?thesis
    by (cases fmt; rule that; simp add: ms(1) print_string_escapes [OF ms(2)])
qed

text \<open>One step of each loop, from what it reads first.\<close>

lemma parse_array_start:
  assumes "list_all json_ok vs" and "vs \<noteq> []"
    and "parse_elems n (print_elems fd depth fmt vs @ CHR '']'' # r) [] = Parsed (JArray vs) r"
  shows "parse_value (Suc n) (CHR ''['' # print_elems fd depth fmt vs @ CHR '']'' # r) = Parsed (JArray vs) r"
proof -
  obtain c cs where "print_elems fd depth fmt vs = c # cs" "\<not> of_char c \<le> (32 :: nat)" "c \<noteq> CHR '']''"
    using print_elems_head [OF assms(1,2)] .
  with assms show ?thesis by (simp del: parse_elems.simps)
qed

lemma parse_object_start:
  assumes "list_all (\<lambda>(k, v). CHR 0x00 \<notin> set k \<and> json_ok v) ms" and "ms \<noteq> []"
    and "parse_members n (print_members fd depth fmt ms @ t) [] = Parsed (JObject ms) r"
  shows "parse_value (Suc n) (CHR ''{'' # (if fmt then [CHR 0x0A] else []) @ print_members fd depth fmt ms @ t)
    = Parsed (JObject ms) r"
proof -
  obtain cs where c: "skip (print_members fd depth fmt ms @ t) = quote # cs"
    using skip_members [OF assms(1,2)] .
  then have "parse_members n (quote # cs) [] = Parsed (JObject ms) r"
    using assms(3) parse_skip(2) by metis
  with c show ?thesis by (cases fmt) (simp_all del: parse_members.simps)
qed

lemma parse_elems_step:
  assumes "json_ok v" and "parse_value n (print_value fd depth fmt v @ rest) = Parsed v rest"
  shows "parse_elems (Suc n) (print_value fd depth fmt v @ rest) acc
      = (case skip rest of [] \<Rightarrow> Failed
         | c # cs \<Rightarrow> if c = CHR '','' then parse_elems n cs (acc @ [v])
             else if c = CHR '']'' then Parsed (JArray (acc @ [v])) cs else Failed)"
  using assms by (cases "skip rest") (simp_all add: skip_value parse_skip)

lemma parse_members_step:
  assumes "CHR 0x00 \<notin> set k" "json_ok v" and "parse_value n (print_value fd depth fmt v @ rest) = Parsed v rest"
  shows "parse_members (Suc n) ((if fmt then tabs depth else []) @ print_string_ptr k @ '':''
        @ (if fmt then [CHR 0x09] else []) @ print_value fd depth fmt v @ rest) mem
      = (case skip rest of [] \<Rightarrow> Failed
         | c # cs \<Rightarrow> if c = CHR '','' then parse_members n cs (mem @ [(k, v)])
             else if c = CHR ''}'' then Parsed (JObject (mem @ [(k, v)])) cs else Failed)"
  using assms
  by (cases fmt; cases "skip rest") (simp_all add: skip_value skip_quote parse_print_string parse_skip)

text \<open>Enough fuel is twice the length of what is printed.\<close>

lemma parse_print:
  shows "\<lbrakk>json_ok j; stops r; n \<ge> 2 * length (print_value fd depth fmt j)\<rbrakk> \<Longrightarrow>
      parse_value n (print_value fd depth fmt j @ r) = Parsed j r"
    and "\<lbrakk>list_all json_ok vs; vs \<noteq> []; m \<ge> 2 * length (print_elems fd depth fmt vs) + 1\<rbrakk> \<Longrightarrow>
      parse_elems m (print_elems fd depth fmt vs @ CHR '']'' # r) acc = Parsed (JArray (acc @ vs)) r"
    and "\<lbrakk>list_all (\<lambda>(k, v). CHR 0x00 \<notin> set k \<and> json_ok v) ms; ms \<noteq> [];
        l \<ge> 2 * length (print_members fd depth fmt ms) + 1\<rbrakk> \<Longrightarrow>
      parse_members l (print_members fd depth fmt ms @ (if fmt then tabs e else []) @ CHR ''}'' # r) mem
        = Parsed (JObject (mem @ ms)) r"
proof (induction fd depth fmt j and fd depth fmt vs and fd depth fmt ms
    arbitrary: n r and m r acc and l r mem e rule: print_value_print_elems_print_members.induct)
  case (4 fd depth fmt d i)
  then obtain c cs where c: "print_number fd d i = c # cs" "c = CHR ''-'' \<or> is_digit c"
    using print_number_head [of i fd] by auto
  from 4 c(1) obtain n' where "n = Suc n'" by (cases n) auto
  with 4 c parse_value_number [OF c(2)] parse_print_number [of i r fd] show ?case by simp
next
  case (5 fd depth fmt s)
  then obtain n' where "n = Suc n'" by (cases n) (auto simp: print_string_ptr_def split: if_splits)
  with 5 show ?case by (simp del: parse_value.simps add: parse_value_string)
next
  case (6 fd depth fmt vs)
  then obtain n' where n: "n = Suc n'" by (cases n) (auto split: if_splits)
  show ?case
  proof (cases "vs = []")
    case False
    with 6 n show ?thesis by (simp del: parse_value.simps parse_elems.simps add: parse_array_start)
  qed (simp add: n)
next
  case (7 fd depth fmt ms)
  then obtain n' where n: "n = Suc n'" by (cases n) (auto split: if_splits)
  show ?case
  proof (cases "ms = []")
    case False
    with 7(2,4) n have "parse_members n' (print_members fd (depth + 1) fmt ms @ (if fmt then tabs depth else []) @ CHR ''}'' # r) []
        = Parsed (JObject ([] @ ms)) r"
      by (intro "7.IH") (simp_all split: if_splits)
    with parse_object_start [of ms n' fd "depth + 1" fmt] False 7(2) show ?thesis by (simp add: n)
  qed (simp add: n)
next
  case (9 fd depth fmt v vs)
  then obtain m' where m: "m = Suc m'" by (cases m) auto
  define rest where "rest = (if vs = [] then [] else (if fmt then '', '' else '','') @ print_elems fd depth fmt vs) @ CHR '']'' # r"
  have "parse_value m' (print_value fd depth fmt v @ rest) = Parsed v rest"
    using 9(3,5) m by (intro "9.IH"(1)) (auto simp: rest_def)
  note step = parse_elems_step [OF _ this]
  show ?case
  proof (cases "vs = []")
    case False
    then have "parse_elems m' (print_elems fd depth fmt vs @ CHR '']'' # r) (acc @ [v]) = Parsed (JArray ((acc @ [v]) @ vs)) r"
      using 9(3,5) m by (intro "9.IH"(2)) (auto split: if_splits)
    with step [of acc] False 9(3) show ?thesis by (cases fmt) (simp_all add: m rest_def parse_skip parse_elems_blank)
  qed (use step [of acc] 9(3) in \<open>simp add: m rest_def\<close>)
next
  case (11 fd depth fmt p ms)
  then obtain k v l' where p: "p = (k, v)" "l = Suc l'" by (cases p; cases l) auto
  define rest where "rest = (if ms = [] then [] else '','') @ (if fmt then [CHR 0x0A] else [])
    @ print_members fd depth fmt ms @ (if fmt then tabs e else []) @ CHR ''}'' # r"
  have "parse_value l' (print_value fd depth fmt v @ rest) = Parsed v rest"
    using 11(3,5) p "11.IH"(1) [of rest l'] by (auto simp: rest_def)
  note step = parse_members_step [OF _ _ this]
  show ?case
  proof (cases "ms = []")
    case False
    then have "parse_members l' (print_members fd depth fmt ms @ (if fmt then tabs e else []) @ CHR ''}'' # r) (mem @ [(k, v)])
        = Parsed (JObject ((mem @ [(k, v)]) @ ms)) r"
      using 11(3,5) p by (intro "11.IH"(2)) simp_all
    with step [of k mem] False 11(3) show ?thesis by (cases fmt) (simp_all add: p rest_def parse_members_blank)
  qed (use step [of k mem] 11(3) in \<open>cases fmt; simp add: p rest_def\<close>)
qed (case_tac n; simp)+

text \<open>What is printed contains no NUL, so that the parser sees all of it.\<close>

lemma escape_char_no_NUL:
  assumes "c \<noteq> CHR 0x00"
  shows "CHR 0x00 \<notin> set (escape_char c)"
proof (cases c rule: escape_char_cases)
  case (simple e)
  have "e \<noteq> CHR 0x00" using simple(3) assms by (auto simp: simple_escape_def)
  with simple(1) show ?thesis by auto
next
  case code
  show ?thesis
    using hex_lower_digit(4) [OF nibbles(1) [of c]] hex_lower_digit(4) [OF nibbles(2) [of c]] by (auto simp: code(1))
qed (use assms in auto)

lemma print_string_no_NUL:
  assumes "CHR 0x00 \<notin> set s"
  shows "CHR 0x00 \<notin> set (print_string_ptr s)"
proof -
  have "CHR 0x00 \<notin> set (escape_char c)" if "c \<in> set s" for c
    by (rule escape_char_no_NUL) (use that assms in auto)
  then show ?thesis by (simp add: print_string_escapes [OF assms])
qed

lemma print_int_no_NUL: "CHR 0x00 \<notin> set (print_int i)"
proof -
  have "\<not> is_digit (CHR 0x00)" by (simp add: is_digit_def less_eq_char_def)
  with nat_to_string_digits show ?thesis by (auto simp: print_int_def)
qed

lemma print_no_NUL:
  "json_ok j \<Longrightarrow> CHR 0x00 \<notin> set (print_value fd depth fmt j)"
  "list_all json_ok vs \<Longrightarrow> CHR 0x00 \<notin> set (print_elems fd depth fmt vs)"
  "list_all (\<lambda>(k, v). CHR 0x00 \<notin> set k \<and> json_ok v) ms \<Longrightarrow> CHR 0x00 \<notin> set (print_members fd depth fmt ms)"
proof (induction fd depth fmt j and fd depth fmt vs and fd depth fmt ms rule: print_value_print_elems_print_members.induct)
  case (4 fd depth fmt d i)
  then show ?case using print_int_no_NUL [of i] by (auto simp: print_number_def)
qed (auto simp: print_string_no_NUL tabs_def)


definition sample_json :: json where
  "sample_json = JObject [(''id'', JNumber (- 7) (- 7)), ([CHR ''q'', quote], JArray [JString [CHR 0x01, CHR 0x5C], JTrue, JNull]),
     (''e'', JObject [])]"


end
