(* ===== verification/Json_Object.thy ===== *)
theory Json_Object
  imports Json
begin

text \<open>
  The reader of \<^verbatim>\<open>json.cpp\<close> ends on every text, where it faults, and the operations of
  \<^verbatim>\<open>jsonobject\<close> on arrays and objects, which look names up without regard to case.
\<close>

section \<open>Objects and arrays\<close>

text \<open>
  The operations of \<^verbatim>\<open>jsonobject\<close> on the value they are called on. A name that is a null pointer is
  \<open>None\<close>; the first result is what the call returns, \<open>None\<close> for the constant null object.
\<close>

definition to_lower :: "char \<Rightarrow> char" where
  "to_lower c = (if CHR ''A'' \<le> c \<and> c \<le> CHR ''Z'' then char_of (of_char c + (32 :: nat)) else c)"

definition cJSON_strcasecmp :: "string \<Rightarrow> string \<Rightarrow> bool" where
  "cJSON_strcasecmp s1 s2 \<longleftrightarrow> map to_lower (c_str s1) \<noteq> map to_lower (c_str s2)"

fun cJSON_GetObjectItem :: "(string \<times> json) list \<Rightarrow> string \<Rightarrow> json option" where
  "cJSON_GetObjectItem [] name = None"
| "cJSON_GetObjectItem ((k, v) # ms) name =
     (if cJSON_strcasecmp k name then cJSON_GetObjectItem ms name else Some v)"

definition cJSON_GetArrayItem :: "json list \<Rightarrow> int \<Rightarrow> json option" where
  "cJSON_GetArrayItem vs item = (let i = nat item in if i < length vs then Some (vs ! i) else None)"

definition cJSON_AddItemToObject :: "(string \<times> json) list \<Rightarrow> string \<Rightarrow> json \<Rightarrow> (string \<times> json) list" where
  "cJSON_AddItemToObject ms name item = ms @ [(c_str name, item)]"

fun cJSON_DetachItemFromObject ::
  "(string \<times> json) list \<Rightarrow> string \<Rightarrow> (json \<times> (string \<times> json) list) option" where
  "cJSON_DetachItemFromObject [] name = None"
| "cJSON_DetachItemFromObject ((k, v) # ms) name =
     (if cJSON_strcasecmp k name
      then map_option (\<lambda>(w, rest). (w, (k, v) # rest)) (cJSON_DetachItemFromObject ms name)
      else Some (v, ms))"

definition cJSON_DeleteItemFromObject :: "(string \<times> json) list \<Rightarrow> string \<Rightarrow> (string \<times> json) list" where
  "cJSON_DeleteItemFromObject ms name =
     (case cJSON_DetachItemFromObject ms name of None \<Rightarrow> ms | Some (_, rest) \<Rightarrow> rest)"

definition name_given :: "string option \<Rightarrow> bool" where
  "name_given name \<longleftrightarrow> (case name of None \<Rightarrow> False | Some n \<Rightarrow> c_str n \<noteq> [])"

definition json_count :: "json \<Rightarrow> int" where
  "json_count j = (case j of JArray vs \<Rightarrow> int (length vs) | _ \<Rightarrow> - 1)"

definition json_get_at :: "json \<Rightarrow> int \<Rightarrow> json option" where
  "json_get_at j index = (case j of JArray vs \<Rightarrow> cJSON_GetArrayItem vs index | _ \<Rightarrow> None)"

definition json_get :: "json \<Rightarrow> string \<Rightarrow> json option" where
  "json_get j name = (case j of JObject ms \<Rightarrow> cJSON_GetObjectItem ms name | _ \<Rightarrow> None)"

definition json_add_elem :: "json \<Rightarrow> json option \<Rightarrow> bool \<times> json" where
  "json_add_elem j obj =
     (case (j, obj) of (JArray vs, Some v) \<Rightarrow> (True, JArray (vs @ [v])) | _ \<Rightarrow> (False, j))"

text \<open>\<^verbatim>\<open>new_item\<close> and \<^verbatim>\<open>new_string(str)\<close> append to an array.\<close>

definition new_item :: "json \<Rightarrow> json option \<times> json" where
  "new_item j = (case j of JArray vs \<Rightarrow> (Some (JObject []), JArray (vs @ [JObject []])) | _ \<Rightarrow> (None, j))"

definition new_string_elem :: "json \<Rightarrow> string option \<Rightarrow> json option \<times> json" where
  "new_string_elem j str =
     (case (j, str) of
        (JArray vs, Some s) \<Rightarrow> (Some (JString (c_str s)), JArray (vs @ [JString (c_str s)]))
      | _ \<Rightarrow> (None, j))"

text \<open>
  \<^verbatim>\<open>detach(idx, del)\<close>: the outer \<open>None\<close> is a reference made from a null pointer, which the code returns
  for an index behind the last element.
\<close>

definition json_detach_at :: "json \<Rightarrow> int \<Rightarrow> bool \<Rightarrow> (json option \<times> json) option" where
  "json_detach_at j idx del =
     (case j of
        JArray vs \<Rightarrow>
          if idx < 0 then Some (None, j)
          else if nat idx < length vs
          then Some (if del then None else Some (vs ! nat idx), JArray (take (nat idx) vs @ drop (Suc (nat idx)) vs))
          else None
      | _ \<Rightarrow> Some (None, j))"

definition json_add :: "json \<Rightarrow> string option \<Rightarrow> json option \<Rightarrow> bool \<times> json" where
  "json_add j name obj =
     (if \<not> name_given name then (False, j)
      else case (j, obj) of
        (JObject ms, Some v) \<Rightarrow>
          if cJSON_GetObjectItem ms (the name) \<noteq> None then (False, j)
          else (True, JObject (cJSON_AddItemToObject ms (the name) v))
      | _ \<Rightarrow> (False, j))"

text \<open>
  \<^verbatim>\<open>new_number\<close>, \<^verbatim>\<open>new_string\<close>, \<^verbatim>\<open>new_bool\<close>: \<open>same\<close> tells whether an existing item has the type of the new one.
\<close>

definition new_scalar :: "(json \<Rightarrow> bool) \<Rightarrow> json \<Rightarrow> json \<Rightarrow> string option \<Rightarrow> bool \<Rightarrow> json option \<times> json" where
  "new_scalar same item j name repl =
     (if \<not> name_given name then (None, j)
      else case j of
        JObject ms \<Rightarrow>
          (case cJSON_GetObjectItem ms (the name) of
             Some old \<Rightarrow>
               if \<not> same old \<or> \<not> repl then (None, j)
               else (Some item, JObject (cJSON_AddItemToObject (cJSON_DeleteItemFromObject ms (the name)) (the name) item))
           | None \<Rightarrow> (Some item, JObject (cJSON_AddItemToObject ms (the name) item)))
      | _ \<Rightarrow> (None, j))"

definition new_number :: "json \<Rightarrow> string option \<Rightarrow> real \<Rightarrow> bool \<Rightarrow> json option \<times> json" where
  "new_number j name number repl =
     new_scalar (\<lambda>old. case old of JNumber _ _ \<Rightarrow> True | _ \<Rightarrow> False) (JNumber number (to_int64 number)) j name repl"

definition new_string :: "json \<Rightarrow> string option \<Rightarrow> string option \<Rightarrow> bool \<Rightarrow> json option \<times> json" where
  "new_string j name str repl =
     (case str of
        None \<Rightarrow> (None, j)
      | Some s \<Rightarrow> new_scalar (\<lambda>old. case old of JString _ \<Rightarrow> True | _ \<Rightarrow> False) (JString (c_str s)) j name repl)"

definition new_bool :: "json \<Rightarrow> string option \<Rightarrow> bool \<Rightarrow> bool \<Rightarrow> json option \<times> json" where
  "new_bool j name v repl =
     new_scalar (\<lambda>old. old = JFalse \<or> old = JTrue) (if v then JTrue else JFalse) j name repl"

text \<open>\<^verbatim>\<open>new_array\<close> and \<^verbatim>\<open>new_object\<close>; action 1 replaces, 2 uses the existing item, others fail.\<close>

definition new_container :: "(json \<Rightarrow> bool) \<Rightarrow> json \<Rightarrow> json \<Rightarrow> string option \<Rightarrow> int \<Rightarrow> json option \<times> json" where
  "new_container same item j name actn =
     (if \<not> name_given name then (None, j)
      else case j of
        JObject ms \<Rightarrow>
          (case cJSON_GetObjectItem ms (the name) of
             Some old \<Rightarrow>
               if \<not> same old then (None, j)
               else if actn = 1
               then (Some item, JObject (cJSON_AddItemToObject (cJSON_DeleteItemFromObject ms (the name)) (the name) item))
               else if actn = 2 then (Some old, j)
               else (None, j)
           | None \<Rightarrow> (Some item, JObject (cJSON_AddItemToObject ms (the name) item)))
      | _ \<Rightarrow> (None, j))"

definition new_array :: "json \<Rightarrow> string option \<Rightarrow> int \<Rightarrow> json option \<times> json" where
  "new_array j name actn =
     new_container (\<lambda>old. case old of JArray _ \<Rightarrow> True | _ \<Rightarrow> False) (JArray []) j name actn"

definition new_object :: "json \<Rightarrow> string option \<Rightarrow> int \<Rightarrow> json option \<times> json" where
  "new_object j name actn =
     new_container (\<lambda>old. case old of JObject _ \<Rightarrow> True | _ \<Rightarrow> False) (JObject []) j name actn"

definition json_detach :: "json \<Rightarrow> string option \<Rightarrow> bool \<Rightarrow> json option \<times> json" where
  "json_detach j name del =
     (if \<not> name_given name then (None, j)
      else case j of
        JObject ms \<Rightarrow>
          (case cJSON_DetachItemFromObject ms (the name) of
             None \<Rightarrow> (None, j)
           | Some (v, rest) \<Rightarrow> (if del then None else Some v, JObject rest))
      | _ \<Rightarrow> (None, j))"

section \<open>The reader ends\<close>

lemma digit_loop_length: "digit_loop n s = (m, t) \<Longrightarrow> length t \<le> length s"
  by (induction n s arbitrary: m rule: digit_loop.induct) (auto split: if_splits)

lemma subscale_loop_length: "subscale_loop k s = (l, t) \<Longrightarrow> length t \<le> length s"
  by (induction k s arbitrary: l rule: subscale_loop.induct) (auto split: if_splits)

lemma number_parts_length:
  "number_sign s = (x, t) \<Longrightarrow> length t \<le> length s"
  "length (number_zero s) \<le> length s"
  "number_int s = (n, t) \<Longrightarrow> length t \<le> length s"
  "number_frac n s = (m, e, t) \<Longrightarrow> length t \<le> length s"
  "number_exp s = (k, g, t) \<Longrightarrow> length t \<le> length s"
  subgoal by (auto simp: number_sign_def split: list.splits if_splits)
  subgoal by (auto simp: number_zero_def split: list.splits if_splits)
  subgoal by (auto simp del: digit_loop.simps simp: number_int_def dest: digit_loop_length split: list.splits if_splits)
  subgoal by (auto simp del: digit_loop.simps simp: number_frac_def dest: digit_loop_length
        split: list.splits if_splits prod.splits)
  subgoal by (auto simp del: subscale_loop.simps simp: number_exp_def dest: subscale_loop_length
        split: list.splits if_splits prod.splits)
  done

lemma parse_number_length: "parse_number s = (v, r) \<Longrightarrow> length r \<le> length s"
  unfolding parse_number_def Let_def
  by (auto split: prod.splits dest!: number_parts_length(1,3,4,5)) (meson number_parts_length(2) order_trans)

lemma copy_loop_length: "copy_loop s out = Some (p, r) \<Longrightarrow> length r \<le> length s"
proof (induction s out rule: copy_loop.induct)
  case (2 c cs out)
  consider "c = quote" | "c \<noteq> quote" "c \<noteq> backslash"
    | (esc) e cs' where "c = backslash" "cs = e # cs'" "e \<noteq> CHR ''u''"
    | (uni) cs' bs t where "c = backslash" "cs = CHR ''u'' # cs'" "unicode_escape cs' = Some (bs, t)"
    using 2(4) by (auto split: if_splits list.splits option.splits)
  then show ?case
  proof cases
    case esc
    with 2(3) [of e cs'] 2(4) show ?thesis by auto
  next
    case uni
    with 2(2) [of "CHR ''u''" cs' _ bs t] 2(4) unicode_escape_length [OF uni(3)] show ?thesis by auto
  qed (use 2 in auto)
qed simp

lemma parse_string_length: "parse_string s = Parsed t r \<Longrightarrow> length r \<le> length s"
  by (auto simp: parse_string_def split: list.splits if_splits option.splits dest: copy_loop_length)

lemma parse_string_fuel: "parse_string s \<noteq> OutOfFuel"
  by (auto simp: parse_string_def split: list.splits option.splits)

lemma skip_length: "skip s = t \<Longrightarrow> length t \<le> length s"
  using length_skip by blast

text \<open>How each of the three functions comes to a result, one unit of fuel further down.\<close>

lemma parse_value_Parsed:
  assumes "parse_value (Suc n) s = Parsed v r"
  obtains (word) p where "s = p @ r" "backslash \<notin> set p"
  | (str) t where "parse_string s = Parsed t r"
  | (num) w where "parse_number s = (w, r)"
  | (empty) c cs x where "s = c # cs" "c \<noteq> backslash" "skip cs = x # r" "x \<noteq> backslash"
  | (elems) c cs where "s = c # cs" "c \<noteq> backslash" "parse_elems n (skip cs) [] = Parsed v r"
  | (members) c cs where "s = c # cs" "c \<noteq> backslash" "parse_members n (skip cs) [] = Parsed v r"
proof (cases "is_prefix ''null'' s \<or> is_prefix ''false'' s \<or> is_prefix ''true'' s")
  case True
  then show ?thesis
    using assms word [of "''null''"] word [of "''false''"] word [of "''true''"] by (auto simp: is_prefix_iff)
next
  case False
  with assms obtain c cs where s: "s = c # cs" by (cases s) auto
  show ?thesis
    using assms False str num empty [OF s] elems [OF s] members [OF s]
    by (auto simp del: parse_elems.simps parse_members.simps is_prefix.simps simp: s
        split: if_splits list.splits parsed.splits prod.splits)
qed

lemma parse_elems_Parsed:
  assumes "parse_elems (Suc n) s acc = Parsed v r"
  obtains w t c cs where "parse_value n (skip s) = Parsed w t" "skip t = c # cs"
    "r = cs \<or> parse_elems n (skip cs) (acc @ [w]) = Parsed v r"
  using assms by (auto split: parsed.splits list.splits if_splits)

lemma parse_members_Parsed:
  assumes "parse_members (Suc n) s acc = Parsed v r"
  obtains k t c cs w t' c' cs' where "parse_string (skip s) = Parsed k t" "skip t = c # cs"
    "parse_value n (skip cs) = Parsed w t'" "skip t' = c' # cs'"
    "r = cs' \<or> parse_members n (skip cs') (acc @ [(k, w)]) = Parsed v r"
  using assms by (auto split: parsed.splits list.splits if_splits)

lemma parse_length:
  "(\<forall>s v r. parse_value n s = Parsed v r \<longrightarrow> length r \<le> length s) \<and>
   (\<forall>s acc v r. parse_elems n s acc = Parsed v r \<longrightarrow> length r \<le> length s) \<and>
   (\<forall>s acc v r. parse_members n s acc = Parsed v r \<longrightarrow> length r \<le> length s)"
proof (induction n)
  case (Suc n)
  then have IH: "\<And>s v r. parse_value n s = Parsed v r \<Longrightarrow> length r \<le> length s"
    "\<And>s acc v r. parse_elems n s acc = Parsed v r \<Longrightarrow> length r \<le> length s"
    "\<And>s acc v r. parse_members n s acc = Parsed v r \<Longrightarrow> length r \<le> length s" by blast+
  have "length r \<le> length s" if "parse_value (Suc n) s = Parsed v r" for s v r
    using that
  proof (cases rule: parse_value_Parsed)
    case (empty c cs x)
    then show ?thesis using length_skip [of cs] by simp
  next
    case (elems c cs)
    then show ?thesis using IH(2) [OF elems(3)] length_skip [of cs] by simp
  next
    case (members c cs)
    then show ?thesis using IH(3) [OF members(3)] length_skip [of cs] by simp
  qed (auto dest: parse_string_length parse_number_length)
  moreover have "length r \<le> length s" if "parse_elems (Suc n) s acc = Parsed v r" for s acc v r
    using that
  proof (cases rule: parse_elems_Parsed)
    case (1 w t c cs)
    with IH(1) [OF 1(1)] IH(2) [of "skip cs" "acc @ [w]" v r] skip_length [OF 1(2)] length_skip [of s] length_skip [of cs]
    show ?thesis by auto
  qed
  moreover have "length r \<le> length s" if "parse_members (Suc n) s acc = Parsed v r" for s acc v r
    using that
  proof (cases rule: parse_members_Parsed)
    case (1 k t c cs w t' c' cs')
    with parse_string_length [OF 1(1)] IH(1) [OF 1(3)] IH(3) [of "skip cs'" "acc @ [(k, w)]" v r]
      skip_length [OF 1(2)] skip_length [OF 1(4)] length_skip [of s] length_skip [of cs] length_skip [of cs']
    show ?thesis by auto
  qed
  ultimately show ?case by blast
qed simp

lemma parse_enough:
  "(\<forall>s. 2 * length s + 1 \<le> n \<longrightarrow> parse_value n s \<noteq> OutOfFuel) \<and>
   (\<forall>s acc. 2 * length s + 2 \<le> n \<longrightarrow> parse_elems n s acc \<noteq> OutOfFuel) \<and>
   (\<forall>s acc. 2 * length s + 2 \<le> n \<longrightarrow> parse_members n s acc \<noteq> OutOfFuel)"
proof (induction n)
  case (Suc n)
  then have IH: "\<And>s. 2 * length s + 1 \<le> n \<Longrightarrow> parse_value n s \<noteq> OutOfFuel"
    "\<And>s acc. 2 * length s + 2 \<le> n \<Longrightarrow> parse_elems n s acc \<noteq> OutOfFuel"
    "\<And>s acc. 2 * length s + 2 \<le> n \<Longrightarrow> parse_members n s acc \<noteq> OutOfFuel" by blast+
  have "parse_value (Suc n) s \<noteq> OutOfFuel" if "2 * length s + 1 \<le> Suc n" for s
  proof (cases s)
    case (Cons c cs)
    have "parse_elems n (skip cs) [] \<noteq> OutOfFuel" "parse_members n (skip cs) [] \<noteq> OutOfFuel"
      using that Cons length_skip [of cs] by (intro IH(2,3); simp)+
    then show ?thesis
      by (auto simp del: parse_elems.simps parse_members.simps is_prefix.simps simp: Cons parse_string_fuel
        split: if_splits list.splits parsed.splits prod.splits)
  qed simp
  moreover have "parse_elems (Suc n) s acc \<noteq> OutOfFuel" if "2 * length s + 2 \<le> Suc n" for s acc
  proof -
    have v: "parse_value n (skip s) \<noteq> OutOfFuel" using that length_skip [of s] by (intro IH(1)) simp
    have "parse_elems n (skip cs) a \<noteq> OutOfFuel"
      if "parse_value n (skip s) = Parsed w t" "skip t = c # cs" for w t c cs a
      using \<open>2 * length s + 2 \<le> Suc n\<close> parse_length [of n] that(1) skip_length [OF that(2)] length_skip [of s] length_skip [of cs]
      by (intro IH(2)) fastforce
    with v show ?thesis by (auto split: parsed.splits list.splits)
  qed
  moreover have "parse_members (Suc n) s acc \<noteq> OutOfFuel" if "2 * length s + 2 \<le> Suc n" for s acc
  proof -
    have l: "length cs < length s" if "parse_string (skip s) = Parsed k t" "skip t = c # cs" for k t c cs
      using parse_string_length [OF that(1)] skip_length [OF that(2)] length_skip [of s] by simp
    have v: "parse_value n (skip cs) \<noteq> OutOfFuel"
      if "parse_string (skip s) = Parsed k t" "skip t = c # cs" for k t c cs
      using \<open>2 * length s + 2 \<le> Suc n\<close> l [OF that] length_skip [of cs] by (intro IH(1)) simp
    have "parse_members n (skip cs') a \<noteq> OutOfFuel"
      if "parse_string (skip s) = Parsed k t" "skip t = c # cs" "parse_value n (skip cs) = Parsed w t'" "skip t' = c' # cs'"
      for k t c cs w t' c' cs' a
      using \<open>2 * length s + 2 \<le> Suc n\<close> parse_length [of n] l [OF that(1,2)] that(3) skip_length [OF that(4)]
        length_skip [of cs] length_skip [of cs']
      by (intro IH(3)) fastforce
    with v show ?thesis by (auto simp: parse_string_fuel split: parsed.splits list.splits)
  qed
  ultimately show ?case by blast
qed simp

text \<open>
  C38: Reading ends on every text: the recursion of \<^verbatim>\<open>parse_value\<close>, \<^verbatim>\<open>parse_array\<close> and \<^verbatim>\<open>parse_object\<close> is
  never deeper than twice the length of the text, so the fuel of the model never runs out.
\<close>

theorem json_parse_terminates: "json_parse buffer \<noteq> OutOfFuel"
proof (cases buffer)
  case (Some t)
  have "cJSON_Parse t \<noteq> OutOfFuel"
    using parse_enough [of "2 * length (skip (c_str t)) + 2"] unfolding cJSON_Parse_def Let_def by simp
  with Some show ?thesis by (auto simp: json_parse_def split: parsed.splits)
qed (simp add: json_parse_def)

section \<open>Where the reader faults\<close>

text \<open>
  A text whose escapes are complete: no backslash is the last character, and four characters that
  are neither a quote nor a backslash follow every \<^verbatim>\<open>\u\<close>.
\<close>

function escapes_ok :: "string \<Rightarrow> bool" where
  "escapes_ok [] = True"
| "escapes_ok (c # cs) =
     (if c \<noteq> backslash then escapes_ok cs
      else case cs of
        [] \<Rightarrow> False
      | e # cs' \<Rightarrow>
          if e = CHR ''u'' then length cs' \<ge> 4 \<and> quote \<notin> set (take 4 cs') \<and> backslash \<notin> set (take 4 cs') \<and> escapes_ok (drop 4 cs')
          else escapes_ok cs')"
  by pat_completeness auto
termination by (relation "measure length") auto

definition consumes :: "string \<Rightarrow> string \<Rightarrow> bool" where
  "consumes s r \<longleftrightarrow> (\<exists>p. s = p @ r \<and> backslash \<notin> set p)"

lemma consumes_refl [simp]: "consumes s s"
  by (simp add: consumes_def)

lemma consumes_Cons: "\<lbrakk>c \<noteq> backslash; consumes cs r\<rbrakk> \<Longrightarrow> consumes (c # cs) r"
  unfolding consumes_def by (metis append_Cons set_ConsD)

lemma consumes_trans: "\<lbrakk>consumes s t; consumes t r\<rbrakk> \<Longrightarrow> consumes s r"
  unfolding consumes_def by (metis append_assoc UnE set_append)

lemma escapes_ok_consumes:
  assumes "escapes_ok s" and "consumes s r"
  shows "escapes_ok r"
proof -
  have "escapes_ok (p @ r) \<Longrightarrow> backslash \<notin> set p \<Longrightarrow> escapes_ok r" for p
    by (induction p) auto
  with assms show ?thesis by (auto simp: consumes_def)
qed

lemma consumes_skip: "consumes s (skip s)"
  by (induction s) (auto intro: consumes_Cons)

lemma digit_not_backslash: "is_digit c \<Longrightarrow> c \<noteq> backslash"
  by (auto simp: is_digit_def less_eq_char_def)

lemma digit_loop_consumes: "digit_loop n s = (m, t) \<Longrightarrow> consumes s t"
  by (induction n s arbitrary: m rule: digit_loop.induct)
    (auto split: if_splits intro!: consumes_Cons dest: digit_not_backslash)

lemma subscale_loop_consumes: "subscale_loop k s = (m, t) \<Longrightarrow> consumes s t"
  by (induction k s arbitrary: m rule: subscale_loop.induct)
    (auto split: if_splits intro!: consumes_Cons dest: digit_not_backslash)

lemma number_parts_consume:
  "number_sign s = (x, t) \<Longrightarrow> consumes s t"
  "consumes s (number_zero s)"
  "number_int s = (n, t) \<Longrightarrow> consumes s t"
  "number_frac n s = (m, e, t) \<Longrightarrow> consumes s t"
  "number_exp s = (k, g, t) \<Longrightarrow> consumes s t"
  subgoal by (auto simp: number_sign_def intro: consumes_Cons split: list.splits if_splits)
  subgoal by (auto simp: number_zero_def intro: consumes_Cons split: list.splits if_splits)
  subgoal by (auto simp del: digit_loop.simps simp: number_int_def dest: digit_loop_consumes split: list.splits if_splits)
  subgoal by (auto simp del: digit_loop.simps simp: number_frac_def intro: consumes_Cons dest: digit_loop_consumes
        split: list.splits if_splits prod.splits)
  subgoal by (auto simp del: subscale_loop.simps simp: number_exp_def intro: consumes_Cons dest: subscale_loop_consumes
        split: list.splits if_splits prod.splits)
  done

lemma parse_number_consumes: "parse_number s = (v, r) \<Longrightarrow> consumes s r"
  unfolding parse_number_def Let_def
  by (auto split: prod.splits dest!: number_parts_consume(1,3,4,5))
    (meson number_parts_consume(2) consumes_trans)

lemma scan_len_plain:
  "\<lbrakk>quote \<notin> set p; backslash \<notin> set p; scan_len s = Some n\<rbrakk> \<Longrightarrow> scan_len (p @ s) = Some (length p + n)"
  by (induction p) auto

lemma scan_len_code:
  assumes "escapes_ok (backslash # CHR ''u'' # cs)" and "scan_len (drop 4 cs) = Some n"
  shows "scan_len (backslash # CHR ''u'' # cs) = Some (n + 5)"
proof -
  from assms have "scan_len (take 4 cs @ drop 4 cs) = Some (4 + n)"
    by (subst scan_len_plain [of _ _ n]) auto
  then show ?thesis by simp
qed

lemma parse_hex4_bound: "parse_hex4 s < 65536"
proof -
  have hex: "w < 16" if "hex_digit c = Some w" for c w
    using that by (auto simp: hex_digit_def less_eq_char_def split: if_splits)
  then show ?thesis by (auto simp: parse_hex4_def split: list.splits option.splits dest!: hex)
qed

lemma utf8_encode_length: "uc < 65536 \<Longrightarrow> length (utf8_encode uc) \<le> 3" "length (utf8_encode uc) \<le> 4"
  by (auto simp: utf8_encode_def)

text \<open>A unit of four hexadecimal digits gives at most three bytes, a surrogate pair at most four.\<close>

lemma unicode_escape_cases:
  assumes "length cs \<ge> 4" and "escapes_ok (drop 4 cs)"
  obtains (single) bs where "unicode_escape cs = Some (bs, drop 4 cs)" "length bs \<le> 3"
  | (pair) bs t where "drop 4 cs = backslash # CHR ''u'' # t" "unicode_escape cs = Some (bs, drop 4 t)" "length bs \<le> 4"
proof (cases "0xD800 \<le> parse_hex4 cs \<and> parse_hex4 cs \<le> 0xDBFF \<and> take 2 (drop 4 cs) = [backslash, CHR ''u'']")
  case True
  then obtain t where t: "drop 4 cs = backslash # CHR ''u'' # t"
    by (metis (no_types, lifting) append_Cons append_Nil append_take_drop_id)
  have "drop 10 cs = drop 6 (drop 4 cs)" "drop 6 cs = drop 2 (drop 4 cs)" by simp_all
  then have d: "drop 10 cs = drop 4 t" "drop 6 cs = t" unfolding t by (simp_all add: numeral_eq_Suc)
  have "length t \<ge> 4" using assms(2) by (auto simp: t)
  then have "length cs \<ge> 10" using arg_cong [OF t, of length] by simp
  then have "\<exists>bs. unicode_escape cs = Some (bs, drop 4 t) \<and> length bs \<le> 4"
    using True d utf8_encode_length(2) by (auto simp: unicode_escape_def Let_def)
  then show ?thesis using pair [OF t] by blast
next
  case False
  then have "\<exists>bs. unicode_escape cs = Some (bs, drop 4 cs) \<and> length bs \<le> 3"
    using assms(1) utf8_encode_length(1) [OF parse_hex4_bound [of cs]] by (auto simp: unicode_escape_def Let_def)
  then show ?thesis using single by blast
qed

lemma string_passes_agree:
  "escapes_ok cs \<Longrightarrow> \<exists>n p r. scan_len cs = Some n \<and> copy_loop cs out = Some (out @ p, r) \<and> length p \<le> n \<and> escapes_ok r"
proof (induction "length cs" arbitrary: cs out rule: less_induct)
  case less
  show ?case
  proof (cases cs)
    case Nil
    then show ?thesis by simp
  next
    case cs: (Cons c ds)
    consider "c = quote" | (plain) "c \<noteq> quote" "c \<noteq> backslash"
      | (esc) e es where "c = backslash" "ds = e # es" "e \<noteq> CHR ''u''"
      | (code) es where "c = backslash" "ds = CHR ''u'' # es"
      using less.prems cs by (cases ds) (auto split: if_splits)
    then show ?thesis
    proof cases
      case plain
      with less.hyps [of ds "out @ [c]"] less.prems cs show ?thesis by fastforce
    next
      case (esc e es)
      with less.hyps [of es "out @ [simple_escape e]"] less.prems cs show ?thesis by fastforce
    next
      case (code es)
      with less.prems cs have ok: "length es \<ge> 4" "escapes_ok (drop 4 es)" "escapes_ok (backslash # CHR ''u'' # es)" by auto
      from ok(1,2) show ?thesis
      proof (cases rule: unicode_escape_cases)
        case (single bs)
        have l: "length (drop 4 es) < length cs" using cs code by simp
        obtain n p r where "scan_len (drop 4 es) = Some n" "copy_loop (drop 4 es) (out @ bs) = Some ((out @ bs) @ p, r)"
          "length p \<le> n" "escapes_ok r"
          using less.hyps [OF l ok(2), of "out @ bs"] by auto
        with scan_len_code [OF ok(3)] single show ?thesis
          unfolding cs code by (intro exI [of _ "n + 5"] exI [of _ "bs @ p"] exI [of _ r]) auto
      next
        case (pair bs t)
        have "length es - 4 = Suc (Suc (length t))" using arg_cong [OF pair(1), of length] by simp
        with ok(2) cs code have t: "escapes_ok (drop 4 t)" "length (drop 4 t) < length cs"
          by (simp_all add: pair(1))
        obtain n p r where "scan_len (drop 4 t) = Some n" "copy_loop (drop 4 t) (out @ bs) = Some ((out @ bs) @ p, r)"
          "length p \<le> n" "escapes_ok r"
          using less.hyps [OF t(2,1), of "out @ bs"] by auto
        moreover from this have "scan_len (drop 4 es) = Some (n + 5)"
          using scan_len_code [of t n] ok(2) unfolding pair(1) by blast
        ultimately show ?thesis using scan_len_code [OF ok(3)] pair(2,3)
          unfolding cs code by (intro exI [of _ "n + 10"] exI [of _ "bs @ p"] exI [of _ r]) auto
      qed
    qed (use less.prems cs in auto)
  qed
qed

lemma parse_string_safe:
  assumes "escapes_ok s"
  shows "parse_string s \<noteq> Fault" and "parse_string s = Parsed t r \<Longrightarrow> escapes_ok r"
proof -
  have *: "parse_string s = Failed \<or> (\<exists>t r. parse_string s = Parsed t r \<and> escapes_ok r)"
  proof (cases s)
    case (Cons c cs)
    show ?thesis
    proof (cases "c = quote")
      case True
      with assms Cons string_passes_agree [of cs "[]"] show ?thesis
        by (auto simp: parse_string_def)
    qed (simp add: parse_string_def Cons)
  qed (simp add: parse_string_def)
  from * show "parse_string s \<noteq> Fault" by auto
  from * show "parse_string s = Parsed t r \<Longrightarrow> escapes_ok r" by auto
qed

lemma escapes_ok_skip: "escapes_ok s \<Longrightarrow> escapes_ok (skip s)"
  using escapes_ok_consumes consumes_skip by blast

lemma escapes_ok_skip_Cons: "\<lbrakk>escapes_ok s; skip s = c # cs; c \<noteq> backslash\<rbrakk> \<Longrightarrow> escapes_ok cs"
  using escapes_ok_skip [of s] by simp

definition safe :: "'a parsed \<Rightarrow> bool" where
  "safe p \<longleftrightarrow> (case p of Parsed _ r \<Rightarrow> escapes_ok r | Fault \<Rightarrow> False | _ \<Rightarrow> True)"

lemma safe_simps [simp]: "safe (Parsed v r) = escapes_ok r" "safe Failed" "\<not> safe Fault" "safe OutOfFuel"
  by (simp_all add: safe_def)

lemma safe_string: "escapes_ok s \<Longrightarrow> safe (parse_string s)"
  using parse_string_safe [of s] by (cases "parse_string s") auto

lemma parse_value_Fault:
  assumes "parse_value (Suc n) s = Fault"
  obtains "parse_string s = Fault"
  | (elems) c cs where "s = c # cs" "c \<noteq> backslash" "parse_elems n (skip cs) [] = Fault"
  | (members) c cs where "s = c # cs" "c \<noteq> backslash" "parse_members n (skip cs) [] = Fault"
proof -
  from assms have False: "\<not> (is_prefix ''null'' s \<or> is_prefix ''false'' s \<or> is_prefix ''true'' s)"
    by (auto simp: is_prefix_iff)
  with assms obtain c cs where s: "s = c # cs" by (cases s) auto
  show ?thesis
    using assms False that(1) elems [OF s] members [OF s]
    by (auto simp del: parse_elems.simps parse_members.simps is_prefix.simps simp: s
        split: if_splits list.splits parsed.splits prod.splits)
qed

lemma parse_value_safe_step:
  assumes ok: "escapes_ok s" and IH: "\<And>s. escapes_ok s \<Longrightarrow> safe (parse_elems n s [])"
    "\<And>s. escapes_ok s \<Longrightarrow> safe (parse_members n s [])"
  shows "safe (parse_value (Suc n) s)"
proof (cases "parse_value (Suc n) s")
  case (Parsed v r)
  then have "escapes_ok r"
  proof (cases rule: parse_value_Parsed)
    case (word p)
    with escapes_ok_consumes [OF ok] show ?thesis by (auto simp: consumes_def)
  next
    case (str t)
    with parse_string_safe(2) [OF ok] show ?thesis .
  next
    case (num w)
    with escapes_ok_consumes [OF ok parse_number_consumes] show ?thesis .
  next
    case (empty c cs x)
    with ok escapes_ok_skip_Cons [OF _ empty(3)] show ?thesis by simp
  next
    case (elems c cs)
    with ok IH(1) [of "skip cs"] escapes_ok_skip [of cs] show ?thesis by simp
  next
    case (members c cs)
    with ok IH(2) [of "skip cs"] escapes_ok_skip [of cs] show ?thesis by simp
  qed
  with Parsed show ?thesis by simp
next
  case Fault
  then have False
  proof (cases rule: parse_value_Fault)
    case 1
    with parse_string_safe(1) [OF ok] show ?thesis by simp
  next
    case (elems c cs)
    with ok IH(1) [of "skip cs"] escapes_ok_skip [of cs] show ?thesis by simp
  next
    case (members c cs)
    with ok IH(2) [of "skip cs"] escapes_ok_skip [of cs] show ?thesis by simp
  qed
  then show ?thesis ..
qed simp_all

lemma parse_safe:
  "(\<forall>s. escapes_ok s \<longrightarrow> safe (parse_value n s)) \<and>
   (\<forall>s acc. escapes_ok s \<longrightarrow> safe (parse_elems n s acc)) \<and>
   (\<forall>s acc. escapes_ok s \<longrightarrow> safe (parse_members n s acc))"
proof (induction n)
  case (Suc n)
  then have IH: "\<And>s. escapes_ok s \<Longrightarrow> safe (parse_value n s)"
    "\<And>s acc. escapes_ok s \<Longrightarrow> safe (parse_elems n s acc)"
    "\<And>s acc. escapes_ok s \<Longrightarrow> safe (parse_members n s acc)" by blast+
  have "safe (parse_elems (Suc n) s acc)" if "escapes_ok s" for s acc
    using IH(1) [OF escapes_ok_skip [OF that]] IH(2) escapes_ok_skip escapes_ok_skip_Cons
    by (auto split: parsed.splits list.splits)
  moreover have "safe (parse_members (Suc n) s acc)" if "escapes_ok s" for s acc
  proof (cases "parse_string (skip s)")
    case (Parsed k t)
    then have t: "escapes_ok t" using safe_string [OF escapes_ok_skip [OF that]] by simp
    show ?thesis
    proof (cases "skip t")
      case (Cons c cs)
      have "safe (parse_value n (skip cs))" if "c = CHR '':''"
        using IH(1) escapes_ok_skip escapes_ok_skip_Cons [OF t Cons] that by auto
      with Parsed Cons show ?thesis
        using IH(3) escapes_ok_skip escapes_ok_skip_Cons
        by (auto split: parsed.splits list.splits)
    qed (simp add: Parsed)
  qed (use safe_string [OF escapes_ok_skip [OF that]] in auto)
  ultimately show ?case using parse_value_safe_step IH by blast
qed simp

text \<open>
  C37: On a text whose escapes are complete (no backslash is the last character, and the four characters
  behind \<^verbatim>\<open>\u\<close> are neither quotes nor backslashes) the reader never reads behind the text and never
  writes behind the buffer it measured for a string: it returns a value or a failure.
\<close>

theorem json_parse_safe:
  assumes "escapes_ok (c_str buffer)"
  shows "\<exists>j r. json_parse (Some buffer) = Parsed j r"
proof -
  have "safe (cJSON_Parse buffer)"
    using parse_safe [of "2 * length (skip (c_str buffer)) + 2"] escapes_ok_skip [OF assms]
    unfolding cJSON_Parse_def Let_def by blast
  moreover have "cJSON_Parse buffer \<noteq> OutOfFuel"
    using parse_enough [of "2 * length (skip (c_str buffer)) + 2"] unfolding cJSON_Parse_def Let_def by simp
  ultimately show ?thesis by (cases "cJSON_Parse buffer") (auto simp: json_parse_def)
qed

theorem json_parse_safe_witness:
  "escapes_ok (c_str [quote, backslash, CHR ''u'', CHR ''0'', CHR ''0'', CHR ''4'', CHR ''1'', quote]) \<and>
   (\<exists>j r. json_parse (Some [quote, backslash, CHR ''u'', CHR ''0'', CHR ''0'', CHR ''4'', CHR ''1'', quote]) = Parsed j r)"
proof -
  have ok: "escapes_ok (c_str [quote, backslash, CHR ''u'', CHR ''0'', CHR ''0'', CHR ''4'', CHR ''1'', quote])"
    by code_simp
  from json_parse_safe [OF this] ok show ?thesis by (rule conjI [rotated])
qed

text \<open>
  The two passes over a string disagree on an escape \<^verbatim>\<open>\u\<close> with fewer than four characters before a
  quote: the first pass ends the string at the quote, the second steps over it and goes on copying.
  When five or more characters follow, it writes behind the buffer.
\<close>

theorem json_short_escape_overflow:
  assumes "quote \<notin> set t" "backslash \<notin> set t" "CHR 0x00 \<notin> set t" and "length t \<ge> 5"
    and "set [a, b] \<inter> {quote, backslash, CHR 0x00} = {}"
  shows "json_parse (Some ([quote, backslash, CHR ''u'', a, b, quote] @ t @ [quote])) = Fault"
proof -
  let ?cs = "[backslash, CHR ''u'', a, b, quote] @ t @ [quote]"
  have c: "c_str (quote # ?cs) = quote # ?cs" using assms by (intro c_str_id) auto
  obtain x y where t: "t = x # y" using assms(4) by (cases t) auto
  have "hex_digit quote = None" by (simp add: hex_digit_def less_eq_char_def)
  then have "parse_hex4 ([a, b, quote] @ t @ [quote]) = 0"
    by (auto simp: parse_hex4_def t split: option.splits)
  then have u: "unicode_escape ([a, b, quote] @ t @ [quote]) = Some ([], y @ [quote])"
    using t by (simp add: unicode_escape_def)
  have "copy_loop (y @ [quote]) out = Some (out @ y, [])" if "quote \<notin> set y" "backslash \<notin> set y" for y out
    using that by (induction y arbitrary: out) auto
  then have "copy_loop ?cs [] = Some (y, [])" using u t assms(1,2) by simp
  moreover have "scan_len ?cs = Some 3" using assms(5) by auto
  ultimately have "parse_string (quote # ?cs) = Fault" using t assms(4) by (simp add: parse_string_def)
  then have "parse_value (Suc n) (quote # ?cs) = Fault" for n by simp
  then have "cJSON_Parse (quote # ?cs) = Fault" unfolding cJSON_Parse_def c by (simp add: Let_def)
  then show ?thesis by (simp add: json_parse_def)
qed

theorem json_short_escape_overflow_witness:
  "json_parse (Some ([quote, backslash, CHR ''u'', CHR ''1'', CHR ''2'', quote] @ ''aaaaa'' @ [quote])) = Fault"
  by (rule json_short_escape_overflow) simp_all

section \<open>Objects as maps\<close>

text \<open>Names are the same when they agree up to the first NUL and up to case.\<close>

definition fold_name :: "string \<Rightarrow> string" where
  "fold_name name = map to_lower (c_str name)"

definition members_map :: "(string \<times> json) list \<Rightarrow> string \<rightharpoonup> json" where
  "members_map ms = map_of (map (\<lambda>(k, v). (fold_name k, v)) ms)"

definition names_distinct :: "(string \<times> json) list \<Rightarrow> bool" where
  "names_distinct ms \<longleftrightarrow> distinct (map (\<lambda>(k, v). fold_name k) ms)"

lemma fold_name_c_str [simp]: "fold_name (c_str s) = fold_name s"
  by (simp add: fold_name_def)

lemma GetObjectItem_map: "cJSON_GetObjectItem ms name = members_map ms (fold_name name)"
  by (induction ms) (auto simp: members_map_def cJSON_strcasecmp_def fold_name_def)

lemma members_map_Cons: "members_map ((k, v) # ms) = (members_map ms)(fold_name k \<mapsto> v)"
  by (simp add: members_map_def)

lemma members_map_dom: "dom (members_map ms) = (\<lambda>(k, v). fold_name k) ` set ms"
  by (force simp: members_map_def dom_map_of_conv_image_fst image_image case_prod_beta)

lemma members_map_None: "members_map ms k = None \<longleftrightarrow> k \<notin> (\<lambda>(k, v). fold_name k) ` set ms"
  by (simp only: members_map_dom [symmetric] domIff not_not)

lemma names_distinct_Cons:
  "names_distinct ((k, v) # ms) \<longleftrightarrow> members_map ms (fold_name k) = None \<and> names_distinct ms"
  by (simp add: names_distinct_def members_map_None)

lemma AddItem_map:
  assumes "members_map ms (fold_name name) = None"
  shows "members_map (cJSON_AddItemToObject ms name v) = (members_map ms)(fold_name name \<mapsto> v)"
proof -
  have "members_map (cJSON_AddItemToObject ms name v) = [fold_name name \<mapsto> v] ++ members_map ms"
    by (simp add: members_map_def cJSON_AddItemToObject_def)
  with assms show ?thesis by (auto simp: fun_eq_iff map_add_def split: option.splits)
qed

lemma AddItem_distinct:
  assumes "names_distinct ms" and "members_map ms (fold_name name) = None"
  shows "names_distinct (cJSON_AddItemToObject ms name v)"
  using assms by (simp add: names_distinct_def cJSON_AddItemToObject_def members_map_None)

lemma Detach_None: "cJSON_DetachItemFromObject ms name = None \<longleftrightarrow> members_map ms (fold_name name) = None"
  by (induction ms) (auto simp: members_map_def cJSON_strcasecmp_def fold_name_def)

lemma Detach_Some:
  "\<lbrakk>cJSON_DetachItemFromObject ms name = Some (v, rest); names_distinct ms\<rbrakk> \<Longrightarrow>
    members_map ms (fold_name name) = Some v \<and> members_map rest = (members_map ms)(fold_name name := None) \<and>
    names_distinct rest"
proof (induction ms arbitrary: v rest)
  case (Cons m ms)
  obtain k w where m: "m = (k, w)" by (cases m)
  show ?case
  proof (cases "fold_name k = fold_name name")
    case True
    then have "\<not> cJSON_strcasecmp k name" by (simp add: cJSON_strcasecmp_def fold_name_def)
    with Cons.prems True show ?thesis by (auto simp: m names_distinct_Cons members_map_Cons)
  next
    case False
    then have "cJSON_strcasecmp k name" by (simp add: cJSON_strcasecmp_def fold_name_def)
    with Cons.prems obtain rest' where "cJSON_DetachItemFromObject ms name = Some (v, rest')" "rest = (k, w) # rest'"
      by (auto simp: m)
    with Cons.IH [of v rest'] Cons.prems(2) False show ?thesis
      by (auto simp: m names_distinct_Cons members_map_Cons)
  qed
qed simp

lemma Delete_map:
  assumes "names_distinct ms"
  shows "members_map (cJSON_DeleteItemFromObject ms name) = (members_map ms)(fold_name name := None)"
    and "names_distinct (cJSON_DeleteItemFromObject ms name)"
  using assms Detach_None [of ms name] Detach_Some [of ms name]
  by (auto simp: cJSON_DeleteItemFromObject_def fun_upd_idem split: option.splits)

lemma replace_map:
  assumes "names_distinct ms"
  shows "members_map (cJSON_AddItemToObject (cJSON_DeleteItemFromObject ms name) name v) = (members_map ms)(fold_name name \<mapsto> v)"
    and "names_distinct (cJSON_AddItemToObject (cJSON_DeleteItemFromObject ms name) name v)"
  using Delete_map [OF assms, of name]
  by (auto simp: AddItem_map intro!: AddItem_distinct)

text \<open>The map an object stands for, and its invariant.\<close>

definition object_map :: "json \<Rightarrow> string \<rightharpoonup> json" where
  "object_map j = (case j of JObject ms \<Rightarrow> members_map ms | _ \<Rightarrow> Map.empty)"

definition object_inv :: "json \<Rightarrow> bool" where
  "object_inv j \<longleftrightarrow> (case j of JObject ms \<Rightarrow> names_distinct ms | _ \<Rightarrow> False)"

lemma json_get_map: "json_get j name = object_map j (fold_name name)"
  by (simp add: json_get_def object_map_def GetObjectItem_map split: json.splits)

text \<open>What the operations do to the map: add a name, put a scalar or a container, take a name out.\<close>

definition add_spec :: "json \<Rightarrow> string \<Rightarrow> (string \<rightharpoonup> json) \<Rightarrow> bool \<times> (string \<rightharpoonup> json)" where
  "add_spec item k m = (if m k = None then (True, m(k \<mapsto> item)) else (False, m))"

definition put_spec :: "(json \<Rightarrow> bool) \<Rightarrow> json \<Rightarrow> bool \<Rightarrow> string \<Rightarrow> (string \<rightharpoonup> json) \<Rightarrow> json option \<times> (string \<rightharpoonup> json)" where
  "put_spec same item repl k m =
     (if (case m k of None \<Rightarrow> True | Some old \<Rightarrow> same old \<and> repl) then (Some item, m(k \<mapsto> item)) else (None, m))"

definition container_spec :: "(json \<Rightarrow> bool) \<Rightarrow> json \<Rightarrow> int \<Rightarrow> string \<Rightarrow> (string \<rightharpoonup> json) \<Rightarrow> json option \<times> (string \<rightharpoonup> json)" where
  "container_spec same item actn k m =
     (case m k of
        None \<Rightarrow> (Some item, m(k \<mapsto> item))
      | Some old \<Rightarrow>
          if \<not> same old then (None, m)
          else if actn = 1 then (Some item, m(k \<mapsto> item))
          else if actn = 2 then (Some old, m)
          else (None, m))"

definition detach_spec :: "string \<Rightarrow> (string \<rightharpoonup> json) \<Rightarrow> json option \<times> (string \<rightharpoonup> json)" where
  "detach_spec k m = (m k, m(k := None))"

text \<open>An operation refines its specification when it keeps the invariant and the maps agree.\<close>

definition refines :: "'r \<times> json \<Rightarrow> 'r \<times> (string \<rightharpoonup> json) \<Rightarrow> bool" where
  "refines p q \<longleftrightarrow> object_inv (snd p) \<and> fst p = fst q \<and> object_map (snd p) = snd q"

lemma object_inv_cases:
  assumes "object_inv j"
  obtains ms where "j = JObject ms" "names_distinct ms" "object_map j = members_map ms"
  using assms by (auto simp: object_inv_def object_map_def split: json.splits)

lemmas object_defs = refines_def object_inv_def object_map_def name_given_def GetObjectItem_map

lemma new_scalar_refines:
  assumes "object_inv j" and "c_str name \<noteq> []"
  shows "refines (new_scalar same item j (Some name) repl) (put_spec same item repl (fold_name name) (object_map j))"
proof -
  from assms(1) obtain ms where j: "j = JObject ms" "names_distinct ms" by (rule object_inv_cases)
  note facts = replace_map [OF j(2), of name item] AddItem_map [of ms name item] AddItem_distinct [OF j(2), of name item]
  show ?thesis
    using assms(2) facts j(2)
    by (cases "members_map ms (fold_name name)") (simp_all add: new_scalar_def put_spec_def object_defs j(1))
qed

lemma new_container_refines:
  assumes "object_inv j" and "c_str name \<noteq> []"
  shows "refines (new_container same item j (Some name) actn) (container_spec same item actn (fold_name name) (object_map j))"
proof -
  from assms(1) obtain ms where j: "j = JObject ms" "names_distinct ms" by (rule object_inv_cases)
  note facts = replace_map [OF j(2), of name item] AddItem_map [of ms name item] AddItem_distinct [OF j(2), of name item]
  show ?thesis
    using assms(2) facts j(2)
    by (cases "members_map ms (fold_name name)") (simp_all add: new_container_def container_spec_def object_defs j(1))
qed

lemma json_add_refines:
  assumes "object_inv j" and "c_str name \<noteq> []"
  shows "refines (json_add j (Some name) (Some item)) (add_spec item (fold_name name) (object_map j))"
proof -
  from assms(1) obtain ms where j: "j = JObject ms" "names_distinct ms" by (rule object_inv_cases)
  with AddItem_map [of ms name item] AddItem_distinct [OF j(2), of name item] assms(2) show ?thesis
    by (simp add: json_add_def add_spec_def object_defs)
qed

lemma json_detach_refines:
  assumes "object_inv j" and "c_str name \<noteq> []"
  shows "refines (json_detach j (Some name) False) (detach_spec (fold_name name) (object_map j))"
proof -
  from assms(1) obtain ms where j: "j = JObject ms" "names_distinct ms" by (rule object_inv_cases)
  show ?thesis
    using assms(2) j(2) Detach_None [of ms name] Detach_Some [OF _ j(2), of name]
    by (cases "cJSON_DetachItemFromObject ms name")
      (auto simp: json_detach_def detach_spec_def object_defs j(1) fun_upd_idem)
qed

text \<open>
  C39: The operations of \<^verbatim>\<open>jsonobject\<close> implement a map from names, compared without regard to case, to
  values. On an object whose names are distinct, \<^verbatim>\<open>new_number\<close>, \<^verbatim>\<open>new_string\<close> and \<^verbatim>\<open>new_bool\<close> put the value
  when the name is new, or when it is replaceable and of the same type; \<^verbatim>\<open>new_array\<close> and \<^verbatim>\<open>new_object\<close>
  follow the action code; \<^verbatim>\<open>add\<close> and \<^verbatim>\<open>detach\<close> insert and remove; a refused call changes nothing; the names
  stay distinct; and \<^verbatim>\<open>get\<close> reads the map.
\<close>

theorem json_object_refines:
  assumes "object_inv j" and "c_str name \<noteq> []"
  shows "json_get j other = object_map j (fold_name other) \<and>
    refines (new_number j (Some name) d repl)
      (put_spec (\<lambda>old. case old of JNumber _ _ \<Rightarrow> True | _ \<Rightarrow> False) (JNumber d (to_int64 d)) repl (fold_name name) (object_map j)) \<and>
    refines (new_string j (Some name) (Some str) repl)
      (put_spec (\<lambda>old. case old of JString _ \<Rightarrow> True | _ \<Rightarrow> False) (JString (c_str str)) repl (fold_name name) (object_map j)) \<and>
    refines (new_bool j (Some name) b repl)
      (put_spec (\<lambda>old. old = JFalse \<or> old = JTrue) (if b then JTrue else JFalse) repl (fold_name name) (object_map j)) \<and>
    refines (new_array j (Some name) actn)
      (container_spec (\<lambda>old. case old of JArray _ \<Rightarrow> True | _ \<Rightarrow> False) (JArray []) actn (fold_name name) (object_map j)) \<and>
    refines (new_object j (Some name) actn)
      (container_spec (\<lambda>old. case old of JObject _ \<Rightarrow> True | _ \<Rightarrow> False) (JObject []) actn (fold_name name) (object_map j)) \<and>
    refines (json_add j (Some name) (Some item)) (add_spec item (fold_name name) (object_map j)) \<and>
    refines (json_detach j (Some name) False) (detach_spec (fold_name name) (object_map j))"
  unfolding new_number_def new_string_def new_bool_def new_array_def new_object_def option.case
  by (intro conjI json_get_map new_scalar_refines new_container_refines json_add_refines json_detach_refines assms)

definition sample_object :: json where
  "sample_object = JObject [(''Lane'', JNumber 3 3)]"

theorem json_object_refines_witness:
  "object_inv sample_object \<and>
   refines (new_string sample_object (Some ''lane'') (Some ''x'') True)
     (put_spec (\<lambda>old. case old of JString _ \<Rightarrow> True | _ \<Rightarrow> False) (JString (c_str ''x'')) True (fold_name ''lane'') (object_map sample_object))"
proof -
  have i: "object_inv sample_object" by (simp add: sample_object_def object_inv_def names_distinct_def)
  have n: "c_str ''lane'' \<noteq> []" by (simp add: c_str_def)
  from json_object_refines [OF i n] i show ?thesis by blast
qed

section \<open>A table of strings\<close>

text \<open>
  An object that holds strings only is a keyed store for lower-case names: \<^verbatim>\<open>new_string\<close> with and without
  replacement are its two insertions.
\<close>

definition string_table :: "json \<Rightarrow> bool" where
  "string_table j \<longleftrightarrow> object_inv j \<and> (\<forall>v \<in> ran (object_map j). \<exists>s. v = JString s)"

definition table_get :: "json \<Rightarrow> string \<Rightarrow> string option" where
  "table_get j k = (case object_map j k of Some (JString s) \<Rightarrow> Some s | _ \<Rightarrow> None)"

definition table_put :: "bool \<Rightarrow> string \<Rightarrow> string \<Rightarrow> json \<Rightarrow> int \<times> json" where
  "table_put repl k v j = (case new_string j (Some k) (Some v) repl of (r, j') \<Rightarrow> (if r = None then - 1 else 0, j'))"

lemma table_put_law:
  assumes "string_table j" "fold_name k = k" "c_str k \<noteq> []" "c_str v = v"
    and "table_get j k = None \<or> repl" and "table_put repl k v j = (r, j')"
  shows "r = 0 \<and> string_table j' \<and> table_get j' = (table_get j)(k \<mapsto> v)"
proof -
  let ?same = "\<lambda>old. case old of JString _ \<Rightarrow> True | _ \<Rightarrow> False"
  have s: "refines (new_string j (Some k) (Some v) repl) (put_spec ?same (JString v) repl k (object_map j))"
    using new_scalar_refines [of j k ?same "JString v" repl] assms(1-4) by (simp add: new_string_def string_table_def)
  have old: "case object_map j k of None \<Rightarrow> True | Some old \<Rightarrow> ?same old \<and> repl"
    using assms(1,5) by (auto simp: string_table_def table_get_def ran_def split: option.splits json.splits)
  obtain q where "new_string j (Some k) (Some v) repl = (q, j')" "r = (if q = None then - 1 else 0)"
    using assms(6) by (auto simp: table_put_def split: prod.splits)
  with s old have j': "r = 0" "object_inv j'" "object_map j' = (object_map j)(k \<mapsto> JString v)"
    by (simp_all add: refines_def put_spec_def)
  have "ran (object_map j') \<subseteq> insert (JString v) (ran (object_map j))" by (auto simp: j'(3) ran_def)
  with j' assms(1) show ?thesis by (auto simp: string_table_def table_get_def fun_eq_iff)
qed

interpretation jtable: keyed_store string_table table_get "\<lambda>k. fold_name k = k \<and> c_str k \<noteq> []" "\<lambda>v. c_str v = v"
  "table_put False" "table_put True"
  by (unfold_locales; elim conjE; rule table_put_law; (assumption | simp))

text \<open>
  A sequence of \<^verbatim>\<open>new_string\<close> calls on an object of strings, with replacement where the name exists,
  is a sequence of map updates: the last value given for a name is the one read back, and the
  names given before keep theirs.
\<close>

theorem json_strings_map:
  assumes "string_table j" and "\<forall>(k, v) \<in> set kvs. fold_name k = k \<and> c_str k \<noteq> [] \<and> c_str v = v"
  defines "j' \<equiv> fold (\<lambda>(k, v) j. snd (new_string j (Some k) (Some v) (json_get j k \<noteq> None))) kvs j"
  shows "string_table j' \<and> table_get j' = table_get j ++ map_of (rev kvs)"
proof -
  have "j' = fold (\<lambda>(k, v). jtable.put k v) kvs j"
    using assms(1,2) unfolding j'_def
  proof (induction kvs arbitrary: j)
    case (Cons kv kvs)
    obtain k v where kv: "kv = (k, v)" by (cases kv)
    have "table_get j k = None \<longleftrightarrow> json_get j k = None"
      using Cons.prems by (auto simp: kv json_get_map table_get_def string_table_def ran_def split: option.splits json.splits)
    then have "snd (new_string j (Some k) (Some v) (json_get j k \<noteq> None)) = jtable.put k v j"
      by (simp add: jtable.put_def table_put_def split: prod.splits)
    with Cons jtable.put_law [of j k v] kv show ?case by auto
  qed simp
  with jtable.puts_law [OF assms(1)] assms(2) show ?thesis by auto
qed

definition sample_strings :: "(string \<times> string) list" where
  "sample_strings = [(''a'', ''1''), (''b'', ''2''), (''a'', ''3'')]"

theorem json_strings_map_witness:
  "string_table (JObject []) \<and>
   table_get (fold (\<lambda>(k, v) j. snd (new_string j (Some k) (Some v) (json_get j k \<noteq> None))) sample_strings (JObject []))
     = table_get (JObject []) ++ map_of (rev sample_strings)"
proof -
  have t: "string_table (JObject [])"
    by (simp add: string_table_def object_inv_def object_map_def names_distinct_def members_map_def)
  have k: "\<forall>(k, v) \<in> set sample_strings. fold_name k = k \<and> c_str k \<noteq> [] \<and> c_str v = v"
    by (simp add: sample_strings_def fold_name_def c_str_def to_lower_def less_eq_char_def)
  from json_strings_map [OF t k] t show ?thesis by simp
qed

end
