(* ===== verification/Avl_Tree.thy ===== *)
theory Avl_Tree
  imports V2I_Prelude "HOL-Library.Tree" "HOL-Library.Monad_Syntax"
begin

text \<open>
  The AVL tree of \<^verbatim>\<open>mec/zsfd/utils/avltree.cpp\<close>, pointer by pointer. Nodes live in a heap, a map from
  addresses to nodes; a pointer is an optional address, \<open>None\<close> for \<^verbatim>\<open>NULL\<close>. Every operation is a
  function in the option monad: \<open>None\<close> is a dereference of \<^verbatim>\<open>NULL\<close> or of an address without a node, an
  index outside of a table, or a loop that does not end. The abstraction relation \<open>rep\<close> ties the
  nodes, with their child, parent, index and balance fields, to a binary tree.
\<close>

section \<open>Nodes and the heap\<close>

record avl_node =
  avl_balance :: int
  avl_child_index :: nat
  avl_child0 :: "nat option"
  avl_child1 :: "nat option"
  avl_parent :: "nat option"

type_synonym ptr = "nat option"
type_synonym avl_heap = "nat \<rightharpoonup> avl_node"

definition child :: "avl_node \<Rightarrow> nat \<Rightarrow> ptr" where
  "child n i = (if i = 0 then avl_child0 n else avl_child1 n)"

definition put_child :: "nat \<Rightarrow> ptr \<Rightarrow> avl_node \<Rightarrow> avl_node" where
  "put_child i p n = (if i = 0 then n\<lparr>avl_child0 := p\<rparr> else n\<lparr>avl_child1 := p\<rparr>)"

definition node_at :: "avl_heap \<Rightarrow> ptr \<Rightarrow> avl_node option" where
  "node_at h p = (case p of None \<Rightarrow> None | Some a \<Rightarrow> h a)"

definition modify :: "avl_heap \<Rightarrow> ptr \<Rightarrow> (avl_node \<Rightarrow> avl_node) \<Rightarrow> avl_heap option" where
  "modify h p f =
     (case p of None \<Rightarrow> None | Some a \<Rightarrow> (case h a of None \<Rightarrow> None | Some n \<Rightarrow> Some (h(a \<mapsto> f n))))"

abbreviation set_parent :: "avl_heap \<Rightarrow> ptr \<Rightarrow> ptr \<Rightarrow> avl_heap option" where
  "set_parent h p q \<equiv> modify h p (\<lambda>n. n\<lparr>avl_parent := q\<rparr>)"
abbreviation set_index :: "avl_heap \<Rightarrow> ptr \<Rightarrow> nat \<Rightarrow> avl_heap option" where
  "set_index h p i \<equiv> modify h p (\<lambda>n. n\<lparr>avl_child_index := i\<rparr>)"
abbreviation set_balance :: "avl_heap \<Rightarrow> ptr \<Rightarrow> int \<Rightarrow> avl_heap option" where
  "set_balance h p b \<equiv> modify h p (\<lambda>n. n\<lparr>avl_balance := b\<rparr>)"
abbreviation set_child :: "avl_heap \<Rightarrow> ptr \<Rightarrow> nat \<Rightarrow> ptr \<Rightarrow> avl_heap option" where
  "set_child h p i q \<equiv> modify h p (put_child i q)"

text \<open>The tables \<^verbatim>\<open>avl_child2balance\<close> and \<^verbatim>\<open>avl_balance2child\<close>, the latter indexed by \<^verbatim>\<open>1 + c\<close>.\<close>

definition child2balance :: "nat \<Rightarrow> int" where
  "child2balance i = (if i = 0 then - 1 else 1)"

definition balance2child :: "int \<Rightarrow> nat option" where
  "balance2child c = (if c = - 1 \<or> c = 0 then Some 0 else if c = 1 then Some 1 else None)"

text \<open>Hanging a subtree below a new parent, when it is not empty.\<close>

definition relink :: "avl_heap \<Rightarrow> ptr \<Rightarrow> ptr \<Rightarrow> nat \<Rightarrow> avl_heap option" where
  "relink h p parent i =
     (if p = None then Some h
      else do { h1 \<leftarrow> set_parent h p parent; set_index h1 p i })"

text \<open>\<^verbatim>\<open>parent->avl_child[which_child] = p\<close>, or \<^verbatim>\<open>*tree = p\<close> at the root.\<close>

definition link :: "avl_heap \<Rightarrow> ptr \<Rightarrow> ptr \<Rightarrow> nat \<Rightarrow> ptr \<Rightarrow> (avl_heap \<times> ptr) option" where
  "link h tree parent i p =
     (if parent \<noteq> None then do { h1 \<leftarrow> set_child h parent i p; Some (h1, tree) }
      else Some (h, p))"

section \<open>Rotation\<close>

definition rotate_single ::
  "avl_heap \<Rightarrow> ptr \<Rightarrow> ptr \<Rightarrow> ptr \<Rightarrow> nat \<Rightarrow> int \<Rightarrow> (avl_heap \<times> ptr \<times> bool) option" where
  "rotate_single h tree node ch left_i child_bal =
     do {
       n \<leftarrow> node_at h node;
       c \<leftarrow> node_at h ch;
       let right_i = 1 - left_i;
       let parent = avl_parent n;
       let which_child = avl_child_index n;
       let cright = child c right_i;
       h \<leftarrow> set_child h node left_i cright;
       h \<leftarrow> relink h cright node left_i;
       h \<leftarrow> set_child h ch right_i node;
       h \<leftarrow> set_balance h node (- child_bal);
       h \<leftarrow> set_index h node right_i;
       h \<leftarrow> set_parent h node ch;
       h \<leftarrow> set_balance h ch child_bal;
       h \<leftarrow> set_index h ch which_child;
       h \<leftarrow> set_parent h ch parent;
       (h, tree) \<leftarrow> link h tree parent which_child ch;
       Some (h, tree, child_bal = 0)
     }"

definition rotate_double ::
  "avl_heap \<Rightarrow> ptr \<Rightarrow> ptr \<Rightarrow> ptr \<Rightarrow> nat \<Rightarrow> int \<Rightarrow> (avl_heap \<times> ptr \<times> bool) option" where
  "rotate_double h tree node ch left_i left_heavy =
     do {
       n \<leftarrow> node_at h node;
       c \<leftarrow> node_at h ch;
       let right_i = 1 - left_i;
       let right_heavy = - left_heavy;
       let parent = avl_parent n;
       let which_child = avl_child_index n;
       let gchild = child c right_i;
       g \<leftarrow> node_at h gchild;
       let gleft = child g left_i;
       let gright = child g right_i;
       h \<leftarrow> set_child h node left_i gright;
       h \<leftarrow> relink h gright node left_i;
       h \<leftarrow> set_child h ch right_i gleft;
       h \<leftarrow> relink h gleft ch right_i;
       let balance = avl_balance g;
       h \<leftarrow> set_child h gchild left_i ch;
       h \<leftarrow> set_balance h ch (if balance = right_heavy then left_heavy else 0);
       h \<leftarrow> set_parent h ch gchild;
       h \<leftarrow> set_index h ch left_i;
       h \<leftarrow> set_child h gchild right_i node;
       h \<leftarrow> set_balance h node (if balance = left_heavy then right_heavy else 0);
       h \<leftarrow> set_parent h node gchild;
       h \<leftarrow> set_index h node right_i;
       h \<leftarrow> set_balance h gchild 0;
       h \<leftarrow> set_parent h gchild parent;
       h \<leftarrow> set_index h gchild which_child;
       (h, tree) \<leftarrow> link h tree parent which_child gchild;
       Some (h, tree, True)
     }"

definition avl_rotation :: "avl_heap \<Rightarrow> ptr \<Rightarrow> ptr \<Rightarrow> int \<Rightarrow> (avl_heap \<times> ptr \<times> bool) option" where
  "avl_rotation h tree node balance =
     do {
       let left_i = (if balance < 0 then 0 else 1);
       let left_heavy = balance div 2;
       let right_heavy = - left_heavy;
       n \<leftarrow> node_at h node;
       let ch = child n left_i;
       c \<leftarrow> node_at h ch;
       if avl_balance c \<noteq> right_heavy
       then rotate_single h tree node ch left_i (avl_balance c + right_heavy)
       else rotate_double h tree node ch left_i left_heavy
     }"

section \<open>Insertion, search and iteration\<close>

text \<open>
  The comparison \<open>cmp\<close> is the function pointer of the caller, applied to the value it looks for and
  a node. The search gives \<open>Inl\<close> of the node found, or \<open>Inr\<close> of the place below the last node.
\<close>

partial_function (option) avl_search ::
  "(nat \<Rightarrow> int) \<Rightarrow> avl_heap \<Rightarrow> ptr \<Rightarrow> ptr \<Rightarrow> nat \<Rightarrow> (nat + ptr \<times> nat) option" where
  "avl_search cmp h node parent which_child =
     (case node of
        None \<Rightarrow> Some (Inr (parent, which_child))
      | Some a \<Rightarrow>
          if cmp a = 0 then Some (Inl a)
          else do {
            i \<leftarrow> balance2child (cmp a);
            n \<leftarrow> h a;
            avl_search cmp h (child n i) node i
          })"

partial_function (option) avl_insert_up ::
  "avl_heap \<Rightarrow> ptr \<Rightarrow> ptr \<Rightarrow> nat \<Rightarrow> (avl_heap \<times> ptr) option" where
  "avl_insert_up h tree parent which_child =
     (case parent of
        None \<Rightarrow> Some (h, tree)
      | Some a \<Rightarrow> do {
          n \<leftarrow> h a;
          let old_balance = avl_balance n;
          let new_balance = old_balance + child2balance which_child;
          if new_balance = 0 then do { h1 \<leftarrow> set_balance h parent 0; Some (h1, tree) }
          else if old_balance \<noteq> 0 then do { (h1, tree1, _) \<leftarrow> avl_rotation h tree parent new_balance; Some (h1, tree1) }
          else do {
            h1 \<leftarrow> set_balance h parent new_balance;
            avl_insert_up h1 tree (avl_parent n) (avl_child_index n)
          }
        })"

text \<open>\<^verbatim>\<open>avl_insert\<close>: the result is the value returned, \<open>1\<close> when an equal node is there.\<close>

definition avl_insert ::
  "avl_heap \<Rightarrow> ptr \<Rightarrow> nat \<Rightarrow> (nat \<Rightarrow> nat \<Rightarrow> int) \<Rightarrow> (avl_heap \<times> ptr \<times> int) option" where
  "avl_insert h tree new_data cmp =
     do {
       place \<leftarrow> avl_search (cmp new_data) h tree None 0;
       case place of
         Inl _ \<Rightarrow> Some (h, tree, 1)
       | Inr (parent, which_child) \<Rightarrow> do {
           h \<leftarrow> modify h (Some new_data) (\<lambda>n. n\<lparr>avl_child0 := None, avl_child1 := None,
             avl_child_index := which_child, avl_balance := 0, avl_parent := parent\<rparr>);
           (h, tree) \<leftarrow> link h tree parent which_child (Some new_data);
           (h, tree) \<leftarrow> avl_insert_up h tree parent which_child;
           Some (h, tree, 0)
         }
     }"

definition avl_find :: "avl_heap \<Rightarrow> ptr \<Rightarrow> 'v \<Rightarrow> ('v \<Rightarrow> nat \<Rightarrow> int) \<Rightarrow> ptr option" where
  "avl_find h tree val cmp =
     do {
       place \<leftarrow> avl_search (cmp val) h tree None 0;
       Some (case place of Inl a \<Rightarrow> Some a | Inr _ \<Rightarrow> None)
     }"

partial_function (option) avl_first_loop :: "avl_heap \<Rightarrow> ptr \<Rightarrow> ptr \<Rightarrow> ptr option" where
  "avl_first_loop h tree prev =
     (case tree of None \<Rightarrow> Some prev | Some a \<Rightarrow> do { n \<leftarrow> h a; avl_first_loop h (avl_child0 n) tree })"

definition avl_first :: "avl_heap \<Rightarrow> ptr \<Rightarrow> ptr option" where
  "avl_first h tree = avl_first_loop h tree None"

partial_function (option) avl_next_up :: "avl_heap \<Rightarrow> ptr \<Rightarrow> ptr \<Rightarrow> ptr option" where
  "avl_next_up h parent prev =
     (case parent of
        None \<Rightarrow> Some None
      | Some a \<Rightarrow> do {
          n \<leftarrow> h a;
          if avl_child1 n = prev then avl_next_up h (avl_parent n) parent else Some parent
        })"

definition avl_next :: "avl_heap \<Rightarrow> ptr \<Rightarrow> ptr option" where
  "avl_next h prev =
     (case prev of
        None \<Rightarrow> Some None
      | Some a \<Rightarrow> do {
          n \<leftarrow> h a;
          if avl_child1 n \<noteq> None then avl_first h (avl_child1 n) else avl_next_up h (avl_parent n) prev
        })"

section \<open>Removal\<close>

text \<open>The loop that adjusts balances upwards; the parent it starts with is not \<^verbatim>\<open>NULL\<close>.\<close>

partial_function (option) avl_remove_up ::
  "avl_heap \<Rightarrow> ptr \<Rightarrow> ptr \<Rightarrow> nat \<Rightarrow> (avl_heap \<times> ptr) option" where
  "avl_remove_up h tree node which_child =
     do {
       n \<leftarrow> node_at h node;
       let old_balance = avl_balance n;
       let new_balance = old_balance - child2balance which_child;
       let parent = avl_parent n;
       if old_balance = 0 then do { h1 \<leftarrow> set_balance h node new_balance; Some (h1, tree) }
       else do {
         (h1, tree1, shorter) \<leftarrow>
           (if new_balance = 0 then do { h1 \<leftarrow> set_balance h node new_balance; Some (h1, tree, True) }
            else avl_rotation h tree node new_balance);
         if \<not> shorter then Some (h1, tree1)
         else if parent = None then Some (h1, tree1)
         else avl_remove_up h1 tree1 parent (avl_child_index n)
       }
     }"

text \<open>The descent to the neighbour: down to the side \<open>right_i\<close> as far as possible.\<close>

partial_function (option) avl_far :: "avl_heap \<Rightarrow> ptr \<Rightarrow> nat \<Rightarrow> nat option" where
  "avl_far h node right_i =
     (case node of
        None \<Rightarrow> None
      | Some a \<Rightarrow> do { n \<leftarrow> h a; if child n right_i = None then Some a else avl_far h (child n right_i) right_i })"

text \<open>The only child of the neighbour gets the neighbour's stand-in as its parent.\<close>

definition reparent_child :: "avl_heap \<Rightarrow> avl_node \<Rightarrow> ptr \<Rightarrow> avl_heap option" where
  "reparent_child h t q =
     (let c = child t (if avl_child1 t \<noteq> None then 1 else 0)
      in if c \<noteq> None then set_parent h c q else Some h)"

text \<open>
  The exchange with the neighbour when both children are there; \<open>tmp\<close> is the address of the local
  variable that takes the neighbour's place.
\<close>

definition avl_exchange :: "avl_heap \<Rightarrow> ptr \<Rightarrow> nat \<Rightarrow> nat \<Rightarrow> (avl_heap \<times> ptr) option" where
  "avl_exchange h tree pDelete tmp =
     do {
       d \<leftarrow> h pDelete;
       left_i \<leftarrow> balance2child (avl_balance d);
       let right_i = 1 - left_i;
       node \<leftarrow> avl_far h (child d left_i) right_i;
       t \<leftarrow> h node;
       let h = h(tmp \<mapsto> t);
       let h = h(node \<mapsto> (if child d left_i = Some node then put_child left_i (Some tmp) d else d));
       (h, tree) \<leftarrow> link h tree (avl_parent d) (avl_child_index d) (Some node);
       n \<leftarrow> h node;
       h \<leftarrow> set_parent h (child n left_i) (Some node);
       h \<leftarrow> set_parent h (child n right_i) (Some node);
       t \<leftarrow> h tmp;
       h \<leftarrow> set_child h (avl_parent t) (avl_child_index t) (Some tmp);
       t \<leftarrow> h tmp;
       h \<leftarrow> reparent_child h t (Some tmp);
       Some (h, tree)
     }"

definition avl_unlink :: "avl_heap \<Rightarrow> ptr \<Rightarrow> nat \<Rightarrow> (avl_heap \<times> ptr) option" where
  "avl_unlink h tree pDelete =
     do {
       d \<leftarrow> h pDelete;
       let parent = avl_parent d;
       let which_child = avl_child_index d;
       let node = (if avl_child0 d \<noteq> None then avl_child0 d else avl_child1 d);
       h \<leftarrow> relink h node parent which_child;
       if parent = None then Some (h, node)
       else do {
         h \<leftarrow> set_child h parent which_child node;
         avl_remove_up h tree parent which_child
       }
     }"

definition avl_remove :: "avl_heap \<Rightarrow> ptr \<Rightarrow> nat \<Rightarrow> nat \<Rightarrow> (avl_heap \<times> ptr) option" where
  "avl_remove h tree pDelete tmp =
     do {
       d \<leftarrow> h pDelete;
       if avl_child0 d \<noteq> None \<and> avl_child1 d \<noteq> None
       then do { (h, tree) \<leftarrow> avl_exchange h tree pDelete tmp; avl_unlink h tree tmp }
       else avl_unlink h tree pDelete
     }"

section \<open>The trees the heap stands for\<close>

text \<open>
  A tree of addresses with their balance. \<open>Nd i x v y\<close> is the node with \<open>x\<close> on side \<open>i\<close> and \<open>y\<close> on
  the other, so that left and right rotations are one.
\<close>

type_synonym atree = "(nat \<times> int) tree"

definition Nd :: "nat \<Rightarrow> atree \<Rightarrow> nat \<times> int \<Rightarrow> atree \<Rightarrow> atree" where
  "Nd i x v y = (if i = 0 then Node x v y else Node y v x)"

definition side :: "nat \<Rightarrow> atree \<Rightarrow> atree" where
  "side i t = (case t of Leaf \<Rightarrow> Leaf | Node l _ r \<Rightarrow> if i = 0 then l else r)"

definition addrs :: "atree \<Rightarrow> nat set" where
  "addrs t = fst ` set_tree t"

definition keys :: "atree \<Rightarrow> nat list" where
  "keys t = map fst (inorder t)"

fun avl :: "atree \<Rightarrow> bool" where
  "avl Leaf \<longleftrightarrow> True"
| "avl (Node l (a, b) r) \<longleftrightarrow> avl l \<and> avl r \<and> b = int (height r) - int (height l) \<and> b \<in> {- 1, 0, 1}"

lemma Nd_simps [simp]:
  "side i (Nd i x v y) = x" "i < 2 \<Longrightarrow> side (1 - i) (Nd i x v y) = y" "Nd i x v y \<noteq> Leaf"
  "height (Nd i x v y) = Suc (max (height x) (height y))"
  by (auto simp: Nd_def side_def max.commute)

lemma Nd_cases:
  assumes "i < 2"
  obtains "t = Leaf" | x a b y where "t = Nd i x (a, b) y"
proof (cases t)
  case (Node l v r)
  obtain a b where "v = (a, b)" by (cases v)
  with Node that(2) [of "side i t" a b "side (1 - i) t"] assms show ?thesis by (auto simp: Nd_def side_def)
qed (use that in simp)

lemma Nd_inject [simp]: "Nd i x v y = Nd i x' v' y' \<longleftrightarrow> x = x' \<and> v = v' \<and> y = y'"
  by (auto simp: Nd_def)

lemma addrs_simps [simp]:
  "addrs Leaf = {}" "addrs (Node l (a, b) r) = insert a (addrs l \<union> addrs r)"
  "addrs (Nd i x (a, b) y) = insert a (addrs x \<union> addrs y)"
  by (auto simp: addrs_def Nd_def)

lemma set_keys: "set (keys t) = addrs t"
  by (simp add: keys_def addrs_def)

lemma keys_simps [simp]: "keys Leaf = []" "keys (Node l (a, b) r) = keys l @ a # keys r"
  by (simp_all add: keys_def)

lemma keys_Nd: "keys (Nd i x (a, b) y) = (if i = 0 then keys x @ a # keys y else keys y @ a # keys x)"
  by (simp add: Nd_def)

lemma distinct_Nd [simp]:
  "distinct (keys (Nd i x (a, b) y)) \<longleftrightarrow>
    distinct (keys x) \<and> distinct (keys y) \<and> a \<notin> addrs x \<and> a \<notin> addrs y \<and> addrs x \<inter> addrs y = {}"
  by (auto simp: Nd_def set_keys)

lemma avl_Nd:
  "avl (Nd i x (a, b) y) \<longleftrightarrow>
    avl x \<and> avl y \<and> b = child2balance i * (int (height x) - int (height y)) \<and> b \<in> {- 1, 0, 1}"
  by (auto simp: Nd_def child2balance_def)

subsection \<open>Rotation of trees\<close>

definition rot :: "nat \<Rightarrow> atree \<Rightarrow> nat \<Rightarrow> atree \<Rightarrow> atree \<times> bool" where
  "rot i x a y =
     (case x of
        Leaf \<Rightarrow> (Leaf, False)
      | Node _ (c, cb) _ \<Rightarrow>
          (let heavy = child2balance i; xl = side i x; xr = side (1 - i) x in
           if cb \<noteq> - heavy then (Nd i xl (c, cb - heavy) (Nd i xr (a, heavy - cb) y), cb - heavy = 0)
           else (case xr of
               Leaf \<Rightarrow> (Leaf, False)
             | Node _ (g, gb) _ \<Rightarrow>
                 (Nd i (Nd i xl (c, if gb = - heavy then heavy else 0) (side i xr)) (g, 0)
                    (Nd i (side (1 - i) xr) (a, if gb = heavy then - heavy else 0) y), True))))"

lemma rot_single:
  assumes "i < 2" and "cb \<noteq> - child2balance i"
  shows "rot i (Nd i xl (c, cb) xr) a y =
    (Nd i xl (c, cb - child2balance i) (Nd i xr (a, child2balance i - cb) y), cb - child2balance i = 0)"
  using assms by (auto simp: rot_def Nd_def side_def Let_def)

lemma rot_double:
  assumes "i < 2" and "cb = - child2balance i"
  shows "rot i (Nd i xl (c, cb) (Nd i gl (g, gb) gr)) a y =
    (Nd i (Nd i xl (c, if gb = - child2balance i then child2balance i else 0) gl) (g, 0)
       (Nd i gr (a, if gb = child2balance i then - child2balance i else 0) y), True)"
  using assms by (auto simp: rot_def Nd_def side_def Let_def)

lemma child2balance_cases: "i < 2 \<Longrightarrow> (i = 0 \<and> child2balance i = - 1) \<or> (i = 1 \<and> child2balance i = 1)"
  by (auto simp: child2balance_def)

text \<open>What a rotation is for: a tree two higher on one side becomes balanced, with its keys in order.\<close>

lemma rot_keys:
  "\<lbrakk>i < 2; cb \<noteq> - child2balance i\<rbrakk> \<Longrightarrow>
    keys (fst (rot i (Nd i xl (c, cb) xr) a y)) = keys (Nd i (Nd i xl (c, cb) xr) (a, 0) y)"
  "\<lbrakk>i < 2; cb = - child2balance i\<rbrakk> \<Longrightarrow>
    keys (fst (rot i (Nd i xl (c, cb) (Nd i gl (g, gb) gr)) a y))
      = keys (Nd i (Nd i xl (c, cb) (Nd i gl (g, gb) gr)) (a, 0) y)"
  by (simp_all add: rot_single rot_double keys_Nd)

lemma rot_single_avl:
  assumes i: "i < 2" and x: "avl (Nd i xl (c, cb) xr)" and y: "avl y"
    and h: "height (Nd i xl (c, cb) xr) = height y + 2" and cb: "cb \<noteq> - child2balance i"
  shows "avl (fst (rot i (Nd i xl (c, cb) xr) a y)) \<and> height (fst (rot i (Nd i xl (c, cb) xr) a y)) =
    (if snd (rot i (Nd i xl (c, cb) xr) a y) then height y + 2 else height y + 3)"
proof -
  have s: "child2balance i = 1 \<or> child2balance i = - 1" by (simp add: child2balance_def)
  from x have e: "cb = child2balance i * (int (height xl) - int (height xr))" "cb \<in> {- 1, 0, 1}" "avl xl" "avl xr"
    unfolding avl_Nd by blast+
  from e(1,2) cb s have "int (height xl) - int (height xr) = 1 \<and> cb = child2balance i \<or> height xl = height xr \<and> cb = 0"
    by (elim disjE) auto
  with h have "height xl = height y + 1 \<and> height xr = height y \<and> cb = child2balance i \<or>
      height xl = height y + 1 \<and> height xr = height y + 1 \<and> cb = 0" by auto
  with e(3,4) y s show ?thesis
    unfolding rot_single [OF i cb] by (elim disjE) (simp_all add: avl_Nd)
qed

lemma rot_double_avl:
  assumes i: "i < 2" and x: "avl (Nd i xl (c, cb) (Nd i gl (g, gb) gr))" and y: "avl y"
    and h: "height (Nd i xl (c, cb) (Nd i gl (g, gb) gr)) = height y + 2" and cb: "cb = - child2balance i"
  shows "avl (fst (rot i (Nd i xl (c, cb) (Nd i gl (g, gb) gr)) a y)) \<and>
    height (fst (rot i (Nd i xl (c, cb) (Nd i gl (g, gb) gr)) a y)) = height y + 2"
proof -
  have s: "child2balance i = 1 \<or> child2balance i = - 1" by (simp add: child2balance_def)
  define G where "G = Nd i gl (g, gb) gr"
  from x cb have "- child2balance i = child2balance i * (int (height xl) - int (height G))"
    unfolding G_def [symmetric] by (simp only: avl_Nd)
  with s have "height G = height xl + 1" by (elim disjE) simp_all
  then have "height (Nd i gl (g, gb) gr) = height xl + 1" by (simp only: G_def)
  with h have m: "height xl = height y" "max (height gl) (height gr) = height y" by auto
  from x have g: "gb = child2balance i * (int (height gl) - int (height gr))" "gb \<in> {- 1, 0, 1}" "avl gl" "avl gr" "avl xl"
    by (auto simp: avl_Nd)
  have "(height gl = height y \<and> height gr = height y \<and> gb = 0) \<or>
      (height gl = height y \<and> height y = Suc (height gr) \<and> gb = child2balance i) \<or>
      (height gr = height y \<and> height y = Suc (height gl) \<and> gb = - child2balance i)"
    using g(1,2) m(2) s by (auto simp: max_def split: if_splits)
  with m g(3-5) y s show ?thesis
    unfolding rot_double [OF i cb] by (elim disjE) (simp_all add: avl_Nd)
qed

lemma rot_spec:
  assumes "i < 2" and "avl x" and "avl y" and "height x = height y + 2"
  shows "avl (fst (rot i x a y))" "keys (fst (rot i x a y)) = keys (Nd i x (a, 0) y)"
    "height (fst (rot i x a y)) = (if snd (rot i x a y) then height x else Suc (height x))"
proof -
  obtain xl c cb xr where x: "x = Nd i xl (c, cb) xr" using assms(4) by - (rule Nd_cases [OF assms(1), of x], auto)
  have "avl (fst (rot i x a y)) \<and> keys (fst (rot i x a y)) = keys (Nd i x (a, 0) y) \<and>
    height (fst (rot i x a y)) = (if snd (rot i x a y) then height x else Suc (height x))"
  proof (cases "cb = - child2balance i")
    case False
    with rot_single_avl [OF assms(1) _ assms(3)] rot_keys(1) [OF assms(1)] assms(2,4) show ?thesis unfolding x by auto
  next
    case True
    have "xr \<noteq> Leaf" using True assms(2,4) by (auto simp: x avl_Nd child2balance_def split: if_splits)
    then obtain gl g gb gr where xr: "xr = Nd i gl (g, gb) gr" by - (rule Nd_cases [OF assms(1), of xr], auto)
    from rot_double_avl [OF assms(1) _ assms(3) _ True] rot_keys(2) [OF assms(1) True] assms(2,4) show ?thesis
      unfolding x xr by (simp add: rot_double [OF assms(1) True])
  qed
  then show "avl (fst (rot i x a y))" "keys (fst (rot i x a y)) = keys (Nd i x (a, 0) y)"
    "height (fst (rot i x a y)) = (if snd (rot i x a y) then height x else Suc (height x))" by blast+
qed

section \<open>Trees in the heap\<close>

fun rep :: "avl_heap \<Rightarrow> ptr \<Rightarrow> ptr \<Rightarrow> nat \<Rightarrow> atree \<Rightarrow> bool" where
  "rep h p par i Leaf \<longleftrightarrow> p = None"
| "rep h p par i (Node l (a, b) r) \<longleftrightarrow> p = Some a \<and>
     (\<exists>n. h a = Some n \<and> avl_balance n = b \<and> avl_child_index n = i \<and> avl_parent n = par \<and>
        rep h (avl_child0 n) (Some a) 0 l \<and> rep h (avl_child1 n) (Some a) 1 r)"

text \<open>
  The way up from a subtree: a frame for each ancestor, with the side the subtree is on, the
  ancestor's address and balance, and the subtree on its other side. \<open>seg\<close> relates the pointer, parent
  and index at the lower end of such a way to those at its upper end.
\<close>

datatype frame = Frame nat nat int atree

fun plug :: "frame list \<Rightarrow> atree \<Rightarrow> atree" where
  "plug [] t = t"
| "plug (Frame s a b y # ctx) t = plug ctx (Nd s t (a, b) y)"

fun seg :: "avl_heap \<Rightarrow> ptr \<times> ptr \<times> nat \<Rightarrow> frame list \<Rightarrow> ptr \<times> ptr \<times> nat \<Rightarrow> bool" where
  "seg h (p, par, i) [] up \<longleftrightarrow> up = (p, par, i)"
| "seg h (p, par, i) (Frame s a b y # ctx) up \<longleftrightarrow> s < 2 \<and> par = Some a \<and> i = s \<and>
     (\<exists>n. h a = Some n \<and> avl_balance n = b \<and> child n s = p \<and> rep h (child n (1 - s)) (Some a) (1 - s) y \<and>
        seg h (Some a, avl_parent n, avl_child_index n) ctx up)"

fun ctx_addrs :: "frame list \<Rightarrow> nat set" where
  "ctx_addrs [] = {}"
| "ctx_addrs (Frame s a b y # ctx) = insert a (addrs y \<union> ctx_addrs ctx)"

fun ctx_distinct :: "frame list \<Rightarrow> bool" where
  "ctx_distinct [] \<longleftrightarrow> True"
| "ctx_distinct (Frame s a b y # ctx) \<longleftrightarrow>
     distinct (keys y) \<and> a \<notin> addrs y \<and> a \<notin> ctx_addrs ctx \<and> addrs y \<inter> ctx_addrs ctx = {} \<and> ctx_distinct ctx"

definition rep_root :: "avl_heap \<Rightarrow> ptr \<Rightarrow> atree \<Rightarrow> bool" where
  "rep_root h rt t \<longleftrightarrow> (\<exists>i. rep h rt None i t) \<and> distinct (keys t)"

lemma child_put_child [simp]:
  "i < 2 \<Longrightarrow> child (put_child i p n) i = p"
  "\<lbrakk>i < 2; k < 2; i \<noteq> k\<rbrakk> \<Longrightarrow> child (put_child i p n) k = child n k"
  "avl_balance (put_child i p n) = avl_balance n" "avl_parent (put_child i p n) = avl_parent n"
  "avl_child_index (put_child i p n) = avl_child_index n"
  by (auto simp: child_def put_child_def)

lemma child_other [simp]:
  "s < 2 \<Longrightarrow> child (put_child s q n) (Suc 0 - s) = child n (Suc 0 - s)"
  "s < 2 \<Longrightarrow> child (put_child (Suc 0 - s) q n) s = child n s"
  by (auto simp: child_def put_child_def less_2_cases_iff)

lemma child_updates [simp]:
  "child (n\<lparr>avl_balance := b\<rparr>) i = child n i" "child (n\<lparr>avl_child_index := j\<rparr>) i = child n i"
  "child (n\<lparr>avl_parent := p\<rparr>) i = child n i"
  by (simp_all add: child_def)

lemma rep_Nd:
  assumes "s < 2"
  shows "rep h p par i (Nd s x (a, b) y) \<longleftrightarrow> p = Some a \<and>
     (\<exists>n. h a = Some n \<and> avl_balance n = b \<and> avl_child_index n = i \<and> avl_parent n = par \<and>
        rep h (child n s) (Some a) s x \<and> rep h (child n (1 - s)) (Some a) (1 - s) y)"
  using child2balance_cases [OF assms] by (auto simp: Nd_def child_def)

lemma rep_cong: "(\<And>a. a \<in> addrs t \<Longrightarrow> h a = h' a) \<Longrightarrow> rep h p par i t = rep h' p par i t"
  by (induction h p par i t rule: rep.induct) auto

lemma rep_mono: "\<lbrakk>rep h p par i t; \<And>a. a \<in> addrs t \<Longrightarrow> h' a = h a\<rbrakk> \<Longrightarrow> rep h' p par i t"
  by (subst rep_cong [of t h' h]) auto

lemma rep_upd [simp]: "a \<notin> addrs t \<Longrightarrow> rep (h(a := v)) p par i t = rep h p par i t"
  by (rule rep_cong) auto

lemma seg_cong:
  "(\<And>a. a \<in> ctx_addrs ctx \<Longrightarrow> h a = h' a) \<Longrightarrow> seg h low ctx up = seg h' low ctx up"
proof (induction h low ctx up rule: seg.induct)
  case (2 h p par i s a b y ctx up)
  then have "rep h q par' j y = rep h' q par' j y" for q par' j by (intro rep_cong) auto
  with 2 show ?case by auto
qed simp

lemma seg_mono: "\<lbrakk>seg h low ctx up; \<And>a. a \<in> ctx_addrs ctx \<Longrightarrow> h' a = h a\<rbrakk> \<Longrightarrow> seg h' low ctx up"
  by (subst seg_cong [of ctx h' h]) auto

lemma seg_upd [simp]: "a \<notin> ctx_addrs ctx \<Longrightarrow> seg (h(a := v)) low ctx up = seg h low ctx up"
  by (rule seg_cong) auto

lemma seg_append: "seg h low (c1 @ c2) up \<longleftrightarrow> (\<exists>mid. seg h low c1 mid \<and> seg h mid c2 up)"
  by (induction h low c1 up rule: seg.induct) auto

lemma plug_append: "plug (c1 @ c2) t = plug c2 (plug c1 t)"
  by (induction c1 t rule: plug.induct) auto

lemma ctx_addrs_append [simp]: "ctx_addrs (c1 @ c2) = ctx_addrs c1 \<union> ctx_addrs c2"
  by (induction c1 rule: ctx_addrs.induct) auto

lemma addrs_plug [simp]: "addrs (plug ctx t) = addrs t \<union> ctx_addrs ctx"
  by (induction ctx t rule: plug.induct) auto

lemma distinct_plug:
  "distinct (keys (plug ctx t)) \<longleftrightarrow> distinct (keys t) \<and> ctx_distinct ctx \<and> addrs t \<inter> ctx_addrs ctx = {}"
  by (induction ctx t rule: plug.induct) auto

lemma rep_plug:
  assumes "\<And>f. f \<in> set ctx \<Longrightarrow> (case f of Frame s _ _ _ \<Rightarrow> s < 2)"
  shows "rep h rt par0 i0 (plug ctx t) \<longleftrightarrow> (\<exists>p par i. rep h p par i t \<and> seg h (p, par, i) ctx (rt, par0, i0))"
  using assms
proof (induction ctx t rule: plug.induct)
  case (2 s a b y ctx t)
  then have "s < 2" by force
  with 2 show ?case by (auto simp: rep_Nd)
qed auto

lemma seg_sides: "seg h low ctx up \<Longrightarrow> f \<in> set ctx \<Longrightarrow> (case f of Frame s _ _ _ \<Rightarrow> s < 2)"
  by (induction h low ctx up rule: seg.induct) auto

lemma rep_rootI:
  assumes "rep h p par i t" and "seg h (p, par, i) ctx (rt, None, i0)" and "distinct (keys (plug ctx t))"
  shows "rep_root h rt (plug ctx t)"
  using assms rep_plug [of ctx h rt None i0 t] seg_sides [OF assms(2)] by (auto simp: rep_root_def)

subsection \<open>Heap updates\<close>

lemma modify_Some [simp]: "h a = Some n \<Longrightarrow> modify h (Some a) f = Some (h(a \<mapsto> f n))"
  by (simp add: modify_def)

lemma node_at_Some [simp]: "node_at h (Some a) = h a"
  by (simp add: node_at_def)

text \<open>Linking a subtree to a new parent changes its root only.\<close>

lemma relink_rep:
  assumes "rep h p par i t" and "distinct (keys t)"
  obtains h' where "relink h p par' i' = Some h'" "rep h' p par' i' t" "\<And>a. a \<notin> addrs t \<Longrightarrow> h' a = h a"
proof (cases t)
  case Leaf
  with assms that [of h] show ?thesis by (simp add: relink_def)
next
  case (Node l v r)
  obtain a b where v: "v = (a, b)" by (cases v)
  with assms Node obtain n where n: "p = Some a" "h a = Some n" "avl_balance n = b"
      "rep h (avl_child0 n) (Some a) 0 l" "rep h (avl_child1 n) (Some a) 1 r" by auto
  have "a \<notin> addrs l" "a \<notin> addrs r" using assms(2) Node v by (auto simp: set_keys)
  with n show ?thesis
    by (intro that [of "h(a \<mapsto> n\<lparr>avl_parent := par', avl_child_index := i'\<rparr>)"])
      (auto simp: relink_def Node v)
qed

text \<open>Storing a pointer in the slot a way up starts from, and the root variable when it is empty.\<close>

lemma link_seg:
  assumes "seg h (p, par, i) ctx (rt, None, i0)" and "ctx_distinct ctx"
  obtains h' rt' i0' where "link h rt par i q = Some (h', rt')" "seg h' (q, par, i) ctx (rt', None, i0')"
    "\<And>a. a \<notin> ctx_addrs ctx \<Longrightarrow> h' a = h a"
proof (cases ctx)
  case Nil
  with assms that [of h q i] show ?thesis by (simp add: link_def)
next
  case (Cons f ctx')
  obtain s a b y where f: "f = Frame s a b y" by (cases f)
  with assms Cons obtain n where n: "s < 2" "par = Some a" "i = s" "h a = Some n" "avl_balance n = b"
      "rep h (child n (1 - s)) (Some a) (1 - s) y" "seg h (Some a, avl_parent n, avl_child_index n) ctx' (rt, None, i0)"
    by auto
  moreover have "a \<notin> addrs y" "a \<notin> ctx_addrs ctx'" using assms(2) Cons f by auto
  ultimately show ?thesis
    by (intro that [of "h(a \<mapsto> put_child i q n)" rt i0]) (auto simp: link_def Cons f)
qed

text \<open>A subtree that was rebuilt in the heap replaces the one below the same parent.\<close>

lemma link_rebuilt:
  assumes "seg h (p, par, i) ctx (rt, None, i0)" and "\<And>x. x \<in> ctx_addrs ctx \<Longrightarrow> h1 x = h x"
    and "rep h1 q par i t" and "distinct (keys (plug ctx t))"
  obtains h' rt' where "link h1 rt par i q = Some (h', rt')" "rep_root h' rt' (plug ctx t)"
    "\<And>x. x \<notin> ctx_addrs ctx \<Longrightarrow> h' x = h1 x"
proof -
  have d: "ctx_distinct ctx" "addrs t \<inter> ctx_addrs ctx = {}" using assms(4) by (auto simp: distinct_plug)
  from seg_mono [OF assms(1,2)] obtain h' rt' i0' where
    h': "link h1 rt par i q = Some (h', rt')" "seg h' (q, par, i) ctx (rt', None, i0')"
      "\<And>a. a \<notin> ctx_addrs ctx \<Longrightarrow> h' a = h1 a"
    using link_seg [OF _ d(1)] by metis
  have "rep h' q par i t" by (rule rep_mono [OF assms(3)], rule h'(3)) (use d(2) in blast)
  from rep_rootI [OF this h'(2) assms(4)] h'(1,3) show ?thesis using that by blast
qed

lemma rotate_single_rep:
  assumes i: "i < 2"
    and a: "h a = Some n" "rep h (child n i) (Some a) i (Nd i xl (c, cb) xr)" "rep h (child n (1 - i)) (Some a) (1 - i) y"
    and up: "seg h (Some a, avl_parent n, avl_child_index n) ctx (rt, None, i0)"
    and d: "distinct (keys (plug ctx (Nd i (Nd i xl (c, cb) xr) (a, b) y)))"
  obtains h' rt' where "rotate_single h rt (Some a) (Some c) i cb' = Some (h', rt', cb' = 0)"
    "rep_root h' rt' (plug ctx (Nd i xl (c, cb') (Nd i xr (a, - cb') y)))"
    "\<And>x. x \<notin> addrs (plug ctx (Nd i (Nd i xl (c, cb) xr) (a, b) y)) \<Longrightarrow> h' x = h x"
proof -
  from d have dd: "distinct (keys xl)" "distinct (keys xr)" "distinct (keys y)" "ctx_distinct ctx" "a \<noteq> c"
      "{a, c} \<inter> (addrs xl \<union> addrs xr \<union> addrs y \<union> ctx_addrs ctx) = {}" "addrs xl \<inter> addrs xr = {}"
      "addrs xl \<inter> addrs y = {}" "addrs xr \<inter> addrs y = {}" "addrs xl \<inter> ctx_addrs ctx = {}" "addrs xr \<inter> ctx_addrs ctx = {}"
      "addrs y \<inter> ctx_addrs ctx = {}"
    by (auto simp: distinct_plug)
  from a(2) i obtain m where c: "child n i = Some c" "h c = Some m" "rep h (child m i) (Some c) i xl"
      "rep h (child m (1 - i)) (Some c) (1 - i) xr"
    by (auto simp: rep_Nd)
  define h1 where "h1 = h(a \<mapsto> put_child i (child m (1 - i)) n)"
  have "rep h1 (child m (1 - i)) (Some c) (1 - i) xr" using c(4) dd by (simp add: h1_def)
  then obtain h2 where h2: "relink h1 (child m (1 - i)) (Some a) i = Some h2" "rep h2 (child m (1 - i)) (Some a) i xr"
      "\<And>x. x \<notin> addrs xr \<Longrightarrow> h2 x = h1 x"
    using relink_rep [OF _ dd(2)] by metis
  have h2_ac: "h2 a = Some (put_child i (child m (1 - i)) n)" "h2 c = Some m"
    using h2(3) [of a] h2(3) [of c] dd c(2) by (auto simp: h1_def)
  define n' where "n' = (put_child i (child m (1 - i)) n)\<lparr>avl_balance := - cb', avl_child_index := 1 - i, avl_parent := Some c\<rparr>"
  define m' where "m' = (put_child (1 - i) (Some a) m)\<lparr>avl_balance := cb', avl_child_index := avl_child_index n,
    avl_parent := avl_parent n\<rparr>"
  define h3 where "h3 = h2(a \<mapsto> n', c \<mapsto> m')"
  have run: "rotate_single h rt (Some a) (Some c) i cb' =
      do { (h', rt') \<leftarrow> link h3 rt (avl_parent n) (avl_child_index n) (Some c); Some (h', rt', cb' = 0) }"
    using a(1) c(2) h2(1) h2_ac dd(5)
    by (simp add: rotate_single_def h1_def h3_def n'_def m'_def fun_upd_twist [of a c] Let_def)
  have same: "h3 x = h x" if "x \<notin> {a, c} \<union> addrs xr" for x
    using that h2(3) [of x] by (auto simp: h3_def h1_def)
  have ac: "h3 a = Some n'" "h3 c = Some m'" using dd(5) by (auto simp: h3_def)
  have "rep h3 (child m i) (Some c) i xl"
    by (rule rep_mono [OF c(3)], rule same) (use dd(6,7) in blast)
  moreover have "rep h3 (child n (1 - i)) (Some a) (1 - i) y"
    by (rule rep_mono [OF a(3)], rule same) (use dd(6,9) in blast)
  moreover have "rep h3 (child m (1 - i)) (Some a) i xr" using h2(2) dd(6) by (simp add: h3_def)
  ultimately have R: "rep h3 (Some c) (avl_parent n) (avl_child_index n) (Nd i xl (c, cb') (Nd i xr (a, - cb') y))"
    using i by (auto simp: rep_Nd ac n'_def m'_def)
  have D: "distinct (keys (plug ctx (Nd i xl (c, cb') (Nd i xr (a, - cb') y))))" using d by (auto simp: distinct_plug)
  have up3: "h3 x = h x" if "x \<in> ctx_addrs ctx" for x by (rule same) (use that dd(6,11) in blast)
  obtain h4 rt' where h4: "link h3 rt (avl_parent n) (avl_child_index n) (Some c) = Some (h4, rt')"
      "rep_root h4 rt' (plug ctx (Nd i xl (c, cb') (Nd i xr (a, - cb') y)))" "\<And>x. x \<notin> ctx_addrs ctx \<Longrightarrow> h4 x = h3 x"
    using link_rebuilt [OF up up3 R D] by blast
  have "rotate_single h rt (Some a) (Some c) i cb' = Some (h4, rt', cb' = 0)" by (simp add: run h4(1))
  then show ?thesis by (rule that [OF _ h4(2)]) (simp add: h4(3) same)
qed

lemma rotate_double_rep:
  assumes i: "i < 2"
    and a: "h a = Some n" "rep h (child n i) (Some a) i (Nd i xl (c, cb) (Nd i gl (g, gb) gr))"
      "rep h (child n (1 - i)) (Some a) (1 - i) y"
    and up: "seg h (Some a, avl_parent n, avl_child_index n) ctx (rt, None, i0)"
    and d: "distinct (keys (plug ctx (Nd i (Nd i xl (c, cb) (Nd i gl (g, gb) gr)) (a, b) y)))"
  obtains h' rt' where "rotate_double h rt (Some a) (Some c) i hv = Some (h', rt', True)"
    "rep_root h' rt' (plug ctx (Nd i (Nd i xl (c, if gb = - hv then hv else 0) gl) (g, 0)
       (Nd i gr (a, if gb = hv then - hv else 0) y)))"
    "\<And>x. x \<notin> addrs (plug ctx (Nd i (Nd i xl (c, cb) (Nd i gl (g, gb) gr)) (a, b) y)) \<Longrightarrow> h' x = h x"
proof -
  from d have dd: "distinct (keys gl)" "distinct (keys gr)" "ctx_distinct ctx" "a \<noteq> c" "a \<noteq> g" "c \<noteq> g"
      "{a, c, g} \<inter> (addrs xl \<union> addrs gl \<union> addrs gr \<union> addrs y \<union> ctx_addrs ctx) = {}"
      "addrs gl \<inter> addrs gr = {}" "addrs xl \<inter> (addrs gl \<union> addrs gr \<union> ctx_addrs ctx) = {}"
      "addrs y \<inter> (addrs gl \<union> addrs gr \<union> ctx_addrs ctx) = {}" "(addrs gl \<union> addrs gr) \<inter> ctx_addrs ctx = {}"
    by (auto simp: distinct_plug)
  from a(2) i obtain m where c: "child n i = Some c" "h c = Some m" "rep h (child m i) (Some c) i xl"
      "rep h (child m (1 - i)) (Some c) (1 - i) (Nd i gl (g, gb) gr)"
    by (auto simp: rep_Nd)
  from c(4) i obtain k where g: "child m (1 - i) = Some g" "h g = Some k" "avl_balance k = gb"
      "rep h (child k i) (Some g) i gl" "rep h (child k (1 - i)) (Some g) (1 - i) gr"
    by (auto simp: rep_Nd)
  define h1 where "h1 = h(a \<mapsto> put_child i (child k (1 - i)) n)"
  have "rep h1 (child k (1 - i)) (Some g) (1 - i) gr" using g(5) dd(7) by (simp add: h1_def)
  then obtain h2 where h2: "relink h1 (child k (1 - i)) (Some a) i = Some h2" "rep h2 (child k (1 - i)) (Some a) i gr"
      "\<And>x. x \<notin> addrs gr \<Longrightarrow> h2 x = h1 x"
    using relink_rep [OF _ dd(2)] by metis
  have h2_acg: "h2 a = Some (put_child i (child k (1 - i)) n)" "h2 c = Some m" "h2 g = Some k"
    using h2(3) [of a] h2(3) [of c] h2(3) [of g] dd(4-7) c(2) g(2) by (auto simp: h1_def)
  define h3 where "h3 = h2(c \<mapsto> put_child (1 - i) (child k i) m)"
  have same3: "h3 x = h x" if "x \<notin> {a, c} \<union> addrs gr" for x using that h2(3) [of x] by (auto simp: h3_def h1_def)
  have "rep h3 (child k i) (Some g) i gl" by (rule rep_mono [OF g(4)], rule same3) (use dd(7,8) in blast)
  then obtain h4 where h4: "relink h3 (child k i) (Some c) (1 - i) = Some h4" "rep h4 (child k i) (Some c) (1 - i) gl"
      "\<And>x. x \<notin> addrs gl \<Longrightarrow> h4 x = h3 x"
    using relink_rep [OF _ dd(1)] by metis
  have h4_acg: "h4 a = Some (put_child i (child k (1 - i)) n)" "h4 c = Some (put_child (1 - i) (child k i) m)" "h4 g = Some k"
    using h4(3) [of a] h4(3) [of c] h4(3) [of g] dd(4-7) h2_acg by (auto simp: h3_def)
  define n' where "n' = (put_child i (child k (1 - i)) n)\<lparr>avl_balance := if gb = hv then - hv else 0,
    avl_parent := Some g, avl_child_index := 1 - i\<rparr>"
  define m' where "m' = (put_child (1 - i) (child k i) m)\<lparr>avl_balance := if gb = - hv then hv else 0,
    avl_parent := Some g, avl_child_index := i\<rparr>"
  define k' where "k' = (put_child (1 - i) (Some a) (put_child i (Some c) k))\<lparr>avl_balance := 0,
    avl_parent := avl_parent n, avl_child_index := avl_child_index n\<rparr>"
  define h5 where "h5 = h4(a \<mapsto> n', c \<mapsto> m', g \<mapsto> k')"
  have run: "rotate_double h rt (Some a) (Some c) i hv =
      do { (h', rt') \<leftarrow> link h5 rt (avl_parent n) (avl_child_index n) (Some g); Some (h', rt', True) }"
    using a(1) c(2) g(1-3) h2(1) h2_acg h4(1) h4_acg dd(4-6)
    by (simp add: rotate_double_def h1_def h3_def h5_def n'_def m'_def k'_def fun_upd_twist [of a c] fun_upd_twist [of a g]
        fun_upd_twist [of c g] Let_def)
  have same: "h5 x = h x" if "x \<notin> {a, c, g} \<union> addrs gl \<union> addrs gr" for x
    using that h4(3) [of x] same3 [of x] by (auto simp: h5_def)
  have acg: "h5 a = Some n'" "h5 c = Some m'" "h5 g = Some k'" using dd(4-6) by (auto simp: h5_def)
  have "rep h5 (child m i) (Some c) i xl"
    by (rule rep_mono [OF c(3)], rule same) (use dd(7,9) in blast)
  moreover have "rep h5 (child n (1 - i)) (Some a) (1 - i) y"
    by (rule rep_mono [OF a(3)], rule same) (use dd(7,10) in blast)
  moreover have "rep h5 (child k i) (Some c) (1 - i) gl" using h4(2) dd(7) by (simp add: h5_def)
  moreover have "rep h5 (child k (1 - i)) (Some a) i gr"
  proof (rule rep_mono [OF h2(2)])
    fix x
    assume "x \<in> addrs gr"
    then have "x \<notin> addrs gl" "x \<noteq> a" "x \<noteq> c" "x \<noteq> g" using dd(7,8) by blast+
    with h4(3) [of x] show "h5 x = h2 x" by (simp add: h5_def h3_def)
  qed
  ultimately have R: "rep h5 (Some g) (avl_parent n) (avl_child_index n)
      (Nd i (Nd i xl (c, if gb = - hv then hv else 0) gl) (g, 0) (Nd i gr (a, if gb = hv then - hv else 0) y))"
    using i by (auto simp: rep_Nd acg n'_def m'_def k'_def)
  have D: "distinct (keys (plug ctx (Nd i (Nd i xl (c, if gb = - hv then hv else 0) gl) (g, 0)
      (Nd i gr (a, if gb = hv then - hv else 0) y))))" using d by (auto simp: distinct_plug)
  have up5: "h5 x = h x" if "x \<in> ctx_addrs ctx" for x by (rule same) (use that dd(7,11) in blast)
  obtain h6 rt' where h6: "link h5 rt (avl_parent n) (avl_child_index n) (Some g) = Some (h6, rt')"
      "rep_root h6 rt' (plug ctx (Nd i (Nd i xl (c, if gb = - hv then hv else 0) gl) (g, 0)
         (Nd i gr (a, if gb = hv then - hv else 0) y)))" "\<And>x. x \<notin> ctx_addrs ctx \<Longrightarrow> h6 x = h5 x"
    using link_rebuilt [OF up up5 R D] by blast
  have "rotate_double h rt (Some a) (Some c) i hv = Some (h6, rt', True)" by (simp add: run h6(1))
  then show ?thesis by (rule that [OF _ h6(2)]) (simp add: h6(3) same)
qed

text \<open>Both together: the rotation of the heap is the rotation of the tree, whatever the balance stored in the node.\<close>

lemma avl_rotation_rep:
  assumes i: "i < 2" and x: "avl x" "avl y" "height x = height y + 2"
    and a: "h a = Some n" "rep h (child n i) (Some a) i x" "rep h (child n (1 - i)) (Some a) (1 - i) y"
    and up: "seg h (Some a, avl_parent n, avl_child_index n) ctx (rt, None, i0)"
    and d: "distinct (keys (plug ctx (Nd i x (a, b) y)))"
  obtains h' rt' where "avl_rotation h rt (Some a) (2 * child2balance i) = Some (h', rt', snd (rot i x a y))"
    "rep_root h' rt' (plug ctx (fst (rot i x a y)))"
    "\<And>z. z \<notin> addrs (plug ctx (Nd i x (a, b) y)) \<Longrightarrow> h' z = h z"
proof -
  have left: "(if 2 * child2balance i < 0 then 0 else 1) = i" "2 * child2balance i div 2 = child2balance i"
    using child2balance_cases [OF i] by auto
  obtain xl c cb xr where xeq: "x = Nd i xl (c, cb) xr" using x(3) by - (rule Nd_cases [OF i, of x], auto)
  from a(2) i obtain m where c: "child n i = Some c" "h c = Some m" "avl_balance m = cb" by (auto simp: xeq rep_Nd)
  show ?thesis
  proof (cases "cb = - child2balance i")
    case False
    have run: "avl_rotation h rt (Some a) (2 * child2balance i)
        = rotate_single h rt (Some a) (Some c) i (cb - child2balance i)"
      using False a(1) c left by (simp add: avl_rotation_def Let_def)
    from rotate_single_rep [OF i a(1) a(2) [unfolded xeq] a(3) up d [unfolded xeq], of "cb - child2balance i"]
    obtain h' rt' where "rotate_single h rt (Some a) (Some c) i (cb - child2balance i) = Some (h', rt', cb - child2balance i = 0)"
      "rep_root h' rt' (plug ctx (Nd i xl (c, cb - child2balance i) (Nd i xr (a, - (cb - child2balance i)) y)))"
      "\<And>z. z \<notin> addrs (plug ctx (Nd i (Nd i xl (c, cb) xr) (a, b) y)) \<Longrightarrow> h' z = h z" by blast
    then show ?thesis using that [of h' rt'] run rot_single [OF i False] by (simp add: xeq)
  next
    case True
    have "xr \<noteq> Leaf" using True x by (auto simp: xeq avl_Nd child2balance_def split: if_splits)
    then obtain gl g gb gr where xr: "xr = Nd i gl (g, gb) gr" by - (rule Nd_cases [OF i, of xr], auto)
    have run: "avl_rotation h rt (Some a) (2 * child2balance i) = rotate_double h rt (Some a) (Some c) i (child2balance i)"
      using True a(1) c left by (simp add: avl_rotation_def Let_def)
    from rotate_double_rep [OF i a(1) a(2) [unfolded xeq xr] a(3) up d [unfolded xeq xr], of "child2balance i"]
    obtain h' rt' where "rotate_double h rt (Some a) (Some c) i (child2balance i) = Some (h', rt', True)"
      "rep_root h' rt' (plug ctx (fst (rot i x a y)))"
      "\<And>z. z \<notin> addrs (plug ctx (Nd i x (a, b) y)) \<Longrightarrow> h' z = h z"
      unfolding xeq xr rot_double [OF i True] fst_conv by blast
    then show ?thesis using that [of h' rt'] run rot_double [OF i True] by (simp add: xeq xr)
  qed
qed

end
