(* ===== verification/Avl_Ops.thy ===== *)
theory Avl_Ops
  imports Avl_Tree
begin

text \<open>
  Correctness of the operations on AVL trees: searching follows the order, insertion and removal
  keep the tree balanced and the keys in order and touch no node outside of the tree, and the
  iteration visits the nodes in order.
\<close>

section \<open>Contexts\<close>

fun ctx_left :: "frame list \<Rightarrow> nat list" where
  "ctx_left [] = []"
| "ctx_left (Frame s a b y # ctx) = ctx_left ctx @ (if s = 0 then [] else keys y @ [a])"

fun ctx_right :: "frame list \<Rightarrow> nat list" where
  "ctx_right [] = []"
| "ctx_right (Frame s a b y # ctx) = (if s = 0 then a # keys y else []) @ ctx_right ctx"

lemma keys_plug: "keys (plug ctx t) = ctx_left ctx @ keys t @ ctx_right ctx"
  by (induction ctx t rule: plug.induct) (auto simp: keys_Nd)

fun ctx_avl :: "nat \<Rightarrow> frame list \<Rightarrow> bool" where
  "ctx_avl k [] \<longleftrightarrow> True"
| "ctx_avl k (Frame s a b y # ctx) \<longleftrightarrow>
     avl y \<and> b = child2balance s * (int k - int (height y)) \<and> b \<in> {- 1, 0, 1} \<and> ctx_avl (Suc (max k (height y))) ctx"

lemma avl_plug: "avl (plug ctx t) \<longleftrightarrow> avl t \<and> ctx_avl (height t) ctx"
  by (induction ctx t rule: plug.induct) (auto simp: avl_Nd)

text \<open>The context of a node: every address of a tree is the root of a subtree.\<close>

lemma plug_at:
  assumes "a \<in> addrs t"
  obtains ctx l b r where "t = plug ctx (Node l (a, b) r)" "\<And>f. f \<in> set ctx \<Longrightarrow> (case f of Frame s _ _ _ \<Rightarrow> s < 2)"
proof -
  have "\<exists>ctx l b r. t = plug ctx (Node l (a, b) r) \<and> (\<forall>f \<in> set ctx. case f of Frame s _ _ _ \<Rightarrow> s < 2)"
    using assms
  proof (induction t)
    case (Node l v r)
    obtain c b where v: "v = (c, b)" by (cases v)
    consider "a = c" | "a \<in> addrs l" | "a \<in> addrs r" using Node.prems v by auto
    then show ?case
    proof cases
      case 1
      with v show ?thesis by (intro exI [of _ "[]"]) auto
    next
      case 2
      with Node.IH(1) obtain ctx l' b' r' where "l = plug ctx (Node l' (a, b') r')"
        "\<forall>f \<in> set ctx. case f of Frame s _ _ _ \<Rightarrow> s < 2" by blast
      with v show ?thesis
        by (intro exI [of _ "ctx @ [Frame 0 c b r]"] exI [of _ l'] exI [of _ b'] exI [of _ r']) (auto simp: plug_append Nd_def)
    next
      case 3
      with Node.IH(2) obtain ctx l' b' r' where "r = plug ctx (Node l' (a, b') r')"
        "\<forall>f \<in> set ctx. case f of Frame s _ _ _ \<Rightarrow> s < 2" by blast
      with v show ?thesis
        by (intro exI [of _ "ctx @ [Frame 1 c b l]"] exI [of _ l'] exI [of _ b'] exI [of _ r']) (auto simp: plug_append Nd_def)
    qed
  qed simp
  then show ?thesis using that by blast
qed

section \<open>Search\<close>

text \<open>
  A comparison cuts a list of keys when it does not increase along it: first the keys that are
  smaller than the value, then an equal one, then the larger ones.
\<close>

definition cuts :: "(nat \<Rightarrow> int) \<Rightarrow> nat list \<Rightarrow> bool" where
  "cuts c ks \<longleftrightarrow> (\<forall>k \<in> set ks. c k \<in> {- 1, 0, 1}) \<and> sorted_wrt (\<lambda>x y. c y \<le> c x) ks"

fun descend :: "(nat \<Rightarrow> int) \<Rightarrow> atree \<Rightarrow> frame list \<Rightarrow> nat + frame list" where
  "descend c Leaf ctx = Inr ctx"
| "descend c (Node l (a, b) r) ctx =
     (if c a = 0 then Inl a
      else if c a = - 1 then descend c l (Frame 0 a b r # ctx)
      else descend c r (Frame 1 a b l # ctx))"

lemma cuts_append: "cuts c (xs @ ys) \<longleftrightarrow> cuts c xs \<and> cuts c ys \<and> (\<forall>x \<in> set xs. \<forall>y \<in> set ys. c y \<le> c x)"
  by (auto simp: cuts_def sorted_wrt_append)

lemma cuts_Cons: "cuts c (x # ys) \<longleftrightarrow> c x \<in> {- 1, 0, 1} \<and> cuts c ys \<and> (\<forall>y \<in> set ys. c y \<le> c x)"
  by (auto simp: cuts_def)

lemma descend_found:
  assumes "cuts c (keys t)"
  shows "case descend c t ctx of Inl a \<Rightarrow> a \<in> addrs t \<and> c a = 0 | Inr _ \<Rightarrow> \<forall>a \<in> addrs t. c a \<noteq> 0"
  using assms
proof (induction c t ctx rule: descend.induct)
  case (2 c l a b r ctx)
  then show ?case
    by (auto simp: cuts_append cuts_Cons set_keys [symmetric] split: sum.splits)
qed simp

lemma descend_place:
  assumes "descend c t ctx = Inr ctx'" and "cuts c (keys t)"
    and "\<forall>x \<in> set (ctx_left ctx). c x = 1" "\<forall>x \<in> set (ctx_right ctx). c x = - 1"
  shows "plug ctx' Leaf = plug ctx t \<and> (\<forall>x \<in> set (ctx_left ctx'). c x = 1) \<and> (\<forall>x \<in> set (ctx_right ctx'). c x = - 1)"
  using assms
proof (induction c t ctx rule: descend.induct)
  case (2 c l a b r ctx)
  have cut: "c a \<in> {- 1, 0, 1}" "cuts c (keys l)" "cuts c (keys r)" "\<forall>x \<in> set (keys l). c a \<le> c x" "\<forall>x \<in> set (keys r). c x \<le> c a"
      "\<forall>x \<in> set (keys l) \<union> set (keys r). c x \<in> {- 1, 0, 1}"
    using "2.prems"(2) by (auto simp: cuts_def sorted_wrt_append)
  have "c a \<noteq> 0" using "2.prems"(1) by auto
  with cut(1) consider (less) "c a = - 1" | (greater) "c a = 1" by blast
  then show ?case
  proof cases
    case less
    then have "\<forall>x \<in> set (keys r). c x = - 1" using cut(5,6) by force
    with less "2.prems"(1,3,4) have "plug ctx' Leaf = plug (Frame 0 a b r # ctx) l \<and>
        (\<forall>x \<in> set (ctx_left ctx'). c x = 1) \<and> (\<forall>x \<in> set (ctx_right ctx'). c x = - 1)"
      by (intro "2.IH"(1) cut(2)) auto
    then show ?thesis by (simp add: Nd_def)
  next
    case greater
    then have "\<forall>x \<in> set (keys l). c x = 1" using cut(4,6) by force
    with greater "2.prems"(1,3,4) have "plug ctx' Leaf = plug (Frame 1 a b l # ctx) r \<and>
        (\<forall>x \<in> set (ctx_left ctx'). c x = 1) \<and> (\<forall>x \<in> set (ctx_right ctx'). c x = - 1)"
      by (intro "2.IH"(2) cut(3)) auto
    then show ?thesis by (simp add: Nd_def)
  qed
qed auto

lemma avl_search_rep:
  assumes "rep h p par j t" and "seg h (p, par, j) ctx up" and "cuts c (keys t)" and "t = Leaf \<longrightarrow> i = j"
  shows "case descend c t ctx of
      Inl a \<Rightarrow> avl_search c h p par i = Some (Inl a)
    | Inr ctx' \<Rightarrow> \<exists>par' i'. avl_search c h p par i = Some (Inr (par', i')) \<and> seg h (None, par', i') ctx' up"
  using assms
proof (induction c t ctx arbitrary: p par j i rule: descend.induct)
  case (1 c ctx)
  then show ?case by (simp add: avl_search.simps)
next
  case (2 c l a b r ctx)
  from "2.prems"(1) obtain n where n: "p = Some a" "h a = Some n" "avl_balance n = b" "avl_child_index n = j" "avl_parent n = par"
    "rep h (avl_child0 n) (Some a) 0 l" "rep h (avl_child1 n) (Some a) 1 r" by auto
  have cut: "c a \<in> {- 1, 0, 1}" "cuts c (keys l)" "cuts c (keys r)"
    using "2.prems"(3) by (auto simp: cuts_append cuts_Cons)
  show ?case
  proof (cases "c a = 0")
    case True
    with n show ?thesis by (simp add: avl_search.simps)
  next
    case False
    show ?thesis
    proof (cases "c a = - 1")
      case True
      have run: "avl_search c h p par i = avl_search c h (avl_child0 n) (Some a) 0"
        using True n by (subst avl_search.simps) (simp add: balance2child_def child_def)
      from "2.IH"(1) [OF False True, of "avl_child0 n" "Some a" 0 0] "2.prems"(2) n cut(2) True show ?thesis
        unfolding run by (simp add: child_def)
    next
      case F: False
      have run: "avl_search c h p par i = avl_search c h (avl_child1 n) (Some a) 1"
        using F False cut(1) n by (subst avl_search.simps) (auto simp: balance2child_def child_def)
      from "2.IH"(2) [OF False F, of "avl_child1 n" "Some a" 1 1] "2.prems"(2) n cut(3) False F show ?thesis
        unfolding run by (simp add: child_def)
    qed
  qed
qed

section \<open>Insertion\<close>

text \<open>After an insertion a subtree that has grown is a single node or leans to one side.\<close>

definition leans :: "atree \<Rightarrow> bool" where
  "leans t \<longleftrightarrow> (case t of Leaf \<Rightarrow> False | Node l (_, b) r \<Rightarrow> b \<noteq> 0 \<or> l = Leaf \<and> r = Leaf)"

lemma leans_Nd [simp]: "leans (Nd i x (a, b) y) \<longleftrightarrow> b \<noteq> 0 \<or> x = Leaf \<and> y = Leaf"
  by (auto simp: leans_def Nd_def)

lemma rot_shortens:
  assumes "i < 2" and "avl x" "height x = height y + 2" "leans x"
  shows "snd (rot i x a y)"
proof -
  obtain xl c cb xr where x: "x = Nd i xl (c, cb) xr" using assms(3) by - (rule Nd_cases [OF assms(1), of x], auto)
  with assms have cb: "cb = 1 \<or> cb = - 1" by (auto simp: avl_Nd)
  show ?thesis
  proof (cases "cb = - child2balance i")
    case False
    with cb x show ?thesis using child2balance_cases [OF assms(1)] by (auto simp: rot_single [OF assms(1)])
  next
    case True
    have "xr \<noteq> Leaf" using True assms(2,3) by (auto simp: x avl_Nd child2balance_def split: if_splits)
    then obtain gl g gb gr where "xr = Nd i gl (g, gb) gr" by - (rule Nd_cases [OF assms(1), of xr], auto)
    with x show ?thesis by (simp add: rot_double [OF assms(1) True])
  qed
qed

text \<open>Changing the balance of the node above a subtree.\<close>

lemma rep_frame:
  assumes "s < 2" "h a = Some n" "rep h (child n s) (Some a) s x" "rep h (child n (1 - s)) (Some a) (1 - s) y"
    "a \<notin> addrs x" "a \<notin> addrs y"
  shows "rep (h(a \<mapsto> n\<lparr>avl_balance := b\<rparr>)) (Some a) (avl_parent n) (avl_child_index n) (Nd s x (a, b) y)"
  using assms by (auto simp: rep_Nd)

lemma set_balance_root:
  assumes "s < 2" "h a = Some n" "rep h (child n s) (Some a) s x" "rep h (child n (1 - s)) (Some a) (1 - s) y"
    and "seg h (Some a, avl_parent n, avl_child_index n) ctx (rt, None, i0)"
    and "distinct (keys (plug ctx (Nd s x (a, b') y)))"
  shows "rep_root (h(a \<mapsto> n\<lparr>avl_balance := b\<rparr>)) rt (plug ctx (Nd s x (a, b) y))"
proof -
  have d: "a \<notin> addrs x" "a \<notin> addrs y" "a \<notin> ctx_addrs ctx" using assms(6) by (auto simp: distinct_plug)
  have "seg (h(a \<mapsto> n\<lparr>avl_balance := b\<rparr>)) (Some a, avl_parent n, avl_child_index n) ctx (rt, None, i0)"
    using assms(5) d(3) by simp
  from rep_rootI [OF rep_frame [OF assms(1-4) d(1,2)] this] assms(6) show ?thesis by (auto simp: distinct_plug)
qed

text \<open>A call that returns a balanced tree with the same keys as \<open>t\<close> and touches nothing else.\<close>

definition rebuilt :: "avl_heap \<Rightarrow> atree \<Rightarrow> (avl_heap \<times> ptr) option \<Rightarrow> bool" where
  "rebuilt h t res \<longleftrightarrow> (\<exists>h' rt' t'. res = Some (h', rt') \<and> rep_root h' rt' t' \<and> avl t' \<and> keys t' = keys t \<and>
     (\<forall>x. x \<notin> addrs t \<longrightarrow> h' x = h x))"

lemma frame_steps:
  assumes "s < 2" "ctx_avl k (Frame s a b y # ctx)"
  obtains "b + child2balance s = 0" "height y = Suc k"
    | "b = child2balance s" "k = Suc (height y)" | "b = 0" "height y = k"
proof -
  have c: "child2balance s = 1 \<or> child2balance s = - 1" by (simp add: child2balance_def)
  have "b = child2balance s * (int k - int (height y))" "b \<in> {- 1, 0, 1}" using assms(2) by auto
  with c have "b + child2balance s = 0 \<and> height y = Suc k \<or> b = child2balance s \<and> k = Suc (height y) \<or> b = 0 \<and> height y = k"
    by (elim disjE insertE) auto
  with that show ?thesis by blast
qed

lemma insert_up_rep:
  "\<lbrakk>rep h p par i x; seg h (p, par, i) ctx (rt, None, i0); distinct (keys (plug ctx x)); avl x; leans x;
    ctx_avl k ctx; height x = Suc k\<rbrakk> \<Longrightarrow> rebuilt h (plug ctx x) (avl_insert_up h rt par i)"
proof (induction ctx arbitrary: h p par i x k)
  case Nil
  then have "rep_root h rt x" "par = None" by (auto simp: rep_root_def)
  with Nil show ?case unfolding rebuilt_def by (intro exI [of _ h] exI [of _ rt] exI [of _ x]) (simp add: avl_insert_up.simps)
next
  case (Cons f ctx)
  obtain s a b y where f: "f = Frame s a b y" by (cases f)
  from Cons.prems(1,2) f obtain n where n: "s < 2" "par = Some a" "i = s" "h a = Some n" "avl_balance n = b"
      "rep h (child n s) (Some a) s x" "rep h (child n (1 - s)) (Some a) (1 - s) y"
      "seg h (Some a, avl_parent n, avl_child_index n) ctx (rt, None, i0)" by auto
  have y: "avl y" and up: "ctx_avl (Suc (max k (height y))) ctx" using Cons.prems(6) f by auto
  have D: "distinct (keys (plug ctx (Nd s x (a, b') y)))" for b' using Cons.prems(3) f by (simp add: distinct_plug)
  have c: "child2balance s = 1 \<or> child2balance s = - 1" by (simp add: child2balance_def)
  from n(1) Cons.prems(6) [unfolded f] show ?case
  proof (cases rule: frame_steps)
    case 1
    have run: "avl_insert_up h rt par i = Some (h(a \<mapsto> n\<lparr>avl_balance := 0\<rparr>), rt)"
      using 1 n by (subst avl_insert_up.simps) (simp add: Let_def)
    have "avl (plug ctx (Nd s x (a, 0) y))" using 1 Cons.prems(4,7) y up by (simp add: avl_plug avl_Nd)
    with set_balance_root [OF n(1,4,6-8) D] run show ?thesis
      unfolding rebuilt_def f by (auto intro!: exI [of _ "plug ctx (Nd s x (a, 0) y)"] simp: keys_plug keys_Nd)
  next
    case 2
    have run: "avl_insert_up h rt par i
        = do { (h1, tree1, _) \<leftarrow> avl_rotation h rt (Some a) (2 * child2balance s); Some (h1, tree1) }"
      using 2 n c by (subst avl_insert_up.simps) (auto simp: Let_def)
    have hx: "height x = height y + 2" using 2 Cons.prems(7) by simp
    from avl_rotation_rep [OF n(1) Cons.prems(4) y hx n(4,6-8) D [of b]] obtain h' rt' where
      h': "avl_rotation h rt (Some a) (2 * child2balance s) = Some (h', rt', snd (rot s x a y))"
        "rep_root h' rt' (plug ctx (fst (rot s x a y)))" "\<And>z. z \<notin> addrs (plug ctx (Nd s x (a, b) y)) \<Longrightarrow> h' z = h z" by blast
    note spec = rot_spec [OF n(1) Cons.prems(4) y hx, of a] rot_shortens [OF n(1) Cons.prems(4) hx Cons.prems(5), of a]
    have "avl (plug ctx (fst (rot s x a y)))" using spec 2 Cons.prems(7) up by (simp add: avl_plug max_def)
    moreover have "keys (plug ctx (fst (rot s x a y))) = keys (plug (f # ctx) x)" using spec(2) by (simp add: keys_plug f keys_Nd)
    ultimately show ?thesis using run h' unfolding rebuilt_def f by auto
  next
    case 3
    let ?h = "h(a \<mapsto> n\<lparr>avl_balance := child2balance s\<rparr>)" and ?x = "Nd s x (a, child2balance s) y"
    have run: "avl_insert_up h rt par i = avl_insert_up ?h rt (avl_parent n) (avl_child_index n)"
      using 3 n c by (subst avl_insert_up.simps) (auto simp: Let_def)
    have a: "a \<notin> addrs x" "a \<notin> addrs y" "a \<notin> ctx_addrs ctx" using D [of 0] by (auto simp: distinct_plug)
    have "rebuilt ?h (plug ctx ?x) (avl_insert_up ?h rt (avl_parent n) (avl_child_index n))"
    proof (rule Cons.IH)
      show "rep ?h (Some a) (avl_parent n) (avl_child_index n) ?x" by (rule rep_frame [OF n(1,4,6,7) a(1,2)])
      show "seg ?h (Some a, avl_parent n, avl_child_index n) ctx (rt, None, i0)" using n(8) a(3) by simp
      show "ctx_avl (Suc k) ctx" using up 3 by simp
      show "avl ?x" using 3 c Cons.prems(4,7) y by (auto simp: avl_Nd)
    qed (use D c 3 Cons.prems(7) in auto)
    then show ?thesis unfolding run rebuilt_def f by (auto simp: keys_plug keys_Nd)
  qed
qed

text \<open>Where a new key goes among the keys in order.\<close>

definition place_key :: "(nat \<Rightarrow> int) \<Rightarrow> nat \<Rightarrow> nat list \<Rightarrow> nat list" where
  "place_key c a ks = takeWhile (\<lambda>k. c k = 1) ks @ a # dropWhile (\<lambda>k. c k = 1) ks"

lemma place_key_split:
  assumes "\<forall>u \<in> set us. c u = 1" "\<forall>v \<in> set vs. c v = - 1"
  shows "place_key c a (us @ vs) = us @ a # vs"
proof -
  have "takeWhile (\<lambda>k. c k = 1) vs = []" "dropWhile (\<lambda>k. c k = 1) vs = vs" using assms(2) by (cases vs; simp)+
  with assms(1) show ?thesis by (simp add: place_key_def)
qed

lemma rep_rootE:
  assumes "rep_root h rt t"
  obtains j where "rep h rt None j t" "seg h (rt, None, j) [] (rt, None, j)" "t = Leaf \<longrightarrow> j = 0" "distinct (keys t)"
proof (cases t)
  case Leaf
  with assms that [of 0] show ?thesis by (simp add: rep_root_def)
qed (use assms that in \<open>auto simp: rep_root_def\<close>)

lemma avl_search_root:
  assumes "rep_root h rt t" and "cuts c (keys t)"
  obtains (found) a where "a \<in> addrs t" "c a = 0" "avl_search c h rt None 0 = Some (Inl a)"
  | (missing) ctx par i j where "\<forall>a \<in> addrs t. c a \<noteq> 0" "avl_search c h rt None 0 = Some (Inr (par, i))"
      "seg h (None, par, i) ctx (rt, None, j)" "t = plug ctx Leaf"
      "\<forall>x \<in> set (ctx_left ctx). c x = 1" "\<forall>x \<in> set (ctx_right ctx). c x = - 1"
proof -
  from assms(1) obtain j where j: "rep h rt None j t" "seg h (rt, None, j) [] (rt, None, j)" "t = Leaf \<longrightarrow> j = 0"
    by (rule rep_rootE)
  from j(3) have j': "t = Leaf \<longrightarrow> 0 = j" by simp
  show ?thesis
  proof (cases "descend c t []")
    case (Inl a)
    have "a \<in> addrs t \<and> c a = 0" using descend_found [OF assms(2), of "[]"] Inl by simp
    moreover have "avl_search c h rt None 0 = Some (Inl a)" using avl_search_rep [OF j(1,2) assms(2) j'] Inl by simp
    ultimately show ?thesis using found by blast
  next
    case (Inr ctx)
    obtain par i where s: "avl_search c h rt None 0 = Some (Inr (par, i))" "seg h (None, par, i) ctx (rt, None, j)"
      using avl_search_rep [OF j(1,2) assms(2) j'] Inr by auto
    have m: "\<forall>a \<in> addrs t. c a \<noteq> 0" using descend_found [OF assms(2), of "[]"] Inr by simp
    have p: "t = plug ctx Leaf" "\<forall>x \<in> set (ctx_left ctx). c x = 1" "\<forall>x \<in> set (ctx_right ctx). c x = - 1"
      using descend_place [OF Inr assms(2)] by simp_all
    show ?thesis by (rule missing [OF m s p])
  qed
qed

text \<open>A tree of three nodes with a free node beside it, for the concrete instances below.\<close>

definition sample_node :: "int \<Rightarrow> nat \<Rightarrow> ptr \<Rightarrow> ptr \<Rightarrow> ptr \<Rightarrow> avl_node" where
  "sample_node b i c0 c1 p = \<lparr>avl_balance = b, avl_child_index = i, avl_child0 = c0, avl_child1 = c1, avl_parent = p\<rparr>"

definition sample_heap :: avl_heap where
  "sample_heap = [20 \<mapsto> sample_node 0 0 (Some 10) (Some 30) None, 10 \<mapsto> sample_node 0 0 None None (Some 20),
     30 \<mapsto> sample_node 0 1 None None (Some 20), 40 \<mapsto> sample_node 0 0 None None None]"

definition sample_tree :: atree where
  "sample_tree = Node (Node Leaf (10, 0) Leaf) (20, 0) (Node Leaf (30, 0) Leaf)"

definition sample_cmp :: "nat \<Rightarrow> nat \<Rightarrow> int" where
  "sample_cmp x y = (if x < y then - 1 else if x = y then 0 else 1)"

lemma sample_tree_ok:
  "rep_root sample_heap (Some 20) sample_tree" "avl sample_tree" "keys sample_tree = [10, 20, 30]"
  "addrs sample_tree = {10, 20, 30}" "cuts (sample_cmp v) (keys sample_tree)"
  by (auto simp: rep_root_def sample_heap_def sample_tree_def sample_node_def cuts_def sample_cmp_def)

lemma avl_insert_rep:
  assumes "rep_root h rt t" and "avl t" and "cuts (cmp a) (keys t)" and "a \<notin> addrs t" and "h a \<noteq> None"
  shows "if \<exists>k \<in> addrs t. cmp a k = 0 then avl_insert h rt a cmp = Some (h, rt, 1)
    else \<exists>h' rt' t'. avl_insert h rt a cmp = Some (h', rt', 0) \<and> rep_root h' rt' t' \<and> avl t' \<and>
      keys t' = place_key (cmp a) a (keys t) \<and> (\<forall>x. x \<notin> insert a (addrs t) \<longrightarrow> h' x = h x)"
  using assms(1,3)
proof (cases rule: avl_search_root)
  case (found k)
  then show ?thesis by (auto simp: avl_insert_def)
next
  case (missing ctx par i j)
  obtain n where n: "h a = Some n" using assms(5) by blast
  define h1 where "h1 = h(a \<mapsto> n\<lparr>avl_child0 := None, avl_child1 := None, avl_child_index := i, avl_balance := 0, avl_parent := par\<rparr>)"
  have t: "a \<notin> ctx_addrs ctx" "ctx_distinct ctx" "ctx_avl 0 ctx"
    using assms(1,2,4) missing(4) by (auto simp: rep_root_def distinct_plug avl_plug)
  have "seg h1 (None, par, i) ctx (rt, None, j)" using missing(3) t(1) by (simp add: h1_def)
  then obtain h2 rt2 j2 where h2: "link h1 rt par i (Some a) = Some (h2, rt2)" "seg h2 (Some a, par, i) ctx (rt2, None, j2)"
      "\<And>x. x \<notin> ctx_addrs ctx \<Longrightarrow> h2 x = h1 x"
    using link_seg [OF _ t(2)] by metis
  have "rep h2 (Some a) par i (Node Leaf (a, 0) Leaf)" using h2(3) [OF t(1)] by (simp add: h1_def)
  from insert_up_rep [OF this h2(2) _ _ _ t(3)] t
  have "rebuilt h2 (plug ctx (Node Leaf (a, 0) Leaf)) (avl_insert_up h2 rt2 par i)"
    by (simp add: distinct_plug leans_def)
  then obtain h' rt' t' where "avl_insert_up h2 rt2 par i = Some (h', rt')" "rep_root h' rt' t'" "avl t'"
      "keys t' = keys (plug ctx (Node Leaf (a, 0) Leaf))" "\<forall>x. x \<notin> insert a (ctx_addrs ctx) \<longrightarrow> h' x = h2 x"
    by (auto simp: rebuilt_def)
  moreover have "keys (plug ctx (Node Leaf (a, 0) Leaf)) = place_key (cmp a) a (keys t)"
    using place_key_split [OF missing(5,6)] by (simp add: keys_plug missing(4))
  moreover have "avl_insert h rt a cmp = do { (h, tree) \<leftarrow> avl_insert_up h2 rt2 par i; Some (h, tree, 0) }"
    using missing(2) n h2(1) by (simp add: avl_insert_def h1_def)
  ultimately show ?thesis using missing(1,4) h2(3) by (auto simp: h1_def)
qed

text \<open>
  C4: Insertion into the tree in the heap. An equal node is reported and nothing changes; otherwise the
  call returns, the heap holds a balanced tree again, its keys are the old ones with the new
  one in its place, and no node outside of the tree is touched. The comparison has to agree
  with the order of the keys.
\<close>

theorem avl_insert_correct:
  assumes "rep_root h rt t" and "avl t" and "cuts (cmp a) (keys t)" and "a \<notin> addrs t" and "h a \<noteq> None"
  shows "if \<exists>k \<in> addrs t. cmp a k = 0 then avl_insert h rt a cmp = Some (h, rt, 1)
    else \<exists>h' rt' t'. avl_insert h rt a cmp = Some (h', rt', 0) \<and> rep_root h' rt' t' \<and> avl t' \<and>
      keys t' = place_key (cmp a) a (keys t) \<and> (\<forall>x. x \<notin> insert a (addrs t) \<longrightarrow> h' x = h x)"
  using assms by (rule avl_insert_rep)

theorem avl_insert_correct_witness:
  "\<exists>h' rt' t'. avl_insert sample_heap (Some 20) 40 sample_cmp = Some (h', rt', 0) \<and> rep_root h' rt' t' \<and> avl t' \<and>
     keys t' = [10, 20, 30, 40]"
proof -
  have "\<not> (\<exists>k \<in> addrs sample_tree. sample_cmp 40 k = 0)" "sample_heap 40 \<noteq> None" "40 \<notin> addrs sample_tree"
    "place_key (sample_cmp 40) 40 (keys sample_tree) = [10, 20, 30, 40]"
    by (simp_all add: sample_tree_ok sample_cmp_def sample_heap_def place_key_def)
  with avl_insert_correct [where cmp = sample_cmp and a = 40, OF sample_tree_ok(1,2,5)] show ?thesis by auto
qed

lemma avl_find_rep:
  assumes "rep_root h rt t" and "cuts (cmp v) (keys t)"
  shows "\<exists>p. avl_find h rt v cmp = Some p \<and>
    (case p of None \<Rightarrow> \<forall>k \<in> addrs t. cmp v k \<noteq> 0 | Some k \<Rightarrow> k \<in> addrs t \<and> cmp v k = 0)"
  using assms by (cases rule: avl_search_root) (auto simp: avl_find_def)

text \<open>
  Searching the tree in the heap returns, and returns a node equal to the value exactly when the
  tree has one, and the null pointer otherwise.
\<close>

theorem avl_find_correct:
  assumes "rep_root h rt t" and "cuts (cmp v) (keys t)"
  shows "\<exists>p. avl_find h rt v cmp = Some p \<and>
    (case p of None \<Rightarrow> \<forall>k \<in> addrs t. cmp v k \<noteq> 0 | Some k \<Rightarrow> k \<in> addrs t \<and> cmp v k = 0)"
  using assms by (rule avl_find_rep)

theorem avl_find_correct_witness: "avl_find sample_heap (Some 20) 30 sample_cmp = Some (Some 30)"
proof -
  obtain p where "avl_find sample_heap (Some 20) 30 sample_cmp = Some p"
      "case p of None \<Rightarrow> \<forall>k \<in> addrs sample_tree. sample_cmp 30 k \<noteq> 0 | Some k \<Rightarrow> k \<in> addrs sample_tree \<and> sample_cmp 30 k = 0"
    using avl_find_correct [where cmp = sample_cmp and v = 30, OF sample_tree_ok(1,5)] by blast
  then show ?thesis by (cases p) (auto simp: sample_tree_ok sample_cmp_def split: if_splits)
qed

section \<open>Iteration\<close>

lemma rep_root_at:
  assumes "rep_root h rt t" and "a \<in> addrs t"
  obtains ctx l b r p par i i0 where "t = plug ctx (Node l (a, b) r)" "rep h p par i (Node l (a, b) r)"
    "seg h (p, par, i) ctx (rt, None, i0)"
proof -
  from assms(1) obtain j where j: "rep h rt None j t" by (rule rep_rootE)
  obtain ctx l b r where t: "t = plug ctx (Node l (a, b) r)" "\<And>f. f \<in> set ctx \<Longrightarrow> (case f of Frame s _ _ _ \<Rightarrow> s < 2)"
    using plug_at [OF assms(2)] by blast
  have "\<exists>p par i. rep h p par i (Node l (a, b) r) \<and> seg h (p, par, i) ctx (rt, None, j)"
    by (rule iffD1 [OF rep_plug]) (use t j in auto)
  with t(1) show ?thesis using that by blast
qed

lemma avl_first_rep:
  "rep h p par i t \<Longrightarrow> avl_first_loop h p prev = Some (case keys t of [] \<Rightarrow> prev | k # _ \<Rightarrow> Some k)"
proof (induction t arbitrary: p par i prev)
  case Leaf
  then show ?case by (simp add: avl_first_loop.simps)
next
  case (Node l v r)
  obtain a b where v: "v = (a, b)" by (cases v)
  with Node.prems obtain n where n: "p = Some a" "h a = Some n" "rep h (avl_child0 n) (Some a) 0 l" by auto
  have "avl_first_loop h p prev = avl_first_loop h (avl_child0 n) (Some a)"
    using n by (subst avl_first_loop.simps) simp
  with Node.IH(1) [OF n(3), of "Some a"] v show ?case by (auto split: list.splits)
qed

lemma avl_next_up_rep:
  "\<lbrakk>seg h (Some a, par, i) ctx (rt, None, i0); a \<notin> ctx_addrs ctx; ctx_distinct ctx\<rbrakk> \<Longrightarrow>
    avl_next_up h par (Some a) = Some (case ctx_right ctx of [] \<Rightarrow> None | k # _ \<Rightarrow> Some k)"
proof (induction ctx arbitrary: a par i)
  case Nil
  then show ?case by (simp add: avl_next_up.simps)
next
  case (Cons f ctx)
  obtain s c b y where f: "f = Frame s c b y" by (cases f)
  with Cons.prems(1) obtain n where n: "s < 2" "par = Some c" "i = s" "h c = Some n" "child n s = Some a"
      "rep h (child n (1 - s)) (Some c) (1 - s) y" "seg h (Some c, avl_parent n, avl_child_index n) ctx (rt, None, i0)" by auto
  show ?case
  proof (cases "s = 0")
    case True
    have "avl_child1 n \<noteq> Some a"
      using n(6) Cons.prems(2) f True by (cases y) (auto simp: child_def)
    with True n f show ?thesis by (subst avl_next_up.simps) simp
  next
    case False
    then have "avl_next_up h par (Some a) = avl_next_up h (avl_parent n) (Some c)"
      using n by (subst avl_next_up.simps) (simp add: child_def)
    with Cons.IH [OF n(7)] Cons.prems(2,3) False f show ?thesis by simp
  qed
qed

lemma avl_next_rep:
  assumes "rep h p par i (Node l (a, b) r)" "seg h (p, par, i) ctx (rt, None, i0)" "distinct (keys (plug ctx (Node l (a, b) r)))"
  shows "avl_next h (Some a) = Some (case keys r @ ctx_right ctx of [] \<Rightarrow> None | k # _ \<Rightarrow> Some k)"
proof -
  from assms(1) obtain n where n: "p = Some a" "h a = Some n" "avl_parent n = par" "rep h (avl_child1 n) (Some a) 1 r" by auto
  have d: "a \<notin> ctx_addrs ctx" "ctx_distinct ctx" using assms(3) by (auto simp: distinct_plug)
  show ?thesis
  proof (cases r)
    case Leaf
    with n avl_next_up_rep [OF assms(2) [unfolded n(1)] d] show ?thesis by (simp add: avl_next_def)
  next
    case (Node r1 v r2)
    then have "keys r \<noteq> []" "avl_child1 n \<noteq> None" using n(4) by (cases v; auto)+
    with n avl_first_rep [OF n(4), of None] show ?thesis
      by (cases "keys r") (auto simp: avl_next_def avl_first_def)
  qed
qed

text \<open>
  C16: Iteration: \<^verbatim>\<open>avl_first\<close> gives the first key in order, and \<^verbatim>\<open>avl_next\<close> on the key at any position gives
  the key at the next position, and the null pointer behind the last one. The calls return for
  every tree.
\<close>

theorem avl_iteration:
  assumes "rep_root h rt t"
  shows "avl_first h rt = Some (if t = Leaf then None else Some (keys t ! 0)) \<and>
    (\<forall>m < length (keys t). avl_next h (Some (keys t ! m)) =
       Some (if Suc m < length (keys t) then Some (keys t ! Suc m) else None))"
proof (intro conjI allI impI)
  from assms obtain j where j: "rep h rt None j t" "distinct (keys t)" by (rule rep_rootE)
  show "avl_first h rt = Some (if t = Leaf then None else Some (keys t ! 0))"
    using avl_first_rep [OF j(1), of None] by (cases "keys t"; cases t) (auto simp: avl_first_def)
  fix m
  assume m: "m < length (keys t)"
  define a where "a = keys t ! m"
  have "a \<in> addrs t" using m by (auto simp: a_def set_keys [symmetric])
  with assms obtain ctx l b r p par i i0 where t: "t = plug ctx (Node l (a, b) r)" "rep h p par i (Node l (a, b) r)"
    "seg h (p, par, i) ctx (rt, None, i0)" by (rule rep_root_at)
  have nxt: "avl_next h (Some a) = Some (case keys r @ ctx_right ctx of [] \<Rightarrow> None | k # _ \<Rightarrow> Some k)"
    by (rule avl_next_rep [OF t(2,3)]) (use j(2) t(1) in simp)
  let ?us = "ctx_left ctx @ keys l" and ?vs = "keys r @ ctx_right ctx"
  have k: "keys t = ?us @ a # ?vs" by (simp add: t(1) keys_plug)
  have e: "keys t ! length ?us = a" "length ?us < length (keys t)" unfolding k by simp_all
  then have "keys t ! m = keys t ! length ?us" by (simp only: a_def)
  then have "m = length ?us" by (rule iffD1 [OF nth_eq_iff_index_eq [OF j(2) m e(2)]])
  then show "avl_next h (Some (keys t ! m)) = Some (if Suc m < length (keys t) then Some (keys t ! Suc m) else None)"
    unfolding a_def [symmetric] nxt unfolding k by (cases ?vs) (simp_all add: nth_append)
qed

theorem avl_iteration_witness:
  "rep_root sample_heap (Some 20) sample_tree \<and> avl_first sample_heap (Some 20) = Some (Some 10) \<and>
   avl_next sample_heap (Some 10) = Some (Some 20) \<and> avl_next sample_heap (Some 30) = Some None"
proof -
  have l: "keys sample_tree = [10, 20, 30]" by (rule sample_tree_ok(3))
  note it = avl_iteration [OF sample_tree_ok(1), unfolded l]
  from it have "avl_first sample_heap (Some 20) = Some (Some 10)" by (simp add: sample_tree_def)
  moreover from it have "avl_next sample_heap (Some ([10, 20, 30] ! 0)) = Some (Some ([10, 20, 30] ! 1))"
    by (elim conjE allE [of _ 0]) simp
  moreover from it have "avl_next sample_heap (Some ([10, 20, 30] ! 2)) = Some None"
    by (elim conjE allE [of _ 2]) simp
  ultimately show ?thesis using sample_tree_ok(1) by simp
qed

section \<open>Removal\<close>

lemma Nd_swap: "s < 2 \<Longrightarrow> Nd (1 - s) y v x = Nd s x v y"
  using less_2_cases [of s] by (auto simp: Nd_def)

lemma child2balance_other: "s < 2 \<Longrightarrow> child2balance (1 - s) = - child2balance s"
  using less_2_cases [of s] by (auto simp: child2balance_def)

lemma shrink_steps:
  assumes "s < 2" "ctx_avl (Suc k) (Frame s a b y # ctx)"
  obtains (stop) "b = 0" "height y = Suc k" | (level) "b = child2balance s" "height y = k"
    | (rotate) "b = - child2balance s" "height y = k + 2"
proof -
  have c: "child2balance s = 1 \<or> child2balance s = - 1" by (simp add: child2balance_def)
  have "b = child2balance s * (int (Suc k) - int (height y))" "b \<in> {- 1, 0, 1}" using assms(2) by auto
  with c have "b = 0 \<and> height y = Suc k \<or> b = child2balance s \<and> height y = k \<or> b = - child2balance s \<and> height y = k + 2"
    by (elim disjE insertE) auto
  with that show ?thesis by blast
qed

text \<open>The parent and index a way up starts from are fixed by its first frame.\<close>

lemma rep_root_plug:
  assumes "rep_root h rt (plug ctx x)" and "seg h0 (p0, par, i) ctx up" and "ctx \<noteq> []"
  obtains p i0 where "rep h p par i x" "seg h (p, par, i) ctx (rt, None, i0)"
proof -
  from assms(1) obtain j where j: "rep h rt None j (plug ctx x)" by (rule rep_rootE)
  have "\<exists>p par i. rep h p par i x \<and> seg h (p, par, i) ctx (rt, None, j)"
    by (rule iffD1 [OF rep_plug]) (use j seg_sides [OF assms(2)] in auto)
  then obtain p par' i' where "rep h p par' i' x" "seg h (p, par', i') ctx (rt, None, j)" by blast
  moreover from this(2) assms(2,3) have "par' = par \<and> i' = i" by (cases ctx; cases "hd ctx") auto
  ultimately show ?thesis using that by blast
qed

lemma rebuilt_trans:
  assumes "rebuilt h1 t1 res" and "keys t1 = keys t" and "\<And>x. x \<notin> addrs t \<Longrightarrow> h1 x = h x"
  shows "rebuilt h t res"
proof -
  have "addrs t1 = addrs t" using assms(2) set_keys by metis
  with assms show ?thesis unfolding rebuilt_def by auto
qed

lemma rebuiltI:
  assumes "rep_root h' rt' t'" "avl t'" "keys t' = keys t" "\<And>x. x \<notin> addrs t \<Longrightarrow> h' x = h x"
  shows "rebuilt h t (Some (h', rt'))"
  using assms unfolding rebuilt_def by blast

text \<open>Going on with a subtree that has become shorter, or stopping at the root.\<close>

lemma remove_continue:
  assumes IH: "\<And>h p par i x rt i0. \<lbrakk>rep h p par i x; seg h (p, par, i) ctx (rt, None, i0); ctx \<noteq> [];
      distinct (keys (plug ctx x)); avl x; ctx_avl (Suc (height x)) ctx\<rbrakk> \<Longrightarrow> rebuilt h (plug ctx x) (avl_remove_up h rt par i)"
    and up: "seg h (q, par, i) ctx (rt, None, i0)"
    and x: "rep_root h' rt' (plug ctx x)" "avl x" "ctx_avl (Suc (height x)) ctx"
  shows "rebuilt h' (plug ctx x) (if par = None then Some (h', rt') else avl_remove_up h' rt' par i)"
proof (cases "ctx = []")
  case True
  then have "par = None" using up by simp
  with True x show ?thesis by (simp add: rebuiltI)
next
  case False
  then have "par \<noteq> None" using up by (cases ctx; cases "hd ctx") auto
  from rep_root_plug [OF x(1) up False] obtain p' i0' where
    "rep h' p' par i x" "seg h' (p', par, i) ctx (rt', None, i0')" by blast
  from IH [OF this False _ x(2,3)] x(1) \<open>par \<noteq> None\<close> show ?thesis by (auto simp: rep_root_def)
qed

lemma remove_up_run:
  assumes "h a = Some n" and "s < 2"
  shows "avl_balance n = 0 \<Longrightarrow> avl_remove_up h rt (Some a) s = Some (h(a \<mapsto> n\<lparr>avl_balance := - child2balance s\<rparr>), rt)"
    and "avl_balance n = child2balance s \<Longrightarrow> avl_remove_up h rt (Some a) s =
      (if avl_parent n = None then Some (h(a \<mapsto> n\<lparr>avl_balance := 0\<rparr>), rt)
       else avl_remove_up (h(a \<mapsto> n\<lparr>avl_balance := 0\<rparr>)) rt (avl_parent n) (avl_child_index n))"
    and "avl_balance n = - child2balance s \<Longrightarrow> avl_remove_up h rt (Some a) s =
      do { (h1, rt1, shorter) \<leftarrow> avl_rotation h rt (Some a) (2 * child2balance (1 - s));
           if \<not> shorter then Some (h1, rt1)
           else if avl_parent n = None then Some (h1, rt1)
           else avl_remove_up h1 rt1 (avl_parent n) (avl_child_index n) }"
proof -
  have c: "child2balance s = 1 \<or> child2balance s = - 1" by (simp add: child2balance_def)
  show "avl_balance n = 0 \<Longrightarrow> avl_remove_up h rt (Some a) s = Some (h(a \<mapsto> n\<lparr>avl_balance := - child2balance s\<rparr>), rt)"
    using assms c by (subst avl_remove_up.simps) (auto simp: Let_def)
  show "avl_balance n = child2balance s \<Longrightarrow> avl_remove_up h rt (Some a) s =
      (if avl_parent n = None then Some (h(a \<mapsto> n\<lparr>avl_balance := 0\<rparr>), rt)
       else avl_remove_up (h(a \<mapsto> n\<lparr>avl_balance := 0\<rparr>)) rt (avl_parent n) (avl_child_index n))"
    using assms c by (subst avl_remove_up.simps) (auto simp: Let_def)
  show "avl_balance n = - child2balance s \<Longrightarrow> avl_remove_up h rt (Some a) s =
      do { (h1, rt1, shorter) \<leftarrow> avl_rotation h rt (Some a) (2 * child2balance (1 - s));
           if \<not> shorter then Some (h1, rt1)
           else if avl_parent n = None then Some (h1, rt1)
           else avl_remove_up h1 rt1 (avl_parent n) (avl_child_index n) }"
    using assms c child2balance_other [OF assms(2)] by (subst avl_remove_up.simps) (auto simp: Let_def)
qed

lemma remove_up_rep:
  "\<lbrakk>rep h p par i x; seg h (p, par, i) ctx (rt, None, i0); ctx \<noteq> []; distinct (keys (plug ctx x)); avl x;
    ctx_avl (Suc (height x)) ctx\<rbrakk> \<Longrightarrow> rebuilt h (plug ctx x) (avl_remove_up h rt par i)"
proof (induction ctx arbitrary: h p par i x rt i0)
  case (Cons f ctx)
  obtain s a b y where f: "f = Frame s a b y" by (cases f)
  from Cons.prems(1,2) f obtain n where n: "s < 2" "par = Some a" "i = s" "h a = Some n" "avl_balance n = b"
      "rep h (child n s) (Some a) s x" "rep h (child n (1 - s)) (Some a) (1 - s) y"
      "seg h (Some a, avl_parent n, avl_child_index n) ctx (rt, None, i0)" by auto
  have y: "avl y" and up: "ctx_avl (Suc (max (Suc (height x)) (height y))) ctx" using Cons.prems(6) f by auto
  have D: "distinct (keys (plug ctx (Nd s x (a, b') y)))" for b' using Cons.prems(4) f by (simp add: distinct_plug)
  have c: "child2balance s = 1 \<or> child2balance s = - 1" by (simp add: child2balance_def)
  note run = remove_up_run [where h = h and a = a and n = n and s = s and rt = rt, OF n(4,1), unfolded n(5)]
  have cont: "rebuilt h' (plug ctx x') (if avl_parent n = None then Some (h', rt')
      else avl_remove_up h' rt' (avl_parent n) (avl_child_index n))"
    if "rep_root h' rt' (plug ctx x')" "avl x'" "ctx_avl (Suc (height x')) ctx" for h' rt' x'
    by (rule remove_continue [OF _ n(8) that]) (rule Cons.IH, assumption+)
  from n(1) Cons.prems(6) [unfolded f] show ?case
  proof (cases rule: shrink_steps)
    case stop
    let ?t = "plug ctx (Nd s x (a, - child2balance s) y)"
    have "avl ?t" using stop Cons.prems(5) y up c by (auto simp: avl_plug avl_Nd)
    with set_balance_root [OF n(1,4,6-8) D] show ?thesis
      unfolding n(2,3) run(1) [OF stop(1)] by (rule rebuiltI) (auto simp: f keys_plug keys_Nd)
  next
    case level
    let ?h = "h(a \<mapsto> n\<lparr>avl_balance := 0\<rparr>)" and ?x = "Nd s x (a, 0) y"
    have "avl ?x" "ctx_avl (Suc (height ?x)) ctx" using level Cons.prems(5) y up by (auto simp: avl_Nd)
    from cont [OF set_balance_root [OF n(1,4,6-8) D] this] show ?thesis
      unfolding n(2,3) run(2) [OF level(1)] by (rule rebuilt_trans) (auto simp: f keys_plug keys_Nd)
  next
    case rotate
    have s': "1 - s < 2" "1 - (1 - s) = s" using n(1) by auto
    have "rep h (child n (1 - (1 - s))) (Some a) (1 - (1 - s)) x" using n(6) s' by simp
    moreover have "distinct (keys (plug ctx (Nd (1 - s) y (a, b) x)))" using D Nd_swap [OF n(1)] by simp
    ultimately obtain h' rt' where
      h': "avl_rotation h rt (Some a) (2 * child2balance (1 - s)) = Some (h', rt', snd (rot (1 - s) y a x))"
        "rep_root h' rt' (plug ctx (fst (rot (1 - s) y a x)))"
        "\<And>z. z \<notin> addrs (plug ctx (Nd (1 - s) y (a, b) x)) \<Longrightarrow> h' z = h z"
      using avl_rotation_rep [OF s'(1) y Cons.prems(5) rotate(2) n(4,7) _ n(8)] by blast
    note spec = rot_spec [OF s'(1) y Cons.prems(5) rotate(2), of a]
    have k: "keys (plug ctx (fst (rot (1 - s) y a x))) = keys (plug (f # ctx) x)"
      using spec(2) Nd_swap [OF n(1)] by (simp add: keys_plug f keys_Nd)
    have fr: "h' z = h z" if "z \<notin> addrs (plug (f # ctx) x)" for z using h'(3) that Nd_swap [OF n(1)] by (simp add: f)
    show ?thesis
    proof (cases "snd (rot (1 - s) y a x)")
      case True
      have "ctx_avl (Suc (height (fst (rot (1 - s) y a x)))) ctx" using spec(3) True up rotate by (simp add: max_def)
      from cont [OF h'(2) spec(1) this] True show ?thesis
        unfolding n(2,3) run(3) [OF rotate(1)] h'(1) using k fr by (auto intro: rebuilt_trans)
    next
      case False
      then have "avl (plug ctx (fst (rot (1 - s) y a x)))" using spec(1,3) up rotate by (simp add: avl_plug max_def)
      with False show ?thesis
        unfolding n(2,3) run(3) [OF rotate(1)] h'(1) using k fr h'(2) by (auto intro: rebuiltI)
    qed
  qed
qed simp

subsection \<open>Unlinking a node with at most one child\<close>

lemma avl_unlink_rep:
  assumes "s < 2" and rep: "rep h p par i (Nd s Leaf (a, b) x)" "seg h (p, par, i) ctx (rt, None, i0)"
    and d: "distinct (keys (plug ctx (Nd s Leaf (a, b) x)))" and avl: "avl (plug ctx (Nd s Leaf (a, b) x))"
  shows "rebuilt h (plug ctx x) (avl_unlink h rt a)"
proof -
  from rep(1) obtain n where n: "p = Some a" "h a = Some n" "avl_parent n = par" "avl_child_index n = i"
      "child n s = None" "rep h (child n (1 - s)) (Some a) (1 - s) x"
    using assms(1) by (auto simp: rep_Nd)
  have node: "(if avl_child0 n \<noteq> None then avl_child0 n else avl_child1 n) = child n (1 - s)"
    using n(5) less_2_cases [OF assms(1)] by (auto simp: child_def)
  have x: "distinct (keys x)" "addrs x \<inter> ctx_addrs ctx = {}" "ctx_distinct ctx" "distinct (keys (plug ctx x))" "avl x"
      "ctx_avl (Suc (height x)) ctx" using d avl by (auto simp: distinct_plug avl_plug avl_Nd)
  from n(6) x(1) obtain h1 where h1: "relink h (child n (1 - s)) par i = Some h1" "rep h1 (child n (1 - s)) par i x"
      "\<And>z. z \<notin> addrs x \<Longrightarrow> h1 z = h z" using relink_rep by metis
  have run: "avl_unlink h rt a = (if par = None then Some (h1, child n (1 - s))
      else do { h2 \<leftarrow> set_child h1 par i (child n (1 - s)); avl_remove_up h2 rt par i })"
    using n(2-4) h1(1) node by (simp add: avl_unlink_def Let_def)
  have "seg h1 (p, par, i) ctx (rt, None, i0)" by (rule seg_mono [OF rep(2)], rule h1(3)) (use x(2) in blast)
  then obtain h2 rt2 j where h2: "link h1 rt par i (child n (1 - s)) = Some (h2, rt2)"
      "seg h2 (child n (1 - s), par, i) ctx (rt2, None, j)" "\<And>z. z \<notin> ctx_addrs ctx \<Longrightarrow> h2 z = h1 z"
    using link_seg [OF _ x(3)] by metis
  have r2: "rep h2 (child n (1 - s)) par i x" by (rule rep_mono [OF h1(2)], rule h2(3)) (use x(2) in blast)
  have fr: "z \<notin> addrs (plug ctx x) \<Longrightarrow> h2 z = h z" for z using h1(3) h2(3) by simp
  show ?thesis
  proof (cases "ctx = []")
    case True
    then have "par = None" "h2 = h1" "rt2 = child n (1 - s)" using rep(2) h2(1) by (auto simp: link_def)
    with True run r2 x fr show ?thesis by (auto intro!: rebuiltI simp: rep_root_def)
  next
    case False
    then have p: "par \<noteq> None" using rep(2) by (cases ctx; cases "hd ctx") auto
    with h2(1) have "set_child h1 par i (child n (1 - s)) = Some h2" "rt2 = rt" by (auto simp: link_def bind_eq_Some_conv)
    with run p have "avl_unlink h rt a = avl_remove_up h2 rt2 par i" by simp
    with rebuilt_trans [OF remove_up_rep [OF r2 h2(2) False x(4-6)] refl fr] show ?thesis by simp
  qed
qed

subsection \<open>Exchange with the neighbour\<close>

lemma seg_replace_hole:
  assumes "seg h (p, par, i) ctx up" and "ctx \<noteq> []" and "ctx_distinct ctx"
  obtains m nm where "par = Some m" "i < 2" "m \<in> ctx_addrs ctx" "h m = Some nm" "seg (h(m \<mapsto> put_child i q nm)) (q, par, i) ctx up"
proof -
  obtain s a b y ctx' where c: "ctx = Frame s a b y # ctx'" using assms(2) by (cases ctx; cases "hd ctx") auto
  with assms(1) obtain n where "s < 2" "par = Some a" "i = s" "h a = Some n" "avl_balance n = b"
      "rep h (child n (1 - s)) (Some a) (1 - s) y" "seg h (Some a, avl_parent n, avl_child_index n) ctx' up" by auto
  moreover have "a \<notin> addrs y" "a \<notin> ctx_addrs ctx'" using assms(3) c by auto
  ultimately show ?thesis using that [of a n] c by auto
qed

lemma seg_reparent_top:
  "\<lbrakk>seg h low ctx (q, par, i); ctx \<noteq> []; ctx_distinct ctx\<rbrakk> \<Longrightarrow>
    \<exists>m nm. q = Some m \<and> m \<in> ctx_addrs ctx \<and> h m = Some nm \<and> avl_parent nm = par \<and>
      seg (h(m \<mapsto> nm\<lparr>avl_parent := par'\<rparr>)) low ctx (q, par', i)"
proof (induction ctx arbitrary: low)
  case (Cons f ctx)
  obtain s a b y where f: "f = Frame s a b y" by (cases f)
  obtain p lp li where low: "low = (p, lp, li)" by (cases low)
  from Cons.prems(1) obtain n where n: "s < 2" "lp = Some a" "li = s" "h a = Some n" "avl_balance n = b" "child n s = p"
      "rep h (child n (1 - s)) (Some a) (1 - s) y" "seg h (Some a, avl_parent n, avl_child_index n) ctx (q, par, i)"
    by (auto simp: f low)
  have d: "a \<notin> addrs y" "a \<notin> ctx_addrs ctx" "addrs y \<inter> ctx_addrs ctx = {}" "ctx_distinct ctx" using Cons.prems(3) f by auto
  show ?case
  proof (cases "ctx = []")
    case True
    with n(8) have q: "q = Some a" "par = avl_parent n" "i = avl_child_index n" by simp_all
    have "seg (h(a \<mapsto> n\<lparr>avl_parent := par'\<rparr>)) low (f # ctx) (q, par', i)" using n q True d(1) by (simp add: f low)
    moreover have "a \<in> ctx_addrs (f # ctx)" by (simp add: f)
    ultimately show ?thesis using n(4) q by blast
  next
    case False
    from Cons.IH [OF n(8) False d(4)] obtain m nm where m: "q = Some m" "m \<in> ctx_addrs ctx" "h m = Some nm" "avl_parent nm = par"
      "seg (h(m \<mapsto> nm\<lparr>avl_parent := par'\<rparr>)) (Some a, avl_parent n, avl_child_index n) ctx (q, par', i)" by blast
    have "m \<noteq> a" "m \<notin> addrs y" using m(2) d by auto
    with m(5) n have "seg (h(m \<mapsto> nm\<lparr>avl_parent := par'\<rparr>)) low (f # ctx) (q, par', i)" by (simp add: f low)
    moreover have "m \<in> ctx_addrs (f # ctx)" using m(2) by (simp add: f)
    ultimately show ?thesis using m by blast
  qed
qed simp

lemma rep_reparent:
  assumes "rep h p par i t" and "t \<noteq> Leaf" and "distinct (keys t)"
  obtains m nm where "p = Some m" "m \<in> addrs t" "h m = Some nm" "rep (h(m \<mapsto> nm\<lparr>avl_parent := par'\<rparr>)) p par' i t"
proof -
  obtain l a b r where t: "t = Node l (a, b) r" using assms(2) by (cases t) auto
  with assms that [of a] show ?thesis by (auto simp: set_keys)
qed

text \<open>The descent to the neighbour: the way back up has the subtree on the same side everywhere.\<close>

lemma avl_far_rep:
  assumes "r < 2"
  shows "\<lbrakk>rep h p par i t; t \<noteq> Leaf\<rbrakk> \<Longrightarrow>
    \<exists>c k kb z. t = plug c (Nd r Leaf (k, kb) z) \<and> (\<forall>f \<in> set c. case f of Frame s _ _ _ \<Rightarrow> s = r) \<and> avl_far h p r = Some k"
proof (induction t arbitrary: p par i rule: measure_induct_rule [of size])
  case (less t)
  obtain x a b y where t: "t = Nd r x (a, b) y" using less.prems(2) by - (rule Nd_cases [OF assms, of t], auto)
  with less.prems(1) obtain n where n: "p = Some a" "h a = Some n" "rep h (child n r) (Some a) r x"
    using assms by (auto simp: rep_Nd)
  show ?case
  proof (cases "x = Leaf")
    case True
    with n have "avl_far h p r = Some a" by (subst avl_far.simps) simp
    with t True show ?thesis by (intro exI [of _ "[]"]) auto
  next
    case False
    have "size x < size t" by (simp add: t Nd_def)
    from less.IH [OF this n(3) False] obtain c k kb z where
      "x = plug c (Nd r Leaf (k, kb) z)" "\<forall>f \<in> set c. case f of Frame s _ _ _ \<Rightarrow> s = r" "avl_far h (child n r) r = Some k" by blast
    moreover have "child n r \<noteq> None" using n(3) False by (cases x) auto
    moreover have "avl_far h p r = (if child n r = None then Some a else avl_far h (child n r) r)"
      using n by (subst avl_far.simps) simp
    ultimately show ?thesis
      using t by (intro exI [of _ "c @ [Frame r a b y]"] exI [of _ k] exI [of _ kb] exI [of _ z]) (auto simp: plug_append)
  qed
qed

text \<open>
  The heap after the exchange, in the two cases: the neighbour is the child itself, or it lies
  further down. \<open>zp\<close> is the only child of the neighbour.
\<close>

lemma exchange_child:
  assumes "rep h zp par i z" and "distinct (keys z)" and "child t r = None" and "child t (1 - r) = zp" and "r < 2"
  obtains h' where "reparent_child h t q = Some h'"
    "rep h' zp q i z" "\<And>x. x \<notin> addrs z \<Longrightarrow> h' x = h x"
proof -
  have c: "child t (if avl_child1 t \<noteq> None then 1 else 0) = zp"
    using assms(3-5) less_2_cases [OF assms(5)] by (auto simp: child_def)
  show ?thesis
  proof (cases "z = Leaf")
    case True
    with assms(1) c that [of h] show ?thesis by (simp add: reparent_child_def Let_def)
  next
    case False
    from rep_reparent [OF assms(1) False assms(2), of q] obtain m nm where
      m: "zp = Some m" "m \<in> addrs z" "h m = Some nm" "rep (h(m \<mapsto> nm\<lparr>avl_parent := q\<rparr>)) zp q i z" .
    show ?thesis by (rule that [OF _ m(4)]) (use c m in \<open>auto simp: reparent_child_def Let_def\<close>)
  qed
qed

lemma exchange_direct:
  assumes s: "s < 2" and r: "r = 1 - s"
    and rep: "h a = Some d" "avl_balance d = b" "child d s = Some k" "rep h (child d s) (Some a) s (Nd r Leaf (k, kb) z)"
      "rep h (child d r) (Some a) r y" "y \<noteq> Leaf"
    and up: "seg h (Some a, avl_parent d, avl_child_index d) ctx (rt, None, i0)"
    and side: "balance2child b = Some s" and far: "avl_far h (child d s) r = Some k"
    and dist: "distinct (keys (plug ctx (Nd s (Nd r Leaf (k, kb) z) (a, b) y)))"
      "tmp \<notin> addrs (plug ctx (Nd s (Nd r Leaf (k, kb) z) (a, b) y))"
  obtains h' rt' where "avl_exchange h rt a tmp = Some (h', rt')"
    "rep_root h' rt' (plug ctx (Nd s (Nd r Leaf (tmp, kb) z) (k, b) y))"
    "\<And>x. x \<notin> insert tmp (addrs (plug ctx (Nd s (Nd r Leaf (k, kb) z) (a, b) y))) \<Longrightarrow> h' x = h x"
proof -
  have r2: "r < 2" "1 - r = s" using s r by auto
  from dist have dd: "distinct (keys z)" "distinct (keys y)" "ctx_distinct ctx" "a \<noteq> k" "a \<noteq> tmp" "k \<noteq> tmp"
      "{a, k, tmp} \<inter> (addrs z \<union> addrs y \<union> ctx_addrs ctx) = {}" "addrs z \<inter> addrs y = {}"
      "(addrs z \<union> addrs y) \<inter> ctx_addrs ctx = {}"
    by (auto simp: distinct_plug)
  from rep(4) r2 obtain t where t: "h k = Some t" "avl_balance t = kb" "avl_child_index t = s" "child t r = None"
      "rep h (child t s) (Some k) s z" by (auto simp: rep_Nd)
  define h2 where "h2 = h(tmp \<mapsto> t, k \<mapsto> put_child s (Some tmp) d)"
  have "seg h2 (Some a, avl_parent d, avl_child_index d) ctx (rt, None, i0)" using up dd(7) by (simp add: h2_def)
  then obtain h3 rt3 j where h3: "link h2 rt (avl_parent d) (avl_child_index d) (Some k) = Some (h3, rt3)"
      "seg h3 (Some k, avl_parent d, avl_child_index d) ctx (rt3, None, j)" "\<And>x. x \<notin> ctx_addrs ctx \<Longrightarrow> h3 x = h2 x"
    using link_seg [OF _ dd(3)] by metis
  have k3: "h3 k = Some (put_child s (Some tmp) d)" "h3 tmp = Some t" using h3(3) dd(6,7) by (auto simp: h2_def)
  define h4 where "h4 = h3(tmp \<mapsto> t\<lparr>avl_parent := Some k\<rparr>)"
  have same4: "h4 x = h x" if "x \<notin> {k, tmp} \<union> ctx_addrs ctx" for x using that h3(3) [of x] by (simp add: h4_def h2_def)
  have "rep h4 (child d r) (Some a) r y" by (rule rep_mono [OF rep(5)], rule same4) (use dd(7,9) in blast)
  from rep_reparent [OF this rep(6) dd(2), of "Some k"] obtain m nm where
    m: "child d r = Some m" "m \<in> addrs y" "h4 m = Some nm" "rep (h4(m \<mapsto> nm\<lparr>avl_parent := Some k\<rparr>)) (child d r) (Some k) r y" .
  define h5 where "h5 = h4(m \<mapsto> nm\<lparr>avl_parent := Some k\<rparr>)"
  have mk: "m \<noteq> k" "m \<noteq> tmp" "m \<notin> ctx_addrs ctx" "m \<notin> addrs z" using m(2) dd(7-9) by blast+
  define t1 where "t1 = t\<lparr>avl_parent := Some k\<rparr>"
  have k5: "h5 k = Some (put_child s (Some tmp) d)" "h5 tmp = Some t1"
    using k3 mk dd(6) by (simp_all add: h5_def h4_def t1_def)
  have put: "put_child s (Some tmp) (put_child s (Some tmp) d) = put_child s (Some tmp) d" by (simp add: put_child_def)
  have same5: "h5 x = h x" if "x \<notin> {k, tmp, m} \<union> ctx_addrs ctx" for x using that same4 [of x] by (simp add: h5_def)
  have "rep h5 (child t s) (Some k) s z" by (rule rep_mono [OF t(5)], rule same5) (use dd(7,9) mk(4) in blast)
  then obtain h6 where h6: "reparent_child h5 t1 (Some tmp) = Some h6" "rep h6 (child t s) (Some tmp) s z"
      "\<And>x. x \<notin> addrs z \<Longrightarrow> h6 x = h5 x"
    by (rule exchange_child [OF _ dd(1), of _ _ _ _ t1 r "Some tmp"]) (use t(4) r2 in \<open>simp_all add: t1_def\<close>)
  have run: "avl_exchange h rt a tmp = Some (h6, rt3)"
    using rep(1-3) side far t(1) h3(1) k3 m(1,3) k5 h6(1) r2 s r t(3) put
    by (simp add: avl_exchange_def h2_def h4_def h5_def t1_def Let_def fun_upd_idem)
  have ctx6: "seg h6 (Some k, avl_parent d, avl_child_index d) ctx (rt3, None, j)"
  proof (rule seg_mono [OF h3(2)])
    fix x
    assume "x \<in> ctx_addrs ctx"
    then have "x \<notin> addrs z" "x \<noteq> m" "x \<noteq> tmp" using mk(3) dd(7,9) by blast+
    with h6(3) [of x] show "h6 x = h3 x" by (simp add: h5_def h4_def)
  qed
  have k6: "h6 k = Some (put_child s (Some tmp) d)" "h6 tmp = Some t1" using h6(3) k5 dd(7) by auto
  have "rep h6 (child d r) (Some k) r y"
    by (rule rep_mono [OF m(4) [folded h5_def]], rule h6(3)) (use dd(8) in blast)
  with k6 h6(2) t(2-4) rep(2) s r r2 have "rep h6 (Some k) (avl_parent d) (avl_child_index d) (Nd s (Nd r Leaf (tmp, kb) z) (k, b) y)"
    by (simp add: rep_Nd t1_def)
  from rep_rootI [OF this ctx6] dist have "rep_root h6 rt3 (plug ctx (Nd s (Nd r Leaf (tmp, kb) z) (k, b) y))"
    by (auto simp: distinct_plug)
  moreover have "h6 x = h x" if "x \<notin> insert tmp (addrs (plug ctx (Nd s (Nd r Leaf (k, kb) z) (a, b) y)))" for x
    using that h6(3) [of x] same5 [of x] m(2) by auto
  ultimately show ?thesis using run that by blast
qed

lemma exchange_far:
  assumes s: "s < 2" and r: "r = 1 - s"
    and rep: "h a = Some d" "avl_balance d = b" "rep h (child d r) (Some a) r y" "y \<noteq> Leaf"
    and k: "rep h (Some k) kp ki (Nd r Leaf (k, kb) z)" "seg h (Some k, kp, ki) c (child d s, Some a, s)" "c \<noteq> []"
    and up: "seg h (Some a, avl_parent d, avl_child_index d) ctx (rt, None, i0)"
    and side: "balance2child b = Some s" and far: "avl_far h (child d s) r = Some k"
    and dist: "distinct (keys (plug ctx (Nd s (plug c (Nd r Leaf (k, kb) z)) (a, b) y)))"
      "tmp \<notin> addrs (plug ctx (Nd s (plug c (Nd r Leaf (k, kb) z)) (a, b) y))"
  obtains h' rt' where "avl_exchange h rt a tmp = Some (h', rt')"
    "rep_root h' rt' (plug ctx (Nd s (plug c (Nd r Leaf (tmp, kb) z)) (k, b) y))"
    "\<And>x. x \<notin> insert tmp (addrs (plug ctx (Nd s (plug c (Nd r Leaf (k, kb) z)) (a, b) y))) \<Longrightarrow> h' x = h x"
proof -
  have r2: "r < 2" "1 - r = s" using s r by auto
  from dist have dd: "distinct (keys z)" "distinct (keys y)" "ctx_distinct ctx" "ctx_distinct c" "a \<noteq> k" "a \<noteq> tmp" "k \<noteq> tmp"
      "{a, k, tmp} \<inter> (addrs z \<union> addrs y \<union> ctx_addrs ctx \<union> ctx_addrs c) = {}" "addrs z \<inter> (addrs y \<union> ctx_addrs c) = {}"
      "(addrs z \<union> addrs y \<union> ctx_addrs c) \<inter> ctx_addrs ctx = {}" "addrs y \<inter> ctx_addrs c = {}"
    by (auto simp: distinct_plug)
  from k(1) r2 obtain t where t: "h k = Some t" "avl_balance t = kb" "avl_child_index t = ki" "avl_parent t = kp" "child t r = None"
      "rep h (child t s) (Some k) s z" by (auto simp: rep_Nd)
  from seg_reparent_top [OF k(2,3) dd(4)] obtain q0 where "child d s = Some q0" "q0 \<in> ctx_addrs c" by blast
  then have qk: "child d s \<noteq> Some k" using dd(8) by auto
  define h2 where "h2 = h(tmp \<mapsto> t, k \<mapsto> d)"
  have "seg h2 (Some a, avl_parent d, avl_child_index d) ctx (rt, None, i0)" using up dd(8) by (simp add: h2_def)
  then obtain h3 rt3 j where h3: "link h2 rt (avl_parent d) (avl_child_index d) (Some k) = Some (h3, rt3)"
      "seg h3 (Some k, avl_parent d, avl_child_index d) ctx (rt3, None, j)" "\<And>x. x \<notin> ctx_addrs ctx \<Longrightarrow> h3 x = h2 x"
    using link_seg [OF _ dd(3)] by metis
  have k3: "h3 k = Some d" "h3 tmp = Some t" using h3(3) dd(7,8) by (auto simp: h2_def)
  have same3: "h3 x = h x" if "x \<notin> {k, tmp} \<union> ctx_addrs ctx" for x using that h3(3) [of x] by (simp add: h2_def)
  have "seg h3 (Some k, kp, ki) c (child d s, Some a, s)" by (rule seg_mono [OF k(2)], rule same3) (use dd(8,10) in blast)
  from seg_reparent_top [OF this k(3) dd(4), of "Some k"] obtain q nq where
    q: "child d s = Some q" "q \<in> ctx_addrs c" "h3 q = Some nq"
      "seg (h3(q \<mapsto> nq\<lparr>avl_parent := Some k\<rparr>)) (Some k, kp, ki) c (child d s, Some k, s)" by blast
  define h4 where "h4 = h3(q \<mapsto> nq\<lparr>avl_parent := Some k\<rparr>)"
  have same4: "h4 x = h x" if "x \<notin> {k, tmp} \<union> ctx_addrs ctx \<union> ctx_addrs c" for x
    using that same3 [of x] q(2) by (auto simp: h4_def)
  have "rep h4 (child d r) (Some a) r y" by (rule rep_mono [OF rep(3)], rule same4) (use dd(8,10,11) in blast)
  from rep_reparent [OF this rep(4) dd(2), of "Some k"] obtain m nm where
    m: "child d r = Some m" "m \<in> addrs y" "h4 m = Some nm" "rep (h4(m \<mapsto> nm\<lparr>avl_parent := Some k\<rparr>)) (child d r) (Some k) r y" .
  define h5 where "h5 = h4(m \<mapsto> nm\<lparr>avl_parent := Some k\<rparr>)"
  have mk: "m \<noteq> k" "m \<noteq> tmp" "m \<notin> ctx_addrs ctx" "m \<notin> addrs z" "m \<notin> ctx_addrs c" using m(2) dd(8-11) by blast+
  have "seg h5 (Some k, kp, ki) c (child d s, Some k, s)" using q(4) mk(5) by (simp add: h5_def h4_def)
  from seg_replace_hole [OF this k(3) dd(4), of "Some tmp"] obtain g ng where
    g: "kp = Some g" "ki < 2" "g \<in> ctx_addrs c" "h5 g = Some ng"
      "seg (h5(g \<mapsto> put_child ki (Some tmp) ng)) (Some tmp, kp, ki) c (child d s, Some k, s)" .
  define h6 where "h6 = h5(g \<mapsto> put_child ki (Some tmp) ng)"
  have k5: "h5 k = Some d" "h5 tmp = Some t" "h4 k = Some d"
    using k3 mk q(2) dd(8) by (auto simp: h5_def h4_def)
  have k6: "h6 k = Some d" "h6 tmp = Some t" using k5 g(3) dd(8) by (auto simp: h6_def)
  have same6: "h6 x = h x" if "x \<notin> {k, tmp} \<union> ctx_addrs ctx \<union> ctx_addrs c \<union> addrs y" for x
    using that same4 [of x] g(3) m(2) by (auto simp: h6_def h5_def)
  have "rep h6 (child t s) (Some k) s z" by (rule rep_mono [OF t(6)], rule same6) (use dd(8-10) in blast)
  then obtain h7 where h7: "reparent_child h6 t (Some tmp) = Some h7" "rep h7 (child t s) (Some tmp) s z"
      "\<And>x. x \<notin> addrs z \<Longrightarrow> h7 x = h6 x"
    by (rule exchange_child [OF _ dd(1), of _ _ _ _ t r "Some tmp"]) (use t(5) r2 in simp_all)
  have run: "avl_exchange h rt a tmp = Some (h7, rt3)"
    using rep(1,2) side far t(1,3,4) h3(1) k3 q(1,3) m(1,3) g(1,4) k5 k6 h7(1) r2 s r qk
    by (simp add: avl_exchange_def h2_def h4_def h5_def h6_def Let_def)
  have ctx7: "seg h7 (Some k, avl_parent d, avl_child_index d) ctx (rt3, None, j)"
  proof (rule seg_mono [OF h3(2)])
    fix x
    assume "x \<in> ctx_addrs ctx"
    then have "x \<notin> addrs z" "x \<noteq> m" "x \<noteq> q" "x \<noteq> g" using mk(3) q(2) g(3) dd(10) by blast+
    with h7(3) [of x] show "h7 x = h3 x" by (simp add: h6_def h5_def h4_def)
  qed
  have k7: "h7 k = Some d" "h7 tmp = Some t" using h7(3) k6 dd(8) by auto
  have y7: "rep h7 (child d r) (Some k) r y"
  proof (rule rep_mono [OF m(4) [folded h5_def]])
    fix x
    assume "x \<in> addrs y"
    then have "x \<notin> addrs z" "x \<noteq> g" using g(3) dd(9,11) by blast+
    with h7(3) [of x] show "h7 x = h5 x" by (simp add: h6_def)
  qed
  have c7: "seg h7 (Some tmp, kp, ki) c (child d s, Some k, s)"
    by (rule seg_mono [OF g(5) [folded h6_def]], rule h7(3)) (use dd(9) in blast)
  have "seg h7 (Some tmp, kp, ki) (c @ Frame s k b y # ctx) (rt3, None, j)"
    using c7 ctx7 k7(1) rep(2) y7 s r by (auto simp: seg_append)
  moreover have "rep h7 (Some tmp) kp ki (Nd r Leaf (tmp, kb) z)" using k7(2) t(2-5) h7(2) r2 by (simp add: rep_Nd)
  moreover have "distinct (keys (plug (c @ Frame s k b y # ctx) (Nd r Leaf (tmp, kb) z)))"
    using dist by (auto simp: plug_append distinct_plug)
  ultimately have "rep_root h7 rt3 (plug (c @ Frame s k b y # ctx) (Nd r Leaf (tmp, kb) z))" by (intro rep_rootI)
  then have "rep_root h7 rt3 (plug ctx (Nd s (plug c (Nd r Leaf (tmp, kb) z)) (k, b) y))" by (simp add: plug_append)
  moreover have "h7 x = h x" if "x \<notin> insert tmp (addrs (plug ctx (Nd s (plug c (Nd r Leaf (k, kb) z)) (a, b) y)))" for x
    using that h7(3) [of x] same6 [of x] by auto
  ultimately show ?thesis using run that by blast
qed

lemma avl_exchange_rep:
  assumes s: "s < 2" "balance2child b = Some s" and r: "r = 1 - s"
    and rep: "rep h p par i (Nd s x (a, b) y)" "seg h (p, par, i) ctx (rt, None, i0)" "x \<noteq> Leaf" "y \<noteq> Leaf"
    and dist: "distinct (keys (plug ctx (Nd s x (a, b) y)))" "tmp \<notin> addrs (plug ctx (Nd s x (a, b) y))"
  obtains c k kb z h' rt' where "x = plug c (Nd r Leaf (k, kb) z)" "\<forall>f \<in> set c. case f of Frame s _ _ _ \<Rightarrow> s = r"
    "avl_exchange h rt a tmp = Some (h', rt')"
    "rep_root h' rt' (plug ctx (Nd s (plug c (Nd r Leaf (tmp, kb) z)) (k, b) y))"
    "\<And>v. v \<notin> insert tmp (addrs (plug ctx (Nd s x (a, b) y))) \<Longrightarrow> h' v = h v"
proof -
  have r2: "r < 2" using s r by simp
  from rep(1) s obtain d where d: "p = Some a" "h a = Some d" "avl_balance d = b" "avl_child_index d = i" "avl_parent d = par"
      "rep h (child d s) (Some a) s x" "rep h (child d r) (Some a) r y" by (auto simp: rep_Nd r)
  have up: "seg h (Some a, avl_parent d, avl_child_index d) ctx (rt, None, i0)" using rep(2) d by simp
  from avl_far_rep [OF r2 d(6) rep(3)] obtain c k kb z where
    x: "x = plug c (Nd r Leaf (k, kb) z)" "\<forall>f \<in> set c. case f of Frame s _ _ _ \<Rightarrow> s = r" "avl_far h (child d s) r = Some k" by blast
  have "\<exists>h' rt'. avl_exchange h rt a tmp = Some (h', rt') \<and>
      rep_root h' rt' (plug ctx (Nd s (plug c (Nd r Leaf (tmp, kb) z)) (k, b) y)) \<and>
      (\<forall>v. v \<notin> insert tmp (addrs (plug ctx (Nd s x (a, b) y))) \<longrightarrow> h' v = h v)"
  proof (cases "c = []")
    case True
    then have xk: "x = Nd r Leaf (k, kb) z" using x(1) by simp
    have "child d s = Some k" using d(6) r2 by (simp add: xk rep_Nd)
    from exchange_direct [OF s(1) r d(2,3) this d(6) [unfolded xk] d(7) rep(4) up s(2) x(3) dist [unfolded xk]] show ?thesis
      unfolding xk True plug.simps by metis
  next
    case False
    have "\<exists>kp kpar ki. rep h kp kpar ki (Nd r Leaf (k, kb) z) \<and> seg h (kp, kpar, ki) c (child d s, Some a, s)"
      by (rule iffD1 [OF rep_plug]) (use d(6) x(1,2) r2 in \<open>auto split: frame.splits\<close>)
    then obtain kp ki where "rep h (Some k) kp ki (Nd r Leaf (k, kb) z)" "seg h (Some k, kp, ki) c (child d s, Some a, s)"
      using r2 by (auto simp: rep_Nd)
    from exchange_far [OF s(1) r d(2,3,7) rep(4) this False up s(2) x(3) dist [unfolded x(1)]] show ?thesis
      unfolding x(1) by metis
  qed
  then show ?thesis using that x(1,2) by blast
qed

lemma ctx_one_side:
  "\<forall>f \<in> set c. case f of Frame s _ _ _ \<Rightarrow> s = 1 \<Longrightarrow> ctx_right c = []"
  "\<forall>f \<in> set c. case f of Frame s _ _ _ \<Rightarrow> s = 0 \<Longrightarrow> ctx_left c = []"
  by (induction c rule: ctx_right.induct) auto

lemma exchange_keys:
  assumes "s < 2" and "\<forall>f \<in> set c. case f of Frame i _ _ _ \<Rightarrow> i = 1 - s"
    and "distinct (keys (plug ctx (Nd s (plug c (Nd (1 - s) Leaf (k, kb) z)) (a, b) y)))"
  shows "keys (plug (c @ Frame s k b y # ctx) z) = remove1 a (keys (plug ctx (Nd s (plug c (Nd (1 - s) Leaf (k, kb) z)) (a, b) y)))"
proof -
  have d: "a \<notin> set (ctx_left ctx)" "a \<notin> addrs y" "a \<notin> set (ctx_left c)" "a \<notin> addrs z" "a \<noteq> k"
    using assms(3) by (auto simp: keys_plug keys_Nd set_keys split: if_splits)
  from less_2_cases [OF assms(1)] show ?thesis
  proof
    assume s: "s = 0"
    have "ctx_right c = []" by (rule ctx_one_side(1)) (use assms(2) in \<open>auto simp: s split: frame.splits\<close>)
    with s d show ?thesis
      by (simp add: plug_append keys_plug keys_Nd remove1_append set_keys)
  next
    assume s: "s = Suc 0"
    have "ctx_left c = []" by (rule ctx_one_side(2)) (use assms(2) in \<open>auto simp: s split: frame.splits\<close>)
    with s d show ?thesis
      by (simp add: plug_append keys_plug keys_Nd remove1_append set_keys)
  qed
qed

lemma height_plug_cong: "height t = height t' \<Longrightarrow> height (plug c t) = height (plug c t')"
proof (induction c arbitrary: t t')
  case (Cons f c)
  obtain s a b y where "f = Frame s a b y" by (cases f)
  with Cons.IH [of "Nd s t (a, b) y" "Nd s t' (a, b) y"] Cons.prems show ?case by simp
qed simp

lemma exchange_avl:
  "avl (plug ctx (Nd s (plug c (Nd r Leaf (k, kb) z)) (a, b) y)) \<longleftrightarrow> avl (plug ctx (Nd s (plug c (Nd r Leaf (k', kb) z)) (a', b) y))"
  using height_plug_cong [of "Nd r Leaf (k, kb) z" "Nd r Leaf (k', kb) z" c] by (simp add: avl_plug avl_Nd)

definition removed :: "avl_heap \<Rightarrow> atree \<Rightarrow> nat \<Rightarrow> nat \<Rightarrow> (avl_heap \<times> ptr) option \<Rightarrow> bool" where
  "removed h t a tmp res \<longleftrightarrow> (\<exists>h' rt' t'. res = Some (h', rt') \<and> rep_root h' rt' t' \<and> avl t' \<and>
     keys t' = remove1 a (keys t) \<and> (\<forall>x. x \<notin> insert tmp (addrs t) \<longrightarrow> h' x = h x))"

lemma removed_rebuilt:
  assumes "rebuilt h1 t1 res" and "keys t1 = remove1 a (keys t)" and "\<And>x. x \<notin> insert tmp (addrs t) \<Longrightarrow> h1 x = h x"
  shows "removed h t a tmp res"
proof -
  have "addrs t1 \<subseteq> addrs t" using assms(2) set_remove1_subset [of a "keys t"] by (metis set_keys)
  with assms show ?thesis unfolding rebuilt_def removed_def by (metis insertCI subsetD)
qed

lemma remove_with_neighbour:
  assumes s: "s < 2" "balance2child b = Some s"
    and rep: "rep h p par i (Nd s x (a, b) y)" "seg h (p, par, i) ctx (rt, None, i0)" "x \<noteq> Leaf" "y \<noteq> Leaf"
    and t: "t = plug ctx (Nd s x (a, b) y)" "distinct (keys t)" "avl t" "tmp \<notin> addrs t"
  shows "removed h t a tmp (do { (h, rt) \<leftarrow> avl_exchange h rt a tmp; avl_unlink h rt tmp })"
proof -
  obtain c k kb z h1 rt1 where x: "x = plug c (Nd (1 - s) Leaf (k, kb) z)" "\<forall>f \<in> set c. case f of Frame i _ _ _ \<Rightarrow> i = 1 - s"
    and ex: "avl_exchange h rt a tmp = Some (h1, rt1)" "rep_root h1 rt1 (plug ctx (Nd s (plug c (Nd (1 - s) Leaf (tmp, kb) z)) (k, b) y))"
      "\<And>v. v \<notin> insert tmp (addrs (plug ctx (Nd s x (a, b) y))) \<Longrightarrow> h1 v = h v"
    by (rule avl_exchange_rep [OF s refl rep t(2) [unfolded t(1)] t(4) [unfolded t(1)]]) blast
  let ?ctx = "c @ Frame s k b y # ctx" and ?K = "Nd (1 - s) Leaf (tmp, kb) z"
  have root1: "rep_root h1 rt1 (plug ?ctx ?K)" using ex(2) by (simp add: plug_append)
  then obtain j where "rep h1 rt1 None j (plug ?ctx ?K)" by (rule rep_rootE)
  moreover have "case f of Frame i _ _ _ \<Rightarrow> i < 2" if "f \<in> set ?ctx" for f
    using that x(2) s(1) seg_sides [OF rep(2), of f] by (auto split: frame.splits)
  ultimately obtain p' par' i' where "rep h1 p' par' i' ?K" "seg h1 (p', par', i') ?ctx (rt1, None, j)"
    using rep_plug [of ?ctx h1 rt1 None j ?K] by blast
  moreover have "avl (plug ?ctx ?K)"
    using t(3) exchange_avl [of ctx s c "1 - s" k kb z a b y tmp k] by (simp add: t(1) x(1) plug_append)
  ultimately have "rebuilt h1 (plug ?ctx z) (avl_unlink h1 rt1 tmp)"
    using avl_unlink_rep [of "1 - s" h1 p' par' i' tmp kb z ?ctx rt1 j] root1 s(1) by (simp add: rep_root_def)
  moreover have "keys (plug ?ctx z) = remove1 a (keys t)"
    using exchange_keys [OF s(1) x(2), of ctx k kb z a b y] t(2) by (simp add: t(1) x(1))
  moreover have "h1 v = h v" if "v \<notin> insert tmp (addrs t)" for v using ex(3) that unfolding t(1) .
  ultimately have "removed h t a tmp (avl_unlink h1 rt1 tmp)" by (rule removed_rebuilt)
  then show ?thesis by (simp add: ex(1))
qed

lemma avl_remove_rep:
  assumes "rep_root h rt t" and "avl t" and "a \<in> addrs t" and "tmp \<notin> addrs t"
  shows "\<exists>h' rt' t'. avl_remove h rt a tmp = Some (h', rt') \<and> rep_root h' rt' t' \<and> avl t' \<and>
    keys t' = remove1 a (keys t) \<and> (\<forall>x. x \<notin> insert tmp (addrs t) \<longrightarrow> h' x = h x)"
proof -
  from assms(1,3) obtain ctx l b r p par i i0 where t: "t = plug ctx (Node l (a, b) r)" and
    rep: "rep h p par i (Node l (a, b) r)" "seg h (p, par, i) ctx (rt, None, i0)" by (rule rep_root_at)
  have dist: "distinct (keys t)" using assms(1) by (simp add: rep_root_def)
  from rep(1) obtain d where d: "h a = Some d" "rep h (avl_child0 d) (Some a) 0 l" "rep h (avl_child1 d) (Some a) 1 r" by auto
  have both: "avl_child0 d \<noteq> None \<and> avl_child1 d \<noteq> None \<longleftrightarrow> l \<noteq> Leaf \<and> r \<noteq> Leaf"
    using d by (cases l; cases r) auto
  show ?thesis
  proof (cases "l \<noteq> Leaf \<and> r \<noteq> Leaf")
    case False
    obtain s x where sx: "s < 2" "Node l (a, b) r = Nd s Leaf (a, b) x"
    proof (cases "l = Leaf")
      case True
      then show ?thesis using that [of 0 r] by (simp add: Nd_def)
    next
      case F: False
      then show ?thesis using that [of 1 l] False by (simp add: Nd_def)
    qed
    have tx: "t = plug ctx (Nd s Leaf (a, b) x)" using t sx(2) by simp
    have "rebuilt h (plug ctx x) (avl_unlink h rt a)"
      using avl_unlink_rep [OF sx(1) _ rep(2)] rep(1) dist assms(2) unfolding tx sx(2) by blast
    moreover have "keys (plug ctx x) = remove1 a (keys t)"
      using dist unfolding tx by (auto simp: keys_plug keys_Nd remove1_append set_keys split: if_splits)
    moreover have "avl_remove h rt a tmp = avl_unlink h rt a" using d(1) both False by (auto simp: avl_remove_def)
    ultimately show ?thesis using removed_rebuilt [of h "plug ctx x" "avl_unlink h rt a" a t tmp h] by (simp add: removed_def)
  next
    case True
    have "avl (Node l (a, b) r)" using assms(2) by (simp only: t avl_plug)
    then have "b \<in> {- 1, 0, 1}" unfolding avl.simps by blast
    then obtain s where s: "s < 2" "balance2child b = Some s" by (auto simp: balance2child_def)
    obtain x y where xy: "Node l (a, b) r = Nd s x (a, b) y" "x \<noteq> Leaf" "y \<noteq> Leaf"
    proof (cases "s = 0")
      case s0: True
      with True that [of l r] show ?thesis by (simp add: Nd_def)
    next
      case s1: False
      with True that [of r l] show ?thesis by (simp add: Nd_def)
    qed
    have txy: "t = plug ctx (Nd s x (a, b) y)" using t xy(1) by simp
    have "avl_remove h rt a tmp = do { (h, rt) \<leftarrow> avl_exchange h rt a tmp; avl_unlink h rt tmp }"
      using d(1) both True by (simp add: avl_remove_def)
    with remove_with_neighbour [OF s rep(1) [unfolded xy(1)] rep(2) xy(2,3) txy dist assms(2,4)] show ?thesis
      by (simp add: removed_def)
  qed
qed

text \<open>
  C3: Removal from the tree in the heap, of any of its nodes. The call returns, the heap holds a balanced
  tree again, its keys are the old ones in order without the removed one, and no node outside
  of the tree is touched, apart from the local variable that stands in for the neighbour.
\<close>

theorem avl_remove_correct:
  assumes "rep_root h rt t" and "avl t" and "a \<in> addrs t" and "tmp \<notin> addrs t"
  shows "\<exists>h' rt' t'. avl_remove h rt a tmp = Some (h', rt') \<and> rep_root h' rt' t' \<and> avl t' \<and>
    keys t' = remove1 a (keys t) \<and> (\<forall>x. x \<notin> insert tmp (addrs t) \<longrightarrow> h' x = h x)"
  using assms by (rule avl_remove_rep)

theorem avl_remove_correct_witness:
  "\<exists>h' rt' t'. avl_remove sample_heap (Some 20) 20 99 = Some (h', rt') \<and> rep_root h' rt' t' \<and> avl t' \<and> keys t' = [10, 30]"
proof -
  have "20 \<in> addrs sample_tree" "99 \<notin> addrs sample_tree" "remove1 20 (keys sample_tree) = [10, 30]"
    by (simp_all add: sample_tree_ok)
  with avl_remove_correct [OF sample_tree_ok(1,2), of 20 99] show ?thesis by auto
qed

end
