(* ===== verification/Name_Index.thy ===== *)
theory Name_Index
  imports Avl_Ops
begin

text \<open>
  Trees as indexes. The managers keep their objects in AVL trees ordered by a key of the object, and the
  tree functions rely on the comparison they are handed. The locale \<open>three_way\<close> is that contract: a
  comparison with results -1, 0 and 1 that is a total order. Under it a tree whose keys increase is
  an index of its nodes by their keys, and insertion, search and removal are those of a map. The contract
  is discharged for the comparison of strings that the comparators of the managers use.
\<close>

section \<open>Comparison of strings\<close>

text \<open>
  \<^verbatim>\<open>std::string::compare\<close> compares characters as unsigned bytes, then lengths; callers only use the sign
  of its result, and here it is the sign. \<open>three_way_result\<close> is the conversion each comparator has.
\<close>

fun string_compare :: "string \<Rightarrow> string \<Rightarrow> int" where
  "string_compare [] [] = 0"
| "string_compare [] (_ # _) = - 1"
| "string_compare (_ # _) [] = 1"
| "string_compare (x # xs) (y # ys) =
     (if (of_char x :: nat) < of_char y then - 1 else if (of_char y :: nat) < of_char x then 1 else string_compare xs ys)"

definition three_way_result :: "int \<Rightarrow> int" where
  "three_way_result ret = (if ret > 0 then 1 else if ret < 0 then - 1 else 0)"

definition name_compare :: "string \<Rightarrow> string \<Rightarrow> int" where
  "name_compare a b = three_way_result (string_compare a b)"

section \<open>The contract of a comparison\<close>

definition indexed :: "('k \<Rightarrow> 'k \<Rightarrow> int) \<Rightarrow> (nat \<Rightarrow> 'k) \<Rightarrow> avl_heap \<Rightarrow> ptr \<Rightarrow> nat set \<Rightarrow> bool" where
  "indexed cmp key h rt A \<longleftrightarrow>
     (\<exists>t. rep_root h rt t \<and> avl t \<and> sorted_wrt (\<lambda>x y. cmp (key x) (key y) = - 1) (keys t) \<and> addrs t = A)"

locale three_way =
  fixes cmp :: "'k \<Rightarrow> 'k \<Rightarrow> int"
  assumes cmp_range: "cmp a b \<in> {- 1, 0, 1}"
    and cmp_eq: "cmp a b = 0 \<longleftrightarrow> a = b"
    and cmp_flip: "cmp b a = - cmp a b"
    and cmp_trans: "\<lbrakk>cmp a b = - 1; cmp b c = - 1\<rbrakk> \<Longrightarrow> cmp a c = - 1"
begin

lemma sorted_cuts:
  assumes "sorted_wrt (\<lambda>x y. cmp (key x) (key y) = - 1) ks"
  shows "cuts (\<lambda>a. cmp k (key a)) ks"
proof -
  have "cmp k (key y) \<le> cmp k (key x)" if "cmp (key x) (key y) = - 1" for x y
    using cmp_range [of k "key x"] cmp_range [of k "key y"] cmp_eq [of k "key x"] cmp_trans [OF _ that, of k] that by auto
  then have "sorted_wrt (\<lambda>x y. cmp k (key y) \<le> cmp k (key x)) ks" by (intro sorted_wrt_mono_rel [OF _ assms])
  then show ?thesis using cmp_range by (simp add: cuts_def)
qed

lemma place_sorted:
  assumes "sorted_wrt (\<lambda>x y. cmp (key x) (key y) = - 1) ks" and "\<forall>x \<in> set ks. key x \<noteq> key a"
  shows "sorted_wrt (\<lambda>x y. cmp (key x) (key y) = - 1) (place_key (\<lambda>x. cmp (key a) (key x)) a ks)"
proof -
  let ?P = "\<lambda>x. cmp (key a) (key x) = 1"
  define us vs where "us = takeWhile ?P ks" and "vs = dropWhile ?P ks"
  have ks: "ks = us @ vs" by (simp add: us_def vs_def)
  have us: "cmp (key x) (key a) = - 1" if "x \<in> set us" for x
    using that cmp_flip [of "key a" "key x"] by (auto simp: us_def dest: set_takeWhileD)
  have vs: "cmp (key a) (key y) = - 1" if y: "y \<in> set vs" for y
  proof (cases vs)
    case (Cons z zs)
    have z: "\<not> ?P z" using Cons by (simp add: vs_def dropWhile_eq_Cons_conv)
    have "z \<in> set ks" using Cons by (simp add: ks)
    then have az: "cmp (key a) (key z) = - 1" using z assms(2) cmp_range [of "key a" "key z"] cmp_eq [of "key a" "key z"] by auto
    show ?thesis
    proof (cases "y = z")
      case False
      then have "cmp (key z) (key y) = - 1" using y assms(1) by (simp add: ks Cons sorted_wrt_append)
      with az show ?thesis by (rule cmp_trans)
    qed (simp add: az)
  qed (use y in simp)
  show ?thesis using assms(1) us vs unfolding place_key_def us_def [symmetric] vs_def [symmetric]
    by (auto simp: ks sorted_wrt_append)
qed

lemma indexed_inj: "indexed cmp key h rt A \<Longrightarrow> inj_on key A"
proof -
  assume "indexed cmp key h rt A"
  then obtain t where t: "sorted_wrt (\<lambda>x y. cmp (key x) (key y) = - 1) (keys t)" "addrs t = A" by (auto simp: indexed_def)
  have "sorted_wrt (\<lambda>x y. key x \<noteq> key y) (keys t)"
  proof (rule sorted_wrt_mono_rel [OF _ t(1)])
    show "key x \<noteq> key y" if "cmp (key x) (key y) = - 1" for x y using that cmp_eq [of "key x" "key y"] by auto
  qed
  then have "distinct (map key (keys t))" by (simp add: distinct_conv_nth sorted_wrt_iff_nth_less) (metis nat_neq_iff)
  then show ?thesis using t(2) by (simp add: distinct_map set_keys)
qed

lemma index_find:
  assumes "indexed cmp key h rt A"
  shows "a \<in> A \<Longrightarrow> avl_find h rt (key a) (\<lambda>k x. cmp k (key x)) = Some (Some a)"
    and "k \<notin> key ` A \<Longrightarrow> avl_find h rt k (\<lambda>k x. cmp k (key x)) = Some None"
proof -
  from assms obtain t where t: "rep_root h rt t" "addrs t = A" "sorted_wrt (\<lambda>x y. cmp (key x) (key y) = - 1) (keys t)"
    by (auto simp: indexed_def)
  note found = avl_find_rep [where cmp = "\<lambda>k x. cmp k (key x)", OF t(1) sorted_cuts [OF t(3)], unfolded t(2)]
  show "avl_find h rt (key a) (\<lambda>k x. cmp k (key x)) = Some (Some a)" if "a \<in> A"
    using found [of "key a"] that cmp_eq indexed_inj [OF assms] by (force simp: inj_on_def split: option.splits)
  show "avl_find h rt k (\<lambda>k x. cmp k (key x)) = Some None" if "k \<notin> key ` A"
    using found [of k] that cmp_eq by (force split: option.splits)
qed

lemma index_insert:
  assumes "indexed cmp key h rt A" and "a \<notin> A" and "h a \<noteq> None"
  shows "key a \<in> key ` A \<Longrightarrow> avl_insert h rt a (\<lambda>x y. cmp (key x) (key y)) = Some (h, rt, 1)"
    and "key a \<notin> key ` A \<Longrightarrow> \<exists>h' rt'. avl_insert h rt a (\<lambda>x y. cmp (key x) (key y)) = Some (h', rt', 0) \<and>
      indexed cmp key h' rt' (insert a A) \<and> (\<forall>x. x \<notin> insert a A \<longrightarrow> h' x = h x)"
proof -
  from assms obtain t where t: "rep_root h rt t" "avl t" "sorted_wrt (\<lambda>x y. cmp (key x) (key y) = - 1) (keys t)" "addrs t = A"
    by (auto simp: indexed_def)
  note ins = avl_insert_rep [where cmp = "\<lambda>x y. cmp (key x) (key y)", OF t(1,2) sorted_cuts [OF t(3)] _ assms(3), unfolded t(4) cmp_eq]
  show "avl_insert h rt a (\<lambda>x y. cmp (key x) (key y)) = Some (h, rt, 1)" if "key a \<in> key ` A"
    using ins [OF assms(2)] that by (auto split: if_splits)
  assume fresh: "key a \<notin> key ` A"
  then have "\<not> (\<exists>k \<in> A. key a = key k)" by auto
  with ins [OF assms(2)] obtain h' rt' t' where h': "avl_insert h rt a (\<lambda>x y. cmp (key x) (key y)) = Some (h', rt', 0)"
      "rep_root h' rt' t'" "avl t'" "keys t' = place_key (\<lambda>x. cmp (key a) (key x)) a (keys t)"
      "\<forall>x. x \<notin> insert a A \<longrightarrow> h' x = h x" by auto
  have "addrs t' = insert a A"
    unfolding set_keys [symmetric] h'(4) t(4) [symmetric] place_key_def by (metis insert_is_Un set_append list.simps(15) takeWhile_dropWhile_id Un_insert_right)
  moreover have "sorted_wrt (\<lambda>x y. cmp (key x) (key y) = - 1) (keys t')"
    unfolding h'(4) by (rule place_sorted [OF t(3)], unfold set_keys t(4)) (use fresh in \<open>metis imageI\<close>)
  ultimately have "indexed cmp key h' rt' (insert a A)" using h'(2,3) by (auto simp: indexed_def)
  with h'(1,5) show "\<exists>h' rt'. avl_insert h rt a (\<lambda>x y. cmp (key x) (key y)) = Some (h', rt', 0) \<and>
      indexed cmp key h' rt' (insert a A) \<and> (\<forall>x. x \<notin> insert a A \<longrightarrow> h' x = h x)" by blast
qed

lemma index_remove:
  assumes "indexed cmp key h rt A" and "a \<in> A" and "tmp \<notin> A"
  shows "\<exists>h' rt'. avl_remove h rt a tmp = Some (h', rt') \<and> indexed cmp key h' rt' (A - {a}) \<and>
    (\<forall>x. x \<notin> insert tmp A \<longrightarrow> h' x = h x)"
proof -
  from assms obtain t where t: "rep_root h rt t" "avl t" "sorted_wrt (\<lambda>x y. cmp (key x) (key y) = - 1) (keys t)" "addrs t = A"
    by (auto simp: indexed_def)
  from avl_remove_rep [OF t(1,2), unfolded t(4), OF assms(2,3)] obtain h' rt' t' where
    h': "avl_remove h rt a tmp = Some (h', rt')" "rep_root h' rt' t'" "avl t'" "keys t' = remove1 a (keys t)"
      "\<forall>x. x \<notin> insert tmp A \<longrightarrow> h' x = h x" by blast
  have d: "distinct (keys t)" using t(1) by (simp add: rep_root_def)
  then have "keys t' = filter (\<lambda>x. x \<noteq> a) (keys t)" by (simp add: h'(4) distinct_remove1_removeAll removeAll_filter_not_eq) (simp add: eq_commute)
  then have "sorted_wrt (\<lambda>x y. cmp (key x) (key y) = - 1) (keys t')" using t(3) by (simp add: sorted_wrt_filter)
  moreover have "addrs t' = A - {a}" unfolding set_keys [symmetric] h'(4) set_remove1_eq [OF d] by (simp add: set_keys t(4))
  ultimately show ?thesis using h' by (auto simp: indexed_def)
qed

end

section \<open>Indexes by name\<close>

lemma rep_root_cong: "\<lbrakk>rep_root h rt t; \<And>a. a \<in> addrs t \<Longrightarrow> h' a = h a\<rbrakk> \<Longrightarrow> rep_root h' rt t"
  by (auto simp: rep_root_def intro: rep_mono)

lemma indexed_cong:
  assumes "indexed cmp key h rt A" and "\<And>a. a \<in> A \<Longrightarrow> h' a = h a" and "\<And>a. a \<in> A \<Longrightarrow> key' a = key a"
  shows "indexed cmp key' h' rt A"
proof -
  from assms(1) obtain t where t: "rep_root h rt t" "avl t" "sorted_wrt (\<lambda>x y. cmp (key x) (key y) = - 1) (keys t)" "addrs t = A"
    by (auto simp: indexed_def)
  moreover have "sorted_wrt (\<lambda>x y. cmp (key' x) (key' y) = - 1) (keys t)"
    by (rule sorted_wrt_mono_rel [OF _ t(3)]) (use assms(3) t(4) in \<open>auto simp: set_keys\<close>)
  ultimately show ?thesis using rep_root_cong [OF t(1), of h'] assms(2) by (auto simp: indexed_def)
qed

lemma indexed_empty [simp]: "indexed cmp key h None {}"
  unfolding indexed_def by (rule exI [of _ Leaf]) (simp add: rep_root_def keys_def addrs_def)

lemma rep_nodes: "\<lbrakk>rep h p par i t; a \<in> addrs t\<rbrakk> \<Longrightarrow> h a \<noteq> None"
  by (induction h p par i t rule: rep.induct) auto

lemma indexed_nodes: "indexed cmp key h rt A \<Longrightarrow> a \<in> A \<Longrightarrow> h a \<noteq> None"
  by (auto simp: indexed_def rep_root_def dest: rep_nodes)

lemma string_compare_eq: "string_compare a b = 0 \<longleftrightarrow> a = b"
  by (induction a b rule: string_compare.induct) auto

lemma string_compare_flip: "string_compare b a = - string_compare a b"
  by (induction a b rule: string_compare.induct) auto

lemma string_compare_range: "string_compare a b \<in> {- 1, 0, 1}"
  by (induction a b rule: string_compare.induct) auto

lemma string_compare_trans: "\<lbrakk>string_compare a b = - 1; string_compare b c = - 1\<rbrakk> \<Longrightarrow> string_compare a c = - 1"
proof (induction a b arbitrary: c rule: string_compare.induct)
  case (2 y ys)
  then show ?case by (cases c) auto
next
  case (4 x xs y ys)
  then obtain z zs where c: "c = z # zs" by (cases c) auto
  show ?case
  proof (cases "(of_char x :: nat) = of_char y \<and> (of_char y :: nat) = of_char z")
    case True
    with 4 show ?thesis by (simp add: c)
  next
    case False
    with 4(2,3) have "(of_char x :: nat) < of_char z" by (simp add: c split: if_splits)
    then show ?thesis by (simp add: c)
  qed
qed auto

lemma name_compare_eq [simp]: "name_compare = string_compare"
proof (intro ext)
  show "name_compare a b = string_compare a b" for a b
    using string_compare_range [of a b] by (auto simp: name_compare_def three_way_result_def)
qed

interpretation names: three_way name_compare
  unfolding name_compare_eq
  by unfold_locales (rule string_compare_range string_compare_eq string_compare_flip string_compare_trans; assumption?)+

end
