(* ===== verification/List_Node.thy ===== *)
theory List_Node
  imports V2I_Prelude "HOL-Library.Monad_Syntax"
begin

text \<open>
  The intrusive doubly linked lists of \<^verbatim>\<open>mec/zsfd/inc/std/list.h\<close>. A list is a ring of nodes embedded in
  the objects it links, with a head node that belongs to the owner. The nodes stand in a heap of
  their own, by address; \<open>None\<close> as the result of an operation is an access to an invalid address.
  The relation \<open>ring\<close> says which list of addresses a head stands for, and the operations refine
  those on lists.
\<close>

record 'a listnode_t =
  ln_next :: "'a option"
  ln_prev :: "'a option"

type_synonym 'a list_heap = "'a \<Rightarrow> 'a listnode_t option"

text \<open>
  Addresses of nodes: a head belongs to an owner, and the node of an object stands at the object's
  address. Addresses of objects are numbers; the owner 0 is the manager itself.
\<close>

datatype list_addr = Owner nat | Member nat

section \<open>The macros\<close>

definition ln_at :: "'a list_heap \<Rightarrow> 'a option \<Rightarrow> 'a listnode_t option" where
  "ln_at h p = (case p of None \<Rightarrow> None | Some a \<Rightarrow> h a)"

definition set_next :: "'a list_heap \<Rightarrow> 'a option \<Rightarrow> 'a option \<Rightarrow> 'a list_heap option" where
  "set_next h p q =
     (case p of None \<Rightarrow> None | Some a \<Rightarrow> (case h a of None \<Rightarrow> None | Some n \<Rightarrow> Some (h(a \<mapsto> n\<lparr>ln_next := q\<rparr>))))"

definition set_prev :: "'a list_heap \<Rightarrow> 'a option \<Rightarrow> 'a option \<Rightarrow> 'a list_heap option" where
  "set_prev h p q =
     (case p of None \<Rightarrow> None | Some a \<Rightarrow> (case h a of None \<Rightarrow> None | Some n \<Rightarrow> Some (h(a \<mapsto> n\<lparr>ln_prev := q\<rparr>))))"

definition listnode_init :: "'a list_heap \<Rightarrow> 'a \<Rightarrow> 'a list_heap option" where
  "listnode_init h myself =
     do {
       h \<leftarrow> set_next h (Some myself) (Some myself);
       set_prev h (Some myself) (Some myself)
     }"

definition listnode_add :: "'a list_heap \<Rightarrow> 'a \<Rightarrow> 'a \<Rightarrow> 'a list_heap option" where
  "listnode_add h head myself =
     do {
       n \<leftarrow> h head;
       h \<leftarrow> set_prev h (Some myself) (ln_prev n);
       n \<leftarrow> h head;
       p \<leftarrow> ln_at h (ln_prev n);
       h \<leftarrow> set_next h (Some myself) (ln_next p);
       n \<leftarrow> h head;
       h \<leftarrow> set_next h (ln_prev n) (Some myself);
       set_prev h (Some head) (Some myself)
     }"

definition listnode_addprev :: "'a list_heap \<Rightarrow> 'a \<Rightarrow> 'a \<Rightarrow> 'a list_heap option" where
  "listnode_addprev h cur myself =
     do {
       h \<leftarrow> set_next h (Some myself) (Some cur);
       n \<leftarrow> h cur;
       h \<leftarrow> set_prev h (Some myself) (ln_prev n);
       h \<leftarrow> set_prev h (Some cur) (Some myself);
       n \<leftarrow> h cur;
       set_next h (ln_prev n) (Some myself)
     }"

definition listnode_insertfirst :: "'a list_heap \<Rightarrow> 'a \<Rightarrow> 'a \<Rightarrow> 'a list_heap option" where
  "listnode_insertfirst h head myself =
     do {
       n \<leftarrow> h head;
       h \<leftarrow> set_next h (Some myself) (ln_next n);
       h \<leftarrow> set_prev h (Some myself) (Some head);
       n \<leftarrow> h head;
       h \<leftarrow> set_prev h (ln_next n) (Some myself);
       set_next h (Some head) (Some myself)
     }"

definition listnode_del :: "'a list_heap \<Rightarrow> 'a \<Rightarrow> 'a list_heap option" where
  "listnode_del h myself =
     do {
       m \<leftarrow> h myself;
       h \<leftarrow> set_next h (ln_prev m) (ln_next m);
       m \<leftarrow> h myself;
       h \<leftarrow> set_prev h (ln_next m) (ln_prev m);
       h \<leftarrow> set_next h (Some myself) (Some myself);
       set_prev h (Some myself) (Some myself)
     }"

definition listnode_isempty :: "'a list_heap \<Rightarrow> 'a \<Rightarrow> bool option" where
  "listnode_isempty h myself = do { n \<leftarrow> h myself; Some (ln_next n = Some myself) }"

definition listnode_safe_del :: "'a list_heap \<Rightarrow> 'a \<Rightarrow> 'a list_heap option" where
  "listnode_safe_del h myself =
     do { e \<leftarrow> listnode_isempty h myself; if \<not> e then listnode_del h myself else Some h }"

definition listnode_issingle :: "'a list_heap \<Rightarrow> 'a \<Rightarrow> bool option" where
  "listnode_issingle h myself = do { n \<leftarrow> h myself; Some (ln_prev n = ln_next n \<and> ln_prev n = Some myself) }"

definition listnode_iscleared :: "'a list_heap \<Rightarrow> 'a \<Rightarrow> bool option" where
  "listnode_iscleared h myself = do { n \<leftarrow> h myself; Some (ln_prev n = None \<and> ln_next n = None) }"

definition listnode_clear :: "'a list_heap \<Rightarrow> 'a \<Rightarrow> 'a list_heap option" where
  "listnode_clear h myself =
     do { h \<leftarrow> set_next h (Some myself) None; set_prev h (Some myself) None }"

text \<open>\<^verbatim>\<open>LIST_ENTRY\<close>: the object a node belongs to. For a head it is not an object, and \<open>None\<close> stands for that.\<close>

definition list_entry :: "list_addr option \<Rightarrow> nat option" where
  "list_entry p = (case p of Some (Member a) \<Rightarrow> Some a | _ \<Rightarrow> None)"

text \<open>
  The loops over a list, \<^verbatim>\<open>for (nd = head.next; nd != &head; nd = nd->next)\<close>: the addresses they visit.
\<close>

partial_function (option) list_walk :: "'a list_heap \<Rightarrow> 'a \<Rightarrow> 'a option \<Rightarrow> 'a list option" where
  "list_walk h head nd =
     (if nd = Some head then Some []
      else do { n \<leftarrow> ln_at h nd; rest \<leftarrow> list_walk h head (ln_next n); Some (the nd # rest) })"

definition list_nodes :: "'a list_heap \<Rightarrow> 'a \<Rightarrow> 'a list option" where
  "list_nodes h head = do { n \<leftarrow> h head; list_walk h head (ln_next n) }"

section \<open>Rings\<close>

definition nxt :: "'a list_heap \<Rightarrow> 'a \<Rightarrow> 'a option" where
  "nxt h a = do { n \<leftarrow> h a; ln_next n }"

definition prv :: "'a list_heap \<Rightarrow> 'a \<Rightarrow> 'a option" where
  "prv h a = do { n \<leftarrow> h a; ln_prev n }"

fun linked :: "'a list_heap \<Rightarrow> 'a list \<Rightarrow> bool" where
  "linked h (a # b # xs) \<longleftrightarrow> nxt h a = Some b \<and> prv h b = Some a \<and> linked h (b # xs)"
| "linked h _ \<longleftrightarrow> True"

definition ring :: "'a list_heap \<Rightarrow> 'a \<Rightarrow> 'a list \<Rightarrow> bool" where
  "ring h head xs \<longleftrightarrow> distinct (head # xs) \<and> linked h (head # xs @ [head])"

lemma linked_append: "linked h (xs @ a # ys) \<longleftrightarrow> linked h (xs @ [a]) \<and> linked h (a # ys)"
  by (induction h "xs @ [a]" arbitrary: xs a rule: linked.induct)
     (auto simp: append_eq_Cons_conv Cons_eq_append_conv neq_Nil_conv)

lemma linked_cong:
  "\<lbrakk>\<And>a. a \<in> set (butlast xs) \<Longrightarrow> nxt h' a = nxt h a; \<And>a. a \<in> set (tl xs) \<Longrightarrow> prv h' a = prv h a\<rbrakk> \<Longrightarrow>
     linked h' xs = linked h xs"
  by (induction h xs rule: linked.induct) auto

lemma link_simps [simp]:
  "nxt h a = Some b \<longleftrightarrow> (\<exists>n. h a = Some n \<and> ln_next n = Some b)"
  "prv h a = Some b \<longleftrightarrow> (\<exists>n. h a = Some n \<and> ln_prev n = Some b)"
  by (auto simp: nxt_def prv_def bind_eq_Some_conv)

text \<open>What a write changes: one link of one node.\<close>

lemma set_next_spec:
  assumes "h a \<noteq> None"
  obtains h' where "set_next h (Some a) q = Some h'" "nxt h' = (nxt h)(a := q)" "prv h' = prv h"
    "dom h' = dom h" "\<forall>x. x \<noteq> a \<longrightarrow> h' x = h x"
proof -
  from assms obtain n where "h a = Some n" by blast
  then show ?thesis by (intro that [of "h(a \<mapsto> n\<lparr>ln_next := q\<rparr>)"]) (auto simp: set_next_def nxt_def prv_def fun_eq_iff)
qed

lemma set_prev_spec:
  assumes "h a \<noteq> None"
  obtains h' where "set_prev h (Some a) q = Some h'" "nxt h' = nxt h" "prv h' = (prv h)(a := q)"
    "dom h' = dom h" "\<forall>x. x \<noteq> a \<longrightarrow> h' x = h x"
proof -
  from assms obtain n where "h a = Some n" by blast
  then show ?thesis by (intro that [of "h(a \<mapsto> n\<lparr>ln_prev := q\<rparr>)"]) (auto simp: set_prev_def nxt_def prv_def fun_eq_iff)
qed

lemma listnode_init_eq:
  "h m \<noteq> None \<Longrightarrow> listnode_init h m = Some (h(m \<mapsto> \<lparr>ln_next = Some m, ln_prev = Some m\<rparr>))"
  by (cases "the (h m)") (auto simp: listnode_init_def set_next_def set_prev_def)

lemma listnode_add_links:
  assumes "prv h head = Some p" and "h p \<noteq> None" and "h m \<noteq> None" and "m \<noteq> head" "m \<noteq> p"
  obtains h' where "listnode_add h head m = Some h'" "nxt h' = (nxt h)(m := nxt h p, p := Some m)"
    "prv h' = (prv h)(m := Some p, head := Some m)" "dom h' = dom h"
    "\<forall>a. a \<notin> {head, p, m} \<longrightarrow> h' a = h a"
proof -
  obtain h1 where h1: "set_prev h (Some m) (Some p) = Some h1" "nxt h1 = nxt h" "prv h1 = (prv h)(m := Some p)"
      "dom h1 = dom h" "\<forall>x. x \<noteq> m \<longrightarrow> h1 x = h x" using assms(3) by (rule set_prev_spec [where q = "Some p"])
  have "h1 m \<noteq> None" using assms(3) h1(4) by blast
  then obtain h2 where h2: "set_next h1 (Some m) (nxt h p) = Some h2" "nxt h2 = (nxt h1)(m := nxt h p)" "prv h2 = prv h1"
      "dom h2 = dom h1" "\<forall>x. x \<noteq> m \<longrightarrow> h2 x = h1 x" by (rule set_next_spec [where q = "nxt h p"])
  have "h2 p \<noteq> None" using assms(2) h1(4) h2(4) by blast
  then obtain h3 where h3: "set_next h2 (Some p) (Some m) = Some h3" "nxt h3 = (nxt h2)(p := Some m)" "prv h3 = prv h2"
      "dom h3 = dom h2" "\<forall>x. x \<noteq> p \<longrightarrow> h3 x = h2 x" by (rule set_next_spec [where q = "Some m"])
  have "h3 head \<noteq> None" using assms(1) h1(4) h2(4) h3(4) by auto
  then obtain h4 where h4: "set_prev h3 (Some head) (Some m) = Some h4" "nxt h4 = nxt h3" "prv h4 = (prv h3)(head := Some m)"
      "dom h4 = dom h3" "\<forall>x. x \<noteq> head \<longrightarrow> h4 x = h3 x" by (rule set_prev_spec [where q = "Some m"])
  have "h1 head = h head" "h2 head = h head" "h1 p = h p" using assms(4,5) h1(5) h2(5) by auto
  then have "listnode_add h head m = Some h4"
    using assms h1(1) h2(1) h3(1) h4(1) by (auto simp: listnode_add_def ln_at_def nxt_def)
  moreover have "nxt h4 = (nxt h)(m := nxt h p, p := Some m)" "prv h4 = (prv h)(m := Some p, head := Some m)"
    using h1(2,3) h2(2,3) h3(2,3) h4(2,3) by simp_all
  moreover have "h4 a = h a" if "a \<notin> {head, p, m}" for a using that h1(5) h2(5) h3(5) h4(5) by simp
  moreover have "dom h4 = dom h" using h1(4) h2(4) h3(4) h4(4) by simp
  ultimately show ?thesis using that by blast
qed

lemma ring_Cons_last:
  assumes "ring h head xs"
  obtains us p where "head # xs = us @ [p]" "linked h (us @ [p])" "nxt h p = Some head" "prv h head = Some p" "p \<notin> set us"
proof -
  obtain us p where up: "head # xs = us @ [p]" by (metis list.distinct(1) rev_exhaust)
  have "linked h ((us @ [p]) @ [head])" using assms unfolding ring_def by (simp only: up [symmetric]) simp
  then have l: "linked h (us @ p # [head])" by simp
  have "distinct (us @ [p])" using assms unfolding ring_def by (simp only: up [symmetric])
  then show ?thesis using that [OF up] l [unfolded linked_append [of h us p "[head]"]] by auto
qed

lemma ring_add:
  assumes "ring h head xs" and "m \<notin> insert head (set xs)" and "h m \<noteq> None"
  shows "\<exists>h'. listnode_add h head m = Some h' \<and> ring h' head (xs @ [m]) \<and> dom h' = dom h \<and>
    (\<forall>a. a \<notin> insert head (insert m (set xs)) \<longrightarrow> h' a = h a)"
proof -
  from assms(1) obtain us p where up: "head # xs = us @ [p]" and l: "linked h (us @ [p])"
    and p: "nxt h p = Some head" "prv h head = Some p" "p \<notin> set us" by (rule ring_Cons_last)
  have mem: "p \<in> insert head (set xs)" using arg_cong [OF up, of set] by auto
  then have ne: "m \<noteq> head" "m \<noteq> p" using assms(2) by auto
  have "h p \<noteq> None" using p(1) by auto
  from listnode_add_links [OF p(2) this assms(3) ne]
  obtain h' where h': "listnode_add h head m = Some h'" "nxt h' = (nxt h)(m := Some head, p := Some m)"
      "prv h' = (prv h)(m := Some p, head := Some m)" "dom h' = dom h" "\<forall>a. a \<notin> {head, p, m} \<longrightarrow> h' a = h a"
    unfolding p(1) by blast
  have "linked h' (us @ [p]) = linked h (us @ [p])"
  proof (rule linked_cong)
    fix a assume "a \<in> set (butlast (us @ [p]))"
    then have "a \<in> set us" by simp
    moreover have "set us \<subseteq> set (head # xs)" unfolding up by auto
    ultimately show "nxt h' a = nxt h a" using p(3) assms(2) h'(2) by auto
  next
    fix a assume "a \<in> set (tl (us @ [p]))"
    then have "a \<in> set xs" using arg_cong [OF up, of tl] by simp
    then show "prv h' a = prv h a" using assms(1,2) h'(3) by (auto simp: ring_def)
  qed
  with l have "linked h' (us @ p # [m, head])"
    unfolding linked_append [of h' us p "[m, head]"] using h'(2,3) ne by (simp del: link_simps)
  then have "linked h' ((us @ [p]) @ [m, head])" by simp
  then have "linked h' ((head # xs) @ [m, head])" unfolding up .
  with assms(1,2) have "ring h' head (xs @ [m])" by (auto simp: ring_def)
  with h'(1,4,5) mem show ?thesis by blast
qed

lemma listnode_del_links:
  assumes "prv h m = Some p" "nxt h m = Some q" and "h p \<noteq> None" "h q \<noteq> None" and "m \<noteq> p" "m \<noteq> q"
  obtains h' where "listnode_del h m = Some h'" "nxt h' = (nxt h)(p := Some q, m := Some m)"
    "prv h' = (prv h)(q := Some p, m := Some m)" "dom h' = dom h" "\<forall>a. a \<notin> {p, q, m} \<longrightarrow> h' a = h a"
proof -
  from assms(1,2) obtain n where n: "h m = Some n" "ln_prev n = Some p" "ln_next n = Some q" by auto
  obtain h1 where h1: "set_next h (Some p) (Some q) = Some h1" "nxt h1 = (nxt h)(p := Some q)" "prv h1 = prv h"
      "dom h1 = dom h" "\<forall>x. x \<noteq> p \<longrightarrow> h1 x = h x" using assms(3) by (rule set_next_spec [where q = "Some q"])
  have "h1 q \<noteq> None" using assms(4) h1(4) by blast
  then obtain h2 where h2: "set_prev h1 (Some q) (Some p) = Some h2" "nxt h2 = nxt h1" "prv h2 = (prv h1)(q := Some p)"
      "dom h2 = dom h1" "\<forall>x. x \<noteq> q \<longrightarrow> h2 x = h1 x" by (rule set_prev_spec [where q = "Some p"])
  have "h2 m \<noteq> None" using n(1) h1(4) h2(4) by blast
  then obtain h3 where h3: "set_next h2 (Some m) (Some m) = Some h3" "nxt h3 = (nxt h2)(m := Some m)" "prv h3 = prv h2"
      "dom h3 = dom h2" "\<forall>x. x \<noteq> m \<longrightarrow> h3 x = h2 x" by (rule set_next_spec [where q = "Some m"])
  have "h3 m \<noteq> None" using n(1) h1(4) h2(4) h3(4) by blast
  then obtain h4 where h4: "set_prev h3 (Some m) (Some m) = Some h4" "nxt h4 = nxt h3" "prv h4 = (prv h3)(m := Some m)"
      "dom h4 = dom h3" "\<forall>x. x \<noteq> m \<longrightarrow> h4 x = h3 x" by (rule set_prev_spec [where q = "Some m"])
  have "listnode_del h m = Some h4" using n assms(5) h1(1,5) h2(1) h3(1) h4(1) by (simp add: listnode_del_def)
  moreover have "nxt h4 = (nxt h)(p := Some q, m := Some m)" "prv h4 = (prv h)(q := Some p, m := Some m)"
    using h1(2,3) h2(2,3) h3(2,3) h4(2,3) by simp_all
  moreover have "\<forall>a. a \<notin> {p, q, m} \<longrightarrow> h4 a = h a" using h1(5) h2(5) h3(5) h4(5) by simp
  moreover have "dom h4 = dom h" using h1(4) h2(4) h3(4) h4(4) by simp
  ultimately show ?thesis using that by blast
qed

lemma linked_in_dom: "\<lbrakk>linked h (xs @ a # b # ys)\<rbrakk> \<Longrightarrow> h a \<noteq> None \<and> h b \<noteq> None \<and> nxt h a = Some b \<and> prv h b = Some a"
  unfolding linked_append [of h xs a "b # ys"] by auto

lemma ring_del:
  assumes "ring h head (xs @ m # ys)"
  shows "\<exists>h'. listnode_del h m = Some h' \<and> ring h' head (xs @ ys) \<and> ring h' m [] \<and> dom h' = dom h \<and>
    (\<forall>a. a \<notin> insert head (set (xs @ m # ys)) \<longrightarrow> h' a = h a)"
proof -
  obtain us p where up: "head # xs = us @ [p]" by (metis list.distinct(1) rev_exhaust)
  obtain q vs where qv: "ys @ [head] = q # vs" by (metis append_is_Nil_conv list.exhaust list.distinct(1))
  have D: "distinct (head # xs @ m # ys)" using assms by (simp add: ring_def)
  have sets: "insert p (set us) = insert head (set xs)" "insert q (set vs) = insert head (set ys)"
    using arg_cong [OF up, of set] arg_cong [OF qv, of set] by auto
  have "distinct (us @ [p])" "distinct (q # vs)" using D by (simp_all only: up [symmetric] qv [symmetric]) auto
  then have d: "p \<notin> set us" "q \<notin> set vs" by auto
  have "p \<in> insert head (set xs)" "q \<in> insert head (set ys)" "set us \<subseteq> insert head (set xs)" "set vs \<subseteq> insert head (set ys)"
    using sets by blast+
  with D have d': "p \<notin> set ys" "q \<notin> set xs" "m \<noteq> p" "m \<noteq> q" "m \<notin> set us" "m \<notin> set vs" "m \<notin> set xs" "m \<notin> set ys" by auto
  have l: "linked h (us @ p # m # q # vs)"
  proof -
    have "linked h ((head # xs) @ m # ys @ [head])" using assms by (simp add: ring_def)
    then show ?thesis unfolding up qv by simp
  qed
  then have l3: "linked h (us @ [p])" "linked h (q # vs)" by (simp_all add: linked_append [of h us p "m # q # vs"])
  from linked_in_dom [OF l] linked_in_dom [of h "us @ [p]" m q vs] l
  have pm: "h p \<noteq> None" "prv h m = Some p" "h q \<noteq> None" "nxt h m = Some q" by auto
  from listnode_del_links [OF pm(2,4,1,3) d'(3,4)] obtain h' where h': "listnode_del h m = Some h'"
      "nxt h' = (nxt h)(p := Some q, m := Some m)" "prv h' = (prv h)(q := Some p, m := Some m)" "dom h' = dom h"
      "\<forall>a. a \<notin> {p, q, m} \<longrightarrow> h' a = h a" by blast
  have "linked h' (us @ [p]) = linked h (us @ [p])"
  proof (rule linked_cong)
    fix a assume "a \<in> set (butlast (us @ [p]))"
    then show "nxt h' a = nxt h a" using d(1) d'(5) h'(2) by auto
  next
    fix a assume "a \<in> set (tl (us @ [p]))"
    then have "a \<in> set xs" using arg_cong [OF up, of tl] by simp
    then show "prv h' a = prv h a" using d'(2,7) h'(3) by auto
  qed
  moreover have "linked h' (q # vs) = linked h (q # vs)"
  proof (rule linked_cong)
    fix a assume "a \<in> set (butlast (q # vs))"
    then have "a \<in> set ys" using arg_cong [OF qv, of butlast] by simp
    then show "nxt h' a = nxt h a" using d'(1,8) h'(2) by auto
  next
    fix a assume "a \<in> set (tl (q # vs))"
    then show "prv h' a = prv h a" using d(2) d'(6) h'(3) by auto
  qed
  ultimately have "linked h' (us @ p # q # vs)"
    unfolding linked_append [of h' us p "q # vs"] using l3 h'(2,3) d'(3,4) by (simp del: link_simps)
  then have "linked h' ((us @ [p]) @ q # vs)" by simp
  then have "linked h' ((head # xs) @ ys @ [head])" unfolding up qv .
  then have "ring h' head (xs @ ys)" using assms by (auto simp: ring_def)
  moreover have "ring h' m []" using h'(2,3) by (simp add: ring_def del: link_simps)
  moreover have "{p, q, m} \<subseteq> insert head (set (xs @ m # ys))"
    using arg_cong [OF up, of set] arg_cong [OF qv, of set] by auto
  ultimately show ?thesis using h'(1,4,5) by blast
qed

lemma listnode_insertfirst_links:
  assumes "nxt h head = Some q" and "h q \<noteq> None" and "h m \<noteq> None" and "m \<noteq> head" "m \<noteq> q"
  obtains h' where "listnode_insertfirst h head m = Some h'" "nxt h' = (nxt h)(m := Some q, head := Some m)"
    "prv h' = (prv h)(m := Some head, q := Some m)" "dom h' = dom h" "\<forall>a. a \<notin> {head, q, m} \<longrightarrow> h' a = h a"
proof -
  obtain h1 where h1: "set_next h (Some m) (Some q) = Some h1" "nxt h1 = (nxt h)(m := Some q)" "prv h1 = prv h"
      "dom h1 = dom h" "\<forall>x. x \<noteq> m \<longrightarrow> h1 x = h x" using assms(3) by (rule set_next_spec [where q = "Some q"])
  have "h1 m \<noteq> None" using assms(3) h1(4) by blast
  then obtain h2 where h2: "set_prev h1 (Some m) (Some head) = Some h2" "nxt h2 = nxt h1" "prv h2 = (prv h1)(m := Some head)"
      "dom h2 = dom h1" "\<forall>x. x \<noteq> m \<longrightarrow> h2 x = h1 x" by (rule set_prev_spec [where q = "Some head"])
  have "h2 q \<noteq> None" using assms(2) h1(4) h2(4) by blast
  then obtain h3 where h3: "set_prev h2 (Some q) (Some m) = Some h3" "nxt h3 = nxt h2" "prv h3 = (prv h2)(q := Some m)"
      "dom h3 = dom h2" "\<forall>x. x \<noteq> q \<longrightarrow> h3 x = h2 x" by (rule set_prev_spec [where q = "Some m"])
  have "h3 head \<noteq> None" using assms(1) h1(4) h2(4) h3(4) by auto
  then obtain h4 where h4: "set_next h3 (Some head) (Some m) = Some h4" "nxt h4 = (nxt h3)(head := Some m)" "prv h4 = prv h3"
      "dom h4 = dom h3" "\<forall>x. x \<noteq> head \<longrightarrow> h4 x = h3 x" by (rule set_next_spec [where q = "Some m"])
  have "h2 head = h head" using assms(4) h1(5) h2(5) by simp
  then have "listnode_insertfirst h head m = Some h4"
    using assms(1) h1(1) h2(1) h3(1) h4(1) by (auto simp: listnode_insertfirst_def)
  moreover have "nxt h4 = (nxt h)(m := Some q, head := Some m)" "prv h4 = (prv h)(m := Some head, q := Some m)"
    using h1(2,3) h2(2,3) h3(2,3) h4(2,3) by simp_all
  moreover have "\<forall>a. a \<notin> {head, q, m} \<longrightarrow> h4 a = h a" using h1(5) h2(5) h3(5) h4(5) by simp
  moreover have "dom h4 = dom h" using h1(4) h2(4) h3(4) h4(4) by simp
  ultimately show ?thesis using that by blast
qed

lemma ring_insertfirst:
  assumes "ring h head xs" and "m \<notin> insert head (set xs)" and "h m \<noteq> None"
  shows "\<exists>h'. listnode_insertfirst h head m = Some h' \<and> ring h' head (m # xs) \<and> dom h' = dom h \<and>
    (\<forall>a. a \<notin> insert head (insert m (set xs)) \<longrightarrow> h' a = h a)"
proof -
  obtain q vs where qv: "xs @ [head] = q # vs" by (metis append_is_Nil_conv list.exhaust list.distinct(1))
  have "linked h (head # xs @ [head])" and d: "distinct (xs @ [head])" using assms(1) by (auto simp: ring_def)
  then have l: "linked h (head # q # vs)" unfolding qv by simp
  from l d have q: "nxt h head = Some q" "h q \<noteq> None" "q \<notin> set vs" unfolding qv by auto
  have sets: "insert q (set vs) = insert head (set xs)" using arg_cong [OF qv, of set] by auto
  then have ne: "m \<noteq> head" "m \<noteq> q" "m \<notin> set vs" "q \<in> insert head (set xs)" using assms(2) by blast+
  from listnode_insertfirst_links [OF q(1,2) assms(3) ne(1,2)]
  obtain h' where h': "listnode_insertfirst h head m = Some h'" "nxt h' = (nxt h)(m := Some q, head := Some m)"
    "prv h' = (prv h)(m := Some head, q := Some m)" "dom h' = dom h" "\<forall>a. a \<notin> {head, q, m} \<longrightarrow> h' a = h a" by blast
  have "linked h' (q # vs) = linked h (q # vs)"
  proof (rule linked_cong)
    fix a assume "a \<in> set (butlast (q # vs))"
    then have "a \<in> set xs" using arg_cong [OF qv, of butlast] by simp
    then show "nxt h' a = nxt h a" using d assms(2) h'(2) by auto
  next
    fix a assume "a \<in> set (tl (q # vs))"
    then show "prv h' a = prv h a" using q(3) ne(3) h'(3) by auto
  qed
  then have "linked h' (head # m # q # vs)" using l h'(2,3) ne(1,2) by (simp del: link_simps)
  then have "linked h' (head # m # xs @ [head])" unfolding qv .
  then have "ring h' head (m # xs)" using assms(1,2) by (auto simp: ring_def)
  with h'(1,4,5) ne(4) show ?thesis by blast
qed

section \<open>Iteration\<close>

fun forward :: "'a list_heap \<Rightarrow> 'a list \<Rightarrow> bool" where
  "forward h (a # b # xs) \<longleftrightarrow> nxt h a = Some b \<and> forward h (b # xs)"
| "forward h _ \<longleftrightarrow> True"

lemma linked_forward: "linked h xs \<Longrightarrow> forward h xs"
  by (induction h xs rule: linked.induct) auto

lemma forward_cong: "(\<And>a. a \<in> set (butlast xs) \<Longrightarrow> nxt h' a = nxt h a) \<Longrightarrow> forward h' xs = forward h xs"
  by (induction h xs rule: forward.induct) auto

lemma list_walk_forward:
  "\<lbrakk>forward h (x # xs @ [head]); head \<notin> set xs\<rbrakk> \<Longrightarrow> list_walk h head (nxt h x) = Some xs"
proof (induction xs arbitrary: x)
  case Nil
  then show ?case by (simp add: list_walk.simps del: link_simps)
next
  case (Cons y ys)
  then have y: "nxt h x = Some y" "y \<noteq> head" "list_walk h head (nxt h y) = Some ys" by (auto simp del: link_simps)
  moreover obtain n where n: "h y = Some n"
    using Cons.prems(1) by (cases ys) auto
  ultimately show ?case by (subst list_walk.simps) (simp add: ln_at_def nxt_def del: link_simps)
qed

lemma list_nodes_forward:
  assumes "forward h (head # xs @ [head])" and "head \<notin> set xs"
  shows "list_nodes h head = Some xs"
proof -
  obtain n where "h head = Some n" using assms(1) by (cases xs) auto
  with list_walk_forward [OF assms] show ?thesis by (simp add: list_nodes_def nxt_def)
qed

lemma ring_nodes: "ring h head xs \<Longrightarrow> list_nodes h head = Some xs"
  by (rule list_nodes_forward) (auto simp: ring_def intro: linked_forward)

lemma ring_isempty: "ring h head xs \<Longrightarrow> listnode_isempty h head = Some (xs = [])"
  by (cases xs) (auto simp: ring_def listnode_isempty_def)

lemma ring_cong: "\<lbrakk>ring h head xs; \<And>a. a \<in> insert head (set xs) \<Longrightarrow> h' a = h a\<rbrakk> \<Longrightarrow> ring h' head xs"
  using linked_cong [of "head # xs @ [head]" h' h] by (auto simp: ring_def nxt_def prv_def butlast_append)

section \<open>Properties\<close>

text \<open>A ring of the nodes 0, 1 and 2, and a node outside of it.\<close>

definition sample_ring :: "nat list_heap" where
  "sample_ring = [0 \<mapsto> \<lparr>ln_next = Some 1, ln_prev = Some 2\<rparr>, 1 \<mapsto> \<lparr>ln_next = Some 2, ln_prev = Some 0\<rparr>,
     2 \<mapsto> \<lparr>ln_next = Some 0, ln_prev = Some 1\<rparr>, 3 \<mapsto> \<lparr>ln_next = None, ln_prev = None\<rparr>]"

lemma sample_ring_ok: "ring sample_ring 0 [1, 2]" "sample_ring 3 \<noteq> None"
  by (simp_all add: ring_def sample_ring_def)

text \<open>
  C36: The list macros implement lists. On a head that stands for the list \<open>xs\<close>, the test for emptiness and
  the loop over the nodes see \<open>xs\<close>; adding a node that is not in the list puts it at the end or
  the beginning; deleting a node takes it out and leaves it a list of its own. Nothing
  outside of the list is touched.
\<close>

theorem listnode_refines:
  assumes "ring h head xs"
  shows "listnode_isempty h head = Some (xs = []) \<and> list_nodes h head = Some xs \<and>
    (\<forall>m. m \<notin> insert head (set xs) \<and> h m \<noteq> None \<longrightarrow>
       (\<exists>h'. listnode_add h head m = Some h' \<and> ring h' head (xs @ [m]) \<and>
          (\<forall>a. a \<notin> insert head (insert m (set xs)) \<longrightarrow> h' a = h a)) \<and>
       (\<exists>h'. listnode_insertfirst h head m = Some h' \<and> ring h' head (m # xs) \<and>
          (\<forall>a. a \<notin> insert head (insert m (set xs)) \<longrightarrow> h' a = h a))) \<and>
    (\<forall>m \<in> set xs. \<exists>h'. listnode_del h m = Some h' \<and> ring h' head (remove1 m xs) \<and> ring h' m [] \<and>
       (\<forall>a. a \<notin> insert head (set xs) \<longrightarrow> h' a = h a))"
proof (intro conjI allI impI ballI)
  show "listnode_isempty h head = Some (xs = [])" "list_nodes h head = Some xs"
    using assms by (rule ring_isempty, rule ring_nodes)
next
  fix m assume m: "m \<notin> insert head (set xs) \<and> h m \<noteq> None"
  show "\<exists>h'. listnode_add h head m = Some h' \<and> ring h' head (xs @ [m]) \<and>
      (\<forall>a. a \<notin> insert head (insert m (set xs)) \<longrightarrow> h' a = h a)"
    using ring_add [OF assms conjunct1 [OF m] conjunct2 [OF m]] by blast
  show "\<exists>h'. listnode_insertfirst h head m = Some h' \<and> ring h' head (m # xs) \<and>
      (\<forall>a. a \<notin> insert head (insert m (set xs)) \<longrightarrow> h' a = h a)"
    using ring_insertfirst [OF assms conjunct1 [OF m] conjunct2 [OF m]] by blast
next
  fix m assume "m \<in> set xs"
  then obtain us vs where xs: "xs = us @ m # vs" by (auto simp: in_set_conv_decomp)
  moreover have "m \<notin> set us" using assms by (simp add: ring_def xs)
  ultimately show "\<exists>h'. listnode_del h m = Some h' \<and> ring h' head (remove1 m xs) \<and> ring h' m [] \<and>
      (\<forall>a. a \<notin> insert head (set xs) \<longrightarrow> h' a = h a)"
    using ring_del [OF assms [unfolded xs]] by (auto simp: remove1_append)
qed

theorem listnode_refines_witness:
  "list_nodes sample_ring 0 = Some [1, 2] \<and> (\<exists>h'. listnode_add sample_ring 0 3 = Some h' \<and> ring h' 0 [1, 2, 3]) \<and>
   (\<exists>h'. listnode_del sample_ring 1 = Some h' \<and> ring h' 0 [2])"
proof -
  have "3 \<notin> insert 0 (set [1, 2 :: nat])" "(1 :: nat) \<in> set [1, 2]" "remove1 (1 :: nat) [1, 2] = [2]" "[1, 2] @ [3 :: nat] = [1, 2, 3]"
    by simp_all
  with listnode_refines [OF sample_ring_ok(1)] sample_ring_ok(2) show ?thesis by metis
qed

text \<open>
  \<^verbatim>\<open>listnode_addprev\<close> does not put the node into the list. Its last two assignments are in the wrong
  order, so the predecessor keeps its link, the new node points to itself, and loops over the
  list never see it.
\<close>

theorem listnode_addprev_lost:
  assumes "ring h head xs" and "cur \<in> insert head (set xs)" and "m \<notin> insert head (set xs)" and "h m \<noteq> None"
  shows "\<exists>h'. listnode_addprev h cur m = Some h' \<and> list_nodes h' head = Some xs \<and> nxt h' m = Some m \<and> prv h' cur = Some m"
proof -
  have "h cur \<noteq> None"
  proof (cases "cur = head")
    case False
    then obtain us vs where "xs = us @ cur # vs" using assms(2) by (auto simp: in_set_conv_decomp)
    then have "linked h ((head # us) @ cur # vs @ [head])" using assms(1) by (simp add: ring_def)
    then show ?thesis using linked_in_dom [of h "head # us" cur "hd (vs @ [head])" "tl (vs @ [head])"] by simp
  qed (use assms(1) in \<open>cases xs; auto simp: ring_def\<close>)
  then obtain c n where "h cur = Some c" "h m = Some n" "m \<noteq> cur" using assms(2-4) by auto
  then obtain h' where h': "listnode_addprev h cur m = Some h'" "\<And>a. a \<noteq> m \<Longrightarrow> nxt h' a = nxt h a"
      "nxt h' m = Some m" "prv h' cur = Some m"
    by (auto simp: listnode_addprev_def set_next_def set_prev_def nxt_def prv_def)
  have "forward h' (head # xs @ [head]) = forward h (head # xs @ [head])"
  proof (rule forward_cong, rule h'(2))
    fix a assume "a \<in> set (butlast (head # xs @ [head]))"
    then show "a \<noteq> m" using assms(3) by (auto simp: butlast_append)
  qed
  then have "list_nodes h' head = Some xs"
    using assms(1) by (intro list_nodes_forward) (auto simp: ring_def intro: linked_forward)
  with h' show ?thesis by blast
qed

theorem listnode_addprev_lost_witness: "\<exists>h'. listnode_addprev sample_ring 2 3 = Some h' \<and> list_nodes h' 0 = Some [1, 2]"
  using listnode_addprev_lost [OF sample_ring_ok(1) _ _ sample_ring_ok(2), of 2] by auto

end
