(* ===== verification/Vehicle_Mgr.thy ===== *)
theory Vehicle_Mgr
  imports Name_Index List_Node
begin

text \<open>
  The registry of vehicles of the indexing service, \<^verbatim>\<open>mec/vehicle-indexing/src/vehicle-mgr.cpp\<close>. An object
  of type \<^verbatim>\<open>vehicle_item\<close> carries two tree nodes and a list node; each of these members has a heap of its
  own, indexed by the address of the object. Address 0 is the local variable of \<^verbatim>\<open>avl_remove\<close>. The
  result \<open>None\<close> of an operation is a failed assertion or an access to an invalid address.
\<close>

record vehicle_item =
  vi_uid :: string
  vi_vid :: string
  vi_acctoken :: string

record vehicle_mgr =
  vm_items :: "nat \<Rightarrow> vehicle_item option"
  vm_uid_nodes :: avl_heap
  vm_vin_nodes :: avl_heap
  vm_list_nodes :: "list_addr list_heap"
  vm_uid_tree :: ptr
  vm_vin_tree :: ptr
  vm_brk :: nat

section \<open>Operations\<close>

definition vehicle_mgr_ctor :: "vehicle_mgr option" where
  "vehicle_mgr_ctor =
     do {
       l \<leftarrow> listnode_init [Owner 0 \<mapsto> \<lparr>ln_next = None, ln_prev = None\<rparr>] (Owner 0);
       Some \<lparr>vm_items = Map.empty, vm_uid_nodes = Map.empty, vm_vin_nodes = Map.empty, vm_list_nodes = l,
         vm_uid_tree = None, vm_vin_tree = None, vm_brk = 1\<rparr>
     }"

definition uid_of :: "vehicle_mgr \<Rightarrow> nat \<Rightarrow> string" where
  "uid_of s a = (case vm_items s a of None \<Rightarrow> [] | Some it \<Rightarrow> vi_uid it)"

definition vid_of :: "vehicle_mgr \<Rightarrow> nat \<Rightarrow> string" where
  "vid_of s a = (case vm_items s a of None \<Rightarrow> [] | Some it \<Rightarrow> vi_vid it)"

definition vehicle_uid_compare :: "vehicle_mgr \<Rightarrow> nat \<Rightarrow> nat \<Rightarrow> int" where
  "vehicle_uid_compare s a b = name_compare (uid_of s a) (uid_of s b)"

definition vehicle_vin_compare :: "vehicle_mgr \<Rightarrow> nat \<Rightarrow> nat \<Rightarrow> int" where
  "vehicle_vin_compare s a b = name_compare (vid_of s a) (vid_of s b)"

text \<open>
  The find functions hand the tree a pointer that makes the string they look for the key of an object
  (\<^verbatim>\<open>MAKE_FIND_OBJECT\<close>): the comparison reads nothing else of it.
\<close>

definition find_vehicle_uid :: "vehicle_mgr \<Rightarrow> string \<Rightarrow> ptr option" where
  "find_vehicle_uid s uid = avl_find (vm_uid_nodes s) (vm_uid_tree s) uid (\<lambda>k b. name_compare k (uid_of s b))"

definition find_vehicle_vid :: "vehicle_mgr \<Rightarrow> string \<Rightarrow> ptr option" where
  "find_vehicle_vid s vin = avl_find (vm_vin_nodes s) (vm_vin_tree s) vin (\<lambda>k b. name_compare k (vid_of s b))"

text \<open>\<^verbatim>\<open>new vehicle_item()\<close>, with the members that \<^verbatim>\<open>add_vehicle\<close> assigns, and \<^verbatim>\<open>delete item\<close>.\<close>

definition new_vehicle_item :: "vehicle_mgr \<Rightarrow> vehicle_item \<Rightarrow> nat \<times> vehicle_mgr" where
  "new_vehicle_item s it =
     (let a = vm_brk s; n = \<lparr>avl_balance = 0, avl_child_index = 0, avl_child0 = None, avl_child1 = None, avl_parent = None\<rparr>
      in (a, s\<lparr>vm_items := (vm_items s)(a \<mapsto> it), vm_uid_nodes := (vm_uid_nodes s)(a \<mapsto> n),
               vm_vin_nodes := (vm_vin_nodes s)(a \<mapsto> n),
               vm_list_nodes := (vm_list_nodes s)(Member a \<mapsto> \<lparr>ln_next = None, ln_prev = None\<rparr>), vm_brk := Suc a\<rparr>))"

definition delete_vehicle_item :: "vehicle_mgr \<Rightarrow> nat \<Rightarrow> vehicle_mgr" where
  "delete_vehicle_item s a =
     s\<lparr>vm_items := (vm_items s)(a := None), vm_uid_nodes := (vm_uid_nodes s)(a := None),
       vm_vin_nodes := (vm_vin_nodes s)(a := None), vm_list_nodes := (vm_list_nodes s)(Member a := None)\<rparr>"

text \<open>The identifier that \<^verbatim>\<open>alloc_uid\<close> returns is an argument; it is drawn at random.\<close>

definition add_vehicle :: "vehicle_mgr \<Rightarrow> string \<Rightarrow> string \<Rightarrow> string \<Rightarrow> (ptr \<times> vehicle_mgr) option" where
  "add_vehicle s vid acc_token uid =
     do {
       item \<leftarrow> find_vehicle_vid s vid;
       case item of
         Some a \<Rightarrow> do {
           it \<leftarrow> vm_items s a;
           Some (Some a, s\<lparr>vm_items := (vm_items s)(a \<mapsto> it\<lparr>vi_acctoken := acc_token\<rparr>)\<rparr>)
         }
       | None \<Rightarrow> do {
           let (a, s) = new_vehicle_item s \<lparr>vi_uid = uid, vi_vid = vid, vi_acctoken = acc_token\<rparr>;
           (h, rt, r) \<leftarrow> avl_insert (vm_uid_nodes s) (vm_uid_tree s) a (vehicle_uid_compare s);
           let s = s\<lparr>vm_uid_nodes := h, vm_uid_tree := rt\<rparr>;
           if r \<noteq> 0 then Some (None, delete_vehicle_item s a)
           else do {
             (h, rt, r) \<leftarrow> avl_insert (vm_vin_nodes s) (vm_vin_tree s) a (vehicle_vin_compare s);
             let s = s\<lparr>vm_vin_nodes := h, vm_vin_tree := rt\<rparr>;
             if r \<noteq> 0 then None
             else do {
               l \<leftarrow> listnode_add (vm_list_nodes s) (Owner 0) (Member a);
               Some (Some a, s\<lparr>vm_list_nodes := l\<rparr>)
             }
           }
         }
     }"

partial_function (option) remove_all_loop :: "vehicle_mgr \<Rightarrow> vehicle_mgr option" where
  "remove_all_loop s =
     do {
       e \<leftarrow> listnode_isempty (vm_list_nodes s) (Owner 0);
       if e then Some s
       else do {
         n \<leftarrow> vm_list_nodes s (Owner 0);
         a \<leftarrow> list_entry (ln_next n);
         l \<leftarrow> listnode_del (vm_list_nodes s) (Member a);
         remove_all_loop (delete_vehicle_item (s\<lparr>vm_list_nodes := l\<rparr>) a)
       }
     }"

definition remove_all_vehicle :: "vehicle_mgr \<Rightarrow> (int \<times> vehicle_mgr) option" where
  "remove_all_vehicle s =
     do { s \<leftarrow> remove_all_loop s; Some (0, s\<lparr>vm_uid_tree := None, vm_vin_tree := None\<rparr>) }"

text \<open>The part that \<^verbatim>\<open>remove_vehicle_by_uid\<close> and \<^verbatim>\<open>remove_vehicle_by_vid\<close> share.\<close>

definition remove_vehicle :: "vehicle_mgr \<Rightarrow> nat \<Rightarrow> vehicle_mgr option" where
  "remove_vehicle s a =
     do {
       (h, rt) \<leftarrow> avl_remove (vm_uid_nodes s) (vm_uid_tree s) a 0;
       (h', rt') \<leftarrow> avl_remove (vm_vin_nodes s) (vm_vin_tree s) a 0;
       l \<leftarrow> listnode_del (vm_list_nodes s) (Member a);
       Some (delete_vehicle_item (s\<lparr>vm_uid_nodes := h(0 := None), vm_uid_tree := rt, vm_vin_nodes := h'(0 := None),
         vm_vin_tree := rt', vm_list_nodes := l\<rparr>) a)
     }"

definition remove_vehicle_by_uid :: "vehicle_mgr \<Rightarrow> string \<Rightarrow> (int \<times> vehicle_mgr) option" where
  "remove_vehicle_by_uid s uid =
     do {
       item \<leftarrow> find_vehicle_uid s uid;
       case item of None \<Rightarrow> Some (- ENOTFOUND, s) | Some a \<Rightarrow> do { s \<leftarrow> remove_vehicle s a; Some (0, s) }
     }"

definition remove_vehicle_by_vid :: "vehicle_mgr \<Rightarrow> string \<Rightarrow> (int \<times> vehicle_mgr) option" where
  "remove_vehicle_by_vid s vin =
     do {
       item \<leftarrow> find_vehicle_vid s vin;
       case item of None \<Rightarrow> Some (- ENOTFOUND, s) | Some a \<Rightarrow> do { s \<leftarrow> remove_vehicle s a; Some (0, s) }
     }"

text \<open>\<^verbatim>\<open>get_vehicle_id\<close>: the result and the string it assigns, if it does.\<close>

definition get_vehicle_id :: "vehicle_mgr \<Rightarrow> string \<Rightarrow> (int \<times> string option) option" where
  "get_vehicle_id s uid =
     (if uid = [] then Some (- EBADPARM, None)
      else do {
        item \<leftarrow> find_vehicle_uid s uid;
        case item of None \<Rightarrow> Some (- ENOTFOUND, None) | Some a \<Rightarrow> do { it \<leftarrow> vm_items s a; Some (0, Some (vi_vid it)) }
      })"

text \<open>
  The messages of \<^verbatim>\<open>register_request.proto\<close> and \<^verbatim>\<open>register_reply.proto\<close>. The handler's arguments are the
  query value it reads from the URL, the request it decodes and the identifier drawn; its
  result is the reply it encodes.
\<close>

datatype objtype = Unknown | Vehicle | Smart_phone | Monitoring_camera | Junction_device

datatype status = Success | Invalid_acstoken | Acstoken_expired | Status_error

record register_request =
  rq_type :: objtype
  rq_account_acstoken :: string

record register_reply =
  rp_status :: status
  rp_access_token :: "string option"
  rp_new_created :: bool

definition reply_token :: "vehicle_mgr \<Rightarrow> ptr \<Rightarrow> string option option" where
  "reply_token s item = (case item of None \<Rightarrow> Some None | Some a \<Rightarrow> do { it \<leftarrow> vm_items s a; Some (Some (vi_uid it)) })"

definition vehicle_register ::
  "vehicle_mgr \<Rightarrow> string \<Rightarrow> register_request \<Rightarrow> string \<Rightarrow> (register_reply \<times> vehicle_mgr) option" where
  "vehicle_register s vin req uid =
     do {
       (ret, bcreate, item, s) \<leftarrow>
         (if rq_type req \<noteq> Vehicle \<and> rq_type req \<noteq> Junction_device then Some (Status_error, False, None, s)
          else do {
            item \<leftarrow> find_vehicle_vid s vin;
            case item of
              Some a \<Rightarrow>
                if rq_type req \<noteq> Junction_device then do {
                  it \<leftarrow> vm_items s a;
                  Some (Success, False, item, s\<lparr>vm_items := (vm_items s)(a \<mapsto> it\<lparr>vi_acctoken := rq_account_acstoken req\<rparr>)\<rparr>)
                }
                else Some (Success, False, item, s)
            | None \<Rightarrow> do {
                let acctoken = (if rq_type req \<noteq> Junction_device then rq_account_acstoken req else []);
                (item, s) \<leftarrow> add_vehicle s vin acctoken uid;
                Some (if item = None then (Status_error, False, item, s) else (Success, True, item, s))
              }
          });
       token \<leftarrow> reply_token s item;
       Some (\<lparr>rp_status = ret, rp_access_token = token, rp_new_created = bcreate\<rparr>, s)
     }"

section \<open>The invariant and the registry it stands for\<close>

definition vm_inv :: "vehicle_mgr \<Rightarrow> bool" where
  "vm_inv s \<longleftrightarrow> 0 < vm_brk s \<and> (\<forall>a \<in> dom (vm_items s). 0 < a \<and> a < vm_brk s) \<and>
     indexed name_compare (uid_of s) (vm_uid_nodes s) (vm_uid_tree s) (dom (vm_items s)) \<and>
     indexed name_compare (vid_of s) (vm_vin_nodes s) (vm_vin_tree s) (dom (vm_items s)) \<and>
     (\<exists>xs. set xs = dom (vm_items s) \<and> ring (vm_list_nodes s) (Owner 0) (map Member xs))"

text \<open>The registry as a map from vehicle identifiers to the identifier given out and the account's token.\<close>

definition registers :: "vehicle_mgr \<Rightarrow> (string \<Rightarrow> (string \<times> string) option) \<Rightarrow> bool" where
  "registers s M \<longleftrightarrow> vm_inv s \<and>
     (\<forall>v u t. M v = Some (u, t) \<longleftrightarrow>
        (\<exists>a it. vm_items s a = Some it \<and> vi_vid it = v \<and> vi_uid it = u \<and> vi_acctoken it = t))"

lemma keys_of_item [simp]:
  "vm_items s a = Some it \<Longrightarrow> uid_of s a = vi_uid it" "vm_items s a = Some it \<Longrightarrow> vid_of s a = vi_vid it"
  by (simp_all add: uid_of_def vid_of_def)

lemma vm_inv_unique:
  assumes "vm_inv s" "vm_items s a = Some it" "vm_items s b = Some jt"
  shows "vi_vid it = vi_vid jt \<Longrightarrow> a = b" "vi_uid it = vi_uid jt \<Longrightarrow> a = b"
proof -
  have "inj_on (vid_of s) (dom (vm_items s))" "inj_on (uid_of s) (dom (vm_items s))"
    using assms(1) by (auto simp: vm_inv_def intro: names.indexed_inj)
  then show "vi_vid it = vi_vid jt \<Longrightarrow> a = b" "vi_uid it = vi_uid jt \<Longrightarrow> a = b"
    using assms(2,3) by (auto simp: inj_on_def dom_def)
qed

lemma find_vid_hit: "\<lbrakk>vm_inv s; vm_items s a = Some it\<rbrakk> \<Longrightarrow> find_vehicle_vid s (vi_vid it) = Some (Some a)"
  using names.index_find(1) [of "vid_of s" "vm_vin_nodes s" "vm_vin_tree s" "dom (vm_items s)" a]
  by (auto simp: vm_inv_def find_vehicle_vid_def)

lemma find_uid_hit: "\<lbrakk>vm_inv s; vm_items s a = Some it\<rbrakk> \<Longrightarrow> find_vehicle_uid s (vi_uid it) = Some (Some a)"
  using names.index_find(1) [of "uid_of s" "vm_uid_nodes s" "vm_uid_tree s" "dom (vm_items s)" a]
  by (auto simp: vm_inv_def find_vehicle_uid_def)

lemma find_vid_miss:
  assumes "vm_inv s" "\<And>a it. vm_items s a = Some it \<Longrightarrow> vi_vid it \<noteq> v"
  shows "find_vehicle_vid s v = Some None"
proof -
  have "v \<notin> vid_of s ` dom (vm_items s)" using assms(2) by fastforce
  with assms(1) show ?thesis unfolding find_vehicle_vid_def vm_inv_def by (blast intro: names.index_find(2))
qed

lemma find_uid_miss:
  assumes "vm_inv s" "\<And>a it. vm_items s a = Some it \<Longrightarrow> vi_uid it \<noteq> u"
  shows "find_vehicle_uid s u = Some None"
proof -
  have "u \<notin> uid_of s ` dom (vm_items s)" using assms(2) by fastforce
  with assms(1) show ?thesis unfolding find_vehicle_uid_def vm_inv_def by (blast intro: names.index_find(2))
qed

lemma registersD:
  assumes "registers s M"
  shows "vm_inv s"
    and "M v = Some (u, t) \<Longrightarrow> \<exists>a it. vm_items s a = Some it \<and> vi_vid it = v \<and> vi_uid it = u \<and> vi_acctoken it = t"
    and "vm_items s a = Some it \<Longrightarrow> M (vi_vid it) = Some (vi_uid it, vi_acctoken it)"
  using assms by (auto simp: registers_def)

text \<open>Changing the token of an object changes neither key.\<close>

lemma token_update_inv:
  assumes "vm_inv s" and "vm_items s a = Some it"
  shows "vm_inv (s\<lparr>vm_items := (vm_items s)(a \<mapsto> it\<lparr>vi_acctoken := tok\<rparr>)\<rparr>)"
proof -
  let ?s = "s\<lparr>vm_items := (vm_items s)(a \<mapsto> it\<lparr>vi_acctoken := tok\<rparr>)\<rparr>"
  have "uid_of ?s = uid_of s" "vid_of ?s = vid_of s" "dom (vm_items ?s) = dom (vm_items s)"
    using assms(2) by (auto simp: uid_of_def vid_of_def fun_eq_iff)
  then show ?thesis using assms(1) by (simp add: vm_inv_def)
qed

lemma token_update:
  assumes "registers s M" and "vm_items s a = Some it"
  shows "registers (s\<lparr>vm_items := (vm_items s)(a \<mapsto> it\<lparr>vi_acctoken := tok\<rparr>)\<rparr>) (M(vi_vid it \<mapsto> (vi_uid it, tok)))"
proof -
  let ?s = "s\<lparr>vm_items := (vm_items s)(a \<mapsto> it\<lparr>vi_acctoken := tok\<rparr>)\<rparr>"
  note unique = vm_inv_unique(1) [OF registersD(1) [OF assms(1)] _ assms(2)]
  have "(M(vi_vid it \<mapsto> (vi_uid it, tok))) v = Some (u, t) \<longleftrightarrow>
      (\<exists>b jt. vm_items ?s b = Some jt \<and> vi_vid jt = v \<and> vi_uid jt = u \<and> vi_acctoken jt = t)" for u v t
  proof (cases "v = vi_vid it")
    case True
    with unique show ?thesis by (auto split: if_splits)
  next
    case False
    then have "vm_items ?s b = Some jt \<and> vi_vid jt = v \<longleftrightarrow> vm_items s b = Some jt \<and> vi_vid jt = v" for b jt
      using assms(2) by auto
    then have "(\<exists>b jt. vm_items ?s b = Some jt \<and> vi_vid jt = v \<and> vi_uid jt = u \<and> vi_acctoken jt = t) \<longleftrightarrow> M v = Some (u, t)"
      using assms(1) unfolding registers_def by metis
    with False show ?thesis by simp
  qed
  with token_update_inv [OF registersD(1) [OF assms(1)] assms(2)] show ?thesis by (simp add: registers_def)
qed

text \<open>A new object, before it is put into the trees and the list.\<close>

lemma new_vehicle_item_index:
  assumes "vm_inv s" and "new_vehicle_item s it = (a, s1)"
  shows "a \<notin> dom (vm_items s)" "0 < a" "vm_items s1 = (vm_items s)(a \<mapsto> it)" "vm_brk s1 = Suc a"
    "indexed name_compare (uid_of s1) (vm_uid_nodes s1) (vm_uid_tree s1) (dom (vm_items s))" "vm_uid_nodes s1 a \<noteq> None"
    "indexed name_compare (vid_of s1) (vm_vin_nodes s1) (vm_vin_tree s1) (dom (vm_items s))" "vm_vin_nodes s1 a \<noteq> None"
    "\<exists>xs. set xs = dom (vm_items s) \<and> ring (vm_list_nodes s1) (Owner 0) (map Member xs)" "vm_list_nodes s1 (Member a) \<noteq> None"
proof -
  show a: "a \<notin> dom (vm_items s)" "0 < a" using assms by (auto simp: vm_inv_def new_vehicle_item_def Let_def)
  have s1: "a = vm_brk s" "\<And>x. x \<noteq> a \<Longrightarrow> vm_uid_nodes s1 x = vm_uid_nodes s x \<and> vm_vin_nodes s1 x = vm_vin_nodes s x"
      "\<And>x. x \<noteq> a \<Longrightarrow> uid_of s1 x = uid_of s x \<and> vid_of s1 x = vid_of s x" "vm_uid_tree s1 = vm_uid_tree s" "vm_vin_tree s1 = vm_vin_tree s"
      "\<And>x. x \<noteq> Member a \<Longrightarrow> vm_list_nodes s1 x = vm_list_nodes s x"
    using assms(2) by (auto simp: new_vehicle_item_def Let_def uid_of_def vid_of_def)
  have ne: "x \<noteq> a" if "x \<in> dom (vm_items s)" for x using that a(1) by auto
  show "vm_items s1 = (vm_items s)(a \<mapsto> it)" "vm_brk s1 = Suc a" "vm_uid_nodes s1 a \<noteq> None" "vm_vin_nodes s1 a \<noteq> None"
      "vm_list_nodes s1 (Member a) \<noteq> None"
    using assms(2) by (auto simp: new_vehicle_item_def Let_def)
  show "indexed name_compare (uid_of s1) (vm_uid_nodes s1) (vm_uid_tree s1) (dom (vm_items s))"
    unfolding s1(4) by (rule indexed_cong [of _ "uid_of s" "vm_uid_nodes s"]) (use assms(1) s1 ne in \<open>auto simp: vm_inv_def\<close>)
  show "indexed name_compare (vid_of s1) (vm_vin_nodes s1) (vm_vin_tree s1) (dom (vm_items s))"
    unfolding s1(5) by (rule indexed_cong [of _ "vid_of s" "vm_vin_nodes s"]) (use assms(1) s1 ne in \<open>auto simp: vm_inv_def\<close>)
  obtain xs where "set xs = dom (vm_items s)" "ring (vm_list_nodes s) (Owner 0) (map Member xs)" using assms(1) by (auto simp: vm_inv_def)
  then show "\<exists>xs. set xs = dom (vm_items s) \<and> ring (vm_list_nodes s1) (Owner 0) (map Member xs)"
    using a(1) by (intro exI [of _ xs]) (auto intro!: ring_cong [of "vm_list_nodes s"] s1(6))
qed

lemma keys_ignore [simp]:
  "uid_of (s\<lparr>vm_uid_nodes := h\<rparr>) = uid_of s" "uid_of (s\<lparr>vm_uid_tree := t\<rparr>) = uid_of s"
  "uid_of (s\<lparr>vm_vin_nodes := h\<rparr>) = uid_of s" "uid_of (s\<lparr>vm_vin_tree := t\<rparr>) = uid_of s" "uid_of (s\<lparr>vm_list_nodes := l\<rparr>) = uid_of s"
  "vid_of (s\<lparr>vm_uid_nodes := h\<rparr>) = vid_of s" "vid_of (s\<lparr>vm_uid_tree := t\<rparr>) = vid_of s"
  "vid_of (s\<lparr>vm_vin_nodes := h\<rparr>) = vid_of s" "vid_of (s\<lparr>vm_vin_tree := t\<rparr>) = vid_of s" "vid_of (s\<lparr>vm_list_nodes := l\<rparr>) = vid_of s"
  by (simp_all add: uid_of_def vid_of_def fun_eq_iff)

lemma vehicle_compare_eqs: "vehicle_uid_compare s = (\<lambda>x y. name_compare (uid_of s x) (uid_of s y))"
  "vehicle_vin_compare s = (\<lambda>x y. name_compare (vid_of s x) (vid_of s y))"
  by (simp_all add: vehicle_uid_compare_def vehicle_vin_compare_def fun_eq_iff)

lemma registers_insert:
  assumes "registers s M" and "vm_inv s'" and "vm_items s' = (vm_items s)(a \<mapsto> it)" and "a \<notin> dom (vm_items s)" and "M (vi_vid it) = None"
  shows "registers s' (M(vi_vid it \<mapsto> (vi_uid it, vi_acctoken it)))"
proof -
  have "vm_items s b = Some jt \<Longrightarrow> vi_vid jt \<noteq> vi_vid it \<and> b \<noteq> a" for b jt
    using registersD(3) [OF assms(1), of b jt] assms(4,5) by auto
  then have "(M(vi_vid it \<mapsto> (vi_uid it, vi_acctoken it))) v = Some (u, t) \<longleftrightarrow>
      (\<exists>b jt. vm_items s' b = Some jt \<and> vi_vid jt = v \<and> vi_uid jt = u \<and> vi_acctoken jt = t)" for v u t
    using assms(1) unfolding registers_def assms(3) by (cases "v = vi_vid it") (simp; metis option.inject)+
  with assms(2) show ?thesis unfolding registers_def by blast
qed

lemma add_vehicle_new:
  assumes "registers s M" and "M vid = None" and "\<And>v t. M v \<noteq> Some (uid, t)"
  shows "\<exists>a s'. add_vehicle s vid tok uid = Some (Some a, s') \<and> registers s' (M(vid \<mapsto> (uid, tok))) \<and>
    vm_items s' a = Some \<lparr>vi_uid = uid, vi_vid = vid, vi_acctoken = tok\<rparr>"
proof -
  let ?it = "\<lparr>vi_uid = uid, vi_vid = vid, vi_acctoken = tok\<rparr>"
  note inv = registersD(1) [OF assms(1)]
  obtain a s1 where new: "new_vehicle_item s ?it = (a, s1)" by fastforce
  note n = new_vehicle_item_index [OF inv new]
  have other: "vi_vid jt \<noteq> vid \<and> vi_uid jt \<noteq> uid" if "vm_items s b = Some jt" for b jt
    using registersD(3) [OF assms(1) that] assms(2,3) by auto
  have keys: "uid_of s1 a = uid" "vid_of s1 a = vid" using n(3) by (auto simp: uid_of_def vid_of_def)
  have "b \<noteq> a \<and> uid_of s1 b \<noteq> uid \<and> vid_of s1 b \<noteq> vid" if b: "b \<in> dom (vm_items s)" for b
  proof -
    obtain jt where jt: "vm_items s b = Some jt" using b by blast
    moreover have "b \<noteq> a" using b n(1) by auto
    ultimately show ?thesis using n(3) other [OF jt] by (simp add: uid_of_def vid_of_def)
  qed
  then have fresh: "uid_of s1 a \<notin> uid_of s1 ` dom (vm_items s)" "vid_of s1 a \<notin> vid_of s1 ` dom (vm_items s)"
    unfolding keys by blast+
  obtain h rt where u: "avl_insert (vm_uid_nodes s1) (vm_uid_tree s1) a (vehicle_uid_compare s1) = Some (h, rt, 0)"
      "indexed name_compare (uid_of s1) h rt (insert a (dom (vm_items s)))"
    using names.index_insert(2) [OF n(5) n(1) n(6) fresh(1)] unfolding vehicle_compare_eqs by blast
  obtain h' rt' where v: "avl_insert (vm_vin_nodes s1) (vm_vin_tree s1) a (vehicle_vin_compare s1) = Some (h', rt', 0)"
      "indexed name_compare (vid_of s1) h' rt' (insert a (dom (vm_items s)))"
    using names.index_insert(2) [OF n(7) n(1) n(8) fresh(2)] unfolding vehicle_compare_eqs by blast
  obtain xs where xs: "set xs = dom (vm_items s)" "ring (vm_list_nodes s1) (Owner 0) (map Member xs)" using n(9) by blast
  have "Member a \<notin> insert (Owner 0) (set (map Member xs))" using n(1) xs(1) by auto
  from ring_add [OF xs(2) this n(10)] obtain l where
    l: "listnode_add (vm_list_nodes s1) (Owner 0) (Member a) = Some l" "ring l (Owner 0) (map Member (xs @ [a]))" by auto
  define s' where "s' = s1\<lparr>vm_uid_nodes := h, vm_uid_tree := rt, vm_vin_nodes := h', vm_vin_tree := rt', vm_list_nodes := l\<rparr>"
  have items: "vm_items s' = (vm_items s)(a \<mapsto> ?it)" using n(3) by (simp add: s'_def)
  have "find_vehicle_vid s vid = Some None" using inv other by (intro find_vid_miss) auto
  then have "add_vehicle s vid tok uid = Some (Some a, s')"
    using new u(1) v(1) l(1) by (simp add: add_vehicle_def s'_def vehicle_compare_eqs)
  moreover have "vm_inv s'"
    unfolding vm_inv_def
  proof (intro conjI exI [of _ "xs @ [a]"])
    show "\<forall>b \<in> dom (vm_items s'). 0 < b \<and> b < vm_brk s'"
      using n(1-4) inv items new by (auto simp: s'_def vm_inv_def new_vehicle_item_def Let_def intro: less_SucI)
    have "dom (vm_items s') = insert a (dom (vm_items s))" by (simp add: items)
    then show "indexed name_compare (uid_of s') (vm_uid_nodes s') (vm_uid_tree s') (dom (vm_items s'))"
        "indexed name_compare (vid_of s') (vm_vin_nodes s') (vm_vin_tree s') (dom (vm_items s'))"
        "set (xs @ [a]) = dom (vm_items s')" using u(2) v(2) xs(1) by (auto simp: s'_def)
  qed (use n(4) l(2) in \<open>simp_all add: s'_def\<close>)
  ultimately show ?thesis using registers_insert [OF assms(1) _ items n(1)] assms(2) items by auto
qed

lemma add_vehicle_clash:
  assumes "registers s M" and "M vid = None" and "M v = Some (uid, t)"
  shows "\<exists>s'. add_vehicle s vid tok uid = Some (None, s') \<and> registers s' M"
proof -
  let ?it = "\<lparr>vi_uid = uid, vi_vid = vid, vi_acctoken = tok\<rparr>"
  note inv = registersD(1) [OF assms(1)]
  obtain a s1 where new: "new_vehicle_item s ?it = (a, s1)" by fastforce
  note n = new_vehicle_item_index [OF inv new]
  obtain b jt where b: "vm_items s b = Some jt" "vi_uid jt = uid" using registersD(2) [OF assms(1,3)] by blast
  have "b \<noteq> a" using b(1) n(1) by auto
  then have "uid_of s1 a = uid_of s1 b" using n(3) b by (simp add: uid_of_def)
  then have "uid_of s1 a \<in> uid_of s1 ` dom (vm_items s)" using b(1) by blast
  from names.index_insert(1) [OF n(5,1,6) this] have
    u: "avl_insert (vm_uid_nodes s1) (vm_uid_tree s1) a (vehicle_uid_compare s1) = Some (vm_uid_nodes s1, vm_uid_tree s1, 1)"
    by (simp only: vehicle_compare_eqs)
  have "find_vehicle_vid s vid = Some None"
    using registersD(3) [OF assms(1)] assms(2) by (intro find_vid_miss [OF inv]) auto
  then have add: "add_vehicle s vid tok uid = Some (None, delete_vehicle_item s1 a)"
    using new u by (simp add: add_vehicle_def)
  have items: "vm_items (delete_vehicle_item s1 a) = vm_items s" using n(1,3) by (auto simp: delete_vehicle_item_def)
  then have keys: "uid_of (delete_vehicle_item s1 a) = uid_of s" "vid_of (delete_vehicle_item s1 a) = vid_of s" by (auto simp: uid_of_def vid_of_def)
  have eqs: "a = vm_brk s" "vm_brk s1 = Suc a" "\<And>x. x \<noteq> a \<Longrightarrow> vm_uid_nodes (delete_vehicle_item s1 a) x = vm_uid_nodes s x"
      "\<And>x. x \<noteq> a \<Longrightarrow> vm_vin_nodes (delete_vehicle_item s1 a) x = vm_vin_nodes s x" "\<And>x. x \<noteq> Member a \<Longrightarrow> vm_list_nodes (delete_vehicle_item s1 a) x = vm_list_nodes s x"
      "vm_uid_tree (delete_vehicle_item s1 a) = vm_uid_tree s" "vm_vin_tree (delete_vehicle_item s1 a) = vm_vin_tree s"
    using new by (auto simp: delete_vehicle_item_def new_vehicle_item_def Let_def)
  have "vm_inv (delete_vehicle_item s1 a)"
    unfolding vm_inv_def items keys eqs(6,7)
  proof (intro conjI)
    show "0 < vm_brk (delete_vehicle_item s1 a)" "\<forall>b \<in> dom (vm_items s). 0 < b \<and> b < vm_brk (delete_vehicle_item s1 a)"
      using inv eqs(1,2) by (auto simp: vm_inv_def delete_vehicle_item_def intro: less_SucI)
    show "indexed name_compare (uid_of s) (vm_uid_nodes (delete_vehicle_item s1 a)) (vm_uid_tree s) (dom (vm_items s))"
      by (rule indexed_cong [of _ "uid_of s" "vm_uid_nodes s"]) (use inv n(1) in \<open>auto simp: vm_inv_def intro!: eqs(3)\<close>)
    show "indexed name_compare (vid_of s) (vm_vin_nodes (delete_vehicle_item s1 a)) (vm_vin_tree s) (dom (vm_items s))"
      by (rule indexed_cong [of _ "vid_of s" "vm_vin_nodes s"]) (use inv n(1) in \<open>auto simp: vm_inv_def intro!: eqs(4)\<close>)
    obtain xs where "set xs = dom (vm_items s)" "ring (vm_list_nodes s) (Owner 0) (map Member xs)" using inv by (auto simp: vm_inv_def)
    then show "\<exists>xs. set xs = dom (vm_items s) \<and> ring (vm_list_nodes (delete_vehicle_item s1 a)) (Owner 0) (map Member xs)"
      using n(1) by (intro exI [of _ xs]) (auto intro!: ring_cong [of "vm_list_nodes s"] eqs(5))
  qed
  with add assms(1) show ?thesis by (intro exI [of _ "delete_vehicle_item s1 a"]) (simp add: registers_def items)
qed

section \<open>Removal\<close>

lemma registers_remove:
  assumes "registers s M" and "vm_inv s'" and "vm_items s' = (vm_items s)(a := None)" and "vm_items s a = Some it"
  shows "registers s' (M(vi_vid it := None))"
proof -
  have unique: "b = a" if "vm_items s b = Some jt" "vi_vid jt = vi_vid it" for b jt
    using vm_inv_unique(1) [OF registersD(1) [OF assms(1)] that(1) assms(4) that(2)] .
  have eq: "vm_items s' b = Some jt \<longleftrightarrow> vm_items s b = Some jt \<and> vi_vid jt \<noteq> vi_vid it" for b jt
    using assms(4) unique [of b jt] unfolding assms(3) by (cases "b = a") auto
  have "M v = Some (u, t) \<longleftrightarrow>
      (\<exists>b jt. vm_items s b = Some jt \<and> vi_vid jt = v \<and> vi_uid jt = u \<and> vi_acctoken jt = t)" for v u t
    using assms(1) by (simp add: registers_def)
  then have "(M(vi_vid it := None)) v = Some (u, t) \<longleftrightarrow>
      (\<exists>b jt. vm_items s' b = Some jt \<and> vi_vid jt = v \<and> vi_uid jt = u \<and> vi_acctoken jt = t)" for v u t
    unfolding eq by (cases "v = vi_vid it") auto
  with assms(2) show ?thesis unfolding registers_def by blast
qed

lemma remove_vehicle_ok:
  assumes "registers s M" and "vm_items s a = Some it"
  shows "\<exists>s'. remove_vehicle s a = Some s' \<and> registers s' (M(vi_vid it := None))"
proof -
  note inv = registersD(1) [OF assms(1)]
  let ?A = "dom (vm_items s)"
  have a: "a \<in> ?A" "0 \<notin> ?A" using assms(2) inv by (auto simp: vm_inv_def)
  have idx: "indexed name_compare (uid_of s) (vm_uid_nodes s) (vm_uid_tree s) ?A"
      "indexed name_compare (vid_of s) (vm_vin_nodes s) (vm_vin_tree s) ?A" using inv by (simp_all add: vm_inv_def)
  obtain h rt where u: "avl_remove (vm_uid_nodes s) (vm_uid_tree s) a 0 = Some (h, rt)" "indexed name_compare (uid_of s) h rt (?A - {a})"
    using names.index_remove [OF idx(1) a] by blast
  obtain h' rt' where v: "avl_remove (vm_vin_nodes s) (vm_vin_tree s) a 0 = Some (h', rt')" "indexed name_compare (vid_of s) h' rt' (?A - {a})"
    using names.index_remove [OF idx(2) a] by blast
  obtain xs where xs: "set xs = ?A" "ring (vm_list_nodes s) (Owner 0) (map Member xs)" using inv by (auto simp: vm_inv_def)
  obtain ys zs where yz: "xs = ys @ a # zs" using a(1) xs(1) by (metis split_list)
  from ring_del [of "vm_list_nodes s" "Owner 0" "map Member ys" "Member a" "map Member zs"] xs(2) yz obtain l where
    l: "listnode_del (vm_list_nodes s) (Member a) = Some l" "ring l (Owner 0) (map Member (ys @ zs))" by auto
  have "distinct xs" using xs(2) by (auto simp: ring_def distinct_map)
  then have yzs: "set (ys @ zs) = ?A - {a}" using xs(1) yz by auto
  define s' where "s' = delete_vehicle_item (s\<lparr>vm_uid_nodes := h(0 := None), vm_uid_tree := rt, vm_vin_nodes := h'(0 := None),
    vm_vin_tree := rt', vm_list_nodes := l\<rparr>) a"
  have rem: "remove_vehicle s a = Some s'" using u(1) v(1) l(1) by (simp add: remove_vehicle_def s'_def)
  have items: "vm_items s' = (vm_items s)(a := None)" by (simp add: s'_def delete_vehicle_item_def)
  have dom: "dom (vm_items s') = ?A - {a}" by (simp add: items)
  have "vm_inv s'"
    unfolding vm_inv_def dom
  proof (intro conjI exI [of _ "ys @ zs"])
    show "0 < vm_brk s'" "\<forall>b \<in> ?A - {a}. 0 < b \<and> b < vm_brk s'" using inv by (auto simp: vm_inv_def s'_def delete_vehicle_item_def)
    show "indexed name_compare (uid_of s') (vm_uid_nodes s') (vm_uid_tree s') (?A - {a})"
    proof -
      have "vm_uid_tree s' = rt" by (simp add: s'_def delete_vehicle_item_def)
      then show ?thesis by (simp only:) (rule indexed_cong [OF u(2)]; use a(2) in \<open>auto simp: s'_def delete_vehicle_item_def uid_of_def\<close>)
    qed
    show "indexed name_compare (vid_of s') (vm_vin_nodes s') (vm_vin_tree s') (?A - {a})"
    proof -
      have "vm_vin_tree s' = rt'" by (simp add: s'_def delete_vehicle_item_def)
      then show ?thesis by (simp only:) (rule indexed_cong [OF v(2)]; use a(2) in \<open>auto simp: s'_def delete_vehicle_item_def vid_of_def\<close>)
    qed
    show "ring (vm_list_nodes s') (Owner 0) (map Member (ys @ zs))"
      by (rule ring_cong [OF l(2)]) (use yzs in \<open>auto simp: s'_def delete_vehicle_item_def\<close>)
  qed (rule yzs)
  from registers_remove [OF assms(1) this items assms(2)] rem show ?thesis by blast
qed

lemma remove_all_loop_ok:
  assumes "ring (vm_list_nodes s) (Owner 0) (map Member xs)"
  shows "\<exists>s'. remove_all_loop s = Some s' \<and> vm_items s' = (\<lambda>a. if a \<in> set xs then None else vm_items s a) \<and>
    vm_brk s' = vm_brk s \<and> ring (vm_list_nodes s') (Owner 0) []"
  using assms
proof (induction xs arbitrary: s)
  case Nil
  then show ?case using ring_isempty [OF Nil] by (intro exI [of _ s]) (simp add: remove_all_loop.simps)
next
  case (Cons a xs)
  have ring: "ring (vm_list_nodes s) (Owner 0) ([] @ Member a # map Member xs)" using Cons.prems by simp
  obtain n where n: "vm_list_nodes s (Owner 0) = Some n" "ln_next n = Some (Member a)" using Cons.prems by (auto simp: ring_def)
  obtain l where l: "listnode_del (vm_list_nodes s) (Member a) = Some l" "ring l (Owner 0) (map Member xs)"
    using ring_del [OF ring] by auto
  let ?s = "delete_vehicle_item (s\<lparr>vm_list_nodes := l\<rparr>) a"
  have "ring (vm_list_nodes ?s) (Owner 0) (map Member xs)"
    by (rule ring_cong [OF l(2)]) (use Cons.prems in \<open>auto simp: delete_vehicle_item_def ring_def\<close>)
  from Cons.IH [OF this] obtain s' where s': "remove_all_loop ?s = Some s'"
      "vm_items s' = (\<lambda>b. if b \<in> set xs then None else vm_items ?s b)" "vm_brk s' = vm_brk ?s" "ring (vm_list_nodes s') (Owner 0) []" by blast
  have "remove_all_loop s = Some s'"
    using ring_isempty [OF Cons.prems] n l(1) s'(1) by (subst remove_all_loop.simps) (simp add: list_entry_def)
  moreover have "vm_items s' = (\<lambda>b. if b \<in> set (a # xs) then None else vm_items s b)"
    unfolding s'(2) by (auto simp: delete_vehicle_item_def)
  ultimately show ?case using s'(3,4) by (auto simp: delete_vehicle_item_def)
qed

lemma remove_all_ok:
  assumes "vm_inv s"
  shows "\<exists>s'. remove_all_vehicle s = Some (0, s') \<and> registers s' Map.empty"
proof -
  obtain xs where xs: "set xs = dom (vm_items s)" "ring (vm_list_nodes s) (Owner 0) (map Member xs)"
    using assms by (auto simp: vm_inv_def)
  from remove_all_loop_ok [OF xs(2)] obtain s' where s': "remove_all_loop s = Some s'"
      "vm_items s' = (\<lambda>a. if a \<in> set xs then None else vm_items s a)" "vm_brk s' = vm_brk s" "ring (vm_list_nodes s') (Owner 0) []" by blast
  have "vm_items s' = Map.empty" using s'(2) xs(1) by auto
  with s'(1,3,4) assms show ?thesis by (simp add: remove_all_vehicle_def registers_def vm_inv_def)
qed

lemma ctor_ok: "\<exists>s. vehicle_mgr_ctor = Some s \<and> registers s Map.empty"
  by (simp add: vehicle_mgr_ctor_def listnode_init_def set_next_def set_prev_def registers_def vm_inv_def ring_def)

section \<open>Properties\<close>

lemma vid_lookup:
  assumes "registers s M"
  shows "case M v of None \<Rightarrow> find_vehicle_vid s v = Some None
    | Some (u, t) \<Rightarrow> \<exists>a it. find_vehicle_vid s v = Some (Some a) \<and> vm_items s a = Some it \<and> vi_vid it = v \<and> vi_uid it = u \<and> vi_acctoken it = t"
proof (cases "M v")
  case None
  then show ?thesis using registersD(3) [OF assms] find_vid_miss [OF registersD(1) [OF assms], of v] by fastforce
next
  case (Some p)
  obtain u t where p: "p = (u, t)" by fastforce
  then show ?thesis using registersD(2) [OF assms Some [unfolded p]] find_vid_hit [OF registersD(1) [OF assms]] Some by fastforce
qed

lemma register_ok:
  assumes "registers s M"
  shows "\<exists>rep s'. vehicle_register s vin req uid = Some (rep, s') \<and>
    (if rq_type req \<notin> {Vehicle, Junction_device}
     then rep = \<lparr>rp_status = Status_error, rp_access_token = None, rp_new_created = False\<rparr> \<and> s' = s
     else case M vin of
       Some (u, t) \<Rightarrow> rep = \<lparr>rp_status = Success, rp_access_token = Some u, rp_new_created = False\<rparr> \<and>
         registers s' (M(vin \<mapsto> (u, if rq_type req = Junction_device then t else rq_account_acstoken req)))
     | None \<Rightarrow>
         if \<exists>v t. M v = Some (uid, t)
         then rep = \<lparr>rp_status = Status_error, rp_access_token = None, rp_new_created = False\<rparr> \<and> registers s' M
         else rep = \<lparr>rp_status = Success, rp_access_token = Some uid, rp_new_created = True\<rparr> \<and>
           registers s' (M(vin \<mapsto> (uid, if rq_type req = Junction_device then [] else rq_account_acstoken req))))"
proof (cases "rq_type req \<in> {Vehicle, Junction_device}")
  case False
  then show ?thesis by (simp add: vehicle_register_def reply_token_def)
next
  case type: True
  show ?thesis
  proof (cases "M vin")
    case (Some p)
    obtain u t where p: "p = (u, t)" by fastforce
    then obtain a it where it: "find_vehicle_vid s vin = Some (Some a)" "vm_items s a = Some it" "vi_vid it = vin" "vi_uid it = u" "vi_acctoken it = t"
      using vid_lookup [OF assms, of vin] Some by auto
    have M: "M(vin \<mapsto> (u, t)) = M" using Some p by auto
    show ?thesis
    proof (cases "rq_type req = Junction_device")
      case True
      then have "vehicle_register s vin req uid = Some (\<lparr>rp_status = Success, rp_access_token = Some u, rp_new_created = False\<rparr>, s)"
        using it by (simp add: vehicle_register_def reply_token_def)
      then show ?thesis using assms type Some p M True by simp
    next
      case False
      let ?s = "s\<lparr>vm_items := (vm_items s)(a \<mapsto> it\<lparr>vi_acctoken := rq_account_acstoken req\<rparr>)\<rparr>"
      have "vehicle_register s vin req uid = Some (\<lparr>rp_status = Success, rp_access_token = Some u, rp_new_created = False\<rparr>, ?s)"
        using False type it by (simp add: vehicle_register_def reply_token_def)
      then show ?thesis using token_update [OF assms it(2), of "rq_account_acstoken req"] type Some p False it(3,4) by simp
    qed
  next
    case None
    then have miss: "find_vehicle_vid s vin = Some None" using vid_lookup [OF assms, of vin] by simp
    let ?tok = "if rq_type req = Junction_device then [] else rq_account_acstoken req"
    have tok: "(if rq_type req \<noteq> Junction_device then rq_account_acstoken req else []) = ?tok" by simp
    show ?thesis
    proof (cases "\<exists>v t. M v = Some (uid, t)")
      case True
      then obtain s' where add: "add_vehicle s vin ?tok uid = Some (None, s')" "registers s' M"
        using add_vehicle_clash [OF assms None] by blast
      then have "vehicle_register s vin req uid = Some (\<lparr>rp_status = Status_error, rp_access_token = None, rp_new_created = False\<rparr>, s')"
        using type miss unfolding vehicle_register_def tok by (auto simp: reply_token_def)
      then show ?thesis using type None True add(2) by simp
    next
      case False
      then obtain a s' where add: "add_vehicle s vin ?tok uid = Some (Some a, s')" "registers s' (M(vin \<mapsto> (uid, ?tok)))"
          "vm_items s' a = Some \<lparr>vi_uid = uid, vi_vid = vin, vi_acctoken = ?tok\<rparr>"
        using add_vehicle_new [OF assms None] by blast
      then have "vehicle_register s vin req uid = Some (\<lparr>rp_status = Success, rp_access_token = Some uid, rp_new_created = True\<rparr>, s')"
        using type miss unfolding vehicle_register_def tok by (auto simp: reply_token_def)
      then show ?thesis using type None False add(2) by simp
    qed
  qed
qed

text \<open>
  C17: Registration. The handler always answers. It refuses objects that are neither vehicles nor junction
  devices. A vehicle that is known gets its identifier again, and its account token is replaced unless
  the request comes from a junction device. A new vehicle is entered under the identifier drawn for
  it, unless another vehicle has that identifier: then the answer is an error and the registry stays
  as it is.
\<close>

theorem vehicle_register_spec:
  assumes "registers s M"
  shows "\<exists>rep s'. vehicle_register s vin req uid = Some (rep, s') \<and>
    (if rq_type req \<notin> {Vehicle, Junction_device}
     then rep = \<lparr>rp_status = Status_error, rp_access_token = None, rp_new_created = False\<rparr> \<and> s' = s
     else case M vin of
       Some (u, t) \<Rightarrow> rep = \<lparr>rp_status = Success, rp_access_token = Some u, rp_new_created = False\<rparr> \<and>
         registers s' (M(vin \<mapsto> (u, if rq_type req = Junction_device then t else rq_account_acstoken req)))
     | None \<Rightarrow>
         if \<exists>v t. M v = Some (uid, t)
         then rep = \<lparr>rp_status = Status_error, rp_access_token = None, rp_new_created = False\<rparr> \<and> registers s' M
         else rep = \<lparr>rp_status = Success, rp_access_token = Some uid, rp_new_created = True\<rparr> \<and>
           registers s' (M(vin \<mapsto> (uid, if rq_type req = Junction_device then [] else rq_account_acstoken req))))"
  using assms by (rule register_ok)

theorem vehicle_register_spec_witness:
  "\<exists>s rep s' M. vehicle_mgr_ctor = Some s \<and> registers s' M \<and> M = [''LSV1'' \<mapsto> (''a0f3'', ''acc'')] \<and>
     vehicle_register s ''LSV1'' \<lparr>rq_type = Vehicle, rq_account_acstoken = ''acc''\<rparr> ''a0f3'' = Some (rep, s') \<and>
     rep = \<lparr>rp_status = Success, rp_access_token = Some ''a0f3'', rp_new_created = True\<rparr>"
proof -
  obtain s where s: "vehicle_mgr_ctor = Some s" "registers s Map.empty" using ctor_ok by blast
  with vehicle_register_spec [OF s(2), of "''LSV1''" "\<lparr>rq_type = Vehicle, rq_account_acstoken = ''acc''\<rparr>" "''a0f3''"]
  show ?thesis by auto
qed

lemma uid_lookup:
  assumes "registers s M"
  shows "M v = Some (u, t) \<Longrightarrow> \<exists>a it. find_vehicle_uid s u = Some (Some a) \<and> vm_items s a = Some it \<and> vi_vid it = v"
    and "\<forall>v t. M v \<noteq> Some (u, t) \<Longrightarrow> find_vehicle_uid s u = Some None"
proof -
  show "\<exists>a it. find_vehicle_uid s u = Some (Some a) \<and> vm_items s a = Some it \<and> vi_vid it = v" if "M v = Some (u, t)"
    using registersD(2) [OF assms that] find_uid_hit [OF registersD(1) [OF assms]] by blast
  show "find_vehicle_uid s u = Some None" if "\<forall>v t. M v \<noteq> Some (u, t)"
    using that registersD(3) [OF assms] by (intro find_uid_miss [OF registersD(1) [OF assms]]) auto
qed

lemma lookup_remove_ok:
  assumes "registers s M"
  shows "if uid = [] then get_vehicle_id s uid = Some (- EBADPARM, None)
      else if \<exists>v t. M v = Some (uid, t) then \<exists>v t. M v = Some (uid, t) \<and> get_vehicle_id s uid = Some (0, Some v)
      else get_vehicle_id s uid = Some (- ENOTFOUND, None)"
    and "if \<exists>v t. M v = Some (uid, t)
      then \<exists>s' v t. remove_vehicle_by_uid s uid = Some (0, s') \<and> M v = Some (uid, t) \<and> registers s' (M(v := None))
      else remove_vehicle_by_uid s uid = Some (- ENOTFOUND, s)"
    and "if M vin = None then remove_vehicle_by_vid s vin = Some (- ENOTFOUND, s)
      else \<exists>s'. remove_vehicle_by_vid s vin = Some (0, s') \<and> registers s' (M(vin := None))"
proof -
  show "if uid = [] then get_vehicle_id s uid = Some (- EBADPARM, None)
      else if \<exists>v t. M v = Some (uid, t) then \<exists>v t. M v = Some (uid, t) \<and> get_vehicle_id s uid = Some (0, Some v)
      else get_vehicle_id s uid = Some (- ENOTFOUND, None)"
  proof (cases "\<exists>v t. M v = Some (uid, t)")
    case True
    then show ?thesis using uid_lookup(1) [OF assms, of _ uid] by (fastforce simp: get_vehicle_id_def)
  next
    case False
    then show ?thesis using uid_lookup(2) [OF assms, of uid] by (simp add: get_vehicle_id_def)
  qed
  show "if \<exists>v t. M v = Some (uid, t)
      then \<exists>s' v t. remove_vehicle_by_uid s uid = Some (0, s') \<and> M v = Some (uid, t) \<and> registers s' (M(v := None))
      else remove_vehicle_by_uid s uid = Some (- ENOTFOUND, s)"
  proof (cases "\<exists>v t. M v = Some (uid, t)")
    case True
    then obtain v t a it where v: "M v = Some (uid, t)" "find_vehicle_uid s uid = Some (Some a)" "vm_items s a = Some it" "vi_vid it = v"
      using uid_lookup(1) [OF assms, of _ uid] by blast
    then obtain s' where "remove_vehicle s a = Some s'" "registers s' (M(v := None))" using remove_vehicle_ok [OF assms v(3)] by blast
    with v True show ?thesis by (auto simp: remove_vehicle_by_uid_def)
  next
    case False
    then show ?thesis using uid_lookup(2) [OF assms, of uid] by (simp add: remove_vehicle_by_uid_def)
  qed
  show "if M vin = None then remove_vehicle_by_vid s vin = Some (- ENOTFOUND, s)
      else \<exists>s'. remove_vehicle_by_vid s vin = Some (0, s') \<and> registers s' (M(vin := None))"
    using vid_lookup [OF assms, of vin] remove_vehicle_ok [OF assms]
    by (fastforce simp: remove_vehicle_by_vid_def split: option.splits)
qed

text \<open>
  Lookup and removal. An identifier finds the vehicle it was given to, the empty one is refused and an
  unknown one is reported; removal by either key deletes exactly that vehicle, or reports that there is
  none; removing all vehicles ends and leaves an empty registry.
\<close>

theorem vehicle_lookup_remove:
  assumes "registers s M"
  shows "(if uid = [] then get_vehicle_id s uid = Some (- EBADPARM, None)
      else if \<exists>v t. M v = Some (uid, t) then \<exists>v t. M v = Some (uid, t) \<and> get_vehicle_id s uid = Some (0, Some v)
      else get_vehicle_id s uid = Some (- ENOTFOUND, None)) \<and>
    (if \<exists>v t. M v = Some (uid, t)
      then \<exists>s' v t. remove_vehicle_by_uid s uid = Some (0, s') \<and> M v = Some (uid, t) \<and> registers s' (M(v := None))
      else remove_vehicle_by_uid s uid = Some (- ENOTFOUND, s)) \<and>
    (if M vin = None then remove_vehicle_by_vid s vin = Some (- ENOTFOUND, s)
      else \<exists>s'. remove_vehicle_by_vid s vin = Some (0, s') \<and> registers s' (M(vin := None))) \<and>
    (\<exists>s'. remove_all_vehicle s = Some (0, s') \<and> registers s' Map.empty)"
  by (intro conjI lookup_remove_ok [OF assms] remove_all_ok [OF registersD(1) [OF assms]])

theorem vehicle_lookup_remove_witness:
  "\<exists>s. vehicle_mgr_ctor = Some s \<and> get_vehicle_id s ''a0f3'' = Some (- ENOTFOUND, None) \<and> get_vehicle_id s [] = Some (- EBADPARM, None) \<and>
     remove_vehicle_by_vid s ''LSV1'' = Some (- ENOTFOUND, s)"
proof -
  obtain s where s: "vehicle_mgr_ctor = Some s" "registers s Map.empty" using ctor_ok by blast
  with vehicle_lookup_remove [OF s(2), of "''a0f3''" "''LSV1''"] vehicle_lookup_remove [OF s(2), of "[]" "''LSV1''"]
  show ?thesis by auto
qed

section \<open>Sequences of requests\<close>

inductive vm_step :: "vehicle_mgr \<Rightarrow> vehicle_mgr \<Rightarrow> bool" where
  register: "vehicle_register s vin req uid = Some (rp, s') \<Longrightarrow> vm_step s s'"
| remove_uid: "remove_vehicle_by_uid s uid = Some (r, s') \<Longrightarrow> vm_step s s'"
| remove_vid: "remove_vehicle_by_vid s vin = Some (r, s') \<Longrightarrow> vm_step s s'"
| remove_all: "remove_all_vehicle s = Some (r, s') \<Longrightarrow> vm_step s s'"

inductive vm_reachable :: "vehicle_mgr \<Rightarrow> bool" where
  start: "vehicle_mgr_ctor = Some s \<Longrightarrow> vm_reachable s"
| step: "\<lbrakk>vm_reachable s; vm_step s s'\<rbrakk> \<Longrightarrow> vm_reachable s'"

lemma vm_step_registers:
  assumes "vm_step s s'" and "registers s M"
  shows "\<exists>M'. registers s' M'"
  using assms
proof cases
  case (register vin req uid rp)
  show ?thesis
    using register_ok [OF assms(2), of vin req uid] register assms(2) by (auto split: if_splits option.splits)
next
  case (remove_uid uid r)
  then show ?thesis using lookup_remove_ok(2) [OF assms(2), of uid] assms(2) by (auto split: if_splits)
next
  case (remove_vid vin r)
  then show ?thesis using lookup_remove_ok(3) [OF assms(2), of vin] assms(2) by (auto split: if_splits)
next
  case (remove_all r)
  then show ?thesis using remove_all_ok [OF registersD(1) [OF assms(2)]] by auto
qed

lemma vm_reachable_registers: "vm_reachable s \<Longrightarrow> \<exists>M. registers s M"
proof (induction rule: vm_reachable.induct)
  case (start s)
  then show ?case using ctor_ok by (metis option.inject)
next
  case (step s s')
  then show ?case using vm_step_registers by blast
qed

text \<open>
  C18: In every state that requests can lead to, both trees, the list and the objects agree, no request
  fails an assertion or leaves the objects, and no two vehicles have the same identifier: each one leads
  back to its own vehicle.
\<close>

theorem vehicle_reachable_safe:
  assumes "vm_reachable s"
  shows "vm_inv s \<and> (\<forall>vin req uid. vehicle_register s vin req uid \<noteq> None) \<and>
    (\<forall>uid. remove_vehicle_by_uid s uid \<noteq> None \<and> remove_vehicle_by_vid s uid \<noteq> None) \<and> remove_all_vehicle s \<noteq> None \<and>
    (\<forall>a it. vm_items s a = Some it \<and> vi_uid it \<noteq> [] \<longrightarrow> get_vehicle_id s (vi_uid it) = Some (0, Some (vi_vid it)))"
proof -
  obtain M where M: "registers s M" using vm_reachable_registers [OF assms] by blast
  note inv = registersD(1) [OF M]
  have "vehicle_register s vin req uid \<noteq> None" for vin req uid using register_ok [OF M, of vin req uid] by blast
  moreover have "remove_vehicle_by_uid s uid \<noteq> None" "remove_vehicle_by_vid s uid \<noteq> None" for uid
    using lookup_remove_ok(2) [OF M, of uid] lookup_remove_ok(3) [OF M, of uid] by (auto split: if_splits)
  moreover have "remove_all_vehicle s \<noteq> None" using remove_all_ok [OF inv] by blast
  moreover have "get_vehicle_id s (vi_uid it) = Some (0, Some (vi_vid it))" if "vm_items s a = Some it" "vi_uid it \<noteq> []" for a it
    using find_uid_hit [OF inv that(1)] that by (simp add: get_vehicle_id_def)
  ultimately show ?thesis using inv by blast
qed

theorem vehicle_reachable_safe_witness: "\<exists>s. vehicle_mgr_ctor = Some s \<and> vm_inv s \<and> remove_all_vehicle s \<noteq> None"
proof -
  obtain s where s: "vehicle_mgr_ctor = Some s" using ctor_ok by blast
  with vehicle_reachable_safe [OF vm_reachable.start [OF s]] show ?thesis by blast
qed

end
