(* ===== verification/Endpoint_Mgr.thy ===== *)
theory Endpoint_Mgr
  imports Name_Index List_Node
begin

text \<open>
  The servers of the indexing service and their endpoints, \<^verbatim>\<open>server-endpoint-mgr.cpp\<close> of
  \<^verbatim>\<open>mec/vehicle-indexing\<close>: a tree and a list of servers, and for each server a tree and a list of endpoints,
  with reference counts and the number of vehicles each endpoint serves. The tree nodes of servers and those
  of endpoints stand in two heaps, all list nodes in a third, by the address of the object they
  are members of; the head of a server's list of endpoints is owned by the server. Address 0 is the local
  variable of \<^verbatim>\<open>avl_remove\<close>. The result \<open>None\<close> is a failed assertion or an access to an invalid address.
\<close>

record server_item =
  si_name :: string
  si_veh_max_cnt :: u64
  si_expiry :: u64
  si_endpoints_tree :: ptr

record server_endpoint =
  se_identity :: string
  se_server :: ptr
  se_veh_cnt :: u64
  se_refcnt :: int
  se_status :: int

record server_endpoint_mgr =
  em_items :: "nat \<Rightarrow> server_item option"
  em_points :: "nat \<Rightarrow> server_endpoint option"
  em_item_nodes :: avl_heap
  em_point_nodes :: avl_heap
  em_lists :: "list_addr list_heap"
  em_server_tree :: ptr
  em_brk :: nat

text \<open>
  The system configuration: \<open>cf_string\<close> is the error code for a path that should hold a string, \<open>cf_number\<close> the
  number at a path, given the default.
\<close>

record sysconfig =
  cf_string :: "string \<Rightarrow> int"
  cf_number :: "string \<Rightarrow> int \<Rightarrow> int"

section \<open>Operations\<close>

definition server_endpoint_mgr_ctor :: "server_endpoint_mgr option" where
  "server_endpoint_mgr_ctor =
     do {
       l \<leftarrow> listnode_init [Owner 0 \<mapsto> \<lparr>ln_next = None, ln_prev = None\<rparr>] (Owner 0);
       Some \<lparr>em_items = Map.empty, em_points = Map.empty, em_item_nodes = Map.empty, em_point_nodes = Map.empty,
         em_lists = l, em_server_tree = None, em_brk = 1\<rparr>
     }"

definition name_of :: "server_endpoint_mgr \<Rightarrow> nat \<Rightarrow> string" where
  "name_of s a = (case em_items s a of None \<Rightarrow> [] | Some it \<Rightarrow> si_name it)"

definition identity_of :: "server_endpoint_mgr \<Rightarrow> nat \<Rightarrow> string" where
  "identity_of s b = (case em_points s b of None \<Rightarrow> [] | Some p \<Rightarrow> se_identity p)"

definition server_item_compare :: "server_endpoint_mgr \<Rightarrow> nat \<Rightarrow> nat \<Rightarrow> int" where
  "server_item_compare s a b = name_compare (name_of s a) (name_of s b)"

definition server_endpoint_compare :: "server_endpoint_mgr \<Rightarrow> nat \<Rightarrow> nat \<Rightarrow> int" where
  "server_endpoint_compare s a b = name_compare (identity_of s a) (identity_of s b)"

definition find_server_item :: "server_endpoint_mgr \<Rightarrow> string \<Rightarrow> ptr option" where
  "find_server_item s name = avl_find (em_item_nodes s) (em_server_tree s) name (\<lambda>k b. name_compare k (name_of s b))"

definition find_endpoint :: "server_endpoint_mgr \<Rightarrow> nat \<Rightarrow> string \<Rightarrow> ptr option" where
  "find_endpoint s item identity =
     do {
       it \<leftarrow> em_items s item;
       avl_find (em_point_nodes s) (si_endpoints_tree it) identity (\<lambda>k b. name_compare k (identity_of s b))
     }"

definition zero_node :: avl_node where
  "zero_node = \<lparr>avl_balance = 0, avl_child_index = 0, avl_child0 = None, avl_child1 = None, avl_parent = None\<rparr>"

definition zero_listnode :: "list_addr listnode_t" where
  "zero_listnode = \<lparr>ln_next = None, ln_prev = None\<rparr>"

text \<open>\<^verbatim>\<open>new server_item()\<close> and \<^verbatim>\<open>delete\<close> of it: the object with its tree node, its list node and the head of its list.\<close>

definition new_server_item :: "server_endpoint_mgr \<Rightarrow> server_item \<Rightarrow> nat \<times> server_endpoint_mgr" where
  "new_server_item s it =
     (let a = em_brk s
      in (a, s\<lparr>em_items := (em_items s)(a \<mapsto> it), em_item_nodes := (em_item_nodes s)(a \<mapsto> zero_node),
               em_lists := (em_lists s)(Member a \<mapsto> zero_listnode, Owner a \<mapsto> zero_listnode), em_brk := Suc a\<rparr>))"

definition delete_server_item :: "server_endpoint_mgr \<Rightarrow> nat \<Rightarrow> server_endpoint_mgr" where
  "delete_server_item s a =
     s\<lparr>em_items := (em_items s)(a := None), em_item_nodes := (em_item_nodes s)(a := None),
       em_lists := (em_lists s)(Member a := None, Owner a := None)\<rparr>"

definition new_endpoint :: "server_endpoint_mgr \<Rightarrow> server_endpoint \<Rightarrow> nat \<times> server_endpoint_mgr" where
  "new_endpoint s p =
     (let b = em_brk s
      in (b, s\<lparr>em_points := (em_points s)(b \<mapsto> p), em_point_nodes := (em_point_nodes s)(b \<mapsto> zero_node),
               em_lists := (em_lists s)(Member b \<mapsto> zero_listnode), em_brk := Suc b\<rparr>))"

definition delete_endpoint :: "server_endpoint_mgr \<Rightarrow> nat \<Rightarrow> server_endpoint_mgr" where
  "delete_endpoint s b =
     s\<lparr>em_points := (em_points s)(b := None), em_point_nodes := (em_point_nodes s)(b := None),
       em_lists := (em_lists s)(Member b := None)\<rparr>"

text \<open>
  \<^verbatim>\<open>init_server_info\<close>, with the prefix of the configuration path, the last part of the path of the maximum and
  its default. The value at \<^verbatim>\<open>keepalive.liveness\<close> overwrites the interval; the product is taken modulo
  2 to the power 64.
\<close>

definition init_server_info ::
  "sysconfig \<Rightarrow> string \<Rightarrow> string \<Rightarrow> int \<Rightarrow> server_endpoint_mgr \<Rightarrow> nat \<Rightarrow> (int \<times> server_endpoint_mgr) option" where
  "init_server_info cf prefix max_key max_cnt s a =
     do {
       it \<leftarrow> em_items s a;
       let rootpath = prefix @ si_name it @ ''.'';
       if cf_string cf (rootpath @ ''name'') \<noteq> 0 then Some (- ENOTEXISTS, s)
       else do {
         l \<leftarrow> listnode_init (em_lists s) (Owner a);
         let veh_max_cnt = (of_int (cf_number cf (rootpath @ max_key) max_cnt) :: u64);
         let interval = cf_number cf (rootpath @ ''keepalive.internal'') 2500;
         let liveness = (2500 :: u64);
         let interval = (of_int (cf_number cf (rootpath @ ''keepalive.liveness'') interval) :: u64);
         Some (0, s\<lparr>em_items := (em_items s)(a \<mapsto> it\<lparr>si_endpoints_tree := None, si_veh_max_cnt := veh_max_cnt,
                                                       si_expiry := liveness * interval\<rparr>), em_lists := l\<rparr>)
       }
     }"

definition add_server_item ::
  "sysconfig \<Rightarrow> string \<Rightarrow> string \<Rightarrow> int \<Rightarrow> server_endpoint_mgr \<Rightarrow> string \<Rightarrow> (ptr \<times> server_endpoint_mgr) option" where
  "add_server_item cf prefix max_key max_cnt s name =
     do {
       item \<leftarrow> find_server_item s name;
       if item \<noteq> None then Some (item, s)
       else do {
         let (a, s) = new_server_item s \<lparr>si_name = name, si_veh_max_cnt = 0, si_expiry = 0, si_endpoints_tree = None\<rparr>;
         (ret, s) \<leftarrow> init_server_info cf prefix max_key max_cnt s a;
         if ret \<noteq> 0 then Some (None, delete_server_item s a)
         else do {
           (h, rt, r) \<leftarrow> avl_insert (em_item_nodes s) (em_server_tree s) a (server_item_compare s);
           let s = s\<lparr>em_item_nodes := h, em_server_tree := rt\<rparr>;
           if r \<noteq> 0 then Some (None, delete_server_item s a)
           else do {
             l \<leftarrow> listnode_add (em_lists s) (Owner 0) (Member a);
             Some (Some a, s\<lparr>em_lists := l\<rparr>)
           }
         }
       }
     }"

definition add_endpoint ::
  "server_endpoint_mgr \<Rightarrow> ptr \<Rightarrow> string \<Rightarrow> u64 \<Rightarrow> (ptr \<times> server_endpoint_mgr) option" where
  "add_endpoint s item identity veh_cnt =
     (case item of
        None \<Rightarrow> Some (None, s)
      | Some a \<Rightarrow> do {
          node \<leftarrow> find_endpoint s a identity;
          if node \<noteq> None then Some (node, s)
          else do {
            let (b, s) = new_endpoint s \<lparr>se_identity = identity, se_server = item, se_veh_cnt = veh_cnt, se_refcnt = 1, se_status = 1\<rparr>;
            it \<leftarrow> em_items s a;
            (h, rt, r) \<leftarrow> avl_insert (em_point_nodes s) (si_endpoints_tree it) b (server_endpoint_compare s);
            let s = s\<lparr>em_point_nodes := h, em_items := (em_items s)(a \<mapsto> it\<lparr>si_endpoints_tree := rt\<rparr>)\<rparr>;
            if r \<noteq> 0 then Some (None, delete_endpoint s b)
            else do {
              l \<leftarrow> listnode_add (em_lists s) (Owner a) (Member b);
              Some (Some b, s\<lparr>em_lists := l\<rparr>)
            }
          }
        })"

definition addref :: "server_endpoint_mgr \<Rightarrow> nat \<Rightarrow> (int \<times> server_endpoint_mgr) option" where
  "addref s b =
     do {
       p \<leftarrow> em_points s b;
       Some (se_refcnt p, s\<lparr>em_points := (em_points s)(b \<mapsto> p\<lparr>se_refcnt := se_refcnt p + 1\<rparr>)\<rparr>)
     }"

definition release :: "server_endpoint_mgr \<Rightarrow> nat \<Rightarrow> (int \<times> server_endpoint_mgr) option" where
  "release s b =
     do {
       p \<leftarrow> em_points s b;
       let cnt = se_refcnt p;
       let s = s\<lparr>em_points := (em_points s)(b \<mapsto> p\<lparr>se_refcnt := cnt - 1\<rparr>)\<rparr>;
       Some (cnt, if cnt = 0 then delete_endpoint s b else s)
     }"

text \<open>The part that \<^verbatim>\<open>remove_endpoint\<close> and \<^verbatim>\<open>remove_server_item\<close> share: unlink an endpoint and drop the reference.\<close>

definition unlink_endpoint :: "server_endpoint_mgr \<Rightarrow> nat \<Rightarrow> nat \<Rightarrow> server_endpoint_mgr option" where
  "unlink_endpoint s a b =
     do {
       it \<leftarrow> em_items s a;
       (h, rt) \<leftarrow> avl_remove (em_point_nodes s) (si_endpoints_tree it) b 0;
       l \<leftarrow> listnode_del (em_lists s) (Member b);
       p \<leftarrow> em_points s b;
       let s = s\<lparr>em_point_nodes := h(0 := None), em_items := (em_items s)(a \<mapsto> it\<lparr>si_endpoints_tree := rt\<rparr>), em_lists := l,
                 em_points := (em_points s)(b \<mapsto> p\<lparr>se_server := None\<rparr>)\<rparr>;
       (cnt, s) \<leftarrow> release s b;
       Some s
     }"

definition remove_endpoint :: "server_endpoint_mgr \<Rightarrow> nat \<Rightarrow> string \<Rightarrow> (int \<times> server_endpoint_mgr) option" where
  "remove_endpoint s a identity =
     do {
       node \<leftarrow> find_endpoint s a identity;
       case node of None \<Rightarrow> Some (- ENOTFOUND, s) | Some b \<Rightarrow> do { s \<leftarrow> unlink_endpoint s a b; Some (0, s) }
     }"

partial_function (option) unlink_all :: "server_endpoint_mgr \<Rightarrow> nat \<Rightarrow> server_endpoint_mgr option" where
  "unlink_all s a =
     do {
       e \<leftarrow> listnode_isempty (em_lists s) (Owner a);
       if e then Some s
       else do {
         n \<leftarrow> em_lists s (Owner a);
         b \<leftarrow> list_entry (ln_next n);
         s \<leftarrow> unlink_endpoint s a b;
         unlink_all s a
       }
     }"

definition remove_server_item :: "server_endpoint_mgr \<Rightarrow> ptr \<Rightarrow> (int \<times> server_endpoint_mgr) option" where
  "remove_server_item s item =
     (case item of
        None \<Rightarrow> Some (- EBADPARM, s)
      | Some a \<Rightarrow> do {
          s \<leftarrow> unlink_all s a;
          it \<leftarrow> em_items s a;
          let s = s\<lparr>em_items := (em_items s)(a \<mapsto> it\<lparr>si_endpoints_tree := None\<rparr>)\<rparr>;
          (h, rt) \<leftarrow> avl_remove (em_item_nodes s) (em_server_tree s) a 0;
          l \<leftarrow> listnode_del (em_lists s) (Member a);
          Some (0, delete_server_item (s\<lparr>em_item_nodes := h(0 := None), em_server_tree := rt, em_lists := l\<rparr>) a)
        })"

text \<open>
  \<^verbatim>\<open>release_all_nodes\<close> as it is written: the loop runs while the list is empty, and the entry of the list's
  head is no server.
\<close>

partial_function (option) release_all_loop :: "server_endpoint_mgr \<Rightarrow> server_endpoint_mgr option" where
  "release_all_loop s =
     do {
       e \<leftarrow> listnode_isempty (em_lists s) (Owner 0);
       if \<not> e then Some s
       else do {
         n \<leftarrow> em_lists s (Owner 0);
         a \<leftarrow> list_entry (ln_next n);
         (r, s) \<leftarrow> remove_server_item s (Some a);
         release_all_loop s
       }
     }"

definition release_all_nodes :: "server_endpoint_mgr \<Rightarrow> (int \<times> server_endpoint_mgr) option" where
  "release_all_nodes s = do { s \<leftarrow> release_all_loop s; Some (0, s\<lparr>em_server_tree := None\<rparr>) }"

text \<open>The public operations. The arguments of type \<^verbatim>\<open>const char*\<close> are \<open>None\<close> for the null pointer.\<close>

definition add_server_endpoint ::
  "sysconfig \<Rightarrow> server_endpoint_mgr \<Rightarrow> string option \<Rightarrow> string option \<Rightarrow> u64 \<Rightarrow> (ptr \<times> server_endpoint_mgr) option" where
  "add_server_endpoint cf s svr_name identity veh_cnt =
     (if svr_name \<in> {None, Some []} \<or> identity \<in> {None, Some []} then Some (None, s)
      else do {
        item \<leftarrow> find_server_item s (the svr_name);
        (item, s) \<leftarrow> (if item = None
          then add_server_item cf ''indexing-service.service.'' ''max-vehicle-count'' 10000 s (the svr_name) else Some (item, s));
        a \<leftarrow> item;
        node \<leftarrow> find_endpoint s a (the identity);
        if node \<noteq> None then Some (node, s) else add_endpoint s item (the identity) veh_cnt
      })"

definition find_server_endpoint :: "server_endpoint_mgr \<Rightarrow> string option \<Rightarrow> string option \<Rightarrow> ptr option" where
  "find_server_endpoint s svr_name identity =
     (if svr_name \<in> {None, Some []} \<or> identity \<in> {None, Some []} then Some None
      else do {
        item \<leftarrow> find_server_item s (the svr_name);
        case item of None \<Rightarrow> Some None | Some a \<Rightarrow> find_endpoint s a (the identity)
      })"

text \<open>The loop of \<^verbatim>\<open>alloc_server_endpoint_to_vehicle\<close> over the list; \<open>min_veh_cnt\<close> has 32 bits.\<close>

fun alloc_scan ::
  "(nat \<Rightarrow> server_endpoint option) \<Rightarrow> ptr \<Rightarrow> list_addr list \<Rightarrow> u32 \<Rightarrow> ptr \<Rightarrow> ptr option" where
  "alloc_scan P node [] min_veh_cnt alloc_point = Some alloc_point"
| "alloc_scan P node (nd # nds) min_veh_cnt alloc_point =
     do {
       b \<leftarrow> list_entry (Some nd);
       point \<leftarrow> P b;
       if se_status point \<noteq> 1 then alloc_scan P node nds min_veh_cnt alloc_point
       else if se_veh_cnt point < ucast min_veh_cnt then
         (if node = Some b then alloc_scan P node nds min_veh_cnt alloc_point
          else alloc_scan P node nds (ucast (se_veh_cnt point)) (Some b))
       else alloc_scan P node nds min_veh_cnt alloc_point
     }"

text \<open>The handle that is returned holds a reference.\<close>

definition alloc_server_endpoint_to_vehicle ::
  "server_endpoint_mgr \<Rightarrow> string \<Rightarrow> ptr \<Rightarrow> (ptr \<times> server_endpoint_mgr) option" where
  "alloc_server_endpoint_to_vehicle s svr_name master =
     do {
       item \<leftarrow> find_server_item s svr_name;
       case item of
         None \<Rightarrow> Some (None, s)
       | Some a \<Rightarrow> do {
           e \<leftarrow> listnode_isempty (em_lists s) (Owner a);
           if e then Some (None, s)
           else do {
             it \<leftarrow> em_items s a;
             nds \<leftarrow> list_nodes (em_lists s) (Owner a);
             alloc_point \<leftarrow> alloc_scan (em_points s) master nds (ucast (si_veh_max_cnt it)) None;
             case alloc_point of
               None \<Rightarrow> Some (None, s)
             | Some b \<Rightarrow> do {
                 p \<leftarrow> em_points s b;
                 (_, s) \<leftarrow> addref (s\<lparr>em_points := (em_points s)(b \<mapsto> p\<lparr>se_veh_cnt := se_veh_cnt p + 1\<rparr>)\<rparr>) b;
                 Some (alloc_point, s)
               }
           }
         }
     }"

section \<open>The invariant\<close>

text \<open>The endpoints of a server, and what its tree and its list have to say about them.\<close>

definition members :: "server_endpoint_mgr \<Rightarrow> nat \<Rightarrow> nat set" where
  "members s a = {b. \<exists>p. em_points s b = Some p \<and> se_server p = Some a}"

definition server_ok :: "server_endpoint_mgr \<Rightarrow> nat \<Rightarrow> server_item \<Rightarrow> bool" where
  "server_ok s a it \<longleftrightarrow>
     indexed name_compare (identity_of s) (em_point_nodes s) (si_endpoints_tree it) (members s a) \<and>
     (\<exists>ys. set ys = members s a \<and> ring (em_lists s) (Owner a) (map Member ys))"

definition servers_ok :: "server_endpoint_mgr \<Rightarrow> bool" where
  "servers_ok s \<longleftrightarrow>
     indexed name_compare (name_of s) (em_item_nodes s) (em_server_tree s) (dom (em_items s)) \<and>
     (\<exists>xs. set xs = dom (em_items s) \<and> ring (em_lists s) (Owner 0) (map Member xs))"

definition addresses_ok :: "server_endpoint_mgr \<Rightarrow> bool" where
  "addresses_ok s \<longleftrightarrow> 0 < em_brk s \<and> (\<forall>a \<in> dom (em_items s) \<union> dom (em_points s). 0 < a \<and> a < em_brk s) \<and>
     dom (em_items s) \<inter> dom (em_points s) = {} \<and>
     (\<forall>b p a. em_points s b = Some p \<and> se_server p = Some a \<longrightarrow> a \<in> dom (em_items s))"

definition em_inv :: "server_endpoint_mgr \<Rightarrow> bool" where
  "em_inv s \<longleftrightarrow> addresses_ok s \<and> servers_ok s \<and> (\<forall>a it. em_items s a = Some it \<longrightarrow> server_ok s a it)"

lemma em_invD:
  assumes "em_inv s"
  shows "addresses_ok s" "servers_ok s" "em_items s a = Some it \<Longrightarrow> server_ok s a it"
  using assms by (simp_all add: em_inv_def)

lemma members_points: "members s a \<subseteq> dom (em_points s)"
  by (auto simp: members_def)

lemma members_disjoint: "\<lbrakk>b \<in> members s a; b \<in> members s a'\<rbrakk> \<Longrightarrow> a = a'"
  by (auto simp: members_def)

lemma name_of_item [simp]: "em_items s a = Some it \<Longrightarrow> name_of s a = si_name it"
  by (simp add: name_of_def)

lemma identity_of_point [simp]: "em_points s b = Some p \<Longrightarrow> identity_of s b = se_identity p"
  by (simp add: identity_of_def)

lemma endpoint_compare_eqs:
  "server_item_compare s = (\<lambda>x y. name_compare (name_of s x) (name_of s y))"
  "server_endpoint_compare s = (\<lambda>x y. name_compare (identity_of s x) (identity_of s y))"
  by (simp_all add: server_item_compare_def server_endpoint_compare_def fun_eq_iff)

text \<open>What a server needs of the state: the nodes of its endpoints, their identities, and its list.\<close>

lemma server_ok_cong:
  assumes "server_ok s a it" and "si_endpoints_tree it' = si_endpoints_tree it" and "members s' a = members s a"
    and "\<And>b. b \<in> members s a \<Longrightarrow> em_point_nodes s' b = em_point_nodes s b \<and> identity_of s' b = identity_of s b"
    and "\<And>x. x \<in> insert (Owner a) (Member ` members s a) \<Longrightarrow> em_lists s' x = em_lists s x"
  shows "server_ok s' a it'"
proof -
  obtain ys where ys: "set ys = members s a" "ring (em_lists s) (Owner a) (map Member ys)" using assms(1) by (auto simp: server_ok_def)
  have "ring (em_lists s') (Owner a) (map Member ys)" by (rule ring_cong [OF ys(2)]) (use ys(1) assms(5) in auto)
  moreover have "indexed name_compare (identity_of s') (em_point_nodes s') (si_endpoints_tree it') (members s a)"
    unfolding assms(2) by (rule indexed_cong [of _ "identity_of s" "em_point_nodes s"]) (use assms(1,4) in \<open>auto simp: server_ok_def\<close>)
  ultimately show ?thesis unfolding server_ok_def assms(3) using ys(1) by blast
qed

lemma servers_ok_cong:
  assumes "servers_ok s" and "dom (em_items s') = dom (em_items s)" and "em_server_tree s' = em_server_tree s"
    and "\<And>a. a \<in> dom (em_items s) \<Longrightarrow> em_item_nodes s' a = em_item_nodes s a \<and> name_of s' a = name_of s a"
    and "\<And>x. x \<in> insert (Owner 0) (Member ` dom (em_items s)) \<Longrightarrow> em_lists s' x = em_lists s x"
  shows "servers_ok s'"
proof -
  obtain xs where xs: "set xs = dom (em_items s)" "ring (em_lists s) (Owner 0) (map Member xs)" using assms(1) by (auto simp: servers_ok_def)
  have "ring (em_lists s') (Owner 0) (map Member xs)" by (rule ring_cong [OF xs(2)]) (use xs(1) assms(5) in auto)
  moreover have "indexed name_compare (name_of s') (em_item_nodes s') (em_server_tree s') (dom (em_items s))"
    unfolding assms(3) by (rule indexed_cong [of _ "name_of s" "em_item_nodes s"]) (use assms(1,4) in \<open>auto simp: servers_ok_def\<close>)
  ultimately show ?thesis unfolding servers_ok_def assms(2) using xs(1) by blast
qed

section \<open>Lookup\<close>

lemma find_server_hit: "\<lbrakk>em_inv s; em_items s a = Some it\<rbrakk> \<Longrightarrow> find_server_item s (si_name it) = Some (Some a)"
  using names.index_find(1) [of "name_of s" "em_item_nodes s" "em_server_tree s" "dom (em_items s)" a]
  by (auto simp: em_inv_def servers_ok_def find_server_item_def)

lemma find_server_cases:
  assumes "em_inv s"
  obtains (found) a it where "find_server_item s name = Some (Some a)" "em_items s a = Some it" "si_name it = name"
  | (missing) "find_server_item s name = Some None" "name \<notin> name_of s ` dom (em_items s)"
proof (cases "\<exists>a it. em_items s a = Some it \<and> si_name it = name")
  case True
  then show ?thesis using find_server_hit [OF assms] found by blast
next
  case False
  then have "name \<notin> name_of s ` dom (em_items s)" by fastforce
  moreover from this have "find_server_item s name = Some None"
    using em_invD(2) [OF assms] unfolding find_server_item_def servers_ok_def by (blast intro: names.index_find(2))
  ultimately show ?thesis using missing by blast
qed

lemma find_endpoint_cases:
  assumes "em_inv s" and "em_items s a = Some it"
  obtains (found) b p where "find_endpoint s a identity = Some (Some b)" "em_points s b = Some p" "se_server p = Some a" "se_identity p = identity"
  | (missing) "find_endpoint s a identity = Some None" "identity \<notin> identity_of s ` members s a"
proof -
  have idx: "indexed name_compare (identity_of s) (em_point_nodes s) (si_endpoints_tree it) (members s a)"
    using em_invD(3) [OF assms] by (simp add: server_ok_def)
  show ?thesis
  proof (cases "identity \<in> identity_of s ` members s a")
    case True
    then obtain b where b: "b \<in> members s a" "identity = identity_of s b" by blast
    then obtain p where p: "em_points s b = Some p" "se_server p = Some a" by (auto simp: members_def)
    have "find_endpoint s a identity = Some (Some b)"
      using names.index_find(1) [OF idx b(1)] assms(2) b(2) by (simp add: find_endpoint_def)
    then show ?thesis using found p b(2) by simp
  next
    case False
    then have "find_endpoint s a identity = Some None" using names.index_find(2) [OF idx False] assms(2) by (simp add: find_endpoint_def)
    then show ?thesis using False missing by blast
  qed
qed

section \<open>Allocation\<close>

definition eligible :: "(nat \<Rightarrow> server_endpoint option) \<Rightarrow> ptr \<Rightarrow> nat \<Rightarrow> bool" where
  "eligible P node b \<longleftrightarrow> (case P b of None \<Rightarrow> False | Some p \<Rightarrow> se_status p = 1) \<and> node \<noteq> Some b"

definition veh_load :: "(nat \<Rightarrow> server_endpoint option) \<Rightarrow> nat \<Rightarrow> u64" where
  "veh_load P b = (case P b of None \<Rightarrow> 0 | Some p \<Rightarrow> se_veh_cnt p)"

text \<open>\<open>b\<close> is the first among the eligible endpoints with the least veh_load.\<close>

definition least_loaded :: "(nat \<Rightarrow> server_endpoint option) \<Rightarrow> ptr \<Rightarrow> nat list \<Rightarrow> nat \<Rightarrow> bool" where
  "least_loaded P node ys b \<longleftrightarrow> (\<exists>us vs. ys = us @ b # vs \<and> eligible P node b \<and>
     (\<forall>x \<in> set us. eligible P node x \<longrightarrow> veh_load P b < veh_load P x) \<and> (\<forall>x \<in> set vs. eligible P node x \<longrightarrow> veh_load P b \<le> veh_load P x))"

lemma ucast_below: "(x :: u64) < ucast (m :: u32) \<Longrightarrow> ucast (ucast x :: u32) = x"
proof -
  assume "x < ucast m"
  moreover have m: "unat m < 2 ^ 32" using unsigned_less [of m, where ?'a = nat] by simp
  ultimately have "unat x < 2 ^ 32" by (simp add: word_less_nat_alt unsigned_ucast_eq take_bit_nat_eq_self)
  then show ?thesis by (intro word_unat_eq_iff [THEN iffD2]) (simp add: unsigned_ucast_eq unsigned_take_bit_eq take_bit_nat_eq_self)
qed

lemma least_loaded_Cons:
  assumes "least_loaded P node ys b" and "eligible P node x \<Longrightarrow> veh_load P b < veh_load P x"
  shows "least_loaded P node (x # ys) b"
proof -
  from assms(1) obtain us vs where u: "ys = us @ b # vs" "eligible P node b"
      "\<forall>x \<in> set us. eligible P node x \<longrightarrow> veh_load P b < veh_load P x" "\<forall>x \<in> set vs. eligible P node x \<longrightarrow> veh_load P b \<le> veh_load P x"
    unfolding least_loaded_def by blast
  then have "x # ys = (x # us) @ b # vs" "\<forall>y \<in> set (x # us). eligible P node y \<longrightarrow> veh_load P b < veh_load P y" using assms(2) by auto
  with u(2,4) show ?thesis unfolding least_loaded_def by blast
qed

text \<open>The scan goes on from an eligible endpoint: a smaller load behind it wins, otherwise the endpoint stays.\<close>

lemma least_loaded_first:
  assumes "eligible P node x"
    and "if \<exists>b \<in> set ys. eligible P node b \<and> veh_load P b < veh_load P x
      then \<exists>b. r = Some b \<and> least_loaded P node ys b \<and> veh_load P b < veh_load P x else r = Some x"
  shows "\<exists>b. r = Some b \<and> least_loaded P node (x # ys) b \<and> veh_load P b \<le> veh_load P x"
proof (cases "\<exists>b \<in> set ys. eligible P node b \<and> veh_load P b < veh_load P x")
  case True
  then obtain b where "r = Some b" "least_loaded P node ys b" "veh_load P b < veh_load P x" using assms(2) by auto
  then show ?thesis using least_loaded_Cons [of P node ys b x] by force
next
  case False
  then have "least_loaded P node ([] @ x # ys) x" unfolding least_loaded_def using assms(1)
    by (intro exI [of _ "[]"] exI [of _ ys]) (auto simp: not_less)
  then show ?thesis using False assms(2) by auto
qed

lemma alloc_scan_spec:
  assumes "\<forall>b \<in> set ys. P b \<noteq> None"
  shows "\<exists>r. alloc_scan P node (map Member ys) m best = Some r \<and>
    (if \<exists>b \<in> set ys. eligible P node b \<and> veh_load P b < ucast m
     then \<exists>b. r = Some b \<and> least_loaded P node ys b \<and> veh_load P b < ucast m else r = best)"
  using assms
proof (induction ys arbitrary: m best)
  case (Cons x ys)
  then obtain p where p: "P x = Some p" by auto
  have IH: "\<exists>r. alloc_scan P node (map Member ys) m' best' = Some r \<and>
    (if \<exists>b \<in> set ys. eligible P node b \<and> veh_load P b < ucast m'
     then \<exists>b. r = Some b \<and> least_loaded P node ys b \<and> veh_load P b < ucast m' else r = best')" for m' best'
    using Cons by simp
  show ?case
  proof (cases "eligible P node x \<and> veh_load P x < ucast m")
    case True
    then have x: "se_status p = 1" "node \<noteq> Some x" "se_veh_cnt p < ucast m" "veh_load P x = se_veh_cnt p"
      using p by (auto simp: eligible_def veh_load_def)
    then have step: "alloc_scan P node (map Member (x # ys)) m best = alloc_scan P node (map Member ys) (ucast (veh_load P x)) (Some x)"
      using p by (simp add: list_entry_def)
    have cast: "ucast (ucast (veh_load P x) :: u32) = veh_load P x" using x by (simp add: ucast_below)
    obtain r where r: "alloc_scan P node (map Member ys) (ucast (veh_load P x)) (Some x) = Some r"
        "if \<exists>b \<in> set ys. eligible P node b \<and> veh_load P b < veh_load P x
         then \<exists>b. r = Some b \<and> least_loaded P node ys b \<and> veh_load P b < veh_load P x else r = Some x"
      using IH [of "ucast (veh_load P x)" "Some x"] unfolding cast by blast
    have "\<exists>b. r = Some b \<and> least_loaded P node (x # ys) b \<and> veh_load P b \<le> veh_load P x"
      by (rule least_loaded_first [OF conjunct1 [OF True] r(2)])
    then have "\<exists>b. r = Some b \<and> least_loaded P node (x # ys) b \<and> veh_load P b < ucast m" using True by force
    then show ?thesis unfolding step using r(1) True by auto
  next
    case False
    then have step: "alloc_scan P node (map Member (x # ys)) m best = alloc_scan P node (map Member ys) m best"
      using p by (auto simp: eligible_def veh_load_def list_entry_def)
    obtain r where r: "alloc_scan P node (map Member ys) m best = Some r"
        "if \<exists>b \<in> set ys. eligible P node b \<and> veh_load P b < ucast m
         then \<exists>b. r = Some b \<and> least_loaded P node ys b \<and> veh_load P b < ucast m else r = best" using IH by blast
    have "least_loaded P node (x # ys) b" if "least_loaded P node ys b" "veh_load P b < ucast m" for b
      using least_loaded_Cons [OF that(1), of x] that(2) False by (auto simp: not_less)
    then show ?thesis unfolding step using r False by (auto split: if_splits)
  qed
qed simp

text \<open>Counters of an endpoint can change without touching the structure.\<close>

lemma point_update_inv:
  assumes "em_inv s" and "em_points s b = Some p" and "se_identity q = se_identity p" and "se_server q = se_server p"
  shows "em_inv (s\<lparr>em_points := (em_points s)(b \<mapsto> q)\<rparr>)"
proof -
  let ?s = "s\<lparr>em_points := (em_points s)(b \<mapsto> q)\<rparr>"
  have eq: "identity_of ?s = identity_of s" "name_of ?s = name_of s" "members ?s = members s" "dom (em_points ?s) = dom (em_points s)"
    using assms(2-4) by (auto simp: identity_of_def name_of_def members_def fun_eq_iff)
  have "addresses_ok ?s"
    using em_invD(1) [OF assms(1)] assms(2,4) unfolding addresses_ok_def eq by (auto split: if_splits)
  then show ?thesis using assms(1) unfolding em_inv_def servers_ok_def server_ok_def eq by simp
qed

text \<open>The bound the scan starts with: the maximum of the server, cut to 32 bits.\<close>

definition veh_limit :: "server_item \<Rightarrow> u64" where
  "veh_limit it = ucast (ucast (si_veh_max_cnt it) :: u32)"

lemma server_list:
  assumes "em_inv s" and "em_items s a = Some it"
  obtains ys where "set ys = members s a" "ring (em_lists s) (Owner a) (map Member ys)" "list_nodes (em_lists s) (Owner a) = Some (map Member ys)"
    "listnode_isempty (em_lists s) (Owner a) = Some (ys = [])" "\<forall>b \<in> set ys. em_points s b \<noteq> None"
proof -
  obtain ys where ys: "set ys = members s a" "ring (em_lists s) (Owner a) (map Member ys)"
    using em_invD(3) [OF assms] by (auto simp: server_ok_def)
  then show ?thesis using that ring_nodes [OF ys(2)] ring_isempty [OF ys(2)] members_points [of s a] by auto
qed

text \<open>The choice, before the counters are changed.\<close>

lemma alloc_choice:
  assumes "em_inv s" and "em_items s a = Some it"
  obtains ys r where "set ys = members s a" "list_nodes (em_lists s) (Owner a) = Some (map Member ys)"
    "listnode_isempty (em_lists s) (Owner a) = Some (ys = [])"
    "alloc_scan (em_points s) master (map Member ys) (ucast (si_veh_max_cnt it)) None = Some r"
    "case r of None \<Rightarrow> \<forall>b \<in> members s a. eligible (em_points s) master b \<longrightarrow> veh_limit it \<le> veh_load (em_points s) b
     | Some b \<Rightarrow> least_loaded (em_points s) master ys b \<and> veh_load (em_points s) b < veh_limit it"
proof -
  from assms obtain ys where ys: "set ys = members s a" "list_nodes (em_lists s) (Owner a) = Some (map Member ys)"
      "listnode_isempty (em_lists s) (Owner a) = Some (ys = [])" "\<forall>b \<in> set ys. em_points s b \<noteq> None" by (rule server_list) blast
  obtain r where r: "alloc_scan (em_points s) master (map Member ys) (ucast (si_veh_max_cnt it)) None = Some r"
      "if \<exists>b \<in> set ys. eligible (em_points s) master b \<and> veh_load (em_points s) b < veh_limit it
       then \<exists>b. r = Some b \<and> least_loaded (em_points s) master ys b \<and> veh_load (em_points s) b < veh_limit it else r = None"
    using alloc_scan_spec [OF ys(4), of master "ucast (si_veh_max_cnt it)" None] unfolding veh_limit_def by blast
  have "case r of None \<Rightarrow> \<forall>b \<in> members s a. eligible (em_points s) master b \<longrightarrow> veh_limit it \<le> veh_load (em_points s) b
     | Some b \<Rightarrow> least_loaded (em_points s) master ys b \<and> veh_load (em_points s) b < veh_limit it"
    using r(2) ys(1) by (auto simp: not_less split: if_splits)
  then show ?thesis using that [OF ys(1-3) r(1)] by blast
qed

lemma alloc_least:
  assumes "em_inv s"
  shows "\<exists>r s'. alloc_server_endpoint_to_vehicle s name master = Some (r, s') \<and> em_inv s' \<and>
    (case r of
       None \<Rightarrow> s' = s \<and> (\<forall>a it b. em_items s a = Some it \<and> si_name it = name \<and> b \<in> members s a \<and> eligible (em_points s) master b \<longrightarrow>
         veh_limit it \<le> veh_load (em_points s) b)
     | Some b \<Rightarrow> \<exists>a it ys p. em_items s a = Some it \<and> si_name it = name \<and> set ys = members s a \<and>
         list_nodes (em_lists s) (Owner a) = Some (map Member ys) \<and> least_loaded (em_points s) master ys b \<and>
         em_points s b = Some p \<and> se_veh_cnt p < veh_limit it \<and>
         s' = s\<lparr>em_points := (em_points s)(b \<mapsto> p\<lparr>se_veh_cnt := se_veh_cnt p + 1, se_refcnt := se_refcnt p + 1\<rparr>)\<rparr>)"
  using assms
proof (cases rule: find_server_cases [where name = name])
  case missing
  then have "em_items s a = Some it \<Longrightarrow> si_name it \<noteq> name" for a it by (metis domI imageI name_of_item)
  with missing(1) assms show ?thesis by (auto simp: alloc_server_endpoint_to_vehicle_def)
next
  case (found a it)
  have only: "a' = a" if "em_items s a' = Some it'" "si_name it' = name" for a' it'
    using find_server_hit [OF assms that(1)] that(2) found(1) by simp
  obtain ys r where ys: "set ys = members s a" "list_nodes (em_lists s) (Owner a) = Some (map Member ys)"
      "listnode_isempty (em_lists s) (Owner a) = Some (ys = [])"
      "alloc_scan (em_points s) master (map Member ys) (ucast (si_veh_max_cnt it)) None = Some r"
      "case r of None \<Rightarrow> \<forall>b \<in> members s a. eligible (em_points s) master b \<longrightarrow> veh_limit it \<le> veh_load (em_points s) b
       | Some b \<Rightarrow> least_loaded (em_points s) master ys b \<and> veh_load (em_points s) b < veh_limit it"
    by (rule alloc_choice [OF assms found(2)])
  show ?thesis
  proof (cases r)
    case None
    then have "alloc_server_endpoint_to_vehicle s name master = Some (None, s)"
      using found ys(2-4) by (simp add: alloc_server_endpoint_to_vehicle_def)
    moreover have "veh_limit it' \<le> veh_load (em_points s) b" if "em_items s a' = Some it'" "si_name it' = name" "b \<in> members s a'"
        "eligible (em_points s) master b" for a' it' b
      using ys(5) None only [OF that(1,2)] that found(2) by auto
    ultimately show ?thesis using assms by auto
  next
    case (Some b)
    then have b: "least_loaded (em_points s) master ys b" "veh_load (em_points s) b < veh_limit it" using ys(5) by auto
    then have "b \<in> set ys" by (auto simp: least_loaded_def)
    then obtain p where p: "em_points s b = Some p" "ys \<noteq> []" using ys(1) members_points by fastforce
    let ?q = "p\<lparr>se_veh_cnt := se_veh_cnt p + 1, se_refcnt := se_refcnt p + 1\<rparr>"
    have "alloc_server_endpoint_to_vehicle s name master = Some (Some b, s\<lparr>em_points := (em_points s)(b \<mapsto> ?q)\<rparr>)"
      using found ys(2-4) Some p by (simp add: alloc_server_endpoint_to_vehicle_def addref_def)
    moreover have "em_inv (s\<lparr>em_points := (em_points s)(b \<mapsto> ?q)\<rparr>)" by (rule point_update_inv [OF assms p(1)]) simp_all
    moreover have "se_veh_cnt p < veh_limit it" using b(2) p(1) by (simp add: veh_load_def)
    ultimately show ?thesis using found(2,3) ys(1,2) b(1) p(1)
      by (intro exI [of _ "Some b"] exI [of _ "s\<lparr>em_points := (em_points s)(b \<mapsto> ?q)\<rparr>"]) (simp del: fun_upd_apply; blast)
  qed
qed

section \<open>New servers\<close>

lemma ring_self: "h a = Some \<lparr>ln_next = Some a, ln_prev = Some a\<rparr> \<Longrightarrow> ring h a []"
  by (simp add: ring_def)

lemma em_inv_members_empty: "\<lbrakk>em_inv s; a \<notin> dom (em_items s)\<rbrakk> \<Longrightarrow> members s a = {}"
  using em_invD(1) [of s] by (fastforce simp: addresses_ok_def members_def)

lemma em_inv_fresh:
  assumes "em_inv s"
  shows "em_brk s \<notin> dom (em_items s)" "em_brk s \<notin> dom (em_points s)" "0 < em_brk s" "0 \<notin> dom (em_items s)" "0 \<notin> dom (em_points s)"
    "a \<in> dom (em_items s) \<Longrightarrow> a \<notin> dom (em_points s)"
  using em_invD(1) [OF assms] by (auto simp: addresses_ok_def)

text \<open>A server that is allocated and deleted again leaves no trace in the structures.\<close>

lemma unused_server_inv:
  assumes "em_inv s"
  shows "em_inv (delete_server_item (snd (new_server_item s it)) (em_brk s))" (is "em_inv ?s")
proof -
  note fresh = em_inv_fresh [OF assms]
  have s': "em_items ?s = em_items s" "em_points ?s = em_points s" "em_point_nodes ?s = em_point_nodes s" "em_brk ?s = Suc (em_brk s)"
      "em_server_tree ?s = em_server_tree s" "members ?s = members s" "identity_of ?s = identity_of s" "name_of ?s = name_of s"
    using fresh(1) by (auto simp: delete_server_item_def new_server_item_def Let_def members_def identity_of_def name_of_def fun_eq_iff dom_def)
  have lists: "em_lists ?s x = em_lists s x" if "x \<notin> {Member (em_brk s), Owner (em_brk s)}" for x
    using that by (simp add: delete_server_item_def new_server_item_def Let_def)
  have nodes: "em_item_nodes ?s x = em_item_nodes s x" if "x \<noteq> em_brk s" for x
    using that by (simp add: delete_server_item_def new_server_item_def Let_def)
  show ?thesis
    unfolding em_inv_def
  proof (intro conjI allI impI)
    show "addresses_ok ?s" using em_invD(1) [OF assms] unfolding addresses_ok_def s' by (auto intro: less_SucI)
    show "servers_ok ?s" by (rule servers_ok_cong [OF em_invD(2) [OF assms]]) (use fresh in \<open>auto simp: s' intro!: nodes lists\<close>)
  next
    fix c jt assume "em_items ?s c = Some jt"
    then have c: "em_items s c = Some jt" by (simp add: s')
    then have "c \<noteq> em_brk s" "em_brk s \<notin> members s c" using fresh(1,2) members_points [of s c] by auto
    then show "server_ok ?s c jt"
      by (intro server_ok_cong [OF em_invD(3) [OF assms c]]) (auto simp: s' intro!: lists)
  qed
qed

text \<open>A new server is put into the tree and the list; its own list is empty.\<close>

abbreviation self_node :: "'a \<Rightarrow> 'a listnode_t" where
  "self_node a \<equiv> \<lparr>ln_next = Some a, ln_prev = Some a\<rparr>"

definition with_server :: "server_endpoint_mgr \<Rightarrow> server_item \<Rightarrow> server_endpoint_mgr" where
  "with_server s it =
     s\<lparr>em_items := (em_items s)(em_brk s \<mapsto> it), em_item_nodes := (em_item_nodes s)(em_brk s \<mapsto> zero_node),
       em_lists := (em_lists s)(Member (em_brk s) \<mapsto> zero_listnode, Owner (em_brk s) \<mapsto> self_node (Owner (em_brk s))),
       em_brk := Suc (em_brk s)\<rparr>"

lemma link_server_inv:
  assumes "em_inv s" and "si_endpoints_tree it = None" and "ring l (Owner 0) (map Member (xs @ [em_brk s]))" and "set xs = dom (em_items s)"
    and "\<forall>x. x \<notin> insert (Owner 0) (insert (Member (em_brk s)) (Member ` dom (em_items s))) \<longrightarrow> l x = em_lists (with_server s it) x"
    and "indexed name_compare (name_of (with_server s it)) h rt (insert (em_brk s) (dom (em_items s)))"
  shows "em_inv (with_server s it\<lparr>em_item_nodes := h, em_server_tree := rt, em_lists := l\<rparr>)" (is "em_inv ?s")
proof -
  let ?a = "em_brk s"
  note fresh = em_inv_fresh [OF assms(1)]
  have s': "em_items ?s = (em_items s)(?a \<mapsto> it)" "em_points ?s = em_points s" "em_point_nodes ?s = em_point_nodes s" "em_brk ?s = Suc ?a"
      "members ?s = members s" "identity_of ?s = identity_of s" "name_of ?s = name_of (with_server s it)"
    by (simp_all add: with_server_def members_def identity_of_def name_of_def fun_eq_iff)
  have old: "l x = em_lists s x" if "x \<in> insert (Owner c) (Member ` members s c)" "c \<in> dom (em_items s)" for x c
  proof -
    have "b \<notin> dom (em_items s) \<and> b \<noteq> ?a" if "b \<in> members s c" for b
      using that members_points [of s c] fresh(2) fresh(6) [of b] by auto
    moreover have "c \<noteq> 0" "c \<noteq> ?a" using that(2) fresh(1,4) by auto
    ultimately have "x \<notin> insert (Owner 0) (insert (Member ?a) (Member ` dom (em_items s)))" "x \<noteq> Owner ?a" using that(1) by auto
    then show ?thesis using assms(5) [rule_format, of x] by (simp add: with_server_def)
  qed
  show ?thesis
    unfolding em_inv_def
  proof (intro conjI allI impI)
    show "addresses_ok ?s"
      using em_invD(1) [OF assms(1)] unfolding addresses_ok_def s' by (auto intro: less_SucI)
    have "dom (em_items ?s) = insert ?a (dom (em_items s))" by (simp add: s'(1))
    then show "servers_ok ?s"
      using assms(3,4,6) s'(7) unfolding servers_ok_def by (intro conjI exI [of _ "xs @ [?a]"]) simp_all
  next
    fix c jt assume c: "em_items ?s c = Some jt"
    show "server_ok ?s c jt"
    proof (cases "c = ?a")
      case True
      have "ring l (Owner ?a) []" using assms(5) [rule_format, of "Owner ?a"] fresh(3) by (intro ring_self) (auto simp: with_server_def)
      moreover have "si_endpoints_tree jt = None" using c True assms(2) by (simp add: s'(1))
      ultimately show ?thesis using em_inv_members_empty [OF assms(1) fresh(1)] unfolding server_ok_def s' True by simp
    next
      case False
      with c have c': "em_items s c = Some jt" by (simp add: s'(1))
      show ?thesis by (rule server_ok_cong [OF em_invD(3) [OF assms(1) c']]) (use old c' in \<open>auto simp: s'\<close>)
    qed
  qed
qed

lemma link_server:
  assumes "em_inv s" and "si_name it \<notin> name_of s ` dom (em_items s)" and "si_endpoints_tree it = None"
  obtains h rt l where
    "avl_insert (em_item_nodes (with_server s it)) (em_server_tree s) (em_brk s) (server_item_compare (with_server s it)) = Some (h, rt, 0)"
    "listnode_add (em_lists (with_server s it)) (Owner 0) (Member (em_brk s)) = Some l"
    "em_inv (with_server s it\<lparr>em_item_nodes := h, em_server_tree := rt, em_lists := l\<rparr>)"
proof -
  let ?a = "em_brk s" let ?s = "with_server s it"
  note fresh = em_inv_fresh [OF assms(1)]
  have names: "name_of ?s x = (if x = ?a then si_name it else name_of s x)" for x by (simp add: name_of_def with_server_def)
  have nodes: "em_item_nodes ?s x = (if x = ?a then Some zero_node else em_item_nodes s x)" for x by (simp add: with_server_def)
  have old: "em_item_nodes ?s x = em_item_nodes s x" "name_of ?s x = name_of s x" if "x \<in> dom (em_items s)" for x
    using that fresh(1) by (auto simp: names nodes)
  have "indexed name_compare (name_of s) (em_item_nodes s) (em_server_tree s) (dom (em_items s))"
    using em_invD(2) [OF assms(1)] by (simp add: servers_ok_def)
  from indexed_cong [OF this old]
  have idx: "indexed name_compare (name_of ?s) (em_item_nodes ?s) (em_server_tree s) (dom (em_items s))" by blast
  have "name_of ?s ` dom (em_items s) = name_of s ` dom (em_items s)" using fresh(1) names by (intro image_cong) auto
  then have new: "name_of ?s ?a \<notin> name_of ?s ` dom (em_items s)" using assms(2) by (simp add: names)
  have "em_item_nodes ?s ?a \<noteq> None" by (simp add: with_server_def)
  from names.index_insert(2) [OF idx fresh(1) this new] obtain h rt where ins: "avl_insert (em_item_nodes ?s) (em_server_tree s) ?a (server_item_compare ?s) = Some (h, rt, 0)"
      "indexed name_compare (name_of ?s) h rt (insert ?a (dom (em_items s)))"
    unfolding endpoint_compare_eqs by blast
  obtain xs where xs: "set xs = dom (em_items s)" "ring (em_lists s) (Owner 0) (map Member xs)"
    using em_invD(2) [OF assms(1)] by (auto simp: servers_ok_def)
  have a: "Member ?a \<notin> insert (Owner 0) (set (map Member xs))" "em_lists ?s (Member ?a) \<noteq> None"
    using xs(1) fresh(1) by (auto simp: with_server_def)
  have "em_lists ?s x = em_lists s x" if "x \<in> insert (Owner 0) (set (map Member xs))" for x
  proof -
    have "x \<noteq> Member ?a" "x \<noteq> Owner ?a" using that a(1) fresh(3) by auto
    then show ?thesis by (simp add: with_server_def)
  qed
  then have "ring (em_lists ?s) (Owner 0) (map Member xs)" by (rule ring_cong [OF xs(2)])
  from ring_add [OF this a] obtain l where l: "listnode_add (em_lists ?s) (Owner 0) (Member ?a) = Some l" "ring l (Owner 0) (map Member (xs @ [?a]))"
      "\<forall>x. x \<notin> insert (Owner 0) (insert (Member ?a) (Member ` dom (em_items s))) \<longrightarrow> l x = em_lists ?s x"
    unfolding set_map xs(1) by auto
  show ?thesis by (rule that [OF ins(1) l(1) link_server_inv [OF assms(1,3) l(2) xs(1) l(3) ins(2)]])
qed

lemma add_server_item_cases:
  assumes "em_inv s" and "name \<notin> name_of s ` dom (em_items s)" and "find_server_item s name = Some None"
  shows "if cf_string cf (prefix @ name @ ''.name'') \<noteq> 0
    then \<exists>s'. add_server_item cf prefix max_key max_cnt s name = Some (None, s') \<and> em_inv s' \<and> em_items s' = em_items s \<and> em_points s' = em_points s
    else \<exists>it s'. add_server_item cf prefix max_key max_cnt s name = Some (Some (em_brk s), s') \<and> em_inv s' \<and>
      em_items s' = (em_items s)(em_brk s \<mapsto> it) \<and> si_name it = name \<and> em_points s' = em_points s \<and>
      si_veh_max_cnt it = of_int (cf_number cf (prefix @ name @ ''.'' @ max_key) max_cnt)"
proof -
  let ?a = "em_brk s" let ?it0 = "\<lparr>si_name = name, si_veh_max_cnt = 0, si_expiry = 0, si_endpoints_tree = None\<rparr>"
  define s1 where "s1 = snd (new_server_item s ?it0)"
  have new: "new_server_item s ?it0 = (?a, s1)" by (simp add: s1_def new_server_item_def Let_def)
  show ?thesis
  proof (cases "cf_string cf (prefix @ name @ ''.name'') = 0")
    case True
    define it where "it = \<lparr>si_name = name, si_veh_max_cnt = of_int (cf_number cf (prefix @ name @ ''.'' @ max_key) max_cnt),
      si_expiry = 2500 * of_int (cf_number cf (prefix @ name @ ''.keepalive.liveness'') (cf_number cf (prefix @ name @ ''.keepalive.internal'') 2500)),
      si_endpoints_tree = None\<rparr>"
    have init: "init_server_info cf prefix max_key max_cnt s1 ?a = Some (0, with_server s it)"
      using True by (simp add: init_server_info_def s1_def new_server_item_def listnode_init_eq with_server_def it_def Let_def)
    have it: "si_name it \<notin> name_of s ` dom (em_items s)" "si_endpoints_tree it = None" using assms(2) by (simp_all add: it_def)
    obtain h rt l where l: "avl_insert (em_item_nodes (with_server s it)) (em_server_tree s) ?a (server_item_compare (with_server s it)) = Some (h, rt, 0)"
        "listnode_add (em_lists (with_server s it)) (Owner 0) (Member ?a) = Some l"
        "em_inv (with_server s it\<lparr>em_item_nodes := h, em_server_tree := rt, em_lists := l\<rparr>)"
      by (rule link_server [OF assms(1) it])
    have "em_server_tree (with_server s it) = em_server_tree s" by (simp add: with_server_def)
    then have "add_server_item cf prefix max_key max_cnt s name =
        Some (Some ?a, with_server s it\<lparr>em_item_nodes := h, em_server_tree := rt, em_lists := l\<rparr>)"
      using assms(3) new init l(1,2) by (simp add: add_server_item_def)
    with l(3) True show ?thesis by (auto simp: with_server_def it_def)
  next
    case False
    have init: "init_server_info cf prefix max_key max_cnt s1 ?a = Some (- ENOTEXISTS, s1)"
      using False by (simp add: init_server_info_def s1_def new_server_item_def Let_def)
    then have "add_server_item cf prefix max_key max_cnt s name = Some (None, delete_server_item s1 ?a)"
      using assms(3) new by (simp add: add_server_item_def)
    then show ?thesis using False unused_server_inv [OF assms(1), of ?it0] em_inv_fresh(1) [OF assms(1)]
      by (auto simp: s1_def delete_server_item_def new_server_item_def Let_def fun_eq_iff dom_def)
  qed
qed

section \<open>New endpoints\<close>

definition with_point :: "server_endpoint_mgr \<Rightarrow> server_endpoint \<Rightarrow> server_endpoint_mgr" where
  "with_point s p =
     s\<lparr>em_points := (em_points s)(em_brk s \<mapsto> p), em_point_nodes := (em_point_nodes s)(em_brk s \<mapsto> zero_node),
       em_lists := (em_lists s)(Member (em_brk s) \<mapsto> zero_listnode), em_brk := Suc (em_brk s)\<rparr>"

lemma new_endpoint_eq: "new_endpoint s p = (em_brk s, with_point s p)"
  by (simp add: new_endpoint_def with_point_def Let_def)

text \<open>
  Changing the endpoints of one server: the other servers do not notice, if only nodes of that server's tree
  and list change.
\<close>

lemma one_server_inv:
  assumes "em_inv s" and "em_items s a = Some it" and "em_items s' = (em_items s)(a \<mapsto> it')" and "si_name it' = si_name it"
    and "addresses_ok s'" and "server_ok s' a it'"
    and "em_item_nodes s' = em_item_nodes s" and "em_server_tree s' = em_server_tree s"
    and "\<And>c. c \<noteq> a \<Longrightarrow> members s' c = members s c"
    and "\<And>c b. \<lbrakk>c \<noteq> a; b \<in> members s c\<rbrakk> \<Longrightarrow> em_point_nodes s' b = em_point_nodes s b \<and> identity_of s' b = identity_of s b"
    and "\<And>x. \<lbrakk>x \<noteq> Owner a; \<forall>b. x = Member b \<longrightarrow> b \<in> dom (em_items s) \<or> (\<exists>c. c \<noteq> a \<and> b \<in> members s c)\<rbrakk> \<Longrightarrow> em_lists s' x = em_lists s x"
  shows "em_inv s'"
proof -
  note fresh = em_inv_fresh [OF assms(1)]
  have "a \<noteq> 0" using assms(2) fresh(4) by auto
  have "servers_ok s'"
  proof (rule servers_ok_cong [OF em_invD(2) [OF assms(1)]])
    show "dom (em_items s') = dom (em_items s)" using assms(2) by (auto simp: assms(3))
    show "em_lists s' x = em_lists s x" if "x \<in> insert (Owner 0) (Member ` dom (em_items s))" for x
      using that \<open>a \<noteq> 0\<close> by (intro assms(11)) auto
    show "em_item_nodes s' c = em_item_nodes s c \<and> name_of s' c = name_of s c" for c
      using assms(2,4) by (simp add: assms(3,7) name_of_def)
  qed (rule assms(8))
  moreover have "server_ok s' c jt" if c: "em_items s' c = Some jt" for c jt
  proof (cases "c = a")
    case False
    with c have "em_items s c = Some jt" by (simp add: assms(3))
    from em_invD(3) [OF assms(1) this] show ?thesis
    proof (rule server_ok_cong)
      show "em_lists s' x = em_lists s x" if "x \<in> insert (Owner c) (Member ` members s c)" for x
        using that False by (intro assms(11)) auto
      show "em_point_nodes s' b = em_point_nodes s b \<and> identity_of s' b = identity_of s b" if "b \<in> members s c" for b
        using assms(10) [OF False that] .
    qed (simp_all add: assms(9) [OF False])
  qed (use c assms(3,6) in simp)
  ultimately show ?thesis using assms(5) by (auto simp: em_inv_def)
qed

lemma link_point_inv:
  assumes "em_inv s" and "em_items s a = Some it" and "se_server p = Some a"
    and "ring l (Owner a) (map Member (ys @ [em_brk s]))" and "set ys = members s a"
    and "\<forall>x. x \<notin> insert (Owner a) (insert (Member (em_brk s)) (Member ` members s a)) \<longrightarrow> l x = em_lists (with_point s p) x"
    and "indexed name_compare (identity_of (with_point s p)) h rt (insert (em_brk s) (members s a))"
    and "\<forall>x. x \<notin> insert (em_brk s) (members s a) \<longrightarrow> h x = em_point_nodes (with_point s p) x"
  shows "em_inv (with_point s p\<lparr>em_point_nodes := h, em_items := (em_items s)(a \<mapsto> it\<lparr>si_endpoints_tree := rt\<rparr>), em_lists := l\<rparr>)"
    (is "em_inv ?s")
proof -
  let ?b = "em_brk s"
  note fresh = em_inv_fresh [OF assms(1)]
  have mem: "members ?s c = (if c = a then insert ?b (members s a) else members s c)" for c
    using assms(3) fresh(2) by (auto simp: members_def with_point_def)
  have ids: "identity_of ?s = identity_of (with_point s p)" by (simp add: identity_of_def fun_eq_iff)
  have other: "b \<noteq> ?b \<and> b \<notin> members s a" if "c \<noteq> a" "b \<in> members s c" for b c
    using that members_points [of s c] fresh(2) members_disjoint [of b s c a] by auto
  show ?thesis
  proof (rule one_server_inv [OF assms(1,2)])
    show "em_items ?s = (em_items s)(a \<mapsto> it\<lparr>si_endpoints_tree := rt\<rparr>)" by simp
    show "addresses_ok ?s"
    proof -
      have d: "dom (em_items ?s) = dom (em_items s)" "dom (em_points ?s) = insert ?b (dom (em_points s))" using assms(2) by (auto simp: with_point_def)
      have "c \<in> dom (em_items s)" if "em_points ?s b = Some q" "se_server q = Some c" for b q c
        using that assms(2,3) em_invD(1) [OF assms(1)] by (auto simp: with_point_def addresses_ok_def split: if_splits)
      moreover have "em_brk ?s = Suc ?b" by (simp add: with_point_def)
      ultimately show ?thesis using em_invD(1) [OF assms(1)] fresh(1) unfolding addresses_ok_def d by (auto intro: less_SucI)
    qed
    show "server_ok ?s a (it\<lparr>si_endpoints_tree := rt\<rparr>)"
      using assms(4,5,7) unfolding server_ok_def mem ids by (intro conjI exI [of _ "ys @ [?b]"]) simp_all
    show "em_point_nodes ?s b = em_point_nodes s b \<and> identity_of ?s b = identity_of s b" if "c \<noteq> a" "b \<in> members s c" for c b
      using other [OF that] assms(8) [rule_format, of b] by (simp add: with_point_def identity_of_def)
    show "em_lists ?s x = em_lists s x"
      if x: "x \<noteq> Owner a" "\<forall>b. x = Member b \<longrightarrow> b \<in> dom (em_items s) \<or> (\<exists>c. c \<noteq> a \<and> b \<in> members s c)" for x
    proof -
      have "b \<noteq> ?b \<and> b \<notin> members s a" if "x = Member b" for b
        using x(2) that other fresh(1) fresh(6) [of b] members_points [of s a] by blast
      then have "x \<notin> insert (Owner a) (insert (Member ?b) (Member ` members s a))" using x(1) by auto
      then show ?thesis using assms(6) [rule_format, of x] by (simp add: with_point_def)
    qed
    show "members ?s c = members s c" if "c \<noteq> a" for c using that by (simp only: mem if_False)
  qed (simp_all add: with_point_def)
qed

lemma add_endpoint_new:
  assumes "em_inv s" and "em_items s a = Some it" and "identity \<notin> identity_of s ` members s a" and "find_endpoint s a identity = Some None"
  shows "\<exists>rt s'. add_endpoint s (Some a) identity cnt = Some (Some (em_brk s), s') \<and> em_inv s' \<and>
    em_items s' = (em_items s)(a \<mapsto> it\<lparr>si_endpoints_tree := rt\<rparr>) \<and>
    em_points s' = (em_points s)(em_brk s \<mapsto> \<lparr>se_identity = identity, se_server = Some a, se_veh_cnt = cnt, se_refcnt = 1, se_status = 1\<rparr>)"
proof -
  let ?b = "em_brk s" let ?p = "\<lparr>se_identity = identity, se_server = Some a, se_veh_cnt = cnt, se_refcnt = 1, se_status = 1\<rparr>"
  let ?s = "with_point s ?p"
  note fresh = em_inv_fresh [OF assms(1)]
  have b: "?b \<notin> members s a" "em_point_nodes ?s ?b \<noteq> None" using fresh(2) members_points [of s a] by (auto simp: with_point_def)
  have old: "em_point_nodes ?s x = em_point_nodes s x" "identity_of ?s x = identity_of s x" if "x \<in> members s a" for x
    using that b(1) by (auto simp: with_point_def identity_of_def)
  have "indexed name_compare (identity_of s) (em_point_nodes s) (si_endpoints_tree it) (members s a)"
    using em_invD(3) [OF assms(1,2)] by (simp add: server_ok_def)
  from indexed_cong [OF this old]
  have idx: "indexed name_compare (identity_of ?s) (em_point_nodes ?s) (si_endpoints_tree it) (members s a)" by blast
  have "identity_of ?s ` members s a = identity_of s ` members s a" using old by (intro image_cong) auto
  moreover have "identity_of ?s ?b = identity" by (simp add: with_point_def identity_of_def)
  ultimately have "identity_of ?s ?b \<notin> identity_of ?s ` members s a" using assms(3) by simp
  from names.index_insert(2) [OF idx b this] obtain h rt where
    ins: "avl_insert (em_point_nodes ?s) (si_endpoints_tree it) ?b (server_endpoint_compare ?s) = Some (h, rt, 0)"
      "indexed name_compare (identity_of ?s) h rt (insert ?b (members s a))"
      "\<forall>x. x \<notin> insert ?b (members s a) \<longrightarrow> h x = em_point_nodes ?s x" unfolding endpoint_compare_eqs by blast
  from assms(1,2) obtain ys where ys: "set ys = members s a" "ring (em_lists s) (Owner a) (map Member ys)" by (rule server_list)
  have m: "Member ?b \<notin> insert (Owner a) (set (map Member ys))" "em_lists ?s (Member ?b) \<noteq> None"
    using ys(1) b(1) by (auto simp: with_point_def)
  have "em_lists ?s x = em_lists s x" if "x \<in> insert (Owner a) (set (map Member ys))" for x
  proof -
    have "x \<noteq> Member ?b" using that m(1) by auto
    then show ?thesis by (simp add: with_point_def)
  qed
  then have "ring (em_lists ?s) (Owner a) (map Member ys)" by (rule ring_cong [OF ys(2)])
  from ring_add [OF this m] obtain l where l: "listnode_add (em_lists ?s) (Owner a) (Member ?b) = Some l"
      "ring l (Owner a) (map Member (ys @ [?b]))"
      "\<forall>x. x \<notin> insert (Owner a) (insert (Member ?b) (Member ` members s a)) \<longrightarrow> l x = em_lists ?s x" unfolding set_map ys(1) by auto
  have items: "em_items ?s = em_items s" by (simp add: with_point_def)
  let ?t = "?s\<lparr>em_point_nodes := h, em_items := (em_items s)(a \<mapsto> it\<lparr>si_endpoints_tree := rt\<rparr>), em_lists := l\<rparr>"
  have "add_endpoint s (Some a) identity cnt = Some (Some ?b, ?t)"
    using assms(2,4) ins(1) l(1) by (simp add: add_endpoint_def new_endpoint_eq items)
  moreover have "em_inv ?t" by (rule link_point_inv [OF assms(1,2) _ l(2) ys(1) l(3) ins(2,3)]) simp
  moreover have "em_points ?t = (em_points s)(?b \<mapsto> ?p)" by (simp add: with_point_def)
  ultimately show ?thesis by (intro exI [of _ rt] exI [of _ ?t]) simp
qed

section \<open>Removal of endpoints\<close>

text \<open>The endpoint after it has left its server: one reference less, and deleted when there was none.\<close>

definition dropped :: "server_endpoint \<Rightarrow> server_endpoint option" where
  "dropped p = (if se_refcnt p = 0 then None else Some (p\<lparr>se_server := None, se_refcnt := se_refcnt p - 1\<rparr>))"

lemma dropped_server: "dropped p = Some q \<Longrightarrow> se_server q = None"
  by (auto simp: dropped_def split: if_splits)

lemma members_drop:
  assumes "em_points s b = Some p" "se_server p = Some a" and "em_points s' = (em_points s)(b := dropped p)"
  shows "members s' a = members s a - {b}" and "c \<noteq> a \<Longrightarrow> members s' c = members s c"
  using assms(1,2) by (auto simp: members_def assms(3) dest: dropped_server)

lemma addresses_drop:
  assumes "addresses_ok s" and "dom (em_items s') = dom (em_items s)" and "em_points s b = Some p"
    and "em_points s' = (em_points s)(b := dropped p)" and "em_brk s' = em_brk s"
  shows "addresses_ok s'"
proof -
  have A: "0 < em_brk s" "\<forall>x \<in> dom (em_items s) \<union> dom (em_points s). 0 < x \<and> x < em_brk s"
      "dom (em_items s) \<inter> dom (em_points s) = {}" "\<And>x q c. em_points s x = Some q \<Longrightarrow> se_server q = Some c \<Longrightarrow> c \<in> dom (em_items s)"
    using assms(1) unfolding addresses_ok_def by blast+
  have d: "dom (em_points s') \<subseteq> dom (em_points s)" using assms(3) by (auto simp: assms(4) split: if_splits)
  have "c \<in> dom (em_items s)" if "em_points s' x = Some q" "se_server q = Some c" for x q c
    using that A(4) [of x q c] dropped_server [of p q] by (cases "x = b") (simp_all add: assms(4))
  then have "\<forall>x q c. em_points s' x = Some q \<and> se_server q = Some c \<longrightarrow> c \<in> dom (em_items s)" by blast
  moreover have "\<forall>x \<in> dom (em_items s) \<union> dom (em_points s'). 0 < x \<and> x < em_brk s"
    using A(2) d by (meson Un_iff subsetD)
  moreover have "dom (em_items s) \<inter> dom (em_points s') = {}" using A(3) d by fast
  ultimately show ?thesis unfolding addresses_ok_def assms(2,5) using A(1) by simp
qed

lemma unlink_point_inv:
  assumes "em_inv s" and "em_items s a = Some it" and "em_points s b = Some p" "se_server p = Some a"
    and "indexed name_compare (identity_of s) h rt (members s a - {b})" and "\<forall>x. x \<notin> insert 0 (members s a) \<longrightarrow> h x = em_point_nodes s x"
    and "ring l (Owner a) (map Member ys)" and "set ys = members s a - {b}"
    and "\<forall>x. x \<notin> insert (Owner a) (Member ` members s a) \<longrightarrow> l x = em_lists s x"
    and "em_items s' = (em_items s)(a \<mapsto> it\<lparr>si_endpoints_tree := rt\<rparr>)" and "em_points s' = (em_points s)(b := dropped p)"
    and "\<And>x. x \<noteq> b \<Longrightarrow> x \<noteq> 0 \<Longrightarrow> em_point_nodes s' x = h x" and "\<And>x. x \<noteq> Member b \<Longrightarrow> em_lists s' x = l x"
    and "em_item_nodes s' = em_item_nodes s" "em_server_tree s' = em_server_tree s" "em_brk s' = em_brk s"
  shows "em_inv s'"
proof -
  note fresh = em_inv_fresh [OF assms(1)]
  note mem = members_drop [OF assms(3,4,11)]
  have b: "b \<in> members s a" using assms(3,4) by (simp add: members_def)
  have zero: "x \<noteq> 0" if "x \<in> members s c" for x c using that members_points [of s c] fresh(5) by auto
  have ids: "identity_of s' x = identity_of s x" if "x \<noteq> b" for x using that by (simp add: identity_of_def assms(11))
  have other: "x \<noteq> b \<and> x \<notin> members s a" if "c \<noteq> a" "x \<in> members s c" for x c
    using members_disjoint [OF that(2), of a] that(1) b by blast
  have "em_point_nodes s' x = h x" "identity_of s' x = identity_of s x" if "x \<in> members s a - {b}" for x
    using that zero [of x a] assms(12) [of x] ids [of x] by auto
  then have idx: "indexed name_compare (identity_of s') (em_point_nodes s') rt (members s a - {b})" by (rule indexed_cong [OF assms(5)])
  have "em_lists s' x = l x" if "x \<in> insert (Owner a) (set (map Member ys))" for x
    using that assms(8) by (intro assms(13)) auto
  then have ring: "ring (em_lists s') (Owner a) (map Member ys)" by (rule ring_cong [OF assms(7)])
  show ?thesis
  proof (rule one_server_inv [OF assms(1,2,10)])
    show "addresses_ok s'"
      by (rule addresses_drop [OF em_invD(1) [OF assms(1)] _ assms(3,11,16)]) (use assms(2) in \<open>auto simp: assms(10)\<close>)
    show "server_ok s' a (it\<lparr>si_endpoints_tree := rt\<rparr>)" unfolding server_ok_def mem(1) using idx ring assms(8) by auto
    show "em_point_nodes s' x = em_point_nodes s x \<and> identity_of s' x = identity_of s x" if "c \<noteq> a" "x \<in> members s c" for c x
      using other [OF that] zero [OF that(2)] assms(6) [rule_format, of x] assms(12) [of x] ids [of x] by auto
    show "em_lists s' x = em_lists s x"
      if x: "x \<noteq> Owner a" "\<forall>y. x = Member y \<longrightarrow> y \<in> dom (em_items s) \<or> (\<exists>c. c \<noteq> a \<and> y \<in> members s c)" for x
    proof -
      have "y \<notin> members s a" if "x = Member y" for y
        using x(2) [rule_format, OF that] other [of _ y] fresh(6) [of y] members_points [of s a] by blast
      then have "x \<notin> insert (Owner a) (Member ` members s a)" "x \<noteq> Member b" using x(1) b by auto
      then show ?thesis using assms(9) [rule_format, of x] assms(13) [of x] by simp
    qed
    show "members s' c = members s c" if "c \<noteq> a" for c using that by (rule mem(2))
  qed (simp_all add: assms(14,15))
qed

lemma unlink_endpoint_ok:
  assumes "em_inv s" and "em_items s a = Some it" and "em_points s b = Some p" "se_server p = Some a"
  shows "\<exists>rt s'. unlink_endpoint s a b = Some s' \<and> em_inv s' \<and> em_items s' = (em_items s)(a \<mapsto> it\<lparr>si_endpoints_tree := rt\<rparr>) \<and>
    em_points s' = (em_points s)(b := dropped p)"
proof -
  note fresh = em_inv_fresh [OF assms(1)]
  have b: "b \<in> members s a" "0 \<notin> members s a" using assms(3,4) fresh(5) members_points [of s a] by (auto simp: members_def)
  have idx: "indexed name_compare (identity_of s) (em_point_nodes s) (si_endpoints_tree it) (members s a)"
    using em_invD(3) [OF assms(1,2)] by (simp add: server_ok_def)
  from names.index_remove [OF idx b] obtain h rt where
    h: "avl_remove (em_point_nodes s) (si_endpoints_tree it) b 0 = Some (h, rt)" "indexed name_compare (identity_of s) h rt (members s a - {b})"
      "\<forall>x. x \<notin> insert 0 (members s a) \<longrightarrow> h x = em_point_nodes s x" by blast
  from assms(1,2) obtain xs where xs: "set xs = members s a" "ring (em_lists s) (Owner a) (map Member xs)" by (rule server_list)
  obtain us vs where uv: "xs = us @ b # vs" using b(1) xs(1) by (metis split_list)
  have "distinct xs" using xs(2) by (auto simp: ring_def distinct_map)
  then have set: "set (us @ vs) = members s a - {b}" using xs(1) uv by auto
  from ring_del [of "em_lists s" "Owner a" "map Member us" "Member b" "map Member vs"] xs(2) obtain l where
    l: "listnode_del (em_lists s) (Member b) = Some l" "ring l (Owner a) (map Member (us @ vs))"
      "\<forall>x. x \<notin> insert (Owner a) (Member ` members s a) \<longrightarrow> l x = em_lists s x" unfolding xs(1) [symmetric] uv by (auto simp: image_Un)
  let ?s1 = "s\<lparr>em_point_nodes := h(0 := None), em_items := (em_items s)(a \<mapsto> it\<lparr>si_endpoints_tree := rt\<rparr>), em_lists := l,
    em_points := (em_points s)(b \<mapsto> p\<lparr>se_server := None, se_refcnt := se_refcnt p - 1\<rparr>)\<rparr>"
  define s' where "s' = (if se_refcnt p = 0 then delete_endpoint ?s1 b else ?s1)"
  have "unlink_endpoint s a b = Some s'"
    using assms(2,3) h(1) l(1) by (simp add: unlink_endpoint_def release_def s'_def Let_def)
  moreover have pts: "em_points s' = (em_points s)(b := dropped p)" by (simp add: s'_def dropped_def delete_endpoint_def)
  moreover have items: "em_items s' = (em_items s)(a \<mapsto> it\<lparr>si_endpoints_tree := rt\<rparr>)" by (simp add: s'_def delete_endpoint_def)
  moreover have "em_inv s'"
    by (rule unlink_point_inv [OF assms h(2,3) l(2) set l(3) items pts]) (simp_all add: s'_def delete_endpoint_def)
  ultimately show ?thesis by blast
qed

lemma unlink_all_ok:
  assumes "em_inv s" and "em_items s a = Some it"
  shows "\<exists>rt s'. unlink_all s a = Some s' \<and> em_inv s' \<and> em_items s' = (em_items s)(a \<mapsto> it\<lparr>si_endpoints_tree := rt\<rparr>) \<and>
    members s' a = {} \<and> em_points s' = (\<lambda>b. if b \<in> members s a then Option.bind (em_points s b) dropped else em_points s b)"
  using assms
proof (induction "card (members s a)" arbitrary: s it rule: less_induct)
  case less
  from less.prems obtain ys where ys: "set ys = members s a" "ring (em_lists s) (Owner a) (map Member ys)"
    "listnode_isempty (em_lists s) (Owner a) = Some (ys = [])" by (rule server_list)
  show ?case
  proof (cases ys)
    case Nil
    have "em_items s = (em_items s)(a \<mapsto> it\<lparr>si_endpoints_tree := si_endpoints_tree it\<rparr>)" using less.prems(2) by auto
    moreover have "unlink_all s a = Some s" using Nil ys(3) by (simp add: unlink_all.simps)
    moreover have "members s a = {}" using Nil ys(1) by simp
    ultimately show ?thesis using less.prems(1) by (intro exI [of _ "si_endpoints_tree it"] exI [of _ s]) simp
  next
    case (Cons b zs)
    then have b: "b \<in> members s a" using ys(1) by auto
    then obtain p where p: "em_points s b = Some p" "se_server p = Some a" by (auto simp: members_def)
    from unlink_endpoint_ok [OF less.prems p] obtain rt s1 where s1: "unlink_endpoint s a b = Some s1" "em_inv s1"
        "em_items s1 = (em_items s)(a \<mapsto> it\<lparr>si_endpoints_tree := rt\<rparr>)" "em_points s1 = (em_points s)(b := dropped p)" by blast
    have mem: "members s1 a = members s a - {b}" by (rule members_drop(1) [OF p s1(4)])
    have "finite (members s a)" by (simp add: ys(1) [symmetric])
    then have smaller: "card (members s1 a) < card (members s a)" unfolding mem using b by (rule card_Diff1_less)
    have "em_items s1 a = Some (it\<lparr>si_endpoints_tree := rt\<rparr>)" by (simp add: s1(3))
    from less.hyps [OF smaller s1(2) this] obtain rt' s' where s': "unlink_all s1 a = Some s'" "em_inv s'"
        "em_items s' = (em_items s1)(a \<mapsto> it\<lparr>si_endpoints_tree := rt'\<rparr>)" "members s' a = {}"
        "em_points s' = (\<lambda>x. if x \<in> members s1 a then Option.bind (em_points s1 x) dropped else em_points s1 x)" by auto
    obtain n where "em_lists s (Owner a) = Some n" "ln_next n = Some (Member b)" using ys(2) Cons by (auto simp: ring_def)
    then have "unlink_all s a = Some s'" using ys(3) Cons s1(1) s'(1) by (subst unlink_all.simps) (simp add: list_entry_def)
    moreover have "em_points s' = (\<lambda>x. if x \<in> members s a then Option.bind (em_points s x) dropped else em_points s x)"
      unfolding s'(5) mem s1(4) using b p(1) by (auto simp: fun_eq_iff)
    moreover have "em_items s' = (em_items s)(a \<mapsto> it\<lparr>si_endpoints_tree := rt'\<rparr>)" unfolding s'(3) s1(3) by simp
    ultimately show ?thesis using s'(2,4) by blast
  qed
qed

section \<open>Removal of servers\<close>

lemma drop_server_inv:
  assumes "em_inv s" and "em_items s a = Some it" and "members s a = {}"
    and "indexed name_compare (name_of s) h rt (dom (em_items s) - {a})"
    and "ring l (Owner 0) (map Member xs)" and "set xs = dom (em_items s) - {a}"
    and "\<forall>x. x \<notin> insert (Owner 0) (Member ` dom (em_items s)) \<longrightarrow> l x = em_lists s x"
    and "em_items s' = (em_items s)(a := None)" and "em_points s' = em_points s" and "em_point_nodes s' = em_point_nodes s"
    and "\<And>x. x \<noteq> a \<Longrightarrow> x \<noteq> 0 \<Longrightarrow> em_item_nodes s' x = h x" and "\<And>x. x \<notin> {Member a, Owner a} \<Longrightarrow> em_lists s' x = l x"
    and "em_server_tree s' = rt" "em_brk s' = em_brk s"
  shows "em_inv s'"
proof -
  note fresh = em_inv_fresh [OF assms(1)]
  have same: "members s' = members s" "identity_of s' = identity_of s" "dom (em_items s') = dom (em_items s) - {a}"
    by (auto simp: members_def identity_of_def assms(8,9) fun_eq_iff)
  have "a \<noteq> 0" using assms(2) fresh(4) by auto
  have "em_item_nodes s' x = h x" "name_of s' x = name_of s x" if "x \<in> dom (em_items s) - {a}" for x
  proof -
    have "x \<noteq> a" "x \<noteq> 0" using that fresh(4) by auto
    then show "em_item_nodes s' x = h x" "name_of s' x = name_of s x" by (simp_all add: assms(11) name_of_def assms(8))
  qed
  then have idx: "indexed name_compare (name_of s') (em_item_nodes s') rt (dom (em_items s) - {a})" by (rule indexed_cong [OF assms(4)])
  have "em_lists s' x = l x" if "x \<in> insert (Owner 0) (set (map Member xs))" for x
    using that assms(6) \<open>a \<noteq> 0\<close> by (intro assms(12)) auto
  then have ring: "ring (em_lists s') (Owner 0) (map Member xs)" by (rule ring_cong [OF assms(5)])
  have "c \<noteq> a" if "em_points s x = Some q" "se_server q = Some c" for x q c using that assms(3) by (auto simp: members_def)
  then have "addresses_ok s'"
    using em_invD(1) [OF assms(1)] unfolding addresses_ok_def same(3) assms(9,14) by blast
  moreover have "servers_ok s'" unfolding servers_ok_def same(3) assms(13) using idx ring assms(6) by auto
  moreover have "server_ok s' c jt" if "em_items s' c = Some jt" for c jt
  proof -
    have c: "em_items s c = Some jt" "c \<noteq> a" using that by (auto simp: assms(8) split: if_splits)
    have "x \<notin> dom (em_items s)" if "x \<in> members s c" for x using that members_points [of s c] fresh(6) [of x] by auto
    then have out: "x \<notin> insert (Owner 0) (Member ` dom (em_items s)) \<and> x \<notin> {Member a, Owner a}"
      if "x \<in> insert (Owner c) (Member ` members s c)" for x using that c fresh(4) assms(2) by auto
    have "em_lists s' x = em_lists s x" if "x \<in> insert (Owner c) (Member ` members s c)" for x
      using out [OF that] assms(7) [rule_format, of x] assms(12) [of x] by simp
    then show ?thesis by (intro server_ok_cong [OF em_invD(3) [OF assms(1) c(1)]]) (simp_all add: same assms(10))
  qed
  ultimately show ?thesis by (simp add: em_inv_def)
qed

lemma remove_server_item_ok:
  assumes "em_inv s" and "em_items s a = Some it"
  shows "\<exists>s'. remove_server_item s (Some a) = Some (0, s') \<and> em_inv s' \<and> em_items s' = (em_items s)(a := None) \<and>
    em_points s' = (\<lambda>b. if b \<in> members s a then Option.bind (em_points s b) dropped else em_points s b)"
proof -
  from unlink_all_ok [OF assms] obtain rt0 s1 where s1: "unlink_all s a = Some s1" "em_inv s1"
      "em_items s1 = (em_items s)(a \<mapsto> it\<lparr>si_endpoints_tree := rt0\<rparr>)" "members s1 a = {}"
      "em_points s1 = (\<lambda>b. if b \<in> members s a then Option.bind (em_points s b) dropped else em_points s b)" by blast
  let ?A = "dom (em_items s1)" let ?it = "it\<lparr>si_endpoints_tree := rt0\<rparr>"
  note fresh = em_inv_fresh [OF s1(2)]
  have a: "em_items s1 a = Some ?it" "a \<in> ?A" by (simp_all add: s1(3))
  have idx: "indexed name_compare (name_of s1) (em_item_nodes s1) (em_server_tree s1) ?A"
    using em_invD(2) [OF s1(2)] by (simp add: servers_ok_def)
  from names.index_remove [OF idx a(2) fresh(4)] obtain h rt where
    h: "avl_remove (em_item_nodes s1) (em_server_tree s1) a 0 = Some (h, rt)" "indexed name_compare (name_of s1) h rt (?A - {a})" by blast
  obtain xs where xs: "set xs = ?A" "ring (em_lists s1) (Owner 0) (map Member xs)" using em_invD(2) [OF s1(2)] by (auto simp: servers_ok_def)
  obtain us vs where uv: "xs = us @ a # vs" using a(2) xs(1) by (metis split_list)
  have "distinct xs" using xs(2) by (auto simp: ring_def distinct_map)
  then have set: "set (us @ vs) = ?A - {a}" using xs(1) uv by auto
  from ring_del [of "em_lists s1" "Owner 0" "map Member us" "Member a" "map Member vs"] xs(2) obtain l where
    l: "listnode_del (em_lists s1) (Member a) = Some l" "ring l (Owner 0) (map Member (us @ vs))"
      "\<forall>x. x \<notin> insert (Owner 0) (Member ` ?A) \<longrightarrow> l x = em_lists s1 x" unfolding xs(1) [symmetric] uv by (auto simp: image_Un)
  define s' where "s' = delete_server_item (s1\<lparr>em_items := (em_items s1)(a \<mapsto> ?it\<lparr>si_endpoints_tree := None\<rparr>),
    em_item_nodes := h(0 := None), em_server_tree := rt, em_lists := l\<rparr>) a"
  have "remove_server_item s (Some a) = Some (0, s')"
    using s1(1) a(1) h(1) l(1) by (simp add: remove_server_item_def s'_def)
  moreover have items: "em_items s' = (em_items s1)(a := None)" by (simp add: s'_def delete_server_item_def)
  moreover have "em_inv s'"
    by (rule drop_server_inv [OF s1(2) a(1) s1(4) h(2) l(2) set l(3) items]) (simp_all add: s'_def delete_server_item_def)
  moreover have "em_points s' = em_points s1" by (simp add: s'_def delete_server_item_def)
  ultimately show ?thesis using s1(3,5) by (intro exI [of _ s']) simp
qed

end
