(* ===== verification/Endpoint_Ops.thy ===== *)
theory Endpoint_Ops
  imports Endpoint_Mgr
begin

text \<open>
  Properties of the endpoint manager: what the public operations return, allocation to the least loaded
  endpoint, and the reference counts over all sequences of operations.
\<close>

lemma find_endpoint_hit:
  assumes "em_inv s" and "em_items s a = Some it" and "em_points s b = Some p" and "se_server p = Some a"
  shows "find_endpoint s a (se_identity p) = Some (Some b)"
proof -
  have "indexed name_compare (identity_of s) (em_point_nodes s) (si_endpoints_tree it) (members s a)" "b \<in> members s a"
    using em_invD(3) [OF assms(1,2)] assms(3,4) by (auto simp: server_ok_def members_def)
  from names.index_find(1) [OF this] assms(2,3) show ?thesis by (simp add: find_endpoint_def)
qed

lemma find_server_endpoint_hit:
  assumes "em_inv s" and "em_items s a = Some it" and "em_points s b = Some p" and "se_server p = Some a"
    and "si_name it \<noteq> []" and "se_identity p \<noteq> []"
  shows "find_server_endpoint s (Some (si_name it)) (Some (se_identity p)) = Some (Some b)"
  using find_server_hit [OF assms(1,2)] find_endpoint_hit [OF assms(1-4)] assms(5,6) by (simp add: find_server_endpoint_def)

section \<open>Adding endpoints\<close>

text \<open>The configuration entry that decides whether the service knows a server.\<close>

definition configured :: "sysconfig \<Rightarrow> string \<Rightarrow> bool" where
  "configured cf name \<longleftrightarrow> cf_string cf (''indexing-service.service.'' @ name @ ''.name'') = 0"

abbreviation new_point :: "string \<Rightarrow> nat \<Rightarrow> u64 \<Rightarrow> server_endpoint" where
  "new_point identity a cnt \<equiv> \<lparr>se_identity = identity, se_server = Some a, se_veh_cnt = cnt, se_refcnt = 1, se_status = 1\<rparr>"

text \<open>The end of \<^verbatim>\<open>add_server_endpoint\<close>, once the server is there.\<close>

definition attach :: "server_endpoint_mgr \<Rightarrow> nat \<Rightarrow> string \<Rightarrow> u64 \<Rightarrow> (ptr \<times> server_endpoint_mgr) option" where
  "attach s a identity cnt =
     do { node \<leftarrow> find_endpoint s a identity; if node \<noteq> None then Some (node, s) else add_endpoint s (Some a) identity cnt }"

lemma attach_old:
  assumes "em_inv s" and "em_items s a = Some it" and "em_points s b = Some p" and "se_server p = Some a"
  shows "attach s a (se_identity p) cnt = Some (Some b, s)"
  using find_endpoint_hit [OF assms] by (simp add: attach_def)

lemma attach_new:
  assumes "em_inv s" and "em_items s a = Some it" and "\<forall>b p. em_points s b = Some p \<and> se_server p = Some a \<longrightarrow> se_identity p \<noteq> identity"
  shows "\<exists>rt s'. attach s a identity cnt = Some (Some (em_brk s), s') \<and> em_inv s' \<and>
    em_items s' = (em_items s)(a \<mapsto> it\<lparr>si_endpoints_tree := rt\<rparr>) \<and> em_points s' = (em_points s)(em_brk s \<mapsto> new_point identity a cnt)"
  using assms(1,2)
proof (cases rule: find_endpoint_cases [where identity = identity])
  case (found b p)
  then show ?thesis using assms(3) by blast
next
  case missing
  from add_endpoint_new [OF assms(1,2) missing(2,1), of cnt] missing(1) show ?thesis by (auto simp: attach_def)
qed

lemma add_server_endpoint_known:
  assumes "em_inv s" and "em_items s a = Some it" and "si_name it \<noteq> []" and "identity \<noteq> []"
  shows "add_server_endpoint cf s (Some (si_name it)) (Some identity) cnt = attach s a identity cnt"
  using find_server_hit [OF assms(1,2)] assms(3,4) by (simp add: add_server_endpoint_def attach_def cong: if_cong)

lemma add_server_endpoint_unknown:
  assumes "em_inv s" and "\<forall>a it. em_items s a = Some it \<longrightarrow> si_name it \<noteq> name" and "name \<noteq> []" and "identity \<noteq> []"
  shows "if configured cf name
    then \<exists>b it s'. add_server_endpoint cf s (Some name) (Some identity) cnt = Some (Some b, s') \<and> em_inv s' \<and>
      em_items s' = (em_items s)(em_brk s \<mapsto> it) \<and> si_name it = name \<and> b \<notin> dom (em_points s) \<and>
      em_points s' = (em_points s)(b \<mapsto> new_point identity (em_brk s) cnt)
    else add_server_endpoint cf s (Some name) (Some identity) cnt = None"
  using assms(1)
proof (cases rule: find_server_cases [where name = name])
  case (found a it)
  then show ?thesis using assms(2) by blast
next
  case missing
  note add = add_server_item_cases [OF assms(1) missing(2,1), where cf = cf and prefix = "''indexing-service.service.''" and max_key = "''max-vehicle-count''" and max_cnt = 10000]
  show ?thesis
  proof (cases "configured cf name")
    case True
    then obtain it s1 where s1: "add_server_item cf ''indexing-service.service.'' ''max-vehicle-count'' 10000 s name = Some (Some (em_brk s), s1)"
        "em_inv s1" "em_items s1 = (em_items s)(em_brk s \<mapsto> it)" "si_name it = name" "em_points s1 = em_points s"
      using add unfolding configured_def by auto
    have a: "em_items s1 (em_brk s) = Some it" by (simp add: s1(3))
    have none: "\<forall>b p. em_points s1 b = Some p \<and> se_server p = Some (em_brk s) \<longrightarrow> se_identity p \<noteq> identity"
      using em_inv_members_empty [OF assms(1) em_inv_fresh(1) [OF assms(1)]] by (auto simp: s1(5) members_def)
    from attach_new [where cnt = cnt, OF s1(2) a none] obtain rt s' where s': "attach s1 (em_brk s) identity cnt = Some (Some (em_brk s1), s')" "em_inv s'"
        "em_items s' = (em_items s1)(em_brk s \<mapsto> it\<lparr>si_endpoints_tree := rt\<rparr>)" "em_points s' = (em_points s1)(em_brk s1 \<mapsto> new_point identity (em_brk s) cnt)"
      by blast
    have "add_server_endpoint cf s (Some name) (Some identity) cnt = attach s1 (em_brk s) identity cnt"
      using missing(1) assms(3,4) s1(1) by (simp add: add_server_endpoint_def attach_def cong: if_cong)
    then show ?thesis using True s' s1(4) em_inv_fresh(2) [OF s1(2)] by (auto simp: s1(3,5))
  next
    case False
    then show ?thesis using add missing(1) assms(3,4) by (auto simp: configured_def add_server_endpoint_def)
  qed
qed

lemma ctor_inv: "\<exists>s. server_endpoint_mgr_ctor = Some s \<and> em_inv s \<and> em_items s = Map.empty \<and> em_points s = Map.empty"
  by (simp add: server_endpoint_mgr_ctor_def listnode_init_def set_next_def set_prev_def em_inv_def addresses_ok_def servers_ok_def ring_def)

lemma add_spec:
  assumes "em_inv s" and "name \<noteq> []" and "identity \<noteq> []"
  shows "if (\<exists>a it. em_items s a = Some it \<and> si_name it = name) \<or> configured cf name
    then \<exists>b s'. add_server_endpoint cf s (Some name) (Some identity) cnt = Some (Some b, s') \<and> em_inv s' \<and>
      find_server_endpoint s' (Some name) (Some identity) = Some (Some b) \<and>
      (find_server_endpoint s (Some name) (Some identity) = Some (Some b) \<and> s' = s \<or>
       find_server_endpoint s (Some name) (Some identity) = Some None \<and> b \<notin> dom (em_points s) \<and>
         (\<exists>a. em_points s' = (em_points s)(b \<mapsto> new_point identity a cnt)))
    else add_server_endpoint cf s (Some name) (Some identity) cnt = None"
proof (cases "\<exists>a it. em_items s a = Some it \<and> si_name it = name")
  case True
  then obtain a it where a: "em_items s a = Some it" "si_name it = name" by blast
  note add = add_server_endpoint_known [OF assms(1) a(1), of identity cf cnt, unfolded a(2), OF assms(2,3)]
  show ?thesis
  proof (cases "\<exists>b p. em_points s b = Some p \<and> se_server p = Some a \<and> se_identity p = identity")
    case True
    then obtain b p where p: "em_points s b = Some p" "se_server p = Some a" "se_identity p = identity" by blast
    have "find_server_endpoint s (Some name) (Some identity) = Some (Some b)"
      using find_server_endpoint_hit [OF assms(1) a(1) p(1,2)] a(2) p(3) assms(2,3) by simp
    moreover have "attach s a identity cnt = Some (Some b, s)" using attach_old [OF assms(1) a(1) p(1,2)] p(3) by simp
    ultimately show ?thesis using a assms(1) by (auto simp: add)
  next
    case False
    then have none: "\<forall>b p. em_points s b = Some p \<and> se_server p = Some a \<longrightarrow> se_identity p \<noteq> identity" by blast
    then obtain rt s' where s': "attach s a identity cnt = Some (Some (em_brk s), s')" "em_inv s'"
        "em_items s' = (em_items s)(a \<mapsto> it\<lparr>si_endpoints_tree := rt\<rparr>)" "em_points s' = (em_points s)(em_brk s \<mapsto> new_point identity a cnt)"
      using attach_new [where cnt = cnt, OF assms(1) a(1)] by blast
    have "find_endpoint s a identity = Some None"
      using assms(1) a(1) none by (cases rule: find_endpoint_cases [where identity = identity]) auto
    then have "find_server_endpoint s (Some name) (Some identity) = Some None"
      using find_server_hit [OF assms(1) a(1)] a(2) assms(2,3) by (simp add: find_server_endpoint_def)
    moreover have "find_server_endpoint s' (Some name) (Some identity) = Some (Some (em_brk s))"
      using find_server_endpoint_hit [OF s'(2), of a "it\<lparr>si_endpoints_tree := rt\<rparr>" "em_brk s" "new_point identity a cnt"] a(2) assms(2,3)
      by (simp add: s'(3,4))
    ultimately show ?thesis using a s' em_inv_fresh(2) [OF assms(1)] by (auto simp: add)
  qed
next
  case False
  then have unknown: "\<forall>a it. em_items s a = Some it \<longrightarrow> si_name it \<noteq> name" by blast
  show ?thesis
  proof (cases "configured cf name")
    case True
    then obtain b it s' where s': "add_server_endpoint cf s (Some name) (Some identity) cnt = Some (Some b, s')" "em_inv s'"
        "em_items s' = (em_items s)(em_brk s \<mapsto> it)" "si_name it = name" "b \<notin> dom (em_points s)"
        "em_points s' = (em_points s)(b \<mapsto> new_point identity (em_brk s) cnt)"
      using add_server_endpoint_unknown [where cf = cf and cnt = cnt, OF assms(1) unknown assms(2,3)] by auto
    have "find_server_endpoint s (Some name) (Some identity) = Some None"
      using assms(1)
    proof (cases rule: find_server_cases [where name = name])
      case missing
      then show ?thesis using assms(2,3) by (simp add: find_server_endpoint_def)
    qed (use unknown in blast)
    moreover have "find_server_endpoint s' (Some name) (Some identity) = Some (Some b)"
      using find_server_endpoint_hit [OF s'(2), of "em_brk s" it b "new_point identity (em_brk s) cnt"] s'(4) assms(2,3) by (simp add: s'(3,6))
    ultimately show ?thesis using True s'(1,2,5,6) by auto
  next
    case notconf: False
    then show ?thesis
      using add_server_endpoint_unknown [where cf = cf and cnt = cnt, OF assms(1) unknown assms(2,3)] False by auto
  qed
qed

text \<open>A configuration that knows the server \<^verbatim>\<open>fusion\<close> and no other.\<close>

definition sample_config :: sysconfig where
  "sample_config = \<lparr>cf_string = (\<lambda>path. if path = ''indexing-service.service.fusion.name'' then 0 else 1), cf_number = (\<lambda>path d. d)\<rparr>"

text \<open>
  Adding an endpoint. For a server the manager knows or the configuration names, the call returns the endpoint
  with that identity: the one that is there, with nothing changed, or a new one with the count given, one
  reference and enabled; a lookup then finds it. For any other server the call fails its assertion.
\<close>

theorem endpoint_add_spec:
  assumes "em_inv s" and "name \<noteq> []" and "identity \<noteq> []"
  shows "if (\<exists>a it. em_items s a = Some it \<and> si_name it = name) \<or> configured cf name
    then \<exists>b s'. add_server_endpoint cf s (Some name) (Some identity) cnt = Some (Some b, s') \<and> em_inv s' \<and>
      find_server_endpoint s' (Some name) (Some identity) = Some (Some b) \<and>
      (find_server_endpoint s (Some name) (Some identity) = Some (Some b) \<and> s' = s \<or>
       find_server_endpoint s (Some name) (Some identity) = Some None \<and> b \<notin> dom (em_points s) \<and>
         (\<exists>a. em_points s' = (em_points s)(b \<mapsto> new_point identity a cnt)))
    else add_server_endpoint cf s (Some name) (Some identity) cnt = None"
  using assms by (rule add_spec)

theorem endpoint_add_spec_witness:
  "\<exists>s. server_endpoint_mgr_ctor = Some s \<and> add_server_endpoint sample_config s (Some ''radar'') (Some ''e1'') 0 = None \<and>
     (\<exists>b s'. add_server_endpoint sample_config s (Some ''fusion'') (Some ''e1'') 0 = Some (Some b, s') \<and>
        find_server_endpoint s' (Some ''fusion'') (Some ''e1'') = Some (Some b))"
proof -
  obtain s where s: "server_endpoint_mgr_ctor = Some s" "em_inv s" "em_items s = Map.empty" using ctor_inv by blast
  have "configured sample_config ''fusion''" "\<not> configured sample_config ''radar''" by (simp_all add: configured_def sample_config_def)
  with s endpoint_add_spec [OF s(2), of "''radar''" "''e1''" sample_config 0]
    endpoint_add_spec [OF s(2), of "''fusion''" "''e1''" sample_config 0] show ?thesis by auto
qed

text \<open>
  Allocation. The call always returns. If it returns an endpoint, it is one of the server's, enabled and not the
  master, the first of those with the least load, and its load was below the maximum, so that it does not
  exceed the maximum with the new vehicle; its load and its reference count grow by one and nothing else
  changes. If it returns none, every enabled endpoint but the master has the maximal load. The maximum is
  the configured one modulo 2 to the power 32.
\<close>

theorem endpoint_alloc_least:
  assumes "em_inv s"
  shows "\<exists>r s'. alloc_server_endpoint_to_vehicle s name master = Some (r, s') \<and> em_inv s' \<and>
    (case r of
       None \<Rightarrow> s' = s \<and> (\<forall>a it b. em_items s a = Some it \<and> si_name it = name \<and> b \<in> members s a \<and> eligible (em_points s) master b \<longrightarrow>
         veh_limit it \<le> veh_load (em_points s) b)
     | Some b \<Rightarrow> \<exists>a it ys p. em_items s a = Some it \<and> si_name it = name \<and> set ys = members s a \<and>
         list_nodes (em_lists s) (Owner a) = Some (map Member ys) \<and> least_loaded (em_points s) master ys b \<and>
         em_points s b = Some p \<and> se_veh_cnt p < veh_limit it \<and>
         s' = s\<lparr>em_points := (em_points s)(b \<mapsto> p\<lparr>se_veh_cnt := se_veh_cnt p + 1, se_refcnt := se_refcnt p + 1\<rparr>)\<rparr>)"
  using assms by (rule alloc_least)

theorem endpoint_alloc_least_witness:
  "\<exists>s. server_endpoint_mgr_ctor = Some s \<and> alloc_server_endpoint_to_vehicle s ''fusion'' None = Some (None, s)"
proof -
  obtain s where s: "server_endpoint_mgr_ctor = Some s" "em_inv s" "em_items s = Map.empty" using ctor_inv by blast
  with endpoint_alloc_least [OF s(2), of "''fusion''" None] show ?thesis by (auto split: option.splits)
qed

section \<open>References over sequences of operations\<close>

text \<open>
  The system of the manager and its clients: \<open>H\<close> counts the handles (\<^verbatim>\<open>server_endpoint_node\<close>) that clients hold to each
  endpoint. Allocation gives out a handle, and a handle that goes out of scope releases its
  reference. A client passes a master it holds, and servers that exist.
\<close>

definition grab :: "ptr \<Rightarrow> (nat \<Rightarrow> nat) \<Rightarrow> nat \<Rightarrow> nat" where
  "grab r H = (case r of None \<Rightarrow> H | Some b \<Rightarrow> H(b := Suc (H b)))"

inductive ep_step :: "sysconfig \<Rightarrow> server_endpoint_mgr \<times> (nat \<Rightarrow> nat) \<Rightarrow> server_endpoint_mgr \<times> (nat \<Rightarrow> nat) \<Rightarrow> bool" for cf where
  add: "add_server_endpoint cf s name identity cnt = Some (r, s') \<Longrightarrow> ep_step cf (s, H) (s', H)"
| alloc: "\<lbrakk>alloc_server_endpoint_to_vehicle s svr master = Some (r, s'); \<forall>b. master = Some b \<longrightarrow> 0 < H b\<rbrakk> \<Longrightarrow>
    ep_step cf (s, H) (s', grab r H)"
| drop: "\<lbrakk>0 < H b; release s b = Some (c, s')\<rbrakk> \<Longrightarrow> ep_step cf (s, H) (s', H(b := H b - 1))"
| remove_point: "\<lbrakk>em_items s a \<noteq> None; remove_endpoint s a idt = Some (i, s')\<rbrakk> \<Longrightarrow> ep_step cf (s, H) (s', H)"
| remove_server: "\<lbrakk>em_items s a \<noteq> None; remove_server_item s (Some a) = Some (i, s')\<rbrakk> \<Longrightarrow> ep_step cf (s, H) (s', H)"

inductive ep_reachable :: "sysconfig \<Rightarrow> server_endpoint_mgr \<times> (nat \<Rightarrow> nat) \<Rightarrow> bool" for cf where
  start: "server_endpoint_mgr_ctor = Some s \<Longrightarrow> ep_reachable cf (s, \<lambda>_. 0)"
| step: "\<lbrakk>ep_reachable cf x; ep_step cf x y\<rbrakk> \<Longrightarrow> ep_reachable cf y"

text \<open>The reference count of an endpoint: the handles, and one for the server it belongs to.\<close>

definition count_ok :: "server_endpoint option \<Rightarrow> nat \<Rightarrow> bool" where
  "count_ok q n \<longleftrightarrow> (case q of None \<Rightarrow> n = 0 | Some p \<Rightarrow> se_refcnt p = int n + (if se_server p = None then 0 else 1))"

definition counts_ok :: "server_endpoint_mgr \<Rightarrow> (nat \<Rightarrow> nat) \<Rightarrow> bool" where
  "counts_ok s H \<longleftrightarrow> (\<forall>b. count_ok (em_points s b) (H b))"

lemma count_ok_dropped:
  assumes "count_ok (Some p) n" and "se_server p = Some a"
  shows "count_ok (dropped p) n" "dropped p \<noteq> None"
  using assms by (auto simp: count_ok_def dropped_def)

lemma count_ok_new: "count_ok None n \<Longrightarrow> count_ok (Some (new_point identity a cnt)) n"
  by (simp add: count_ok_def)

lemma add_step:
  assumes "em_inv s" "counts_ok s H" and "add_server_endpoint cf s name identity cnt = Some (r, s')"
  shows "em_inv s' \<and> counts_ok s' H \<and> dom (em_points s) \<subseteq> dom (em_points s')"
proof (cases "name \<in> {None, Some []} \<or> identity \<in> {None, Some []}")
  case True
  then have "s' = s" using assms(3) by (auto simp: add_server_endpoint_def)
  with assms show ?thesis by simp
next
  case False
  then obtain n i where ni: "name = Some n" "identity = Some i" "n \<noteq> []" "i \<noteq> []" by (cases name; cases identity) auto
  from add_spec [OF assms(1) ni(3,4), of cf cnt] assms(3)
  have inv: "em_inv s'" and "s' = s \<or> (\<exists>b a. b \<notin> dom (em_points s) \<and> em_points s' = (em_points s)(b \<mapsto> new_point i a cnt))"
    by (auto simp: ni split: if_splits)
  then show ?thesis
  proof (elim disjE exE conjE)
    fix b a assume new: "b \<notin> dom (em_points s)" "em_points s' = (em_points s)(b \<mapsto> new_point i a cnt)"
    then have "count_ok None (H b)" using assms(2) by (metis counts_ok_def domIff)
    then have "counts_ok s' H" using assms(2) new(2) count_ok_new unfolding counts_ok_def by simp
    with inv new(2) show ?thesis by auto
  qed (use assms(1,2) in simp)
qed

lemma alloc_step:
  assumes "em_inv s" "counts_ok s H" and "alloc_server_endpoint_to_vehicle s svr master = Some (r, s')"
  shows "em_inv s' \<and> counts_ok s' (grab r H) \<and> dom (em_points s) \<subseteq> dom (em_points s')"
proof (cases r)
  case None
  then show ?thesis using alloc_least [OF assms(1), of svr master] assms by (auto simp: grab_def)
next
  case (Some b)
  then obtain p where p: "em_inv s'" "em_points s b = Some p"
      "em_points s' = (em_points s)(b \<mapsto> p\<lparr>se_veh_cnt := se_veh_cnt p + 1, se_refcnt := se_refcnt p + 1\<rparr>)"
    using alloc_least [OF assms(1), of svr master] assms(3) by auto
  have "count_ok (Some p) (H b)" using assms(2) p(2) by (metis counts_ok_def)
  then have "count_ok (Some (p\<lparr>se_veh_cnt := se_veh_cnt p + 1, se_refcnt := se_refcnt p + 1\<rparr>)) (Suc (H b))" by (simp add: count_ok_def)
  then show ?thesis using p Some assms(2) by (auto simp: counts_ok_def grab_def)
qed

lemma drop_step:
  assumes "em_inv s" "counts_ok s H" and "0 < H b" "release s b = Some (c, s')"
  shows "em_inv s' \<and> counts_ok s' (H(b := H b - 1)) \<and> dom (em_points s) \<subseteq> dom (em_points s')"
proof -
  have ok: "count_ok (em_points s b) (H b)" using assms(2) by (simp add: counts_ok_def)
  with assms(3) obtain p where p: "em_points s b = Some p" by (cases "em_points s b") (auto simp: count_ok_def)
  then have "se_refcnt p \<noteq> 0" using ok assms(3) by (auto simp: count_ok_def)
  then have s': "s' = s\<lparr>em_points := (em_points s)(b \<mapsto> p\<lparr>se_refcnt := se_refcnt p - 1\<rparr>)\<rparr>"
    using assms(4) p by (auto simp: release_def Let_def)
  have "em_inv s'" unfolding s' by (rule point_update_inv [OF assms(1) p]) simp_all
  moreover have "count_ok (Some (p\<lparr>se_refcnt := se_refcnt p - 1\<rparr>)) (H b - 1)"
    using ok p assms(3) by (simp add: count_ok_def of_nat_diff)
  ultimately show ?thesis using assms(2) s' by (auto simp: counts_ok_def)
qed

lemma remove_point_step:
  assumes "em_inv s" "counts_ok s H" and "em_items s a = Some it" "remove_endpoint s a idt = Some (i, s')"
  shows "em_inv s' \<and> counts_ok s' H \<and> dom (em_points s) \<subseteq> dom (em_points s')"
  using assms(1,3)
proof (cases rule: find_endpoint_cases [where identity = idt])
  case (found b p)
  from unlink_endpoint_ok [OF assms(1,3) found(2,3)] assms(4) found(1)
  have s': "em_inv s'" "em_points s' = (em_points s)(b := dropped p)" by (auto simp: remove_endpoint_def)
  have "count_ok (Some p) (H b)" using assms(2) found(2) by (metis counts_ok_def)
  from count_ok_dropped [OF this found(3)] show ?thesis using s' assms(2) by (auto simp: counts_ok_def)
next
  case missing
  then show ?thesis using assms by (simp add: remove_endpoint_def)
qed

lemma remove_server_step:
  assumes "em_inv s" "counts_ok s H" and "em_items s a = Some it" "remove_server_item s (Some a) = Some (i, s')"
  shows "em_inv s' \<and> counts_ok s' H \<and> dom (em_points s) \<subseteq> dom (em_points s')"
proof -
  from remove_server_item_ok [OF assms(1,3)] assms(4) have s': "em_inv s'"
    "em_points s' = (\<lambda>b. if b \<in> members s a then Option.bind (em_points s b) dropped else em_points s b)" by auto
  have "count_ok (em_points s' b) (H b) \<and> (em_points s b \<noteq> None \<longrightarrow> em_points s' b \<noteq> None)" for b
  proof (cases "b \<in> members s a")
    case True
    then obtain p where p: "em_points s b = Some p" "se_server p = Some a" by (auto simp: members_def)
    have "count_ok (Some p) (H b)" using assms(2) p(1) by (metis counts_ok_def)
    from count_ok_dropped [OF this p(2)] show ?thesis using True p(1) by (simp add: s'(2))
  next
    case False
    then show ?thesis using assms(2) by (simp add: s'(2) counts_ok_def)
  qed
  with s'(1) show ?thesis by (auto simp: counts_ok_def dom_def)
qed

lemma ep_step_ok:
  assumes "ep_step cf (s, H) (s', H')" and "em_inv s" "counts_ok s H"
  shows "em_inv s' \<and> counts_ok s' H' \<and> dom (em_points s) \<subseteq> dom (em_points s')"
  using assms(1)
proof cases
  case (add name identity cnt r)
  then show ?thesis using add_step [OF assms(2,3)] by blast
next
  case (alloc svr master r)
  then show ?thesis using alloc_step [OF assms(2,3)] by blast
next
  case (drop b c)
  then show ?thesis using drop_step [OF assms(2,3)] by blast
next
  case (remove_point a idt i)
  then show ?thesis using remove_point_step [OF assms(2,3)] by blast
next
  case (remove_server a i)
  then show ?thesis using remove_server_step [OF assms(2,3)] by blast
qed

lemma ep_reachable_ok: "ep_reachable cf x \<Longrightarrow> em_inv (fst x) \<and> counts_ok (fst x) (snd x)"
proof (induction rule: ep_reachable.induct)
  case (start s)
  obtain t where t: "server_endpoint_mgr_ctor = Some t" "em_inv t" "em_points t = Map.empty" using ctor_inv by blast
  then have "s = t" using start by (metis option.inject)
  then show ?case using t by (simp add: counts_ok_def count_ok_def)
next
  case (step x y)
  then show ?case using ep_step_ok [of cf "fst x" "snd x" "fst y" "snd y"] by simp
qed



text \<open>
  Endpoints are never freed. The release of the last reference sees the count one and not zero, so no sequence of
  operations deletes an endpoint, even when its server is removed and no handle is left.
\<close>

theorem endpoint_never_freed:
  assumes "ep_reachable cf (s, H)" and "ep_step cf (s, H) (s', H')"
  shows "dom (em_points s) \<subseteq> dom (em_points s')"
  using ep_step_ok [OF assms(2)] ep_reachable_ok [OF assms(1)] by simp

theorem endpoint_never_freed_witness:
  "\<exists>s. server_endpoint_mgr_ctor = Some s \<and> (\<exists>s'. alloc_server_endpoint_to_vehicle s ''fusion'' None = Some (None, s') \<and>
     dom (em_points s) \<subseteq> dom (em_points s'))"
proof -
  obtain s where s: "server_endpoint_mgr_ctor = Some s" "em_inv s" "em_items s = Map.empty" using ctor_inv by blast
  then have a: "alloc_server_endpoint_to_vehicle s ''fusion'' None = Some (None, s)"
    using alloc_least [OF s(2), of "''fusion''" None] by (auto split: option.splits)
  have "ep_step sample_config (s, \<lambda>_. 0) (s, grab None (\<lambda>_. 0))" by (rule ep_step.alloc [OF a]) simp
  from endpoint_never_freed [OF ep_reachable.start [OF s(1)] this] a s(1) show ?thesis by blast
qed

text \<open>
  The destructor. \<^verbatim>\<open>release_all_nodes\<close> tests the list the wrong way round: with servers it releases none of them
  and only forgets the tree, and without servers it treats the head of the list as a server.
\<close>

theorem endpoint_release_all:
  assumes "em_inv s"
  shows "release_all_nodes s = (if em_items s = Map.empty then None else Some (0, s\<lparr>em_server_tree := None\<rparr>))"
proof -
  obtain xs where xs: "set xs = dom (em_items s)" "ring (em_lists s) (Owner 0) (map Member xs)"
    using em_invD(2) [OF assms] by (auto simp: servers_ok_def)
  have empty: "xs = [] \<longleftrightarrow> em_items s = Map.empty" by (simp add: xs(1) [symmetric] flip: set_empty dom_eq_empty_conv)
  note e = ring_isempty [OF xs(2)]
  show ?thesis
  proof (cases xs)
    case Nil
    obtain n where "em_lists s (Owner 0) = Some n" "ln_next n = Some (Owner 0)" using xs(2) Nil by (auto simp: ring_def)
    then have "release_all_loop s = None" using e Nil by (subst release_all_loop.simps) (simp add: list_entry_def)
    then show ?thesis using empty Nil by (simp add: release_all_nodes_def)
  next
    case (Cons a ys)
    then have "release_all_loop s = Some s" using e by (subst release_all_loop.simps) simp
    then show ?thesis using empty Cons by (simp add: release_all_nodes_def)
  qed
qed

theorem endpoint_release_all_witness: "\<exists>s. server_endpoint_mgr_ctor = Some s \<and> release_all_nodes s = None"
proof -
  obtain s where s: "server_endpoint_mgr_ctor = Some s" "em_inv s" "em_items s = Map.empty" using ctor_inv by blast
  with endpoint_release_all [OF s(2)] show ?thesis by auto
qed

end
