(* ===== verification/Load_Balance.thy ===== *)
theory Load_Balance
  imports Endpoint_Ops
begin

text \<open>
  The endpoint manager of the load balancer, \<^verbatim>\<open>mec/load-balance/src/server-endpoint-mgr.cpp\<close>. It is the manager of
  the indexing service with another configuration, a count of requests instead of vehicles that starts at 0, and
  another choice: the enabled endpoint with the least count, whose count goes up until one reaches the
  maximum, when all start again at 0. The functions it shares with the indexing service are those of
  \<open>Endpoint_Mgr\<close>, with \<open>se_veh_cnt\<close> for \<^verbatim>\<open>_count\<close> and \<open>si_veh_max_cnt\<close> for \<^verbatim>\<open>_max_cnt\<close>.
\<close>

section \<open>Operations\<close>

definition lb_add_server_item :: "sysconfig \<Rightarrow> server_endpoint_mgr \<Rightarrow> string \<Rightarrow> (ptr \<times> server_endpoint_mgr) option" where
  "lb_add_server_item cf s name = add_server_item cf ''load-balance-service.service.'' ''max-count'' 10000 s name"

definition lb_add_endpoint :: "server_endpoint_mgr \<Rightarrow> ptr \<Rightarrow> string \<Rightarrow> (ptr \<times> server_endpoint_mgr) option" where
  "lb_add_endpoint s item identity = add_endpoint s item identity 0"

definition lb_add_server_endpoint ::
  "sysconfig \<Rightarrow> server_endpoint_mgr \<Rightarrow> string option \<Rightarrow> string option \<Rightarrow> (ptr \<times> server_endpoint_mgr) option" where
  "lb_add_server_endpoint cf s svr_name identity =
     (if svr_name \<in> {None, Some []} \<or> identity \<in> {None, Some []} then Some (None, s)
      else do {
        item \<leftarrow> find_server_item s (the svr_name);
        (item, s) \<leftarrow> (if item = None then lb_add_server_item cf s (the svr_name) else Some (item, s));
        a \<leftarrow> item;
        node \<leftarrow> find_endpoint s a (the identity);
        if node \<noteq> None then Some (node, s) else lb_add_endpoint s item (the identity)
      })"

text \<open>
  The loop of \<^verbatim>\<open>get_service_endpoint\<close>; \<open>min_count\<close> is a signed 64-bit number, and the comparison with the
  count is unsigned.
\<close>

fun service_scan :: "(nat \<Rightarrow> server_endpoint option) \<Rightarrow> list_addr list \<Rightarrow> u64 \<Rightarrow> ptr \<Rightarrow> ptr option" where
  "service_scan P [] min_count alloc_point = Some alloc_point"
| "service_scan P (nd # nds) min_count alloc_point =
     do {
       b \<leftarrow> list_entry (Some nd);
       point \<leftarrow> P b;
       if se_status point \<noteq> 1 then service_scan P nds min_count alloc_point
       else if sint min_count < 0 then service_scan P nds (se_veh_cnt point) (Some b)
       else if se_veh_cnt point < min_count then service_scan P nds (se_veh_cnt point) (Some b)
       else service_scan P nds min_count alloc_point
     }"

fun reset_counts :: "server_endpoint_mgr \<Rightarrow> list_addr list \<Rightarrow> server_endpoint_mgr option" where
  "reset_counts s [] = Some s"
| "reset_counts s (nd # nds) =
     do {
       b \<leftarrow> list_entry (Some nd);
       point \<leftarrow> em_points s b;
       reset_counts (s\<lparr>em_points := (em_points s)(b \<mapsto> point\<lparr>se_veh_cnt := 0\<rparr>)\<rparr>) nds
     }"

definition get_service_endpoint :: "server_endpoint_mgr \<Rightarrow> ptr \<Rightarrow> (ptr \<times> server_endpoint_mgr) option" where
  "get_service_endpoint s item =
     (case item of
        None \<Rightarrow> Some (None, s)
      | Some a \<Rightarrow> do {
          e \<leftarrow> listnode_isempty (em_lists s) (Owner a);
          if e then Some (None, s)
          else do {
            nds \<leftarrow> list_nodes (em_lists s) (Owner a);
            alloc_point \<leftarrow> service_scan (em_points s) nds (- 1) None;
            case alloc_point of
              None \<Rightarrow> Some (None, s)
            | Some b \<Rightarrow> do {
                p \<leftarrow> em_points s b;
                it \<leftarrow> em_items s a;
                let s = s\<lparr>em_points := (em_points s)(b \<mapsto> p\<lparr>se_veh_cnt := se_veh_cnt p + 1\<rparr>)\<rparr>;
                s \<leftarrow> (if se_veh_cnt p + 1 \<ge> si_veh_max_cnt it then reset_counts s nds else Some s);
                (_, s) \<leftarrow> addref s b;
                Some (alloc_point, s)
              }
          }
        })"

section \<open>The choice\<close>

text \<open>Counts below 2 to the power 63, which the loop reads as signed numbers.\<close>

definition small_counts :: "(nat \<Rightarrow> server_endpoint option) \<Rightarrow> nat set \<Rightarrow> bool" where
  "small_counts P B \<longleftrightarrow> (\<forall>b \<in> B. 0 \<le> sint (veh_load P b))"

lemma service_scan_pos:
  assumes "\<forall>b \<in> set ys. P b \<noteq> None" and "small_counts P (set ys)" and "0 \<le> sint m"
  shows "\<exists>r. service_scan P (map Member ys) m best = Some r \<and>
    (if \<exists>b \<in> set ys. eligible P None b \<and> veh_load P b < m then \<exists>b. r = Some b \<and> least_loaded P None ys b \<and> veh_load P b < m else r = best)"
  using assms
proof (induction ys arbitrary: m best)
  case (Cons x ys)
  then obtain p where p: "P x = Some p" by auto
  have IH: "\<exists>r. service_scan P (map Member ys) m' best' = Some r \<and> (if \<exists>b \<in> set ys. eligible P None b \<and> veh_load P b < m'
      then \<exists>b. r = Some b \<and> least_loaded P None ys b \<and> veh_load P b < m' else r = best')" if "0 \<le> sint m'" for m' best'
    using Cons that by (simp add: small_counts_def)
  show ?case
  proof (cases "eligible P None x \<and> veh_load P x < m")
    case True
    then have step: "service_scan P (map Member (x # ys)) m best = service_scan P (map Member ys) (veh_load P x) (Some x)"
      using p Cons.prems(3) by (simp add: eligible_def veh_load_def list_entry_def)
    have "0 \<le> sint (veh_load P x)" using Cons.prems(2) by (simp add: small_counts_def)
    from IH [OF this, of "Some x"] obtain r where r: "service_scan P (map Member ys) (veh_load P x) (Some x) = Some r"
        "if \<exists>b \<in> set ys. eligible P None b \<and> veh_load P b < veh_load P x
         then \<exists>b. r = Some b \<and> least_loaded P None ys b \<and> veh_load P b < veh_load P x else r = Some x" by blast
    from least_loaded_first [OF conjunct1 [OF True] r(2)] show ?thesis unfolding step using r(1) True by fastforce
  next
    case False
    then have step: "service_scan P (map Member (x # ys)) m best = service_scan P (map Member ys) m best"
      using p Cons.prems(3) by (auto simp: eligible_def veh_load_def list_entry_def)
    have "least_loaded P None (x # ys) b" if "least_loaded P None ys b" "veh_load P b < m" for b
      using least_loaded_Cons [OF that(1), of x] that(2) False by (auto simp: not_less)
    then show ?thesis unfolding step using IH [OF Cons.prems(3), of best] False by (auto split: if_splits)
  qed
qed simp

lemma service_scan_start:
  assumes "\<forall>b \<in> set ys. P b \<noteq> None" and "small_counts P (set ys)"
  shows "\<exists>r. service_scan P (map Member ys) (- 1) None = Some r \<and>
    (if \<exists>b \<in> set ys. eligible P None b then \<exists>b. r = Some b \<and> least_loaded P None ys b else r = None)"
  using assms
proof (induction ys)
  case (Cons x ys)
  then obtain p where p: "P x = Some p" by auto
  show ?case
  proof (cases "eligible P None x")
    case True
    then have step: "service_scan P (map Member (x # ys)) (- 1) None = service_scan P (map Member ys) (veh_load P x) (Some x)"
      using p by (simp add: eligible_def veh_load_def list_entry_def)
    have ok: "\<forall>b \<in> set ys. P b \<noteq> None" "small_counts P (set ys)" "0 \<le> sint (veh_load P x)" using Cons.prems by (simp_all add: small_counts_def)
    from service_scan_pos [OF ok, of "Some x"] obtain r where r: "service_scan P (map Member ys) (veh_load P x) (Some x) = Some r"
        "if \<exists>b \<in> set ys. eligible P None b \<and> veh_load P b < veh_load P x
         then \<exists>b. r = Some b \<and> least_loaded P None ys b \<and> veh_load P b < veh_load P x else r = Some x" by blast
    from least_loaded_first [OF True r(2)] show ?thesis unfolding step using r(1) True by auto
  next
    case False
    then have step: "service_scan P (map Member (x # ys)) (- 1) None = service_scan P (map Member ys) (- 1) None"
      using p by (auto simp: eligible_def list_entry_def)
    have "least_loaded P None (x # ys) b" if "least_loaded P None ys b" for b using least_loaded_Cons [OF that, of x] False by blast
    then show ?thesis unfolding step using Cons False by (auto simp: small_counts_def split: if_splits)
  qed
qed simp

section \<open>The effect of a call\<close>

definition reset_point :: "server_endpoint option \<Rightarrow> server_endpoint option" where
  "reset_point q = map_option (\<lambda>p. p\<lparr>se_veh_cnt := 0\<rparr>) q"

lemma reset_counts_eq:
  assumes "\<forall>b \<in> set ys. em_points s b \<noteq> None"
  shows "reset_counts s (map Member ys) =
    Some (s\<lparr>em_points := (\<lambda>b. if b \<in> set ys then reset_point (em_points s b) else em_points s b)\<rparr>)"
  using assms
proof (induction ys arbitrary: s)
  case (Cons x ys)
  then obtain p where p: "em_points s x = Some p" by auto
  let ?s = "s\<lparr>em_points := (em_points s)(x \<mapsto> p\<lparr>se_veh_cnt := 0\<rparr>)\<rparr>"
  have "\<forall>b \<in> set ys. em_points ?s b \<noteq> None" using Cons.prems by auto
  note IH = Cons.IH [OF this]
  have "(\<lambda>b. if b \<in> set ys then reset_point (em_points ?s b) else em_points ?s b) =
      (\<lambda>b. if b \<in> set (x # ys) then reset_point (em_points s b) else em_points s b)"
    using p by (auto simp: reset_point_def fun_eq_iff)
  then show ?case using IH p by (simp add: list_entry_def)
qed simp

text \<open>Changing counters of the endpoints of a server keeps the structure.\<close>

definition link_face :: "server_endpoint \<Rightarrow> string \<times> ptr" where
  "link_face p = (se_identity p, se_server p)"

lemma points_update_inv:
  assumes "em_inv s" and "\<And>b. map_option link_face (P b) = map_option link_face (em_points s b)"
  shows "em_inv (s\<lparr>em_points := P\<rparr>)" and "members (s\<lparr>em_points := P\<rparr>) = members s"
proof -
  let ?s = "s\<lparr>em_points := P\<rparr>"
  have face: "P b = Some q \<Longrightarrow> \<exists>p. em_points s b = Some p \<and> se_identity p = se_identity q \<and> se_server p = se_server q"
      "em_points s b = Some p \<Longrightarrow> \<exists>q. P b = Some q \<and> se_identity p = se_identity q \<and> se_server p = se_server q" for b p q
    using assms(2) [of b] by (cases "em_points s b"; auto simp: link_face_def)+
  have "identity_of ?s b = identity_of s b" for b
  proof (cases "P b")
    case None
    then show ?thesis using face(2) [of b] by (cases "em_points s b") (auto simp: identity_of_def)
  next
    case (Some q)
    then show ?thesis using face(1) [of b q] by (auto simp: identity_of_def)
  qed
  then have ids: "identity_of ?s = identity_of s" by (rule ext)
  have "b \<in> members ?s a \<longleftrightarrow> b \<in> members s a" for a b unfolding members_def using face [of b] by fastforce
  then show mem: "members ?s = members s" by (simp only: fun_eq_iff set_eq_iff) blast
  have eq: "name_of ?s = name_of s" by (simp add: name_of_def fun_eq_iff)
  have dom: "dom P = dom (em_points s)" using face by blast
  have "a \<in> dom (em_items s)" if "P b = Some q" "se_server q = Some a" for b q a
    using face(1) [OF that(1)] that(2) em_invD(1) [OF assms(1)] unfolding addresses_ok_def by metis
  then have "\<forall>b q a. P b = Some q \<and> se_server q = Some a \<longrightarrow> a \<in> dom (em_items s)" by blast
  then have "addresses_ok ?s" using em_invD(1) [OF assms(1)] unfolding addresses_ok_def by (simp add: dom)
  then show "em_inv ?s" using assms(1) unfolding em_inv_def servers_ok_def server_ok_def ids mem eq by simp
qed

text \<open>The endpoints after \<open>b\<close> has been chosen: its count goes up, all counts restart at the maximum, and the handle is counted.\<close>

definition bump :: "server_endpoint \<Rightarrow> server_endpoint" where
  "bump p = p\<lparr>se_veh_cnt := se_veh_cnt p + 1, se_refcnt := se_refcnt p + 1\<rparr>"

definition served :: "(nat \<Rightarrow> server_endpoint option) \<Rightarrow> nat set \<Rightarrow> u64 \<Rightarrow> nat \<Rightarrow> nat \<Rightarrow> server_endpoint option" where
  "served P B max_cnt b =
     (\<lambda>x. let q = (if x = b then map_option bump (P x) else P x)
          in if veh_load P b + 1 \<ge> max_cnt \<and> x \<in> B then reset_point q else q)"

lemma served_face: "map_option link_face (served P B m b x) = map_option link_face (P x)"
  by (cases "P x") (auto simp: served_def reset_point_def bump_def link_face_def Let_def)

lemma get_service_ok:
  assumes "em_inv s" and "em_items s a = Some it" and "small_counts (em_points s) (members s a)"
  shows "\<exists>ys r s'. set ys = members s a \<and> distinct ys \<and> list_nodes (em_lists s) (Owner a) = Some (map Member ys) \<and>
    get_service_endpoint s (Some a) = Some (r, s') \<and> em_inv s' \<and>
    (if \<exists>b \<in> members s a. eligible (em_points s) None b
     then \<exists>b. r = Some b \<and> least_loaded (em_points s) None ys b \<and>
       s' = s\<lparr>em_points := served (em_points s) (members s a) (si_veh_max_cnt it) b\<rparr>
     else r = None \<and> s' = s)"
proof -
  from assms(1,2) obtain ys where ys: "set ys = members s a" "list_nodes (em_lists s) (Owner a) = Some (map Member ys)"
      "listnode_isempty (em_lists s) (Owner a) = Some (ys = [])" "\<forall>b \<in> set ys. em_points s b \<noteq> None" "ring (em_lists s) (Owner a) (map Member ys)"
    by (rule server_list) blast
  have "distinct ys" using ys(5) by (auto simp: ring_def distinct_map)
  obtain r where r: "service_scan (em_points s) (map Member ys) (- 1) None = Some r"
      "if \<exists>b \<in> members s a. eligible (em_points s) None b then \<exists>b. r = Some b \<and> least_loaded (em_points s) None ys b else r = None"
    using service_scan_start [OF ys(4)] assms(3) unfolding ys(1) by blast
  show ?thesis
  proof (cases "\<exists>b \<in> members s a. eligible (em_points s) None b")
    case False
    then have "get_service_endpoint s (Some a) = Some (None, s)" using ys(2,3) r by (simp add: get_service_endpoint_def)
    then show ?thesis using False ys(1,2) \<open>distinct ys\<close> assms(1) by auto
  next
    case True
    then obtain b where b: "r = Some b" "least_loaded (em_points s) None ys b" using r(2) by auto
    then have "b \<in> set ys" by (auto simp: least_loaded_def)
    then obtain p where p: "em_points s b = Some p" using ys(4) by blast
    let ?P = "served (em_points s) (members s a) (si_veh_max_cnt it) b" and ?q = "p\<lparr>se_veh_cnt := se_veh_cnt p + 1\<rparr>"
    let ?s = "s\<lparr>em_points := (em_points s)(b \<mapsto> ?q)\<rparr>"
    have "\<forall>x \<in> set ys. em_points ?s x \<noteq> None" using ys(4) by auto
    note reset = reset_counts_eq [OF this]
    have "get_service_endpoint s (Some a) = Some (Some b, s\<lparr>em_points := ?P\<rparr>)"
    proof (cases "se_veh_cnt p + 1 \<ge> si_veh_max_cnt it")
      case True
      let ?Q = "(\<lambda>x. if x \<in> set ys then reset_point (em_points ?s x) else em_points ?s x)"
      have "?Q b = Some (?q\<lparr>se_veh_cnt := 0\<rparr>)" using \<open>b \<in> set ys\<close> by (simp add: reset_point_def)
      moreover have "?Q(b \<mapsto> ?q\<lparr>se_veh_cnt := 0, se_refcnt := se_refcnt p + 1\<rparr>) = ?P"
        using True p \<open>b \<in> set ys\<close> by (auto simp: served_def bump_def reset_point_def veh_load_def ys(1) [symmetric] fun_eq_iff)
      ultimately show ?thesis
        using ys(2,3) r(1) b(1) p assms(2) True reset \<open>b \<in> set ys\<close> by (auto simp: get_service_endpoint_def addref_def)
    next
      case False
      have "(em_points s)(b \<mapsto> p\<lparr>se_veh_cnt := se_veh_cnt p + 1, se_refcnt := se_refcnt p + 1\<rparr>) = ?P"
        using False p by (auto simp: served_def bump_def veh_load_def fun_eq_iff)
      then show ?thesis
        using ys(2,3) r(1) b(1) p assms(2) False \<open>b \<in> set ys\<close> by (auto simp: get_service_endpoint_def addref_def)
    qed
    moreover have "em_inv (s\<lparr>em_points := ?P\<rparr>)" by (rule points_update_inv(1) [OF assms(1)]) (rule served_face)
    ultimately show ?thesis using True ys(1,2) b \<open>distinct ys\<close> by (intro exI [of _ ys] exI [of _ r]) simp
  qed
qed

section \<open>Bounds\<close>

lemma sint_small: "(x :: u64) < 2 ^ 63 \<Longrightarrow> 0 \<le> sint x"
proof -
  assume "x < 2 ^ 63"
  then have "uint x < 2 ^ 63" "0 \<le> uint x" by (simp_all add: word_less_def)
  then have "signed_take_bit 63 (uint x) = uint x" by (intro signed_take_bit_int_eq_self) linarith+
  then show ?thesis by (simp add: sint_uint)
qed

text \<open>Between calls every count of a server is 0 or below the maximum.\<close>

definition counts_below :: "server_endpoint_mgr \<Rightarrow> nat \<Rightarrow> u64 \<Rightarrow> bool" where
  "counts_below s a m \<longleftrightarrow> (\<forall>b \<in> members s a. veh_load (em_points s) b < m \<or> veh_load (em_points s) b = 0)"

lemma counts_below_small:
  assumes "counts_below s a m" and "m \<le> 2 ^ 63"
  shows "small_counts (em_points s) (members s a)"
  unfolding small_counts_def
proof
  fix b
  assume "b \<in> members s a"
  then consider "veh_load (em_points s) b < m" | "veh_load (em_points s) b = 0" using assms(1) by (auto simp: counts_below_def)
  then show "0 \<le> sint (veh_load (em_points s) b)"
  proof cases
    case 1
    then have "veh_load (em_points s) b < 2 ^ 63" using assms(2) by (rule order_less_le_trans)
    then show ?thesis by (rule sint_small)
  qed simp
qed

lemma veh_load_served:
  "veh_load (served P B m b) x =
     (if veh_load P b + 1 \<ge> m \<and> x \<in> B then 0 else if x = b \<and> P x \<noteq> None then veh_load P x + 1 else veh_load P x)"
  by (cases "P x") (auto simp: served_def reset_point_def bump_def veh_load_def Let_def)

lemma eligible_served: "eligible (served P B m b) node x = eligible P node x"
  by (cases "P x") (auto simp: served_def reset_point_def bump_def eligible_def Let_def)

lemma served_below:
  assumes "counts_below s a m" and "em_inv s"
  shows "counts_below (s\<lparr>em_points := served (em_points s) (members s a) m b\<rparr>) a m"
proof -
  have "members (s\<lparr>em_points := served (em_points s) (members s a) m b\<rparr>) = members s"
    by (rule points_update_inv(2) [OF assms(2)]) (rule served_face)
  then show ?thesis using assms(1) by (auto simp: counts_below_def veh_load_served not_le)
qed

text \<open>
  A manager with one server, \<^verbatim>\<open>fusion\<close>, and one endpoint of it, for a configuration whose maximum is 3.
\<close>

definition lb_sample_config :: sysconfig where
  "lb_sample_config =
     \<lparr>cf_string = (\<lambda>path. if path = ''load-balance-service.service.fusion.name'' then 0 else 1), cf_number = (\<lambda>path d. 3)\<rparr>"

lemma lb_sample:
  obtains s s' a b it where "server_endpoint_mgr_ctor = Some s"
    "lb_add_server_endpoint lb_sample_config s (Some ''fusion'') (Some ''e1'') = Some (Some b, s')" "em_inv s'"
    "em_items s' a = Some it" "si_veh_max_cnt it = 3" "em_points s' = [b \<mapsto> new_point ''e1'' a 0]"
proof -
  obtain s where s: "server_endpoint_mgr_ctor = Some s" "em_inv s" "em_items s = Map.empty" "em_points s = Map.empty" using ctor_inv by blast
  have find: "find_server_item s ''fusion'' = Some None"
    using s(2) by (cases rule: find_server_cases [where name = "''fusion''"]) (simp_all add: s(3))
  from add_server_item_cases [OF s(2) _ find, where cf = lb_sample_config and prefix = "''load-balance-service.service.''"
      and max_key = "''max-count''" and max_cnt = 10000] obtain it s1 where
    s1: "lb_add_server_item lb_sample_config s ''fusion'' = Some (Some (em_brk s), s1)" "em_inv s1" "em_items s1 = [em_brk s \<mapsto> it]"
      "em_points s1 = Map.empty" "si_veh_max_cnt it = 3"
    by (auto simp: s(3,4) lb_sample_config_def lb_add_server_item_def)
  have it: "em_items s1 (em_brk s) = Some it" by (simp add: s1(3))
  from attach_new [OF s1(2) it, where identity = "''e1''" and cnt = 0] obtain rt s' where
    s': "attach s1 (em_brk s) ''e1'' 0 = Some (Some (em_brk s1), s')" "em_inv s'"
      "em_items s' = (em_items s1)(em_brk s \<mapsto> it\<lparr>si_endpoints_tree := rt\<rparr>)" "em_points s' = [em_brk s1 \<mapsto> new_point ''e1'' (em_brk s) 0]"
    by (auto simp: s1(4))
  have "lb_add_server_endpoint lb_sample_config s (Some ''fusion'') (Some ''e1'') = attach s1 (em_brk s) ''e1'' 0"
    using find s1(1) by (simp add: lb_add_server_endpoint_def attach_def lb_add_endpoint_def cong: if_cong)
  then show ?thesis using that [OF s(1) _ s'(2) _ _ s'(4)] s'(1,3) s1(5) by simp
qed

text \<open>
  The load balancer's choice. With a maximum of at most 2 to the power 63, a call on a server with an enabled
  endpoint returns the first of the enabled endpoints with the least count; its count goes up by one, and
  when it reaches the maximum all counts of the server are 0. Without an enabled endpoint the call returns
  none and changes nothing. In both cases every count stays below the maximum.
\<close>

theorem lb_choice:
  assumes "em_inv s" and "em_items s a = Some it" and "si_veh_max_cnt it \<le> 2 ^ 63" and "counts_below s a (si_veh_max_cnt it)"
  shows "\<exists>ys r s'. set ys = members s a \<and> list_nodes (em_lists s) (Owner a) = Some (map Member ys) \<and>
    get_service_endpoint s (Some a) = Some (r, s') \<and> em_inv s' \<and> counts_below s' a (si_veh_max_cnt it) \<and>
    (if \<exists>b \<in> members s a. eligible (em_points s) None b
     then \<exists>b. r = Some b \<and> least_loaded (em_points s) None ys b \<and>
       (\<forall>x \<in> members s a. veh_load (em_points s') x =
          (if veh_load (em_points s) b + 1 \<ge> si_veh_max_cnt it then 0
           else if x = b then veh_load (em_points s) x + 1 else veh_load (em_points s) x))
     else r = None \<and> s' = s)"
proof -
  note small = counts_below_small [OF assms(4,3)]
  from get_service_ok [OF assms(1,2) small] obtain ys r s' where ys: "set ys = members s a" "list_nodes (em_lists s) (Owner a) = Some (map Member ys)"
      "get_service_endpoint s (Some a) = Some (r, s')" "em_inv s'"
      "if \<exists>b \<in> members s a. eligible (em_points s) None b
       then \<exists>b. r = Some b \<and> least_loaded (em_points s) None ys b \<and>
         s' = s\<lparr>em_points := served (em_points s) (members s a) (si_veh_max_cnt it) b\<rparr>
       else r = None \<and> s' = s" by blast
  show ?thesis
  proof (cases "\<exists>b \<in> members s a. eligible (em_points s) None b")
    case True
    then obtain b where b: "r = Some b" "least_loaded (em_points s) None ys b"
        "s' = s\<lparr>em_points := served (em_points s) (members s a) (si_veh_max_cnt it) b\<rparr>" using ys(5) by auto
    have "counts_below s' a (si_veh_max_cnt it)" unfolding b(3) by (rule served_below [OF assms(4,1)])
    moreover have "veh_load (em_points s') x = (if veh_load (em_points s) b + 1 \<ge> si_veh_max_cnt it then 0
        else if x = b then veh_load (em_points s) x + 1 else veh_load (em_points s) x)" if "x \<in> members s a" for x
      using that members_points [of s a] by (auto simp: b(3) veh_load_served)
    ultimately show ?thesis using True ys(1-4) b(1,2) by auto
  next
    case False
    then show ?thesis using ys assms(4) by auto
  qed
qed

theorem lb_choice_witness:
  "\<exists>s s' b. server_endpoint_mgr_ctor = Some s \<and>
     lb_add_server_endpoint lb_sample_config s (Some ''fusion'') (Some ''e1'') = Some (Some b, s') \<and>
     (\<exists>a s''. get_service_endpoint s' (Some a) = Some (Some b, s'') \<and> veh_load (em_points s'') b = 1)"
proof -
  obtain s s' a b it where s: "server_endpoint_mgr_ctor = Some s"
      "lb_add_server_endpoint lb_sample_config s (Some ''fusion'') (Some ''e1'') = Some (Some b, s')" "em_inv s'"
      "em_items s' a = Some it" "si_veh_max_cnt it = 3" "em_points s' = [b \<mapsto> new_point ''e1'' a 0]" by (rule lb_sample)
  have mem: "members s' a = {b}" by (auto simp: members_def s(6))
  have "counts_below s' a (si_veh_max_cnt it)" by (simp add: counts_below_def mem veh_load_def s(6))
  moreover have "eligible (em_points s') None b" "veh_load (em_points s') b = 0" by (simp_all add: eligible_def veh_load_def s(6))
  moreover have "\<not> (3 :: u64) \<le> 1" by (simp add: word_le_nat_alt)
  ultimately obtain r s'' where "get_service_endpoint s' (Some a) = Some (r, s'')"
      "\<exists>c. r = Some c \<and> c \<in> {b} \<and> veh_load (em_points s'') b = 1"
    using lb_choice [OF s(3,4)] mem s(5) by (auto simp: least_loaded_def)
  then show ?thesis using s(1,2) by blast
qed

section \<open>Turns\<close>

text \<open>Successive calls, with the endpoints they return.\<close>

primrec service_calls :: "server_endpoint_mgr \<Rightarrow> nat \<Rightarrow> nat \<Rightarrow> (ptr list \<times> server_endpoint_mgr) option" where
  "service_calls s a 0 = Some ([], s)"
| "service_calls s a (Suc n) =
     do { (r, s) \<leftarrow> get_service_endpoint s (Some a); (rs, s) \<leftarrow> service_calls s a n; Some (r # rs, s) }"

lemma unat_next: "unat (c :: u64) + 1 < unat (m :: u64) \<Longrightarrow> unat (c + 1) = unat c + 1"
  using unsigned_less [of m, where ?'a = nat] by (simp add: unat_word_ariths)

text \<open>When the endpoints served so far have one request more than the others, the first of the others is next.\<close>

lemma least_is_next:
  assumes "least_loaded P None ys b" and "filter (eligible P None) ys = gone @ t # todo" and "c < c'"
    and "\<forall>x \<in> set gone. veh_load P x = c'" and "\<forall>x \<in> set (t # todo). veh_load P x = c"
  shows "b = t"
proof -
  from assms(1) obtain us vs where u: "ys = us @ b # vs" "eligible P None b"
      "\<forall>x \<in> set us. eligible P None x \<longrightarrow> veh_load P b < veh_load P x" "\<forall>x \<in> set vs. eligible P None x \<longrightarrow> veh_load P b \<le> veh_load P x"
    unfolding least_loaded_def by blast
  let ?F = "filter (eligible P None)"
  have "?F us @ b # ?F vs = gone @ t # todo" using u(1,2) assms(2) by simp
  then consider w where "gone = ?F us @ w" "w @ t # todo = b # ?F vs" | w where "?F us = gone @ w" "w @ b # ?F vs = t # todo"
    by (auto simp: append_eq_append_conv2)
  then show ?thesis
  proof cases
    case 1
    show ?thesis
    proof (cases w)
      case (Cons x w')
      then have "x = b" "w' @ t # todo = ?F vs" using 1(2) by simp_all
      then have "b \<in> set gone" "t \<in> set (?F vs)" using 1(1) Cons by (simp, metis in_set_conv_decomp)
      then have "c' \<le> c" using assms(4,5) u(4) by fastforce
      then show ?thesis using assms(3) by simp
    qed (use 1 in simp)
  next
    case 2
    show ?thesis
    proof (cases w)
      case (Cons x w')
      then have "x = t" "b \<in> set todo" using 2 by auto
      moreover have "x \<in> set (?F us)" using 2(1) Cons by (metis in_set_conv_decomp append_assoc)
      ultimately have "c < c" using u(3) assms(5) by fastforce
      then show ?thesis by simp
    qed (use 2 in simp)
  qed
qed

lemma service_step:
  assumes "em_inv s" and "em_items s a = Some it" and "counts_below s a (si_veh_max_cnt it)" and "si_veh_max_cnt it \<le> 2 ^ 63"
    and "list_nodes (em_lists s) (Owner a) = Some (map Member ys)" and "filter (eligible (em_points s) None) ys = gone @ t # todo"
    and "unat c + 1 < unat (si_veh_max_cnt it)" and "\<forall>x \<in> set gone. veh_load (em_points s) x = c + 1"
    and "\<forall>x \<in> set (t # todo). veh_load (em_points s) x = c"
  shows "\<exists>s'. get_service_endpoint s (Some a) = Some (Some t, s') \<and> em_inv s' \<and> em_items s' = em_items s \<and> em_lists s' = em_lists s \<and>
    counts_below s' a (si_veh_max_cnt it) \<and> eligible (em_points s') None = eligible (em_points s) None \<and>
    (\<forall>x \<in> set (gone @ [t]). veh_load (em_points s') x = c + 1) \<and> (\<forall>x \<in> set todo. veh_load (em_points s') x = c)"
proof -
  from get_service_ok [OF assms(1,2) counts_below_small [OF assms(3,4)]] obtain ys' r s' where
      ys: "set ys' = members s a" "distinct ys'" "list_nodes (em_lists s) (Owner a) = Some (map Member ys')"
      "get_service_endpoint s (Some a) = Some (r, s')" "em_inv s'"
      "if \<exists>b \<in> members s a. eligible (em_points s) None b
       then \<exists>b. r = Some b \<and> least_loaded (em_points s) None ys' b \<and>
         s' = s\<lparr>em_points := served (em_points s) (members s a) (si_veh_max_cnt it) b\<rparr>
       else r = None \<and> s' = s" by blast
  have "ys' = ys" using ys(3) assms(5) by (simp add: inj_map_eq_map inj_on_def)
  have "t \<in> set (filter (eligible (em_points s) None) ys)" by (simp add: assms(6))
  then have t: "t \<in> set ys" "eligible (em_points s) None t" by auto
  then obtain b where b: "r = Some b" "least_loaded (em_points s) None ys b"
      "s' = s\<lparr>em_points := served (em_points s) (members s a) (si_veh_max_cnt it) b\<rparr>"
    using ys(1,6) \<open>ys' = ys\<close> by (auto split: if_splits)
  have "c < c + 1" "c + 1 < si_veh_max_cnt it" using assms(7) unat_next [OF assms(7)] by (simp_all add: word_less_nat_alt)
  then have "b = t" using least_is_next [OF b(2) assms(6) _ assms(8,9)] by blast
  have d: "distinct (gone @ t # todo)" using ys(2) \<open>ys' = ys\<close> by (simp flip: assms(6))
  have "em_points s t \<noteq> None" using t(2) by (auto simp: eligible_def split: option.splits)
  moreover have "\<not> si_veh_max_cnt it \<le> veh_load (em_points s) t + 1" using assms(9) \<open>c + 1 < si_veh_max_cnt it\<close> by simp
  ultimately have "veh_load (em_points s') x = (if x = t then c + 1 else veh_load (em_points s) x)" for x
    unfolding b(3) \<open>b = t\<close> using assms(9) by (simp add: veh_load_served)
  then have "\<forall>x \<in> set (gone @ [t]). veh_load (em_points s') x = c + 1" "\<forall>x \<in> set todo. veh_load (em_points s') x = c"
    using assms(8,9) d by (simp_all split: if_splits) blast
  moreover have "counts_below s' a (si_veh_max_cnt it)" unfolding b(3) by (rule served_below [OF assms(3,1)])
  moreover have "eligible (em_points s') None = eligible (em_points s) None" by (simp add: b(3) fun_eq_iff eligible_served)
  ultimately show ?thesis using ys(4,5) b(1,3) \<open>b = t\<close> by (intro exI [of _ s']) auto
qed

lemma service_turns:
  assumes "em_inv s" and "em_items s a = Some it" and "counts_below s a (si_veh_max_cnt it)" and "si_veh_max_cnt it \<le> 2 ^ 63"
    and "list_nodes (em_lists s) (Owner a) = Some (map Member ys)" and "filter (eligible (em_points s) None) ys = gone @ todo"
    and "unat c + 1 < unat (si_veh_max_cnt it)" and "\<forall>x \<in> set gone. veh_load (em_points s) x = c + 1"
    and "\<forall>x \<in> set todo. veh_load (em_points s) x = c"
  shows "\<exists>s'. service_calls s a (length todo) = Some (map Some todo, s') \<and> em_inv s' \<and> counts_below s' a (si_veh_max_cnt it) \<and>
    filter (eligible (em_points s') None) ys = gone @ todo \<and> (\<forall>x \<in> set (gone @ todo). veh_load (em_points s') x = c + 1)"
  using assms
proof (induction todo arbitrary: s gone)
  case (Cons t todo)
  from service_step [OF Cons.prems] obtain s1 where s1: "get_service_endpoint s (Some a) = Some (Some t, s1)" "em_inv s1"
      "em_items s1 = em_items s" "em_lists s1 = em_lists s" "counts_below s1 a (si_veh_max_cnt it)"
      "eligible (em_points s1) None = eligible (em_points s) None"
      "\<forall>x \<in> set (gone @ [t]). veh_load (em_points s1) x = c + 1" "\<forall>x \<in> set todo. veh_load (em_points s1) x = c" by blast
  from Cons.IH [of s1 "gone @ [t]"] s1 Cons.prems obtain s2 where "service_calls s1 a (length todo) = Some (map Some todo, s2)" "em_inv s2"
      "counts_below s2 a (si_veh_max_cnt it)" "filter (eligible (em_points s2) None) ys = gone @ t # todo"
      "\<forall>x \<in> set (gone @ t # todo). veh_load (em_points s2) x = c + 1" by auto
  then show ?case using s1(1) by auto
qed auto

text \<open>
  C33: No endpoint starves. When the enabled endpoints of a server have the same count, one below the maximum at least
  after the next request, as many calls as there are enabled endpoints serve each of them once, in the order
  of the list, and leave them with equal counts again.
\<close>

theorem lb_turns:
  assumes "em_inv s" and "em_items s a = Some it" and "counts_below s a (si_veh_max_cnt it)" and "si_veh_max_cnt it \<le> 2 ^ 63"
    and "list_nodes (em_lists s) (Owner a) = Some (map Member ys)" and "filter (eligible (em_points s) None) ys = es"
    and "unat c + 1 < unat (si_veh_max_cnt it)" and "\<forall>x \<in> set es. veh_load (em_points s) x = c"
  shows "\<exists>s'. service_calls s a (length es) = Some (map Some es, s') \<and> em_inv s' \<and> counts_below s' a (si_veh_max_cnt it) \<and>
    filter (eligible (em_points s') None) ys = es \<and> (\<forall>x \<in> set es. veh_load (em_points s') x = c + 1)"
  using service_turns [OF assms(1-5), of "[]" es c] assms(6-8) by simp

theorem lb_turns_witness:
  "\<exists>s s' b. server_endpoint_mgr_ctor = Some s \<and>
     lb_add_server_endpoint lb_sample_config s (Some ''fusion'') (Some ''e1'') = Some (Some b, s') \<and>
     (\<exists>a s''. service_calls s' a 1 = Some ([Some b], s'') \<and> veh_load (em_points s'') b = 1)"
proof -
  obtain s s' a b it where s: "server_endpoint_mgr_ctor = Some s"
      "lb_add_server_endpoint lb_sample_config s (Some ''fusion'') (Some ''e1'') = Some (Some b, s')" "em_inv s'"
      "em_items s' a = Some it" "si_veh_max_cnt it = 3" "em_points s' = [b \<mapsto> new_point ''e1'' a 0]" by (rule lb_sample)
  have mem: "members s' a = {b}" by (auto simp: members_def s(6))
  have below: "counts_below s' a (si_veh_max_cnt it)" by (simp add: counts_below_def mem veh_load_def s(6))
  obtain ys where ys: "set ys = {b}" "ring (em_lists s') (Owner a) (map Member ys)" "list_nodes (em_lists s') (Owner a) = Some (map Member ys)"
    using server_list [OF s(3,4)] mem by metis
  have "distinct ys" using ys(2) by (auto simp: ring_def distinct_map)
  with ys(1) have "ys = [b]" by (cases ys) (auto simp: subset_singleton_iff)
  then have es: "filter (eligible (em_points s') None) ys = [b]" by (simp add: eligible_def s(6))
  from lb_turns [OF s(3,4) below _ ys(3) es, of 0] show ?thesis using s by (simp add: veh_load_def) blast
qed

end
