(* ===== verification/Zmq_Msg.thy ===== *)
theory Zmq_Msg
  imports V2I_Prelude
begin

text \<open>
  Multipart messages, \<^verbatim>\<open>mec/zsfd/webcore/zeromq-msg.cpp\<close>. A message is the vector of its frames and the index of
  the first frame behind the last empty one. A socket is the list of frames it delivers, each with the
  flag that says whether the message goes on. The result \<open>None\<close> is a string made from a null
  pointer, which \<^verbatim>\<open>std::string\<close> answers with an exception that nothing catches.
\<close>

record zeromq_msg =
  zm_body_index :: int
  zm_parts :: "string list"

type_synonym zframe = "string \<times> bool"

section \<open>Operations\<close>

text \<open>The sources compare the \<^verbatim>\<open>int\<close> index with \<^verbatim>\<open>size()\<close>, which converts it to \<^verbatim>\<open>size_t\<close>.\<close>

definition to_size_t :: "int \<Rightarrow> nat" where
  "to_size_t i = nat (i mod 2 ^ 64)"

definition zm_new :: zeromq_msg where
  "zm_new = \<lparr>zm_body_index = 0, zm_parts = []\<rparr>"

definition zm_clear :: "zeromq_msg \<Rightarrow> int \<times> zeromq_msg" where
  "zm_clear m = (0, m\<lparr>zm_parts := [], zm_body_index := 0\<rparr>)"

definition zm_copy :: "zeromq_msg \<Rightarrow> zeromq_msg" where
  "zm_copy msg = \<lparr>zm_body_index = zm_body_index msg, zm_parts = zm_parts msg\<rparr>"

definition set_part :: "nat \<Rightarrow> string \<Rightarrow> zeromq_msg \<Rightarrow> zeromq_msg" where
  "set_part part_nbr data m = (if part_nbr < length (zm_parts m) then m\<lparr>zm_parts := (zm_parts m)[part_nbr := data]\<rparr> else m)"

text \<open>
  \<^verbatim>\<open>recv\<close> on the frames a socket delivers. A socket with no frame left stands for a receive that
  fails: the result is false and the frames read so far stay in the message.
\<close>

fun recv_loop :: "zframe list \<Rightarrow> zeromq_msg \<Rightarrow> bool \<times> zeromq_msg \<times> zframe list" where
  "recv_loop [] m = (False, m, [])"
| "recv_loop ((message, goes_on) # socket) m =
     (let m = m\<lparr>zm_parts := zm_parts m @ [message]\<rparr>;
          m = (if length message = 0 then m\<lparr>zm_body_index := int (length (zm_parts m))\<rparr> else m)
      in if \<not> goes_on then (True, m, socket) else recv_loop socket m)"

definition recv :: "zframe list \<Rightarrow> zeromq_msg \<Rightarrow> bool \<times> zeromq_msg \<times> zframe list" where
  "recv socket m = recv_loop socket (snd (zm_clear m))"

definition send :: "zeromq_msg \<Rightarrow> zframe list" where
  "send m = map (\<lambda>part_nbr. (zm_parts m ! part_nbr, part_nbr < length (zm_parts m) - 1)) [0..<length (zm_parts m)]"

definition sendparts :: "zeromq_msg \<Rightarrow> int \<Rightarrow> nat \<Rightarrow> bool \<Rightarrow> int \<times> zframe list" where
  "sendparts m start count bfinished =
     (let size = length (zm_parts m); st = to_size_t start
      in if st \<ge> size then (- EBADPARM, [])
         else let count = (if (st + count) mod 2 ^ 64 > size \<or> count = 0 then size - st else count)
              in (0, map (\<lambda>part_nbr. (zm_parts m ! part_nbr, \<not> (part_nbr \<ge> st + count - 1 \<and> bfinished))) [st..<st + count]))"

definition parts :: "zeromq_msg \<Rightarrow> nat" where
  "parts m = length (zm_parts m)"

definition body_parts :: "zeromq_msg \<Rightarrow> nat" where
  "body_parts m =
     (if zm_body_index m < 0 then 0
      else if length (zm_parts m) < to_size_t (zm_body_index m) then 0
      else length (zm_parts m) - to_size_t (zm_body_index m))"

definition push_back :: "string \<Rightarrow> zeromq_msg \<Rightarrow> zeromq_msg" where
  "push_back part m = m\<lparr>zm_parts := zm_parts m @ [part]\<rparr>"

definition push_front :: "string \<Rightarrow> zeromq_msg \<Rightarrow> zeromq_msg" where
  "push_front part m = m\<lparr>zm_parts := part # zm_parts m\<rparr>"

text \<open>\<^verbatim>\<open>body_set\<close> erases from the body on; with an index behind the end the iterator is invalid.\<close>

definition body_set :: "string \<Rightarrow> zeromq_msg \<Rightarrow> (int \<times> zeromq_msg) option" where
  "body_set body m =
     (if zm_parts m = [] \<or> zm_body_index m = 0 then Some (- ENOTAVAIL, m)
      else if zm_body_index m < 0 \<or> int (length (zm_parts m)) < zm_body_index m then None
      else Some (0, push_back body (m\<lparr>zm_parts := take (nat (zm_body_index m)) (zm_parts m)\<rparr>)))"

definition body_insert :: "int \<Rightarrow> string \<Rightarrow> zeromq_msg \<Rightarrow> (int \<times> zeromq_msg) option" where
  "body_insert index body m =
     (if zm_parts m = [] \<or> zm_body_index m = 0 then Some (- ENOTAVAIL, m)
      else if to_size_t (zm_body_index m + index) \<ge> length (zm_parts m) then Some (- EBADPARM, m)
      else if zm_body_index m < 0 \<or> int (length (zm_parts m)) < zm_body_index m then None
      else let b = nat (zm_body_index m) in Some (0, m\<lparr>zm_parts := take b (zm_parts m) @ body # drop b (zm_parts m)\<rparr>))"

definition push_body_front :: "string \<Rightarrow> zeromq_msg \<Rightarrow> (int \<times> zeromq_msg) option" where
  "push_body_front part m = map_option (\<lambda>(_, m). (0, m)) (body_insert 0 part m)"

text \<open>\<^verbatim>\<open>body_fmt\<close> with the text that the format gives; the buffer of \<^verbatim>\<open>vsnprintf\<close> has 255 bytes.\<close>

definition body_fmt :: "string \<Rightarrow> zeromq_msg \<Rightarrow> (int \<times> zeromq_msg) option" where
  "body_fmt formatted m = map_option (\<lambda>(_, m). (0, m)) (body_set (c_str (take 254 formatted)) m)"

definition body :: "int \<Rightarrow> zeromq_msg \<Rightarrow> string option" where
  "body index m =
     (let i = to_size_t (zm_body_index m + index)
      in if zm_parts m = [] \<or> i \<ge> length (zm_parts m) then None else Some (zm_parts m ! i))"

definition pop_front :: "zeromq_msg \<Rightarrow> string \<times> zeromq_msg" where
  "pop_front m =
     (case zm_parts m of
        [] \<Rightarrow> ([], m)
      | part # rest \<Rightarrow> (part, m\<lparr>zm_parts := rest, zm_body_index := (if zm_body_index m > 0 then zm_body_index m - 1 else zm_body_index m)\<rparr>))"

definition get_front :: "zeromq_msg \<Rightarrow> string option" where
  "get_front m = (case zm_parts m of [] \<Rightarrow> None | part # _ \<Rightarrow> Some part)"

definition get_part :: "int \<Rightarrow> zeromq_msg \<Rightarrow> string option" where
  "get_part index m = (if length (zm_parts m) > to_size_t index then Some (zm_parts m ! to_size_t index) else None)"

definition erase_part :: "int \<Rightarrow> zeromq_msg \<Rightarrow> int \<times> zeromq_msg" where
  "erase_part index m =
     (let i = to_size_t index
      in if i \<ge> length (zm_parts m) then (- EBADPARM, m)
         else (0, m\<lparr>zm_parts := take i (zm_parts m) @ drop (Suc i) (zm_parts m)\<rparr>))"

section \<open>Sending and receiving\<close>

text \<open>The index that \<^verbatim>\<open>recv\<close> computes: the number of frames up to the last empty one.\<close>

definition envelope :: "string list \<Rightarrow> nat" where
  "envelope fs = length (dropWhile (\<lambda>f. f \<noteq> []) (rev fs))"

lemma envelope_snoc: "envelope (fs @ [f]) = (if f = [] then Suc (length fs) else envelope fs)"
  by (simp add: envelope_def)

lemma envelope_le: "envelope fs \<le> length fs"
  unfolding envelope_def by (metis length_dropWhile_le length_rev)

text \<open>A message as it comes from a socket.\<close>

definition received :: "string list \<Rightarrow> zeromq_msg" where
  "received fs = \<lparr>zm_body_index = int (envelope fs), zm_parts = fs\<rparr>"

lemma recv_loop_step: "recv_loop ((f, goes_on) # socket) (received fs) =
  (if goes_on then recv_loop socket (received (fs @ [f])) else (True, received (fs @ [f]), socket))"
  by (simp add: received_def envelope_snoc)

lemma recv_loop_frames: "recv_loop (map (\<lambda>f. (f, True)) gs @ (f, False) # rest) (received fs) = (True, received (fs @ gs @ [f]), rest)"
proof (induction gs arbitrary: fs)
  case Nil
  show ?case unfolding append_Nil list.map recv_loop_step by simp
next
  case (Cons g gs)
  show ?case unfolding list.map append_Cons recv_loop_step using Cons [of "fs @ [g]"] by simp
qed

lemma send_frames: "zm_parts m = gs @ [f] \<Longrightarrow> send m = map (\<lambda>g. (g, True)) gs @ [(f, False)]"
  by (auto simp: send_def nth_append intro!: nth_equalityI)

lemma received_empty: "snd (zm_clear m) = received []"
  by (simp add: zm_clear_def received_def envelope_def)

lemma recv_send:
  assumes "zm_parts m \<noteq> []"
  shows "recv (send m @ rest) m' = (True, received (zm_parts m), rest)"
proof -
  obtain gs f where "zm_parts m = gs @ [f]" using assms by (metis rev_exhaust)
  then show ?thesis using recv_loop_frames [of gs f rest "[]"] by (simp add: recv_def received_empty send_frames)
qed

lemma to_size_t_small [simp]: "\<lbrakk>0 \<le> i; i < 2 ^ 64\<rbrakk> \<Longrightarrow> to_size_t i = nat i"
  by (simp add: to_size_t_def)

lemma to_size_t_numerals [simp]: "to_size_t 0 = 0" "to_size_t 1 = 1" "to_size_t (numeral n) = nat (numeral n mod 2 ^ 64)"
  by (simp_all add: to_size_t_def)

text \<open>The frames of a received message: the envelope, which ends with an empty frame if it is not empty, and the body.\<close>

lemma envelope_split: "\<exists>env bd. fs = env @ bd \<and> length env = envelope fs \<and> (env = [] \<or> last env = []) \<and> [] \<notin> set bd"
proof (induction fs rule: rev_induct)
  case Nil
  show ?case by (simp add: envelope_def)
next
  case (snoc f fs)
  then obtain env bd where fs: "fs = env @ bd" "length env = envelope fs" "env = [] \<or> last env = []" "[] \<notin> set bd" by blast
  show ?case
  proof (cases "f = []")
    case True
    then show ?thesis by - (rule exI [of _ "fs @ [f]"], simp add: envelope_snoc)
  next
    case False
    then show ?thesis using fs envelope_snoc [of fs f] by - (rule exI [of _ env], rule exI [of _ "bd @ [f]"], simp)
  qed
qed

text \<open>
  C31: A message sent on a socket arrives as it was: the receiver gets the same frames, in order, and takes nothing of
  what follows on the socket, whatever its buffer held before. Its body is the frames behind the last empty
  one, so no frame of the body is empty, and reading the body by index gives these frames and fails behind the
  last. A message whose index is already the one behind its last empty frame arrives unchanged.
\<close>

theorem zmq_roundtrip:
  assumes "zm_parts m \<noteq> []" and "length (zm_parts m) < 2 ^ 31"
  shows "\<exists>m2. recv (send m @ rest) m' = (True, m2, rest) \<and> zm_parts m2 = zm_parts m \<and>
    (\<exists>env bd. zm_parts m = env @ bd \<and> (env = [] \<or> last env = []) \<and> [] \<notin> set bd \<and> body_parts m2 = length bd \<and>
       (\<forall>i < 2 ^ 31. body (int i) m2 = (if i < length bd then Some (bd ! i) else None)) \<and>
       (zm_body_index m = int (length env) \<longrightarrow> m2 = m))"
proof -
  let ?fs = "zm_parts m" let ?n = "envelope ?fs"
  obtain env bd where fs: "?fs = env @ bd" "length env = ?n" and env: "env = [] \<or> last env = []" and bd: "[] \<notin> set bd"
    using envelope_split [of ?fs] by blast
  have n: "?n + length bd = length ?fs" using fs by (metis length_append)
  have "body_parts (received ?fs) = length bd" using n assms(2) by (simp add: body_parts_def received_def)
  moreover have "body (int i) (received ?fs) = (if i < length bd then Some (bd ! i) else None)" if "i < 2 ^ 31" for i
  proof -
    have "to_size_t (int ?n + int i) = ?n + i" using n assms(2) that by (simp add: nat_add_distrib)
    moreover have "?fs ! (?n + i) = bd ! i" using fs by (metis nth_append_length_plus)
    ultimately show ?thesis using n assms(1) by (simp add: body_def received_def Let_def flip: n)
  qed
  moreover have "received ?fs = m" if "zm_body_index m = int (length env)" using that fs(2) by (simp add: received_def)
  moreover have "zm_parts (received ?fs) = ?fs" by (simp add: received_def)
  ultimately show ?thesis using recv_send [OF assms(1), of rest m'] fs(1) env bd by blast
qed

theorem zmq_roundtrip_witness:
  "\<exists>m2. recv (send \<lparr>zm_body_index = 0, zm_parts = [''id'', [], ''data'']\<rparr> @ [(''next'', False)]) zm_new = (True, m2, [(''next'', False)]) \<and>
     zm_parts m2 = [''id'', [], ''data'']"
  using zmq_roundtrip [of "\<lparr>zm_body_index = 0, zm_parts = [''id'', [], ''data'']\<rparr>" "[(''next'', False)]" zm_new] by auto

end
