(* ===== verification/Basicinfo.thy ===== *)
theory Basicinfo
  imports Zmq_Msg Uri "HOL-Library.Monad_Syntax"
begin

text \<open>
  The first frame of a message's body, \<^verbatim>\<open>basicinfo_frame_uri\<close> and \<^verbatim>\<open>basicinfo_frame_content\<close> of
  \<^verbatim>\<open>mec/zsfd/inc/webcore/webapp.h\<close>: the length of a URI, the URI and five numbers of 32 bits. The handlers cast
  the characters of a string to these structures. Numbers are stored with the least significant byte first. The
  characters of a string and the NUL behind them may be read; \<open>None\<close> is a read behind them.
  The object \<^verbatim>\<open>uri\<close> that the handlers use holds a pointer to the loaded object, or a null pointer.
\<close>

section \<open>Numbers in frames\<close>

primrec le_bytes :: "nat \<Rightarrow> nat \<Rightarrow> string" where
  "le_bytes 0 n = []"
| "le_bytes (Suc k) n = char_of (n mod 256) # le_bytes k (n div 256)"

primrec le_nat :: "string \<Rightarrow> nat" where
  "le_nat [] = 0"
| "le_nat (c # cs) = of_char c + 256 * le_nat cs"

definition read_at :: "string \<Rightarrow> nat \<Rightarrow> nat \<Rightarrow> string option" where
  "read_at buf offset sz =
     (if offset + sz \<le> length buf + 1 then Some (take sz (drop offset (buf @ [CHR 0x00]))) else None)"

section \<open>The frame\<close>

record frame_content =
  fc_sequence_id :: nat
  fc_timeout :: nat
  fc_attr :: nat
  fc_body_frames :: nat
  fc_body_size :: nat

text \<open>The length and the URI at the beginning of the frame, and the content behind the URI. No handler
  of the load balancer reads the time-out of a received frame, so the content carries 0 there.\<close>

definition frame_uri :: "string \<Rightarrow> string option" where
  "frame_uri addr = do { len \<leftarrow> read_at addr 0 4; read_at addr 4 (le_nat len) }"

definition frame_content_at :: "string \<Rightarrow> nat \<Rightarrow> frame_content option" where
  "frame_content_at addr offset =
     do {
       sequence_id \<leftarrow> read_at addr offset 4;
       attr \<leftarrow> read_at addr (offset + 8) 4;
       body_frames \<leftarrow> read_at addr (offset + 12) 4;
       body_size \<leftarrow> read_at addr (offset + 16) 4;
       Some \<lparr>fc_sequence_id = le_nat sequence_id, fc_timeout = 0, fc_attr = le_nat attr, fc_body_frames = le_nat body_frames,
         fc_body_size = le_nat body_size\<rparr>
     }"

text \<open>\<^verbatim>\<open>strncpy\<close> copies up to the first NUL and fills the rest with NUL.\<close>

definition strncpy :: "string \<Rightarrow> nat \<Rightarrow> string" where
  "strncpy src n = take n (c_str src @ replicate n (CHR 0x00))"

text \<open>
  The frame that the handlers write into memory on the stack. They assign every member but \<^verbatim>\<open>timeout\<close>, which keeps
  what the stack holds: \<open>stack\<close>.
\<close>

definition make_frame :: "string \<Rightarrow> frame_content \<Rightarrow> nat \<Rightarrow> string" where
  "make_frame add_uri content stack =
     le_bytes 4 (length add_uri) @ strncpy add_uri (length add_uri) @ le_bytes 4 (fc_sequence_id content) @ le_bytes 4 stack @
     le_bytes 4 (fc_attr content) @ le_bytes 4 (fc_body_frames content) @ le_bytes 4 (fc_body_size content)"

section \<open>URI objects\<close>

text \<open>The constructor from a text, and the members that the handlers call. \<^verbatim>\<open>add_query\<close> and \<^verbatim>\<open>query_value\<close> do not test the pointer.\<close>

definition uri_ctor :: "qsort \<Rightarrow> string \<Rightarrow> uri_impl option option" where
  "uri_ctor qs uristr = do { urii \<leftarrow> load qs (Some uristr) uri_init; Some (if u_loaded urii then Some urii else None) }"

definition uri_get_fullpath :: "uri_impl option \<Rightarrow> string" where
  "uri_get_fullpath data = (case data of None \<Rightarrow> [] | Some urii \<Rightarrow> if u_loaded urii then u_fullpath urii else [])"

definition uri_tostring :: "uri_impl option \<Rightarrow> string" where
  "uri_tostring data = (case data of None \<Rightarrow> [] | Some urii \<Rightarrow> if u_loaded urii then tostring urii else [])"

definition uri_query_value :: "uri_impl option \<Rightarrow> string \<Rightarrow> string option" where
  "uri_query_value data key =
     do {
       urii \<leftarrow> data;
       Some (if \<not> u_loaded urii then [] else (case get_query_value urii key of (_, None) \<Rightarrow> [] | (_, Some v) \<Rightarrow> v))
     }"

definition uri_add_query :: "qsort \<Rightarrow> uri_impl option \<Rightarrow> string \<Rightarrow> string \<Rightarrow> (int \<times> uri_impl option) option" where
  "uri_add_query qs data key v =
     do {
       urii \<leftarrow> data;
       Some (if \<not> u_loaded urii then (- ENOTAVAIL, data)
             else (let (r, urii) = add_query qs (Some key) (Some v) urii in (r, Some urii)))
     }"

section \<open>Encoding and decoding\<close>

lemma length_le_bytes [simp]: "length (le_bytes k n) = k"
  by (induction k arbitrary: n) simp_all

lemma le_nat_bytes: "le_nat (le_bytes k n) = n mod 256 ^ k"
proof (induction k arbitrary: n)
  case (Suc k)
  have "le_nat (le_bytes (Suc k) n) = n mod 256 + 256 * (n div 256 mod 256 ^ k)"
    by (simp add: Suc)
  also have "\<dots> = n mod 256 ^ Suc k" by (simp add: mod_mult2_eq)
  finally show ?case .
qed simp

lemma read_at_append:
  "\<lbrakk>length pre = offset; length mid = sz\<rbrakk> \<Longrightarrow> read_at (pre @ mid @ post) offset sz = Some mid"
  by (simp add: read_at_def)

lemma strncpy_id: "CHR 0x00 \<notin> set s \<Longrightarrow> strncpy s (length s) = s"
  by (simp add: strncpy_def c_str_id)

lemma length_strncpy [simp]: "length (strncpy s n) = n"
  by (simp add: strncpy_def)

definition content_small :: "frame_content \<Rightarrow> bool" where
  "content_small c \<longleftrightarrow> fc_sequence_id c < 2 ^ 32 \<and> fc_attr c < 2 ^ 32 \<and> fc_body_frames c < 2 ^ 32 \<and> fc_body_size c < 2 ^ 32"

lemma frame_uri_make:
  assumes "CHR 0x00 \<notin> set u" and "length u < 2 ^ 32"
  shows "frame_uri (make_frame u c stack) = Some u"
proof -
  have "read_at (make_frame u c stack) 0 4 = Some (le_bytes 4 (length u))"
    unfolding make_frame_def using read_at_append [of "[]" 0 "le_bytes 4 (length u)" 4] by (simp del: le_bytes.simps)
  moreover have "read_at (make_frame u c stack) 4 (length u) = Some u"
    unfolding make_frame_def using strncpy_id [OF assms(1)] by (metis read_at_append length_le_bytes)
  ultimately show ?thesis using assms(2) by (simp add: frame_uri_def le_nat_bytes)
qed

lemma frame_content_make:
  assumes "content_small c"
  shows "frame_content_at (make_frame u c stack) (4 + length u) = Some (c\<lparr>fc_timeout := 0\<rparr>)"
proof -
  let ?s = "le_bytes 4 (fc_sequence_id c)" let ?t = "le_bytes 4 stack" let ?a = "le_bytes 4 (fc_attr c)"
  let ?f = "le_bytes 4 (fc_body_frames c)" let ?b = "le_bytes 4 (fc_body_size c)" let ?o = "4 + length u"
  let ?h = "le_bytes 4 (length u) @ strncpy u (length u)"
  have m: "make_frame u c stack = ?h @ ?s @ ?t @ ?a @ ?f @ ?b" by (simp add: make_frame_def)
  have "read_at (make_frame u c stack) ?o 4 = Some ?s" unfolding m by (rule read_at_append) simp_all
  moreover have "read_at (make_frame u c stack) (?o + 8) 4 = Some ?a"
    using read_at_append [of "?h @ ?s @ ?t" "?o + 8" ?a 4 "?f @ ?b"] by (simp add: m)
  moreover have "read_at (make_frame u c stack) (?o + 12) 4 = Some ?f"
    using read_at_append [of "?h @ ?s @ ?t @ ?a" "?o + 12" ?f 4 ?b] by (simp add: m)
  moreover have "read_at (make_frame u c stack) (?o + 16) 4 = Some ?b"
    using read_at_append [of "?h @ ?s @ ?t @ ?a @ ?f" "?o + 16" ?b 4 "[]"] by (simp add: m)
  ultimately show ?thesis using assms by (simp add: frame_content_at_def le_nat_bytes content_small_def)
qed

lemma frame_content_at_small: "frame_content_at addr k = Some c \<Longrightarrow> content_small c"
proof -
  have small: "le_nat bs < 256 ^ length bs" for bs
  proof (induction bs)
    case (Cons b bs)
    have "of_char b + 256 * le_nat bs < 256 * Suc (le_nat bs)" by simp
    also have "\<dots> \<le> 256 * 256 ^ length bs" using Cons by simp
    finally show ?case by simp
  qed simp
  have four: "le_nat bs < 2 ^ 32" if "read_at addr j 4 = Some bs" for j bs
  proof -
    have "length bs = 4" using that by (auto simp: read_at_def split: if_splits)
    then show ?thesis using small [of bs] by simp
  qed
  assume "frame_content_at addr k = Some c"
  then show ?thesis using four by (auto simp: frame_content_at_def content_small_def bind_eq_Some_conv)
qed

text \<open>
  The frame that a handler writes is read back by the next one: the URI as it was, and the four numbers of the
  content that the handler copies. The content of any frame that can be read is copied without
  loss.
\<close>

theorem frame_roundtrip:
  assumes "CHR 0x00 \<notin> set u" and "length u < 2 ^ 32" and "frame_content_at addr k = Some c"
  shows "frame_uri (make_frame u c stack) = Some u \<and> frame_content_at (make_frame u c stack) (4 + length u) = Some c"
proof -
  have "c\<lparr>fc_timeout := 0\<rparr> = c" using assms(3) by (auto simp: frame_content_at_def bind_eq_Some_conv)
  then show ?thesis using frame_uri_make [OF assms(1,2)] frame_content_make [OF frame_content_at_small [OF assms(3)]] by simp
qed

theorem frame_roundtrip_witness:
  "\<exists>c. frame_content_at (replicate 24 (CHR ''a'')) 4 = Some c \<and> frame_uri (make_frame ''http://h/p'' c 7) = Some ''http://h/p'' \<and>
     frame_content_at (make_frame ''http://h/p'' c 7) 14 = Some c"
proof -
  obtain c where c: "frame_content_at (replicate 24 (CHR ''a'')) 4 = Some c"
    by (auto simp: frame_content_at_def read_at_def)
  with frame_roundtrip [of "''http://h/p''" "replicate 24 (CHR ''a'')" 4 c 7] show ?thesis by simp
qed

end
