(* ===== verification/Forward_Arbitrate.thy ===== *)
theory Forward_Arbitrate
  imports Load_Balance Basicinfo
begin

text \<open>
  The arbiter of the load balancer, \<^verbatim>\<open>mec/load-balance/src/forward_arbitrate.cpp\<close>: a list and a tree of routing rules, each with
  the path it is for, the name of a service and a counted reference to the server once it is known, and the
  endpoint manager. Requests of clients go to an endpoint of the service that the rule for their path names;
  services register themselves with a message. The result \<open>None\<close> of an operation is a failed assertion,
  an access to an invalid address or an uncaught exception.
\<close>

record route_rule_item =
  rr_url_name :: string
  rr_name :: string
  rr_service :: ptr

text \<open>
  The member \<^verbatim>\<open>_refcnt\<close> of the servers, which only this component uses, is \<open>fa_item_refs\<close>; a new server has the
  value 0. The sockets of the class are those of the component that calls it.
\<close>

record forward_arbitrate =
  fa_rules :: "nat \<Rightarrow> route_rule_item option"
  fa_rule_nodes :: avl_heap
  fa_lists :: "list_addr list_heap"
  fa_rule_tree :: ptr
  fa_brk :: nat
  fa_mgr :: server_endpoint_mgr
  fa_item_refs :: "nat \<Rightarrow> int"

section \<open>Handles to servers\<close>

definition item_addref :: "forward_arbitrate \<Rightarrow> nat \<Rightarrow> forward_arbitrate option" where
  "item_addref f a =
     do { _ \<leftarrow> em_items (fa_mgr f) a; Some (f\<lparr>fa_item_refs := (fa_item_refs f)(a := fa_item_refs f a + 1)\<rparr>) }"

definition item_release :: "forward_arbitrate \<Rightarrow> nat \<Rightarrow> forward_arbitrate option" where
  "item_release f a =
     do {
       _ \<leftarrow> em_items (fa_mgr f) a;
       let cnt = fa_item_refs f a;
       let f = f\<lparr>fa_item_refs := (fa_item_refs f)(a := cnt - 1)\<rparr>;
       Some (if cnt = 0 then f\<lparr>fa_mgr := delete_server_item (fa_mgr f) a\<rparr> else f)
     }"

text \<open>The end of a handle's life, and \<^verbatim>\<open>rule->service = svc\<close>.\<close>

definition drop_handle :: "forward_arbitrate \<Rightarrow> ptr \<Rightarrow> forward_arbitrate option" where
  "drop_handle f svc = (case svc of None \<Rightarrow> Some f | Some a \<Rightarrow> item_release f a)"

definition assign_service :: "forward_arbitrate \<Rightarrow> nat \<Rightarrow> ptr \<Rightarrow> forward_arbitrate option" where
  "assign_service f r svc =
     do {
       rule \<leftarrow> fa_rules f r;
       f \<leftarrow> (case svc of None \<Rightarrow> Some f | Some a \<Rightarrow> item_addref f a);
       drop_handle (f\<lparr>fa_rules := (fa_rules f)(r \<mapsto> rule\<lparr>rr_service := svc\<rparr>)\<rparr>) (rr_service rule)
     }"

definition get_service_item :: "forward_arbitrate \<Rightarrow> string \<Rightarrow> (ptr \<times> forward_arbitrate) option" where
  "get_service_item f name =
     do {
       item \<leftarrow> find_server_item (fa_mgr f) name;
       case item of None \<Rightarrow> Some (None, f) | Some a \<Rightarrow> do { f \<leftarrow> item_addref f a; Some (item, f) }
     }"

section \<open>Rules\<close>

definition forward_arbitrate_ctor :: "forward_arbitrate option" where
  "forward_arbitrate_ctor =
     do {
       l \<leftarrow> listnode_init [Owner 0 \<mapsto> \<lparr>ln_next = None, ln_prev = None\<rparr>] (Owner 0);
       mgr \<leftarrow> server_endpoint_mgr_ctor;
       Some \<lparr>fa_rules = Map.empty, fa_rule_nodes = Map.empty, fa_lists = l, fa_rule_tree = None, fa_brk = 1, fa_mgr = mgr,
         fa_item_refs = (\<lambda>_. 0)\<rparr>
     }"

definition url_of :: "forward_arbitrate \<Rightarrow> nat \<Rightarrow> string" where
  "url_of f r = (case fa_rules f r of None \<Rightarrow> [] | Some it \<Rightarrow> rr_url_name it)"

definition route_rule_compare :: "forward_arbitrate \<Rightarrow> nat \<Rightarrow> nat \<Rightarrow> int" where
  "route_rule_compare f a b = name_compare (url_of f a) (url_of f b)"

definition find_rule :: "forward_arbitrate \<Rightarrow> string \<Rightarrow> ptr option" where
  "find_rule f name = avl_find (fa_rule_nodes f) (fa_rule_tree f) name (\<lambda>k b. name_compare k (url_of f b))"

definition new_rule :: "forward_arbitrate \<Rightarrow> string \<Rightarrow> forward_arbitrate" where
  "new_rule f name =
     (let r = fa_brk f
      in f\<lparr>fa_rules := (fa_rules f)(r \<mapsto> \<lparr>rr_url_name = name, rr_name = [], rr_service = None\<rparr>),
           fa_rule_nodes := (fa_rule_nodes f)(r \<mapsto> zero_node), fa_lists := (fa_lists f)(Member r \<mapsto> zero_listnode), fa_brk := Suc r\<rparr>)"

definition delete_rule :: "forward_arbitrate \<Rightarrow> nat \<Rightarrow> forward_arbitrate option" where
  "delete_rule f r =
     do {
       rule \<leftarrow> fa_rules f r;
       drop_handle (f\<lparr>fa_rules := (fa_rules f)(r := None), fa_rule_nodes := (fa_rule_nodes f)(r := None),
         fa_lists := (fa_lists f)(Member r := None)\<rparr>) (rr_service rule)
     }"

definition add_rule :: "forward_arbitrate \<Rightarrow> string \<Rightarrow> (ptr \<times> forward_arbitrate) option" where
  "add_rule f name =
     do {
       item \<leftarrow> find_rule f name;
       if item \<noteq> None then Some (item, f)
       else do {
         let r = fa_brk f;
         let f = new_rule f name;
         (h, rt, ret) \<leftarrow> avl_insert (fa_rule_nodes f) (fa_rule_tree f) r (route_rule_compare f);
         let f = f\<lparr>fa_rule_nodes := h, fa_rule_tree := rt\<rparr>;
         if ret \<noteq> 0 then do { f \<leftarrow> delete_rule f r; Some (None, f) }
         else do { l \<leftarrow> listnode_add (fa_lists f) (Owner 0) (Member r); Some (Some r, f\<lparr>fa_lists := l\<rparr>) }
       }
     }"

partial_function (option) release_service_loop :: "forward_arbitrate \<Rightarrow> forward_arbitrate option" where
  "release_service_loop f =
     do {
       e \<leftarrow> listnode_isempty (fa_lists f) (Owner 0);
       if e then Some f
       else do {
         n \<leftarrow> fa_lists f (Owner 0);
         r \<leftarrow> list_entry (ln_next n);
         l \<leftarrow> listnode_del (fa_lists f) (Member r);
         f \<leftarrow> delete_rule (f\<lparr>fa_lists := l\<rparr>) r;
         release_service_loop f
       }
     }"

definition release_all_service :: "forward_arbitrate \<Rightarrow> (int \<times> forward_arbitrate) option" where
  "release_all_service f = do { f \<leftarrow> release_service_loop f; Some (0, f\<lparr>fa_rule_tree := None\<rparr>) }"

text \<open>
  Loading of the rules. \<open>text_at\<close> gives the text at a path of the configuration, \<open>None\<close> when \<^verbatim>\<open>get_sysconfig\<close>
  reports an error; \<open>cnt\<close> is the number of rules it gives. \<^verbatim>\<open>load_service_type\<close> reads a text that is not used.
\<close>

definition load_rule_url_name :: "(string \<Rightarrow> string option) \<Rightarrow> nat \<Rightarrow> string option" where
  "load_rule_url_name text_at order = text_at (''load-balance-service.route-rule.'' @ nat_to_string order @ ''.url-name'')"

definition load_service_name :: "(string \<Rightarrow> string option) \<Rightarrow> nat \<Rightarrow> string option" where
  "load_service_name text_at order = text_at (''load-balance-service.route-rule.'' @ nat_to_string order @ ''.service.name'')"

fun rule_loop :: "(string \<Rightarrow> string option) \<Rightarrow> nat list \<Rightarrow> forward_arbitrate \<Rightarrow> forward_arbitrate option" where
  "rule_loop text_at [] f = Some f"
| "rule_loop text_at (i # rest) f =
     (case load_rule_url_name text_at i of
        None \<Rightarrow> rule_loop text_at rest f
      | Some name \<Rightarrow> do {
          item \<leftarrow> find_rule f name;
          (item, f) \<leftarrow> (if item = None then add_rule f name else Some (item, f));
          r \<leftarrow> item;
          case load_service_name text_at i of
            None \<Rightarrow> rule_loop text_at rest f
          | Some svc_name \<Rightarrow> do {
              rule \<leftarrow> fa_rules f r;
              (svc, f) \<leftarrow> get_service_item (f\<lparr>fa_rules := (fa_rules f)(r \<mapsto> rule\<lparr>rr_name := svc_name\<rparr>)\<rparr>) svc_name;
              if svc = None then rule_loop text_at rest f
              else do { f \<leftarrow> assign_service f r svc; f \<leftarrow> drop_handle f svc; rule_loop text_at rest f }
            }
        })"

definition init_rule_list :: "(string \<Rightarrow> string option) \<Rightarrow> nat option \<Rightarrow> forward_arbitrate \<Rightarrow> (int \<times> forward_arbitrate) option" where
  "init_rule_list text_at cnt f =
     (case cnt of
        None \<Rightarrow> None
      | Some n \<Rightarrow> if n = 0 then None else do { f \<leftarrow> rule_loop text_at [0..<n] f; Some (0, f) })"

section \<open>Requests\<close>

definition get_urlname_from_uri :: "uri_impl option \<Rightarrow> int + string" where
  "get_urlname_from_uri url =
     (let name = c_str (uri_get_fullpath url)
      in case strchr name (CHR ''/'') of None \<Rightarrow> Inl (- ENOTFOUND) | Some first_slash \<Rightarrow> Inr (drop first_slash name))"

text \<open>
  \<^verbatim>\<open>forward::forward_to_service\<close>: the frames that go to the socket of the services, the endpoint's identity first. The
  copies of the handle that the calls in between make add and release a reference each.
\<close>

definition backend_forward :: "server_endpoint_mgr \<Rightarrow> zeromq_msg \<Rightarrow> ptr \<Rightarrow> (int \<times> zframe list) option" where
  "backend_forward mgr msg node =
     (case node of
        None \<Rightarrow> Some (- EBADPARM, [])
      | Some b \<Rightarrow> do { p \<leftarrow> em_points mgr b; Some (0, (se_identity p, True) # send msg) })"

text \<open>The part of \<^verbatim>\<open>forward_to_service\<close> that makes sure the rule has its server; the result says whether it has.\<close>

definition resolve_rule :: "forward_arbitrate \<Rightarrow> nat \<Rightarrow> (bool \<times> forward_arbitrate) option" where
  "resolve_rule f r =
     do {
       rule \<leftarrow> fa_rules f r;
       if rr_service rule \<noteq> None then Some (True, f)
       else do {
         (svc, f) \<leftarrow> get_service_item f (rr_name rule);
         if svc = None then Some (False, f)
         else do { f \<leftarrow> assign_service f r svc; f \<leftarrow> drop_handle f svc; Some (True, f) }
       }
     }"

definition forward_to_service ::
  "zeromq_msg option \<Rightarrow> uri_impl option \<Rightarrow> forward_arbitrate \<Rightarrow> (int \<times> zframe list \<times> forward_arbitrate) option" where
  "forward_to_service data url f =
     (case data of
        None \<Rightarrow> Some (- EBADPARM, [], f)
      | Some msg \<Rightarrow>
          (case get_urlname_from_uri url of
             Inl _ \<Rightarrow> Some (- EBADPARM, [], f)
           | Inr url_name \<Rightarrow> do {
               rule \<leftarrow> find_rule f url_name;
               case rule of
                 None \<Rightarrow> Some (- ENOTFOUND, [], f)
               | Some r \<Rightarrow> do {
                   (ok, f) \<leftarrow> resolve_rule f r;
                   if \<not> ok then Some (- ENOTFOUND, [], f)
                   else do {
                     it \<leftarrow> fa_rules f r;
                     (node, mgr) \<leftarrow> get_service_endpoint (fa_mgr f) (rr_service it);
                     (_, out) \<leftarrow> backend_forward mgr msg node;
                     mgr \<leftarrow> (case node of None \<Rightarrow> Some mgr | Some b \<Rightarrow> do { (_, mgr) \<leftarrow> release mgr b; Some mgr });
                     Some (0, out, f\<lparr>fa_mgr := mgr\<rparr>)
                   }
                 }
             }))"

text \<open>
  \<^verbatim>\<open>service_request\<close>, with the message it changes. A registration holds the length of the name at offset 8 and the name at
  offset 16; the handler writes a NUL behind the name. Message types: 2 request, 3 register, 6 reply.
\<close>

definition register_name :: "string \<Rightarrow> string option" where
  "register_name svr_info =
     do {
       name_len \<leftarrow> read_at svr_info 8 8;
       if 16 + le_nat name_len \<le> length svr_info then Some (c_str (take (le_nat name_len) (drop 16 svr_info))) else None
     }"

definition service_request ::
  "sysconfig \<Rightarrow> qsort \<Rightarrow> zeromq_msg \<Rightarrow> forward_arbitrate \<Rightarrow> (int \<times> zeromq_msg \<times> zframe list \<times> forward_arbitrate) option" where
  "service_request cf qs msg f =
     do {
       identify \<leftarrow> get_part 0 msg;
       hdr_info \<leftarrow> get_part 2 msg;
       svc_type \<leftarrow> read_at hdr_info 0 4;
       if le_nat svc_type = 2 then do {
         addr \<leftarrow> body 1 msg;
         if length addr < 1 then Some (- EBADPARM, msg, [], f)
         else do {
           add_uri \<leftarrow> frame_uri addr;
           addr_info \<leftarrow> uri_ctor qs add_uri;
           let msg = snd (erase_part 2 msg);
           (ret, out, f) \<leftarrow> forward_to_service (Some msg) addr_info f;
           Some (ret, msg, out, f)
         }
       }
       else if le_nat svc_type = 3 then do {
         svr_info \<leftarrow> get_part 3 msg;
         name \<leftarrow> register_name svr_info;
         (_, mgr) \<leftarrow> lb_add_server_endpoint cf (fa_mgr f) (Some name) (Some (c_str identify));
         let msg = set_part 3 (le_bytes 4 0) (set_part 2 (le_bytes 4 6) msg);
         Some (0, msg, send msg, f\<lparr>fa_mgr := mgr\<rparr>)
       }
       else Some (0, msg, [], f)
     }"

end
