(* ===== verification/Arbitrate_Ops.thy ===== *)
theory Arbitrate_Ops
  imports Forward_Arbitrate
begin

text \<open>
  Properties of the arbiter: the invariant of the rules and the endpoint manager, where a request goes on every branch, and
  what a registration does.
\<close>

section \<open>The endpoint manager of the load balancer\<close>

text \<open>
  What holds of the manager between messages: its structure, every endpoint enabled and with one reference, a maximum that the scan can
  count to, and counts below it.
\<close>

definition lb_ok :: "server_endpoint_mgr \<Rightarrow> bool" where
  "lb_ok s \<longleftrightarrow> em_inv s \<and> (\<forall>b p. em_points s b = Some p \<longrightarrow> se_refcnt p = 1 \<and> se_status p = 1) \<and>
     (\<forall>a it. em_items s a = Some it \<longrightarrow> si_veh_max_cnt it \<le> 2 ^ 63 \<and> counts_below s a (si_veh_max_cnt it))"

lemma lb_okD:
  assumes "lb_ok s"
  shows "em_inv s" and "em_points s b = Some p \<Longrightarrow> se_refcnt p = 1 \<and> se_status p = 1"
    and "em_items s a = Some it \<Longrightarrow> si_veh_max_cnt it \<le> 2 ^ 63" and "em_items s a = Some it \<Longrightarrow> counts_below s a (si_veh_max_cnt it)"
  using assms by (auto simp: lb_ok_def)

text \<open>The endpoints after a request was sent to \<open>b\<close> and the handle to it is gone.\<close>

definition counted :: "(nat \<Rightarrow> server_endpoint option) \<Rightarrow> nat set \<Rightarrow> u64 \<Rightarrow> nat \<Rightarrow> nat \<Rightarrow> server_endpoint option" where
  "counted P B m b = (\<lambda>x. if x = b then map_option (\<lambda>p. p\<lparr>se_refcnt := se_refcnt p - 1\<rparr>) (served P B m b x) else served P B m b x)"

lemma counted_face: "map_option link_face (counted P B m b x) = map_option link_face (P x)"
  using served_face [of P B m b x] by (cases "served P B m b x") (auto simp: counted_def link_face_def)

lemma counted_load: "veh_load (counted P B m b) x = veh_load (served P B m b) x"
  by (cases "served P B m b x") (auto simp: counted_def veh_load_def)

lemma counted_refcnt:
  assumes "\<forall>x p. P x = Some p \<longrightarrow> se_refcnt p = 1 \<and> se_status p = 1" and "counted P B m b x = Some q"
  shows "se_refcnt q = 1 \<and> se_status q = 1"
  using assms by (cases "P x") (auto simp: counted_def served_def bump_def reset_point_def Let_def split: if_splits)

lemma counted_ok:
  assumes "lb_ok s" and "em_items s a = Some it" and "b \<in> members s a"
  shows "lb_ok (s\<lparr>em_points := counted (em_points s) (members s a) (si_veh_max_cnt it) b\<rparr>)" (is "lb_ok ?s")
proof -
  let ?m = "si_veh_max_cnt it"
  note inv = points_update_inv [OF lb_okD(1) [OF assms(1)], of "counted (em_points s) (members s a) ?m b", OF counted_face]
  have "counts_below ?s c (si_veh_max_cnt jt)" if c: "em_items s c = Some jt" for c jt
  proof (cases "c = a")
    case True
    then have "counts_below (s\<lparr>em_points := served (em_points s) (members s a) ?m b\<rparr>) a ?m"
      using served_below [OF lb_okD(4) [OF assms(1,2)] lb_okD(1) [OF assms(1)]] by blast
    moreover have "members (s\<lparr>em_points := served (em_points s) (members s a) ?m b\<rparr>) = members s"
      by (rule points_update_inv(2) [OF lb_okD(1) [OF assms(1)]]) (rule served_face)
    ultimately show ?thesis using True c assms(2) inv(2) by (simp add: counts_below_def counted_load)
  next
    case False
    have "veh_load (em_points ?s) x = veh_load (em_points s) x" if "x \<in> members s c" for x
    proof -
      have "x \<notin> members s a" using members_disjoint [OF that] False by blast
      then show ?thesis using assms(3) by (auto simp: counted_load veh_load_served)
    qed
    then show ?thesis using lb_okD(4) [OF assms(1) c] inv(2) by (simp add: counts_below_def)
  qed
  moreover have "\<forall>x q. em_points ?s x = Some q \<longrightarrow> se_refcnt q = 1 \<and> se_status q = 1"
    using counted_refcnt [of "em_points s"] lb_okD(2) [OF assms(1)] by simp
  ultimately show ?thesis using inv(1) lb_okD(3) [OF assms(1)] unfolding lb_ok_def by simp
qed

text \<open>A request to a server: the endpoint chosen, and the manager once the handle is released.\<close>

lemma serve_ok:
  assumes "lb_ok s" and "em_items s a = Some it"
  shows "\<exists>r s1. get_service_endpoint s (Some a) = Some (r, s1) \<and>
    (case r of
       None \<Rightarrow> s1 = s \<and> (\<forall>b \<in> members s a. \<not> eligible (em_points s) None b)
     | Some b \<Rightarrow> \<exists>ys p q s2. set ys = members s a \<and> list_nodes (em_lists s) (Owner a) = Some (map Member ys) \<and>
         least_loaded (em_points s) None ys b \<and> em_points s b = Some p \<and> em_points s1 b = Some q \<and> se_identity q = se_identity p \<and>
         release s1 b = Some (2, s2) \<and> lb_ok s2 \<and> s2 = s\<lparr>em_points := counted (em_points s) (members s a) (si_veh_max_cnt it) b\<rparr>)"
proof -
  note small = counts_below_small [OF lb_okD(4) [OF assms] lb_okD(3) [OF assms]]
  from get_service_ok [OF lb_okD(1) [OF assms(1)] assms(2) small] obtain ys r s1 where
      ys: "set ys = members s a" "list_nodes (em_lists s) (Owner a) = Some (map Member ys)" "get_service_endpoint s (Some a) = Some (r, s1)"
      "if \<exists>b \<in> members s a. eligible (em_points s) None b
       then \<exists>b. r = Some b \<and> least_loaded (em_points s) None ys b \<and>
         s1 = s\<lparr>em_points := served (em_points s) (members s a) (si_veh_max_cnt it) b\<rparr>
       else r = None \<and> s1 = s" by blast
  show ?thesis
  proof (cases "\<exists>b \<in> members s a. eligible (em_points s) None b")
    case False
    then show ?thesis using ys(3,4) by auto
  next
    case True
    let ?P = "served (em_points s) (members s a) (si_veh_max_cnt it)"
    from True obtain b where b: "r = Some b" "least_loaded (em_points s) None ys b" "s1 = s\<lparr>em_points := ?P b\<rparr>" using ys(4) by auto
    then have "b \<in> members s a" unfolding ys(1) [symmetric] by (auto simp: least_loaded_def)
    then obtain p where p: "em_points s b = Some p" by (auto simp: members_def)
    have "\<exists>q. ?P b b = Some q \<and> se_identity q = se_identity p \<and> se_refcnt q = 2"
      using p lb_okD(2) [OF assms(1) p] by (simp add: served_def bump_def reset_point_def Let_def)
    then obtain q where q: "?P b b = Some q" "se_identity q = se_identity p" "se_refcnt q = 2" by blast
    let ?s2 = "s\<lparr>em_points := counted (em_points s) (members s a) (si_veh_max_cnt it) b\<rparr>"
    have "(?P b)(b \<mapsto> q\<lparr>se_refcnt := 1\<rparr>) = counted (em_points s) (members s a) (si_veh_max_cnt it) b"
      using q by (auto simp: counted_def fun_eq_iff)
    then have "release s1 b = Some (2, ?s2)" using q by (simp add: release_def b(3) Let_def)
    moreover have "lb_ok ?s2" by (rule counted_ok [OF assms \<open>b \<in> members s a\<close>])
    ultimately show ?thesis using ys(1-3) b p q(1,2) by (intro exI [of _ r] exI [of _ s1]) auto
  qed
qed

text \<open>Every endpoint of a server is enabled.\<close>

lemma lb_ok_eligible: "\<lbrakk>lb_ok s; b \<in> members s a\<rbrakk> \<Longrightarrow> eligible (em_points s) None b"
  using lb_okD(2) by (fastforce simp: members_def eligible_def)

section \<open>Registration\<close>

definition lb_configured :: "sysconfig \<Rightarrow> string \<Rightarrow> bool" where
  "lb_configured cf name \<longleftrightarrow> cf_string cf (''load-balance-service.service.'' @ name @ ''.name'') = 0"

text \<open>The maximum that the configuration gives is an \<^verbatim>\<open>int\<close>; it has to be non-negative.\<close>

definition config_ok :: "sysconfig \<Rightarrow> bool" where
  "config_ok cf \<longleftrightarrow> (\<forall>name. 0 \<le> cf_number cf (''load-balance-service.service.'' @ name @ ''.'' @ ''max-count'') 10000 \<and>
     cf_number cf (''load-balance-service.service.'' @ name @ ''.'' @ ''max-count'') 10000 < 2 ^ 31)"

text \<open>Servers and endpoints are only added.\<close>

definition grows :: "server_endpoint_mgr \<Rightarrow> server_endpoint_mgr \<Rightarrow> bool" where
  "grows s s' \<longleftrightarrow> (\<forall>a it. em_items s a = Some it \<longrightarrow> (\<exists>it'. em_items s' a = Some it' \<and> si_name it' = si_name it)) \<and>
     (\<forall>a. members s a \<subseteq> members s' a)"

lemma grows_refl [simp]: "grows s s"
  by (simp add: grows_def)

lemma grows_trans: "\<lbrakk>grows s t; grows t u\<rbrakk> \<Longrightarrow> grows s u"
  unfolding grows_def by (metis order_trans)

lemma of_int_small: "\<lbrakk>0 \<le> i; i < 2 ^ 31\<rbrakk> \<Longrightarrow> (of_int i :: u64) \<le> 2 ^ 63"
  by (simp add: word_le_def uint_word_of_int)

lemma new_point_ok:
  assumes "lb_ok s" and "em_items s a = Some it" and "em_inv s'" and "b \<notin> dom (em_points s)"
    and "em_items s' = (em_items s)(a \<mapsto> it\<lparr>si_endpoints_tree := rt\<rparr>)" and "em_points s' = (em_points s)(b \<mapsto> new_point identity a 0)"
  shows "lb_ok s'" and "grows s s'" and "b \<in> members s' a"
proof -
  have mem: "members s' c = (if c = a then insert b (members s c) else members s c)" for c
    using assms(4) by (auto simp: members_def assms(6))
  have "veh_load (em_points s') x = veh_load (em_points s) x" if "x \<noteq> b" for x using that by (simp add: veh_load_def assms(6))
  moreover have "veh_load (em_points s') b = 0" by (simp add: veh_load_def assms(6))
  ultimately have "veh_load (em_points s') x = (if x = b then 0 else veh_load (em_points s) x)" for x by simp
  then have "counts_below s' c m" if "counts_below s c m" for c m
    using that by (simp add: counts_below_def mem)
  then show "lb_ok s'" using assms(1,2,3) by (auto simp: lb_ok_def assms(5,6))
  show "grows s s'" using assms(2) by (auto simp: grows_def assms(5) mem)
  show "b \<in> members s' a" by (simp add: mem)
qed

lemma lb_attach:
  assumes "lb_ok s" and "em_items s a = Some it"
  shows "\<exists>b s' it'. attach s a identity 0 = Some (Some b, s') \<and> lb_ok s' \<and> grows s s' \<and> em_items s' a = Some it' \<and> si_name it' = si_name it \<and>
    b \<in> members s' a \<and> identity_of s' b = identity"
proof (cases "\<exists>b p. em_points s b = Some p \<and> se_server p = Some a \<and> se_identity p = identity")
  case True
  then obtain b p where p: "em_points s b = Some p" "se_server p = Some a" "se_identity p = identity" by blast
  then show ?thesis using attach_old [OF lb_okD(1) [OF assms(1)] assms(2) p(1,2)] assms by (auto simp: members_def)
next
  case False
  then have "\<forall>b p. em_points s b = Some p \<and> se_server p = Some a \<longrightarrow> se_identity p \<noteq> identity" by blast
  from attach_new [where cnt = 0, OF lb_okD(1) [OF assms(1)] assms(2) this] obtain rt s' where
    s': "attach s a identity 0 = Some (Some (em_brk s), s')" "em_inv s'" "em_items s' = (em_items s)(a \<mapsto> it\<lparr>si_endpoints_tree := rt\<rparr>)"
      "em_points s' = (em_points s)(em_brk s \<mapsto> new_point identity a 0)" by blast
  note ok = new_point_ok [OF assms s'(2) em_inv_fresh(2) [OF lb_okD(1) [OF assms(1)]] s'(3,4)]
  have "em_items s' a = Some (it\<lparr>si_endpoints_tree := rt\<rparr>)" "identity_of s' (em_brk s) = identity" by (simp_all add: s'(3,4) identity_of_def)
  then show ?thesis using s'(1) ok by (intro exI [of _ "em_brk s"] exI [of _ s']) auto
qed

lemma new_server_ok:
  assumes "lb_ok s" and "em_inv s1" and "em_items s1 = (em_items s)(em_brk s \<mapsto> it)" and "em_points s1 = em_points s" and "si_veh_max_cnt it \<le> 2 ^ 63"
  shows "lb_ok s1" and "grows s s1"
proof -
  have mem: "members s1 = members s" by (simp add: members_def assms(4) fun_eq_iff)
  have "members s (em_brk s) = {}" using em_inv_members_empty em_inv_fresh(1) lb_okD(1) [OF assms(1)] by blast
  then show "lb_ok s1" using assms by (auto simp: lb_ok_def counts_below_def mem)
  have "em_brk s \<notin> dom (em_items s)" using em_inv_fresh(1) lb_okD(1) [OF assms(1)] by blast
  then show "grows s s1" by (auto simp: grows_def mem assms(3))
qed

text \<open>What a registration does to the manager.\<close>

lemma lb_add_ok:
  assumes "lb_ok s" and "config_ok cf" and "name \<noteq> []" and "identity \<noteq> []"
  shows "if (\<exists>a it. em_items s a = Some it \<and> si_name it = name) \<or> lb_configured cf name
    then \<exists>b s' a it. lb_add_server_endpoint cf s (Some name) (Some identity) = Some (Some b, s') \<and> lb_ok s' \<and> grows s s' \<and>
      em_items s' a = Some it \<and> si_name it = name \<and> b \<in> members s' a \<and> identity_of s' b = identity
    else lb_add_server_endpoint cf s (Some name) (Some identity) = None"
  using lb_okD(1) [OF assms(1)]
proof (cases rule: find_server_cases [where name = name])
  case (found a it)
  have "lb_add_server_endpoint cf s (Some name) (Some identity) = attach s a identity 0"
    using found assms(3,4) by (simp add: lb_add_server_endpoint_def attach_def lb_add_endpoint_def cong: if_cong)
  then show ?thesis using lb_attach [OF assms(1), of a it identity] found by auto
next
  case missing
  note add = add_server_item_cases [OF lb_okD(1) [OF assms(1)] missing(2,1), where cf = cf and prefix = "''load-balance-service.service.''"
      and max_key = "''max-count''" and max_cnt = 10000]
  have none: "\<not> (\<exists>a it. em_items s a = Some it \<and> si_name it = name)" using missing(2) by force
  show ?thesis
  proof (cases "lb_configured cf name")
    case True
    then obtain it s1 where s1: "lb_add_server_item cf s name = Some (Some (em_brk s), s1)" "em_inv s1"
        "em_items s1 = (em_items s)(em_brk s \<mapsto> it)" "si_name it = name" "em_points s1 = em_points s"
        "si_veh_max_cnt it = of_int (cf_number cf (''load-balance-service.service.'' @ name @ ''.'' @ ''max-count'') 10000)"
      using add unfolding lb_configured_def lb_add_server_item_def by (auto split: if_splits)
    have "si_veh_max_cnt it \<le> 2 ^ 63" unfolding s1(6) using assms(2) unfolding config_ok_def by (intro of_int_small) blast+
    note s1ok = new_server_ok [OF assms(1) s1(2,3,5) this]
    have a: "em_items s1 (em_brk s) = Some it" by (simp add: s1(3))
    from lb_attach [OF s1ok(1) a, of identity] obtain b s' it' where s': "attach s1 (em_brk s) identity 0 = Some (Some b, s')" "lb_ok s'" "grows s1 s'"
        "em_items s' (em_brk s) = Some it'" "si_name it' = si_name it" "b \<in> members s' (em_brk s)" "identity_of s' b = identity" by blast
    have "lb_add_server_endpoint cf s (Some name) (Some identity) = attach s1 (em_brk s) identity 0"
      using missing(1) assms(3,4) s1(1) by (simp add: lb_add_server_endpoint_def attach_def lb_add_endpoint_def cong: if_cong)
    then show ?thesis using True s' s1(4) grows_trans [OF s1ok(2) s'(3)] by auto
  next
    case False
    then show ?thesis using add missing(1) assms(3,4) none by (auto simp: lb_configured_def lb_add_server_endpoint_def lb_add_server_item_def)
  qed
qed

section \<open>Rules and routing\<close>

definition rules_ok :: "forward_arbitrate \<Rightarrow> bool" where
  "rules_ok f \<longleftrightarrow> 0 < fa_brk f \<and> (\<forall>r \<in> dom (fa_rules f). 0 < r \<and> r < fa_brk f) \<and>
     indexed name_compare (url_of f) (fa_rule_nodes f) (fa_rule_tree f) (dom (fa_rules f)) \<and>
     (\<exists>xs. set xs = dom (fa_rules f) \<and> ring (fa_lists f) (Owner 0) (map Member xs))"

text \<open>The arbiter between messages: a rule that has a server has the one with the name it says.\<close>

definition fa_inv :: "forward_arbitrate \<Rightarrow> bool" where
  "fa_inv f \<longleftrightarrow> rules_ok f \<and> lb_ok (fa_mgr f) \<and> (\<forall>a. 0 \<le> fa_item_refs f a) \<and>
     (\<forall>r it a. fa_rules f r = Some it \<and> rr_service it = Some a \<longrightarrow> (\<exists>sv. em_items (fa_mgr f) a = Some sv \<and> si_name sv = rr_name it))"

lemma fa_invD:
  assumes "fa_inv f"
  shows "rules_ok f" and "lb_ok (fa_mgr f)" and "0 \<le> fa_item_refs f a"
    and "\<lbrakk>fa_rules f r = Some it; rr_service it = Some a\<rbrakk> \<Longrightarrow> \<exists>sv. em_items (fa_mgr f) a = Some sv \<and> si_name sv = rr_name it"
  using assms by (auto simp: fa_inv_def)

lemma fa_invI:
  "\<lbrakk>rules_ok f; lb_ok (fa_mgr f); \<And>a. 0 \<le> fa_item_refs f a;
    \<And>r it a. \<lbrakk>fa_rules f r = Some it; rr_service it = Some a\<rbrakk> \<Longrightarrow> \<exists>sv. em_items (fa_mgr f) a = Some sv \<and> si_name sv = rr_name it\<rbrakk> \<Longrightarrow> fa_inv f"
  unfolding fa_inv_def by blast

lemma url_of_rule [simp]: "fa_rules f r = Some it \<Longrightarrow> url_of f r = rr_url_name it"
  by (simp add: url_of_def)

lemma url_of_ignore [simp]:
  "url_of (f\<lparr>fa_mgr := m\<rparr>) = url_of f" "url_of (f\<lparr>fa_item_refs := n\<rparr>) = url_of f" "url_of (f\<lparr>fa_rule_nodes := h\<rparr>) = url_of f"
  "url_of (f\<lparr>fa_rule_tree := t\<rparr>) = url_of f" "url_of (f\<lparr>fa_lists := l\<rparr>) = url_of f"
  by (simp_all add: url_of_def fun_eq_iff)

lemma rules_ok_ignore [simp]:
  "rules_ok (f\<lparr>fa_mgr := m\<rparr>) = rules_ok f" "rules_ok (f\<lparr>fa_item_refs := n\<rparr>) = rules_ok f"
  by (simp_all add: rules_ok_def)

lemma rules_ok_update:
  assumes "rules_ok f" and "fa_rules f r = Some it" and "rr_url_name it' = rr_url_name it"
  shows "rules_ok (f\<lparr>fa_rules := (fa_rules f)(r \<mapsto> it')\<rparr>)"
proof -
  let ?f = "f\<lparr>fa_rules := (fa_rules f)(r \<mapsto> it')\<rparr>"
  have "url_of ?f = url_of f" "dom (fa_rules ?f) = dom (fa_rules f)" using assms(2,3) by (auto simp: url_of_def fun_eq_iff)
  then show ?thesis using assms(1) by (simp add: rules_ok_def)
qed

lemma find_rule_cases:
  assumes "rules_ok f"
  obtains (found) r it where "find_rule f name = Some (Some r)" "fa_rules f r = Some it" "rr_url_name it = name"
  | (missing) "find_rule f name = Some None" "name \<notin> url_of f ` dom (fa_rules f)"
proof -
  have idx: "indexed name_compare (url_of f) (fa_rule_nodes f) (fa_rule_tree f) (dom (fa_rules f))" using assms by (simp add: rules_ok_def)
  show ?thesis
  proof (cases "name \<in> url_of f ` dom (fa_rules f)")
    case True
    then obtain r it where "fa_rules f r = Some it" "rr_url_name it = name" by auto
    then show ?thesis using names.index_find(1) [OF idx, of r] found by (auto simp: find_rule_def)
  next
    case False
    then show ?thesis using names.index_find(2) [OF idx] missing by (simp add: find_rule_def)
  qed
qed

lemma server_unique: "\<lbrakk>em_inv s; em_items s a = Some it; em_items s b = Some jt; si_name it = si_name jt\<rbrakk> \<Longrightarrow> a = b"
  using find_server_hit [of s a it] find_server_hit [of s b jt] by simp

lemma resolve_ok:
  assumes "fa_inv f" and "fa_rules f r = Some it"
  shows "if \<exists>a sv. em_items (fa_mgr f) a = Some sv \<and> si_name sv = rr_name it
    then \<exists>a sv f'. resolve_rule f r = Some (True, f') \<and> fa_inv f' \<and> fa_mgr f' = fa_mgr f \<and>
      em_items (fa_mgr f) a = Some sv \<and> si_name sv = rr_name it \<and> fa_rules f' = (fa_rules f)(r \<mapsto> it\<lparr>rr_service := Some a\<rparr>)
    else resolve_rule f r = Some (False, f)"
proof (cases "rr_service it")
  case (Some a)
  then obtain sv where sv: "em_items (fa_mgr f) a = Some sv" "si_name sv = rr_name it" using fa_invD(4) [OF assms(1,2)] by blast
  moreover have "resolve_rule f r = Some (True, f)" using assms(2) Some by (simp add: resolve_rule_def)
  moreover have "it\<lparr>rr_service := Some a\<rparr> = it" using Some by simp
  then have "fa_rules f = (fa_rules f)(r \<mapsto> it\<lparr>rr_service := Some a\<rparr>)" using assms(2) by auto
  ultimately show ?thesis using assms(1) by auto
next
  case None
  from lb_okD(1) [OF fa_invD(2) [OF assms(1)]] show ?thesis
  proof (cases rule: find_server_cases [where name = "rr_name it"])
    case (found a sv)
    let ?f = "f\<lparr>fa_rules := (fa_rules f)(r \<mapsto> it\<lparr>rr_service := Some a\<rparr>), fa_item_refs := (fa_item_refs f)(a := fa_item_refs f a + 1)\<rparr>"
    have n: "fa_item_refs f a + 1 + 1 \<noteq> 0" using fa_invD(3) [OF assms(1), of a] by linarith
    have "resolve_rule f r = Some (True, ?f)"
      using found assms(2) None n by (simp add: resolve_rule_def get_service_item_def assign_service_def drop_handle_def item_addref_def item_release_def Let_def add.commute)
    moreover have "fa_inv ?f"
    proof -
      have "rules_ok (f\<lparr>fa_rules := (fa_rules f)(r \<mapsto> it\<lparr>rr_service := Some a\<rparr>)\<rparr>)"
        by (rule rules_ok_update [OF fa_invD(1) [OF assms(1)] assms(2)]) simp
      then have "rules_ok ?f" by (simp only: rules_ok_ignore)
      moreover have "0 \<le> fa_item_refs ?f c" for c using fa_invD(3) [OF assms(1)] by simp
      ultimately show ?thesis using fa_invD(2,4) [OF assms(1)] found(2,3) by (auto simp: fa_inv_def)
    qed
    ultimately show ?thesis using found(2,3) by auto
  next
    case missing
    then have "\<not> (\<exists>a sv. em_items (fa_mgr f) a = Some sv \<and> si_name sv = rr_name it)" by force
    then show ?thesis using missing(1) assms(2) None by (auto simp: resolve_rule_def get_service_item_def)
  qed
qed

text \<open>The path of a URI, as the rules name it: what follows the first slash of the full path, with it.\<close>

definition url_path :: "uri_impl option \<Rightarrow> string option" where
  "url_path url = (case get_urlname_from_uri url of Inl _ \<Rightarrow> None | Inr path \<Rightarrow> Some path)"

lemma counted_identity:
  "identity_of (s\<lparr>em_points := counted (em_points s) B m b\<rparr>) x = identity_of s x"
  using counted_face [of "em_points s" B m b x] by (auto simp: identity_of_def link_face_def split: option.splits)

lemma counted_members: "em_inv s \<Longrightarrow> members (s\<lparr>em_points := counted (em_points s) B m b\<rparr>) = members s"
  by (erule points_update_inv(2)) (rule counted_face)

text \<open>The table of the rules: the service that a path is routed to.\<close>

definition routes :: "forward_arbitrate \<Rightarrow> (string \<Rightarrow> string option) \<Rightarrow> bool" where
  "routes f M \<longleftrightarrow> (\<forall>path svc. M path = Some svc \<longleftrightarrow> (\<exists>r it. fa_rules f r = Some it \<and> rr_url_name it = path \<and> rr_name it = svc))"

lemma routes_service:
  assumes "fa_rules f r = Some it" and "fa_rules f' = (fa_rules f)(r \<mapsto> it\<lparr>rr_service := x\<rparr>)"
  shows "routes f' M = routes f M"
proof -
  let ?face = "map_option (\<lambda>it. (rr_url_name it, rr_name it))"
  have face: "?face (fa_rules f' r') = ?face (fa_rules f r')" for r' using assms by simp
  have "(\<exists>it'. fa_rules g r' = Some it' \<and> rr_url_name it' = p \<and> rr_name it' = s) \<longleftrightarrow> ?face (fa_rules g r') = Some (p, s)" for g :: forward_arbitrate and r' p s by auto
  then have "(\<exists>it'. fa_rules f' r' = Some it' \<and> rr_url_name it' = p \<and> rr_name it' = s) \<longleftrightarrow>
      (\<exists>it'. fa_rules f r' = Some it' \<and> rr_url_name it' = p \<and> rr_name it' = s)" for r' p s by (simp only: face)
  then show ?thesis unfolding routes_def by (simp only:)
qed

lemma resolve_routes:
  assumes "fa_inv f" and "resolve_rule f r = Some (ok, f1)"
  shows "routes f1 M = routes f M"
proof -
  obtain it where it: "fa_rules f r = Some it" using assms(2) by (auto simp: resolve_rule_def bind_eq_Some_conv)
  from resolve_ok [OF assms(1) it] consider "f1 = f" | a where "fa_rules f1 = (fa_rules f)(r \<mapsto> it\<lparr>rr_service := Some a\<rparr>)"
    using assms(2) by (auto split: if_splits)
  then show ?thesis using routes_service [OF it] by cases auto
qed

lemma forward_routes:
  assumes "fa_inv f" and "forward_to_service data url f = Some (ret, out, f')"
  shows "routes f' M = routes f M"
proof -
  have "f' = f \<or> (\<exists>r ok f1 m. resolve_rule f r = Some (ok, f1) \<and> (f' = f1 \<or> f' = f1\<lparr>fa_mgr := m\<rparr>))"
    using assms(2) by (auto simp: forward_to_service_def bind_eq_Some_conv split: option.splits sum.splits if_splits) metis+
  moreover have "routes (f1\<lparr>fa_mgr := m\<rparr>) M = routes f1 M" for f1 m by (simp add: routes_def)
  ultimately show ?thesis using resolve_routes [OF assms(1)] by metis
qed

text \<open>Where a request goes, by cases on the rule for its path and the server the rule names.\<close>

lemma forward_spec:
  assumes "fa_inv f"
  shows "\<exists>ret out f'. forward_to_service (Some msg) url f = Some (ret, out, f') \<and> fa_inv f' \<and> em_items (fa_mgr f') = em_items (fa_mgr f) \<and>
    members (fa_mgr f') = members (fa_mgr f) \<and>
    (case url_path url of
       None \<Rightarrow> ret = - EBADPARM \<and> out = []
     | Some path \<Rightarrow>
         if \<exists>r it a sv. fa_rules f r = Some it \<and> rr_url_name it = path \<and> em_items (fa_mgr f) a = Some sv \<and> si_name sv = rr_name it
         then ret = 0 \<and> (\<exists>r it a sv. fa_rules f r = Some it \<and> rr_url_name it = path \<and> em_items (fa_mgr f) a = Some sv \<and> si_name sv = rr_name it \<and>
           (if members (fa_mgr f) a = {} then out = []
            else \<exists>b ys. out = (identity_of (fa_mgr f) b, True) # send msg \<and> set ys = members (fa_mgr f) a \<and>
              list_nodes (em_lists (fa_mgr f)) (Owner a) = Some (map Member ys) \<and> least_loaded (em_points (fa_mgr f)) None ys b))
         else ret = - ENOTFOUND \<and> out = [])"
proof (cases "get_urlname_from_uri url")
  case (Inl e)
  then show ?thesis using assms by (simp add: forward_to_service_def url_path_def)
next
  case (Inr path)
  note inv = fa_invD(1,2) [OF assms]
  from inv(1) show ?thesis
  proof (cases rule: find_rule_cases [where name = path])
    case missing
    then have "\<not> (\<exists>r it. fa_rules f r = Some it \<and> rr_url_name it = path)" by force
    then show ?thesis using missing(1) Inr assms by (auto simp: forward_to_service_def url_path_def)
  next
    case (found r it)
    have unique: "r' = r" if "fa_rules f r' = Some it'" "rr_url_name it' = path" for r' it'
    proof -
      have "inj_on (url_of f) (dom (fa_rules f))" using inv(1) by (auto simp: rules_ok_def intro: names.indexed_inj)
      then show ?thesis using found(2,3) that by (auto simp: inj_on_def dom_def)
    qed
    show ?thesis
    proof (cases "\<exists>a sv. em_items (fa_mgr f) a = Some sv \<and> si_name sv = rr_name it")
      case False
      then have "\<not> (\<exists>r it a sv. fa_rules f r = Some it \<and> rr_url_name it = path \<and> em_items (fa_mgr f) a = Some sv \<and> si_name sv = rr_name it)"
        using unique found(2) by fastforce
      moreover have "resolve_rule f r = Some (False, f)" using resolve_ok [OF assms found(2)] False by auto
      ultimately show ?thesis using found(1) Inr assms by (simp add: forward_to_service_def url_path_def)
    next
      case True
      then obtain a sv f1 where f1: "resolve_rule f r = Some (True, f1)" "fa_inv f1" "fa_mgr f1 = fa_mgr f" "em_items (fa_mgr f) a = Some sv"
          "si_name sv = rr_name it" "fa_rules f1 = (fa_rules f)(r \<mapsto> it\<lparr>rr_service := Some a\<rparr>)"
        using resolve_ok [OF assms found(2)] by auto
      from serve_ok [OF inv(2) f1(4)] obtain node s1 where s1: "get_service_endpoint (fa_mgr f) (Some a) = Some (node, s1)"
          "case node of None \<Rightarrow> s1 = fa_mgr f \<and> (\<forall>b \<in> members (fa_mgr f) a. \<not> eligible (em_points (fa_mgr f)) None b)
           | Some b \<Rightarrow> \<exists>ys p q s2. set ys = members (fa_mgr f) a \<and> list_nodes (em_lists (fa_mgr f)) (Owner a) = Some (map Member ys) \<and>
               least_loaded (em_points (fa_mgr f)) None ys b \<and> em_points (fa_mgr f) b = Some p \<and> em_points s1 b = Some q \<and>
               se_identity q = se_identity p \<and> release s1 b = Some (2, s2) \<and> lb_ok s2 \<and>
               s2 = fa_mgr f\<lparr>em_points := counted (em_points (fa_mgr f)) (members (fa_mgr f) a) (si_veh_max_cnt sv) b\<rparr>" by blast
      show ?thesis
      proof (cases node)
        case None
        then have "members (fa_mgr f) a = {}" "s1 = fa_mgr f" using s1(2) lb_ok_eligible [OF inv(2)] by auto
        moreover have "f1\<lparr>fa_mgr := fa_mgr f\<rparr> = f1" using f1(3) by simp
        ultimately have "forward_to_service (Some msg) url f = Some (0, [], f1)"
          using Inr found(1) f1 s1(1) None by (simp add: forward_to_service_def backend_forward_def)
        then show ?thesis using Inr f1 found(2,3) \<open>members (fa_mgr f) a = {}\<close> by (auto simp: url_path_def)
      next
        case (Some b)
        let ?s2 = "fa_mgr f\<lparr>em_points := counted (em_points (fa_mgr f)) (members (fa_mgr f) a) (si_veh_max_cnt sv) b\<rparr>"
        obtain ys p q where b: "set ys = members (fa_mgr f) a" "list_nodes (em_lists (fa_mgr f)) (Owner a) = Some (map Member ys)"
            "least_loaded (em_points (fa_mgr f)) None ys b" "em_points (fa_mgr f) b = Some p" "em_points s1 b = Some q" "se_identity q = se_identity p"
            "release s1 b = Some (2, ?s2)" "lb_ok ?s2" using s1(2) Some by auto
        have "members (fa_mgr f) a \<noteq> {}" unfolding b(1) [symmetric] using b(3) by (auto simp: least_loaded_def)
        moreover have "forward_to_service (Some msg) url f = Some (0, (identity_of (fa_mgr f) b, True) # send msg, f1\<lparr>fa_mgr := ?s2\<rparr>)"
          using Inr found(1) f1 s1(1) Some b by (simp add: forward_to_service_def backend_forward_def)
        moreover have "fa_inv (f1\<lparr>fa_mgr := ?s2\<rparr>)" using f1(2,3) b(8) by (auto simp: fa_inv_def)
        moreover have "members ?s2 = members (fa_mgr f)" by (rule counted_members [OF lb_okD(1) [OF inv(2)]])
        ultimately show ?thesis using Inr f1(4,5) found(2,3) b(1-3) by (fastforce simp: url_path_def)
      qed
    qed
  qed
qed

section \<open>Loading the rules\<close>

lemma add_rule_new:
  assumes "rules_ok f" and "name \<notin> url_of f ` dom (fa_rules f)" and "find_rule f name = Some None"
  shows "\<exists>r f'. add_rule f name = Some (Some r, f') \<and> rules_ok f' \<and> r \<notin> dom (fa_rules f) \<and> fa_mgr f' = fa_mgr f \<and> fa_item_refs f' = fa_item_refs f \<and>
    fa_rules f' = (fa_rules f)(r \<mapsto> \<lparr>rr_url_name = name, rr_name = [], rr_service = None\<rparr>)"
proof -
  let ?r = "fa_brk f" let ?A = "dom (fa_rules f)" let ?f = "new_rule f name"
  have fresh: "?r \<notin> ?A" "0 < ?r" using assms(1) by (force simp: rules_ok_def)+
  have f: "fa_rules ?f = (fa_rules f)(?r \<mapsto> \<lparr>rr_url_name = name, rr_name = [], rr_service = None\<rparr>)" "fa_rule_tree ?f = fa_rule_tree f"
      "fa_rule_nodes ?f = (fa_rule_nodes f)(?r \<mapsto> zero_node)" "fa_lists ?f = (fa_lists f)(Member ?r \<mapsto> zero_listnode)" "fa_brk ?f = Suc ?r"
      "fa_mgr ?f = fa_mgr f" "fa_item_refs ?f = fa_item_refs f"
    by (simp_all add: new_rule_def Let_def)
  have url: "url_of ?f x = (if x = ?r then name else url_of f x)" for x by (simp add: url_of_def f(1))
  have old: "fa_rule_nodes ?f x = fa_rule_nodes f x" "url_of ?f x = url_of f x" if "x \<in> ?A" for x using that fresh(1) by (auto simp: f(3) url)
  have "indexed name_compare (url_of f) (fa_rule_nodes f) (fa_rule_tree f) ?A" using assms(1) by (simp add: rules_ok_def)
  then have idx: "indexed name_compare (url_of ?f) (fa_rule_nodes ?f) (fa_rule_tree f) ?A" using old by (rule indexed_cong)
  have "url_of ?f ` ?A = url_of f ` ?A" using old(2) by (rule image_cong [OF refl])
  then have new: "url_of ?f ?r \<notin> url_of ?f ` ?A" using assms(2) by (simp add: url)
  have cmp: "route_rule_compare ?f = (\<lambda>x y. name_compare (url_of ?f x) (url_of ?f y))" by (simp add: route_rule_compare_def fun_eq_iff)
  have "fa_rule_nodes ?f ?r \<noteq> None" by (simp add: f(3))
  from names.index_insert(2) [OF idx fresh(1) this new] obtain h rt where
    ins: "avl_insert (fa_rule_nodes ?f) (fa_rule_tree f) ?r (route_rule_compare ?f) = Some (h, rt, 0)"
      "indexed name_compare (url_of ?f) h rt (insert ?r ?A)" unfolding cmp by blast
  obtain xs where xs: "set xs = ?A" "ring (fa_lists f) (Owner 0) (map Member xs)" using assms(1) by (auto simp: rules_ok_def)
  have m: "Member ?r \<notin> insert (Owner 0) (set (map Member xs))" "fa_lists ?f (Member ?r) \<noteq> None" using xs(1) fresh(1) by (auto simp: f(4))
  have "fa_lists ?f x = fa_lists f x" if "x \<in> insert (Owner 0) (set (map Member xs))" for x using that m(1) by (auto simp: f(4))
  then have "ring (fa_lists ?f) (Owner 0) (map Member xs)" by (rule ring_cong [OF xs(2)])
  from ring_add [OF this m] obtain l where l: "listnode_add (fa_lists ?f) (Owner 0) (Member ?r) = Some l" "ring l (Owner 0) (map Member (xs @ [?r]))" by auto
  let ?g = "?f\<lparr>fa_rule_nodes := h, fa_rule_tree := rt, fa_lists := l\<rparr>"
  have "add_rule f name = Some (Some ?r, ?g)" using assms(3) ins(1) l(1) by (simp add: add_rule_def f(2) Let_def)
  moreover have "rules_ok ?g"
  proof -
    have "\<forall>r \<in> dom (fa_rules ?g). 0 < r \<and> r < fa_brk ?g" using assms(1) fresh(2) by (auto simp: rules_ok_def f less_Suc_eq)
    moreover have "dom (fa_rules ?g) = insert ?r ?A" by (simp add: f(1))
    moreover have "url_of ?g = url_of ?f" by (simp add: url_of_def fun_eq_iff)
    moreover have "\<exists>zs. set zs = insert ?r ?A \<and> ring l (Owner 0) (map Member zs)" using xs(1) l(2) by (intro exI [of _ "xs @ [?r]"]) simp
    ultimately show ?thesis using ins(2) unfolding rules_ok_def by (simp add: f(5))
  qed
  ultimately show ?thesis using fresh(1) by (auto simp: f)
qed

lemma routes_update:
  assumes "routes f M" and "\<forall>r' it'. fa_rules f r' = Some it' \<and> rr_url_name it' = rr_url_name it \<longrightarrow> r' = r"
    and "\<forall>it'. fa_rules f r = Some it' \<longrightarrow> rr_url_name it' = rr_url_name it" and "fa_rules f' = (fa_rules f)(r \<mapsto> it)"
  shows "routes f' (M(rr_url_name it \<mapsto> rr_name it))"
  unfolding routes_def
proof (intro allI)
  fix path svc
  show "(M(rr_url_name it \<mapsto> rr_name it)) path = Some svc \<longleftrightarrow> (\<exists>r it. fa_rules f' r = Some it \<and> rr_url_name it = path \<and> rr_name it = svc)"
  proof (cases "path = rr_url_name it")
    case True
    then show ?thesis using assms(2) by (auto simp: assms(4))
  next
    case False
    then have "(\<exists>r it. fa_rules f' r = Some it \<and> rr_url_name it = path \<and> rr_name it = svc) \<longleftrightarrow>
        (\<exists>r it. fa_rules f r = Some it \<and> rr_url_name it = path \<and> rr_name it = svc)" using assms(3) unfolding assms(4) by (metis fun_upd_apply option.inject)
    then show ?thesis using False assms(1) by (simp add: routes_def)
  qed
qed

text \<open>What the configuration says: a later entry for a path replaces the service of an earlier one.\<close>

definition add_route :: "(string \<Rightarrow> string option) \<Rightarrow> (string \<Rightarrow> string option) \<Rightarrow> nat \<Rightarrow> string \<Rightarrow> string option" where
  "add_route text_at M i =
     (case load_rule_url_name text_at i of
        None \<Rightarrow> M
      | Some u \<Rightarrow> M(u \<mapsto> (case load_service_name text_at i of Some svc \<Rightarrow> svc | None \<Rightarrow> (case M u of None \<Rightarrow> [] | Some svc \<Rightarrow> svc))))"

lemma rule_url_unique: "\<lbrakk>rules_ok f; fa_rules f r = Some it; fa_rules f r' = Some it'; rr_url_name it' = rr_url_name it\<rbrakk> \<Longrightarrow> r' = r"
proof -
  assume "rules_ok f" and r: "fa_rules f r = Some it" "fa_rules f r' = Some it'" "rr_url_name it' = rr_url_name it"
  then have "inj_on (url_of f) (dom (fa_rules f))" by (auto simp: rules_ok_def intro: names.indexed_inj)
  then show ?thesis using r by (auto simp: inj_on_def dom_def)
qed

text \<open>The rule for a path, found or made.\<close>

lemma obtain_rule:
  assumes "fa_inv f" and "routes f M"
  shows "\<exists>item r it f'. find_rule f name = Some item \<and> (if item = None then add_rule f name else Some (item, f)) = Some (Some r, f') \<and> fa_inv f' \<and>
    fa_mgr f' = fa_mgr f \<and> fa_rules f' r = Some it \<and> rr_url_name it = name \<and> rr_name it = (case M name of None \<Rightarrow> [] | Some svc \<Rightarrow> svc) \<and>
    routes f' (M(name \<mapsto> rr_name it))"
  using fa_invD(1) [OF assms(1)]
proof (cases rule: find_rule_cases [where name = name])
  case (found r it)
  then have "M name = Some (rr_name it)" using assms(2) by (auto simp: routes_def)
  moreover have "M(name \<mapsto> rr_name it) = M" using calculation by auto
  ultimately show ?thesis using found assms by auto
next
  case missing
  from add_rule_new [OF fa_invD(1) [OF assms(1)] missing(2,1)] obtain r f' where f': "add_rule f name = Some (Some r, f')" "rules_ok f'"
      "r \<notin> dom (fa_rules f)" "fa_mgr f' = fa_mgr f" "fa_item_refs f' = fa_item_refs f"
      "fa_rules f' = (fa_rules f)(r \<mapsto> \<lparr>rr_url_name = name, rr_name = [], rr_service = None\<rparr>)" by blast
  have none: "fa_rules f r' = Some it' \<Longrightarrow> rr_url_name it' \<noteq> name" for r' it' using missing(2) by force
  then have "M name = None" using assms(2) unfolding routes_def by (metis option.exhaust)
  moreover have "routes f' (M(name \<mapsto> []))"
    using routes_update [OF assms(2) _ _ f'(6)] none f'(3) by auto
  moreover have "fa_inv f'" using assms(1) f'(2-6) unfolding fa_inv_def by auto
  ultimately show ?thesis using missing(1) f'(1,4,6) by simp
qed

lemma rename_rule:
  assumes "fa_inv f" and "fa_rules f r = Some it" and "em_items (fa_mgr f) = Map.empty" and "routes f M"
  shows "fa_inv (f\<lparr>fa_rules := (fa_rules f)(r \<mapsto> it\<lparr>rr_name := svc\<rparr>)\<rparr>)"
    and "routes (f\<lparr>fa_rules := (fa_rules f)(r \<mapsto> it\<lparr>rr_name := svc\<rparr>)\<rparr>) (M(rr_url_name it \<mapsto> svc))"
proof -
  let ?f = "f\<lparr>fa_rules := (fa_rules f)(r \<mapsto> it\<lparr>rr_name := svc\<rparr>)\<rparr>"
  have none: "rr_service it' \<noteq> Some a" if "fa_rules f r' = Some it'" for r' it' a
    using fa_invD(4) [OF assms(1) that] assms(3) by auto
  show "fa_inv ?f"
  proof (rule fa_invI)
    show "rules_ok ?f" by (rule rules_ok_update [OF fa_invD(1) [OF assms(1)] assms(2)]) simp
    show "lb_ok (fa_mgr ?f)" "0 \<le> fa_item_refs ?f a" for a using fa_invD(2,3) [OF assms(1)] by simp_all
    show "\<exists>sv. em_items (fa_mgr ?f) a = Some sv \<and> si_name sv = rr_name it'" if "fa_rules ?f r' = Some it'" "rr_service it' = Some a" for r' it' a
      using that none [of r' it' a] none [OF assms(2), of a] by (cases "r' = r") auto
  qed
  let ?it = "it\<lparr>rr_name := svc\<rparr>"
  have url: "rr_url_name ?it = rr_url_name it" by simp
  have "\<forall>r' it'. fa_rules f r' = Some it' \<and> rr_url_name it' = rr_url_name ?it \<longrightarrow> r' = r"
    unfolding url using rule_url_unique [OF fa_invD(1) [OF assms(1)] assms(2)] by blast
  moreover have "\<forall>it'. fa_rules f r = Some it' \<longrightarrow> rr_url_name it' = rr_url_name ?it" using assms(2) by simp
  ultimately have "routes ?f (M(rr_url_name ?it \<mapsto> rr_name ?it))" by (rule routes_update [OF assms(4)]) simp
  then show "routes ?f (M(rr_url_name it \<mapsto> svc))" by simp
qed

lemma rule_loop_ok:
  assumes "fa_inv f" and "em_items (fa_mgr f) = Map.empty" and "routes f M"
  shows "\<exists>f'. rule_loop text_at is f = Some f' \<and> fa_inv f' \<and> fa_mgr f' = fa_mgr f \<and> routes f' (foldl (add_route text_at) M is)"
  using assms
proof (induction "is" arbitrary: f M)
  case (Cons i rest)
  show ?case
  proof (cases "load_rule_url_name text_at i")
    case None
    then show ?thesis using Cons by (simp add: add_route_def)
  next
    case url: (Some name)
    from obtain_rule [OF Cons.prems(1,3), of name] obtain item r it f1 where f1: "find_rule f name = Some item"
        "(if item = None then add_rule f name else Some (item, f)) = Some (Some r, f1)" "fa_inv f1" "fa_mgr f1 = fa_mgr f" "fa_rules f1 r = Some it"
        "rr_url_name it = name" "rr_name it = (case M name of None \<Rightarrow> [] | Some svc \<Rightarrow> svc)" "routes f1 (M(name \<mapsto> rr_name it))" by blast
    have empty: "em_items (fa_mgr f1) = Map.empty" using Cons.prems(2) f1(4) by simp
    show ?thesis
    proof (cases "load_service_name text_at i")
      case None
      then have "rule_loop text_at (i # rest) f = rule_loop text_at rest f1" using url f1(1,2) by simp
      moreover have "add_route text_at M i = M(name \<mapsto> rr_name it)" using url None f1(7) by (simp add: add_route_def)
      ultimately show ?thesis using Cons.IH [OF f1(3) empty f1(8)] by (simp only: foldl_Cons f1(4))
    next
      case (Some svc)
      let ?f = "f1\<lparr>fa_rules := (fa_rules f1)(r \<mapsto> it\<lparr>rr_name := svc\<rparr>)\<rparr>"
      note f2 = rename_rule [OF f1(3,5) empty f1(8), of svc]
      from lb_okD(1) [OF fa_invD(2) [OF f1(3)]] have "find_server_item (fa_mgr f1) svc = Some None"
        by (cases rule: find_server_cases [where name = svc]) (simp_all add: empty)
      then have "rule_loop text_at (i # rest) f = rule_loop text_at rest ?f" using url f1(1,2,5) Some by (simp add: get_service_item_def)
      moreover have "add_route text_at M i = M(name \<mapsto> rr_name it, rr_url_name it \<mapsto> svc)" using url Some f1(6) by (simp add: add_route_def)
      moreover have mgr: "em_items (fa_mgr ?f) = Map.empty" "fa_mgr ?f = fa_mgr f" using empty f1(4) by simp_all
      ultimately show ?thesis using Cons.IH [OF f2(1) mgr(1) f2(2)] by (simp only: foldl_Cons mgr(2))
    qed
  qed
qed simp

lemma arbitrate_ctor: "\<exists>f. forward_arbitrate_ctor = Some f \<and> fa_inv f \<and> em_items (fa_mgr f) = Map.empty \<and> routes f Map.empty"
proof -
  obtain s where s: "server_endpoint_mgr_ctor = Some s" "em_inv s" "em_items s = Map.empty" "em_points s = Map.empty" using ctor_inv by blast
  then have "lb_ok s" by (simp add: lb_ok_def)
  let ?f = "\<lparr>fa_rules = Map.empty, fa_rule_nodes = Map.empty, fa_lists = [Owner 0 \<mapsto> \<lparr>ln_next = Some (Owner 0), ln_prev = Some (Owner 0)\<rparr>],
    fa_rule_tree = None, fa_brk = 1, fa_mgr = s, fa_item_refs = (\<lambda>_. 0)\<rparr>"
  have "forward_arbitrate_ctor = Some ?f"
    unfolding forward_arbitrate_ctor_def s(1) by (simp add: listnode_init_def set_next_def set_prev_def)
  moreover have "rules_ok ?f" by (simp add: rules_ok_def ring_def)
  moreover have "routes ?f Map.empty" by (simp add: routes_def)
  ultimately show ?thesis using \<open>lb_ok s\<close> s(3) by (intro exI [of _ ?f]) (simp add: fa_inv_def)
qed

text \<open>
  C29: Loading the configuration. A new arbiter loads any configuration with at least one rule without a failure, and then
  holds exactly the table that the configuration describes, in which a later entry for a path replaces an
  earlier one. No rule has a server yet.
\<close>

theorem rules_loaded:
  assumes "0 < n"
  shows "\<exists>f f'. forward_arbitrate_ctor = Some f \<and> init_rule_list text_at (Some n) f = Some (0, f') \<and> fa_inv f' \<and>
    routes f' (foldl (add_route text_at) Map.empty [0..<n]) \<and> (\<forall>r it. fa_rules f' r = Some it \<longrightarrow> rr_service it = None)"
proof -
  obtain f where f: "forward_arbitrate_ctor = Some f" "fa_inv f" "em_items (fa_mgr f) = Map.empty" "routes f Map.empty" using arbitrate_ctor by blast
  from rule_loop_ok [OF f(2-4), of text_at "[0..<n]"] obtain f' where f': "rule_loop text_at [0..<n] f = Some f'" "fa_inv f'" "fa_mgr f' = fa_mgr f"
      "routes f' (foldl (add_route text_at) Map.empty [0..<n])" by blast
  have "rr_service it = None" if "fa_rules f' r = Some it" for r it
    using fa_invD(4) [OF f'(2) that] f(3) f'(3) by (cases "rr_service it") auto
  moreover have "init_rule_list text_at (Some n) f = Some (0, f')" using f'(1) assms by (simp add: init_rule_list_def)
  ultimately show ?thesis using f(1) f'(2,4) by blast
qed

theorem rules_loaded_witness:
  "\<exists>f f'. forward_arbitrate_ctor = Some f \<and> init_rule_list (\<lambda>_. Some ''x'') (Some 1) f = Some (0, f') \<and> fa_inv f' \<and> routes f' [''x'' \<mapsto> ''x'']"
proof -
  have "foldl (add_route (\<lambda>_. Some ''x'')) Map.empty [0..<1] = [''x'' \<mapsto> ''x'']"
    by (simp add: add_route_def load_rule_url_name_def load_service_name_def)
  then show ?thesis using rules_loaded [of 1 "\<lambda>_. Some ''x''"] by auto
qed

section \<open>Routing and registration\<close>

text \<open>
  Routing. In every state of the arbiter a request is answered: without a path it is refused, and so it is when the
  table has no entry for the path or no server has the name in the table. Otherwise the frames that go out are
  the identity of the first of the least loaded endpoints of that server and the frames of the message, unchanged.
  The table stays as it is.
\<close>

theorem lb_routing:
  assumes "fa_inv f" and "routes f M"
  shows "\<exists>ret out f'. forward_to_service (Some msg) url f = Some (ret, out, f') \<and> fa_inv f' \<and> routes f' M \<and>
    (case url_path url of
       None \<Rightarrow> ret = - EBADPARM \<and> out = []
     | Some path \<Rightarrow>
         (case M path of
            None \<Rightarrow> ret = - ENOTFOUND \<and> out = []
          | Some svc \<Rightarrow>
              if \<exists>a sv. em_items (fa_mgr f) a = Some sv \<and> si_name sv = svc
              then ret = 0 \<and> (\<exists>a sv. em_items (fa_mgr f) a = Some sv \<and> si_name sv = svc \<and>
                (if members (fa_mgr f) a = {} then out = []
                 else \<exists>b ys. out = (identity_of (fa_mgr f) b, True) # send msg \<and> set ys = members (fa_mgr f) a \<and>
                   list_nodes (em_lists (fa_mgr f)) (Owner a) = Some (map Member ys) \<and> least_loaded (em_points (fa_mgr f)) None ys b))
              else ret = - ENOTFOUND \<and> out = []))"
proof -
  from forward_spec [OF assms(1), of msg url] obtain ret out f' where f': "forward_to_service (Some msg) url f = Some (ret, out, f')" "fa_inv f'"
      "case url_path url of
         None \<Rightarrow> ret = - EBADPARM \<and> out = []
       | Some path \<Rightarrow>
           if \<exists>r it a sv. fa_rules f r = Some it \<and> rr_url_name it = path \<and> em_items (fa_mgr f) a = Some sv \<and> si_name sv = rr_name it
           then ret = 0 \<and> (\<exists>r it a sv. fa_rules f r = Some it \<and> rr_url_name it = path \<and> em_items (fa_mgr f) a = Some sv \<and> si_name sv = rr_name it \<and>
             (if members (fa_mgr f) a = {} then out = []
              else \<exists>b ys. out = (identity_of (fa_mgr f) b, True) # send msg \<and> set ys = members (fa_mgr f) a \<and>
                list_nodes (em_lists (fa_mgr f)) (Owner a) = Some (map Member ys) \<and> least_loaded (em_points (fa_mgr f)) None ys b))
           else ret = - ENOTFOUND \<and> out = []" by blast
  have routes: "routes f' M" using forward_routes [OF assms(1) f'(1)] assms(2) by simp
  show ?thesis
  proof (cases "url_path url")
    case None
    then show ?thesis using f' routes by simp
  next
    case (Some path)
    have M: "M path = Some svc \<longleftrightarrow> (\<exists>r it. fa_rules f r = Some it \<and> rr_url_name it = path \<and> rr_name it = svc)" for svc
      using assms(2) by (simp add: routes_def)
    show ?thesis
    proof (cases "M path")
      case None
      then have "(\<exists>r it a sv. fa_rules f r = Some it \<and> rr_url_name it = path \<and> em_items (fa_mgr f) a = Some sv \<and> si_name sv = rr_name it) = False"
        using M by auto
      then have "ret = - ENOTFOUND \<and> out = []" using f'(3) by (simp only: Some option.case if_False)
      then show ?thesis using f'(1,2) routes Some None by simp
    next
      case svc: (Some svc)
      have eq: "(\<exists>r it. fa_rules f r = Some it \<and> rr_url_name it = path \<and> P (rr_name it)) \<longleftrightarrow> P svc" for P
        using M svc by (metis option.inject)
      have "(\<exists>r it a sv. fa_rules f r = Some it \<and> rr_url_name it = path \<and> em_items (fa_mgr f) a = Some sv \<and> si_name sv = rr_name it \<and> Q a) \<longleftrightarrow>
          (\<exists>a sv. em_items (fa_mgr f) a = Some sv \<and> si_name sv = svc \<and> Q a)" for Q
        using eq [of "\<lambda>n. \<exists>a sv. em_items (fa_mgr f) a = Some sv \<and> si_name sv = n \<and> Q a"] by blast
      note eqs = this [of "\<lambda>_. True", unfolded simp_thms] this
      have "if \<exists>a sv. em_items (fa_mgr f) a = Some sv \<and> si_name sv = svc
          then ret = 0 \<and> (\<exists>a sv. em_items (fa_mgr f) a = Some sv \<and> si_name sv = svc \<and>
            (if members (fa_mgr f) a = {} then out = []
             else \<exists>b ys. out = (identity_of (fa_mgr f) b, True) # send msg \<and> set ys = members (fa_mgr f) a \<and>
               list_nodes (em_lists (fa_mgr f)) (Owner a) = Some (map Member ys) \<and> least_loaded (em_points (fa_mgr f)) None ys b))
          else ret = - ENOTFOUND \<and> out = []" using f'(3) unfolding Some option.case eqs .
      then show ?thesis using f'(1,2) routes svc Some by (intro exI [of _ ret] exI [of _ out] exI [of _ f']) simp
    qed
  qed
qed

theorem lb_routing_witness:
  "\<exists>f f'. forward_arbitrate_ctor = Some f \<and> fa_inv f' \<and> forward_to_service (Some zm_new) None f = Some (- EBADPARM, [], f')"
proof -
  obtain f where f: "forward_arbitrate_ctor = Some f" "fa_inv f" "routes f Map.empty" using arbitrate_ctor by blast
  have "url_path None = None" by (simp add: url_path_def get_urlname_from_uri_def uri_get_fullpath_def c_str_def)
  with lb_routing [OF f(2,3), of zm_new None] f(1) show ?thesis by auto
qed

text \<open>A registration of the service \<open>name\<close> that comes from the endpoint \<open>ident\<close>, and the reply to it.\<close>

definition registration :: "zeromq_msg \<Rightarrow> string \<Rightarrow> string \<Rightarrow> bool" where
  "registration msg ident name \<longleftrightarrow> get_part 0 msg = Some ident \<and>
     (\<exists>hdr t info. get_part 2 msg = Some hdr \<and> read_at hdr 0 4 = Some t \<and> le_nat t = 3 \<and> get_part 3 msg = Some info \<and> register_name info = Some name)"

definition registration_reply :: "zeromq_msg \<Rightarrow> zeromq_msg" where
  "registration_reply msg = set_part 3 (le_bytes 4 0) (set_part 2 (le_bytes 4 6) msg)"

lemma grows_inv:
  assumes "fa_inv f" and "lb_ok m" and "grows (fa_mgr f) m"
  shows "fa_inv (f\<lparr>fa_mgr := m\<rparr>)"
proof (rule fa_invI)
  show "\<exists>sv. em_items (fa_mgr (f\<lparr>fa_mgr := m\<rparr>)) a = Some sv \<and> si_name sv = rr_name it"
    if "fa_rules (f\<lparr>fa_mgr := m\<rparr>) r = Some it" "rr_service it = Some a" for r it a
  proof -
    have "fa_rules f r = Some it" using that(1) by simp
    from fa_invD(4) [OF assms(1) this that(2)] obtain sv where "em_items (fa_mgr f) a = Some sv" "si_name sv = rr_name it" by blast
    then show ?thesis using assms(3) by (force simp: grows_def)
  qed
qed (use fa_invD [OF assms(1)] assms(2) in simp_all)

lemma registration_ok:
  assumes "fa_inv f" and "config_ok cf" and "registration msg ident name"
  shows "if name = [] \<or> c_str ident = [] then service_request cf qs msg f = Some (0, registration_reply msg, send (registration_reply msg), f)
    else if (\<exists>a it. em_items (fa_mgr f) a = Some it \<and> si_name it = name) \<or> lb_configured cf name
    then \<exists>f' a it b. service_request cf qs msg f = Some (0, registration_reply msg, send (registration_reply msg), f') \<and> fa_inv f' \<and>
      (\<forall>M. routes f' M = routes f M) \<and> grows (fa_mgr f) (fa_mgr f') \<and> em_items (fa_mgr f') a = Some it \<and> si_name it = name \<and>
      b \<in> members (fa_mgr f') a \<and> identity_of (fa_mgr f') b = c_str ident
    else service_request cf qs msg f = None"
proof -
  obtain hdr t info where m: "get_part 0 msg = Some ident" "get_part 2 msg = Some hdr" "read_at hdr 0 4 = Some t" "le_nat t = 3"
      "get_part 3 msg = Some info" "register_name info = Some name" using assms(3) by (auto simp: registration_def)
  have req: "service_request cf qs msg f = do { (_, mgr) \<leftarrow> lb_add_server_endpoint cf (fa_mgr f) (Some name) (Some (c_str ident));
      Some (0, registration_reply msg, send (registration_reply msg), f\<lparr>fa_mgr := mgr\<rparr>) }"
    using m by (simp add: service_request_def registration_reply_def Let_def)
  show ?thesis
  proof (cases "name = [] \<or> c_str ident = []")
    case True
    then have "lb_add_server_endpoint cf (fa_mgr f) (Some name) (Some (c_str ident)) = Some (None, fa_mgr f)" by (simp add: lb_add_server_endpoint_def)
    then show ?thesis using True by (simp add: req)
  next
    case False
    let ?known = "(\<exists>a it. em_items (fa_mgr f) a = Some it \<and> si_name it = name) \<or> lb_configured cf name"
    have nonempty: "name \<noteq> []" "c_str ident \<noteq> []" using False by simp_all
    note add = lb_add_ok [OF fa_invD(2) [OF assms(1)] assms(2) nonempty]
    show ?thesis
    proof (cases ?known)
      case True
      with add obtain b m a it where b: "lb_add_server_endpoint cf (fa_mgr f) (Some name) (Some (c_str ident)) = Some (Some b, m)" "lb_ok m"
          "grows (fa_mgr f) m" "em_items m a = Some it" "si_name it = name" "b \<in> members m a" "identity_of m b = c_str ident" by (simp only: if_True) blast
      have "fa_inv (f\<lparr>fa_mgr := m\<rparr>)" by (rule grows_inv [OF assms(1) b(2,3)])
      moreover have "routes (f\<lparr>fa_mgr := m\<rparr>) M = routes f M" for M by (simp add: routes_def)
      moreover have "service_request cf qs msg f = Some (0, registration_reply msg, send (registration_reply msg), f\<lparr>fa_mgr := m\<rparr>)" by (simp add: req b(1))
      ultimately show ?thesis using False True b(3-7) by (simp only: if_False if_True) force
    next
      case unknown: False
      then have "lb_add_server_endpoint cf (fa_mgr f) (Some name) (Some (c_str ident)) = None" using add by (simp only: if_False)
      then show ?thesis using False unknown by (simp only: if_False req) simp
    qed
  qed
qed

text \<open>
  C30: Registration. A service that is known or configured and registers with a name and an identity gets an endpoint with
  that identity, and the reply says 0. An identity that starts with a NUL, or an empty name, gets the same
  reply although nothing is registered. The name of a service that is not configured fails an assertion.
\<close>

theorem lb_registration:
  assumes "fa_inv f" and "config_ok cf" and "registration msg ident name"
  shows "if name = [] \<or> c_str ident = [] then service_request cf qs msg f = Some (0, registration_reply msg, send (registration_reply msg), f)
    else if (\<exists>a it. em_items (fa_mgr f) a = Some it \<and> si_name it = name) \<or> lb_configured cf name
    then \<exists>f' a it b. service_request cf qs msg f = Some (0, registration_reply msg, send (registration_reply msg), f') \<and> fa_inv f' \<and>
      (\<forall>M. routes f' M = routes f M) \<and> grows (fa_mgr f) (fa_mgr f') \<and> em_items (fa_mgr f') a = Some it \<and> si_name it = name \<and>
      b \<in> members (fa_mgr f') a \<and> identity_of (fa_mgr f') b = c_str ident
    else service_request cf qs msg f = None"
  using assms by (rule registration_ok)

text \<open>Messages for the witnesses: the service \<^verbatim>\<open>fusion\<close>, from the endpoint \<^verbatim>\<open>e1\<close> and from one whose identity starts with NUL.\<close>

definition sample_registration :: "string \<Rightarrow> zeromq_msg" where
  "sample_registration ident =
     \<lparr>zm_body_index = 2, zm_parts = [ident, [], le_bytes 4 3, le_bytes 8 0 @ le_bytes 8 6 @ ''fusion'']\<rparr>"

lemma sample_registration_ok: "registration (sample_registration ident) ident ''fusion''"
proof -
  have "read_at (le_bytes 4 3) 0 4 = Some (le_bytes 4 3)" using read_at_append [of "[]" 0 "le_bytes 4 3" 4 "[]"] by simp
  moreover have "read_at (le_bytes 8 0 @ le_bytes 8 6 @ ''fusion'') 8 8 = Some (le_bytes 8 6)" by (rule read_at_append) simp_all
  then have "register_name (le_bytes 8 0 @ le_bytes 8 6 @ ''fusion'') = Some ''fusion''"
    by (simp add: register_name_def le_nat_bytes c_str_def)
  ultimately show ?thesis by (simp add: registration_def sample_registration_def get_part_def le_nat_bytes)
qed

lemma lb_sample_config_ok: "config_ok lb_sample_config" "lb_configured lb_sample_config ''fusion''"
  by (simp_all add: config_ok_def lb_configured_def lb_sample_config_def)

theorem lb_registration_witness:
  "\<exists>f f' a b. forward_arbitrate_ctor = Some f \<and>
     service_request lb_sample_config (sort_key qi_key) (sample_registration ''e1'') f =
       Some (0, registration_reply (sample_registration ''e1''), send (registration_reply (sample_registration ''e1'')), f') \<and>
     b \<in> members (fa_mgr f') a \<and> identity_of (fa_mgr f') b = ''e1''"
proof -
  obtain f where f: "forward_arbitrate_ctor = Some f" "fa_inv f" using arbitrate_ctor by blast
  have "c_str ''e1'' = ''e1''" by (simp add: c_str_def)
  with lb_registration [OF f(2) lb_sample_config_ok(1) sample_registration_ok, of "''e1''" "sort_key qi_key"] lb_sample_config_ok(2) f(1)
  show ?thesis by auto
qed

end
