(* ===== verification/Client_Mgr.thy ===== *)
theory Client_Mgr
  imports Name_Index
begin

text \<open>
  The load balancer's set of clients, \<^verbatim>\<open>mec/load-balance/src/client-mgr.cpp\<close>: objects of type \<^verbatim>\<open>client_item\<close> in an AVL tree
  by their identity. Address 0 is the local variable of \<^verbatim>\<open>avl_remove\<close>; \<open>None\<close> is an access to an invalid
  address. \<^verbatim>\<open>init\<close> binds the socket for distribution; its address and port are members that the
  handlers read.
\<close>

record client_item =
  ci_identity :: string

record client_mgr =
  cm_items :: "nat \<Rightarrow> client_item option"
  cm_nodes :: avl_heap
  cm_client_tree :: ptr
  cm_ipaddr :: string
  cm_port :: string
  cm_brk :: nat

section \<open>Operations\<close>

definition client_mgr_ctor :: client_mgr where
  "client_mgr_ctor = \<lparr>cm_items = Map.empty, cm_nodes = Map.empty, cm_client_tree = None, cm_ipaddr = [], cm_port = [], cm_brk = 1\<rparr>"

definition client_id :: "client_mgr \<Rightarrow> nat \<Rightarrow> string" where
  "client_id s a = (case cm_items s a of None \<Rightarrow> [] | Some it \<Rightarrow> ci_identity it)"

definition client_identity_compare :: "client_mgr \<Rightarrow> nat \<Rightarrow> nat \<Rightarrow> int" where
  "client_identity_compare s a b = name_compare (client_id s a) (client_id s b)"

definition find_client :: "client_mgr \<Rightarrow> string \<Rightarrow> ptr option" where
  "find_client s identity = avl_find (cm_nodes s) (cm_client_tree s) identity (\<lambda>k b. name_compare k (client_id s b))"

definition delete_client_item :: "client_mgr \<Rightarrow> nat \<Rightarrow> client_mgr" where
  "delete_client_item s a = s\<lparr>cm_items := (cm_items s)(a := None), cm_nodes := (cm_nodes s)(a := None)\<rparr>"

definition add_client :: "client_mgr \<Rightarrow> string \<Rightarrow> (int \<times> client_mgr) option" where
  "add_client s identity =
     do {
       item \<leftarrow> find_client s identity;
       if item \<noteq> None then Some (0, s)
       else do {
         let a = cm_brk s;
         let n = \<lparr>avl_balance = 0, avl_child_index = 0, avl_child0 = None, avl_child1 = None, avl_parent = None\<rparr>;
         let s = s\<lparr>cm_items := (cm_items s)(a \<mapsto> \<lparr>ci_identity = identity\<rparr>), cm_nodes := (cm_nodes s)(a \<mapsto> n), cm_brk := Suc a\<rparr>;
         (h, rt, r) \<leftarrow> avl_insert (cm_nodes s) (cm_client_tree s) a (client_identity_compare s);
         let s = s\<lparr>cm_nodes := h, cm_client_tree := rt\<rparr>;
         if r \<noteq> 0 then Some (- ELOGIC, delete_client_item s a) else Some (0, s)
       }
     }"

text \<open>What \<^verbatim>\<open>remove_client\<close> and \<^verbatim>\<open>remove_all_client\<close> do with the object they have found.\<close>

definition drop_client :: "client_mgr \<Rightarrow> nat \<Rightarrow> client_mgr option" where
  "drop_client s a =
     do {
       (h, rt) \<leftarrow> avl_remove (cm_nodes s) (cm_client_tree s) a 0;
       Some (delete_client_item (s\<lparr>cm_nodes := h(0 := None), cm_client_tree := rt\<rparr>) a)
     }"

definition remove_client :: "client_mgr \<Rightarrow> string \<Rightarrow> (int \<times> client_mgr) option" where
  "remove_client s identity =
     do {
       item \<leftarrow> find_client s identity;
       case item of None \<Rightarrow> Some (0, s) | Some a \<Rightarrow> do { s \<leftarrow> drop_client s a; Some (0, s) }
     }"

partial_function (option) remove_clients_loop :: "client_mgr \<Rightarrow> client_mgr option" where
  "remove_clients_loop s =
     do {
       node \<leftarrow> avl_first (cm_nodes s) (cm_client_tree s);
       case node of None \<Rightarrow> Some s | Some a \<Rightarrow> do { s \<leftarrow> drop_client s a; remove_clients_loop s }
     }"

definition remove_all_client :: "client_mgr \<Rightarrow> (int \<times> client_mgr) option" where
  "remove_all_client s = do { s \<leftarrow> remove_clients_loop s; Some (0, s\<lparr>cm_client_tree := None\<rparr>) }"

definition check_identity :: "client_mgr \<Rightarrow> string \<Rightarrow> int option" where
  "check_identity s identity = do { item \<leftarrow> find_client s identity; Some (if item = None then - ENOTFOUND else 0) }"

section \<open>The set of identities\<close>

definition cm_inv :: "client_mgr \<Rightarrow> bool" where
  "cm_inv s \<longleftrightarrow> 0 < cm_brk s \<and> (\<forall>a \<in> dom (cm_items s). 0 < a \<and> a < cm_brk s) \<and>
     indexed name_compare (client_id s) (cm_nodes s) (cm_client_tree s) (dom (cm_items s))"

definition clients :: "client_mgr \<Rightarrow> string set" where
  "clients s = client_id s ` dom (cm_items s)"

lemma client_id_item [simp]: "cm_items s a = Some it \<Longrightarrow> client_id s a = ci_identity it"
  by (simp add: client_id_def)

lemma ctor_clients [simp]: "cm_inv client_mgr_ctor" "clients client_mgr_ctor = {}"
  by (simp_all add: cm_inv_def client_mgr_ctor_def clients_def)

lemma find_client_cases:
  assumes "cm_inv s"
  obtains (found) a where "find_client s identity = Some (Some a)" "a \<in> dom (cm_items s)" "client_id s a = identity" "identity \<in> clients s"
  | (missing) "find_client s identity = Some None" "identity \<notin> clients s"
proof -
  have idx: "indexed name_compare (client_id s) (cm_nodes s) (cm_client_tree s) (dom (cm_items s))" using assms by (simp add: cm_inv_def)
  show ?thesis
  proof (cases "identity \<in> clients s")
    case True
    then obtain a where "a \<in> dom (cm_items s)" "client_id s a = identity" by (auto simp: clients_def)
    then show ?thesis using names.index_find(1) [OF idx, of a] found True by (simp add: find_client_def)
  next
    case False
    then show ?thesis using names.index_find(2) [OF idx] missing by (simp add: clients_def find_client_def)
  qed
qed

lemma add_client_ok:
  assumes "cm_inv s"
  shows "\<exists>s'. add_client s identity = Some (0, s') \<and> cm_inv s' \<and> clients s' = insert identity (clients s) \<and>
    cm_ipaddr s' = cm_ipaddr s \<and> cm_port s' = cm_port s"
  using assms
proof (cases rule: find_client_cases [where identity = identity])
  case (found a)
  then show ?thesis using assms by (auto simp: add_client_def)
next
  case missing
  let ?a = "cm_brk s"
  let ?n = "\<lparr>avl_balance = 0, avl_child_index = 0, avl_child0 = None, avl_child1 = None, avl_parent = None\<rparr>"
  let ?s = "s\<lparr>cm_items := (cm_items s)(?a \<mapsto> \<lparr>ci_identity = identity\<rparr>), cm_nodes := (cm_nodes s)(?a \<mapsto> ?n), cm_brk := Suc ?a\<rparr>"
  have fresh: "?a \<notin> dom (cm_items s)" using assms by (force simp: cm_inv_def)
  have id: "client_id ?s x = (if x = ?a then identity else client_id s x)" for x by (simp add: client_id_def)
  have idx0: "indexed name_compare (client_id s) (cm_nodes s) (cm_client_tree s) (dom (cm_items s))" using assms by (simp add: cm_inv_def)
  have old: "cm_nodes ?s x = cm_nodes s x" "client_id ?s x = client_id s x" if "x \<in> dom (cm_items s)" for x
    using that fresh by (auto simp: id)
  have idx: "indexed name_compare (client_id ?s) (cm_nodes ?s) (cm_client_tree s) (dom (cm_items s))" by (rule indexed_cong [OF idx0 old])
  have "client_id ?s ` dom (cm_items s) = clients s" unfolding clients_def using old(2) by (rule image_cong [OF refl])
  then have new: "client_id ?s ?a \<notin> client_id ?s ` dom (cm_items s)" using missing(2) by (simp add: id)
  have cmp: "client_identity_compare ?s = (\<lambda>x y. name_compare (client_id ?s x) (client_id ?s y))" by (simp add: client_identity_compare_def fun_eq_iff)
  have node: "cm_nodes ?s ?a \<noteq> None" by simp
  from names.index_insert(2) [OF idx fresh node new] obtain h rt where
    ins: "avl_insert (cm_nodes ?s) (cm_client_tree s) ?a (client_identity_compare ?s) = Some (h, rt, 0)"
      "indexed name_compare (client_id ?s) h rt (insert ?a (dom (cm_items s)))" unfolding cmp by blast
  let ?t = "?s\<lparr>cm_nodes := h, cm_client_tree := rt\<rparr>"
  have ids: "client_id ?t = client_id ?s" by (simp add: client_id_def fun_eq_iff)
  have "\<forall>a \<in> dom (cm_items ?t). 0 < a \<and> a < cm_brk ?t" using assms by (auto simp: cm_inv_def less_Suc_eq)
  then have "cm_inv ?t" using ins(2) unfolding cm_inv_def ids by simp
  moreover have "add_client s identity = Some (0, ?t)" using missing(1) ins(1) by (simp add: add_client_def Let_def)
  moreover have "clients ?t = insert identity (clients s)"
  proof -
    have "dom (cm_items ?t) = insert ?a (dom (cm_items s))" by simp
    then have "clients ?t = insert (client_id ?s ?a) (client_id ?s ` dom (cm_items s))" unfolding clients_def ids by (simp only: image_insert)
    then show ?thesis using \<open>client_id ?s ` dom (cm_items s) = clients s\<close> id [of ?a] by simp
  qed
  ultimately show ?thesis by auto
qed

lemma drop_client_ok:
  assumes "cm_inv s" and "a \<in> dom (cm_items s)"
  shows "\<exists>s'. drop_client s a = Some s' \<and> cm_inv s' \<and> dom (cm_items s') = dom (cm_items s) - {a} \<and> clients s' = clients s - {client_id s a} \<and>
    cm_ipaddr s' = cm_ipaddr s \<and> cm_port s' = cm_port s"
proof -
  let ?A = "dom (cm_items s)"
  have idx: "indexed name_compare (client_id s) (cm_nodes s) (cm_client_tree s) ?A" and zero: "0 \<notin> ?A" using assms(1) by (auto simp: cm_inv_def)
  from names.index_remove [OF idx assms(2) zero] obtain h rt where
    rm: "avl_remove (cm_nodes s) (cm_client_tree s) a 0 = Some (h, rt)" "indexed name_compare (client_id s) h rt (?A - {a})" by blast
  let ?t = "delete_client_item (s\<lparr>cm_nodes := h(0 := None), cm_client_tree := rt\<rparr>) a"
  have t: "cm_items ?t = (cm_items s)(a := None)" "cm_nodes ?t = (h(0 := None))(a := None)" "cm_client_tree ?t = rt" "cm_brk ?t = cm_brk s"
    by (simp_all add: delete_client_item_def)
  have keep: "cm_nodes ?t x = h x" "client_id ?t x = client_id s x" if "x \<in> ?A - {a}" for x
    using that zero by (auto simp: t client_id_def)
  have "indexed name_compare (client_id ?t) (cm_nodes ?t) rt (?A - {a})" by (rule indexed_cong [OF rm(2) keep])
  then have "cm_inv ?t" using assms(1) by (simp add: cm_inv_def t)
  moreover have "clients ?t = clients s - {client_id s a}"
  proof -
    have "clients ?t = client_id s ` (?A - {a})" unfolding clients_def t(1) using keep(2) by (simp add: image_def)
    also have "\<dots> = clients s - {client_id s a}"
      unfolding clients_def using inj_on_image_set_diff [OF names.indexed_inj [OF idx], of ?A "{a}"] assms(2) by auto
    finally show ?thesis .
  qed
  ultimately show ?thesis using rm(1) by (auto simp: drop_client_def delete_client_item_def)
qed

text \<open>\<^verbatim>\<open>avl_first\<close> on an index gives a node unless it is empty.\<close>

lemma indexed_first:
  assumes "indexed cmp key h rt A"
  shows "\<exists>r. avl_first h rt = Some r \<and> (case r of None \<Rightarrow> A = {} | Some a \<Rightarrow> a \<in> A)"
proof -
  obtain t where t: "rep_root h rt t" "addrs t = A" using assms by (auto simp: indexed_def)
  then obtain i where "rep h rt None i t" by (auto simp: rep_root_def)
  from avl_first_rep [OF this, of None] show ?thesis using t(2) by (auto simp: avl_first_def split: list.splits simp flip: set_keys)
qed

lemma remove_clients_loop_ok:
  assumes "cm_inv s" and "finite (dom (cm_items s))"
  shows "\<exists>s'. remove_clients_loop s = Some s' \<and> cm_inv s' \<and> cm_items s' = Map.empty \<and> cm_ipaddr s' = cm_ipaddr s \<and> cm_port s' = cm_port s"
  using assms
proof (induction "card (dom (cm_items s))" arbitrary: s rule: less_induct)
  case less
  from less.prems(1) have "indexed name_compare (client_id s) (cm_nodes s) (cm_client_tree s) (dom (cm_items s))" by (simp add: cm_inv_def)
  from indexed_first [OF this] obtain r where r: "avl_first (cm_nodes s) (cm_client_tree s) = Some r"
      "case r of None \<Rightarrow> dom (cm_items s) = {} | Some a \<Rightarrow> a \<in> dom (cm_items s)" by blast
  show ?case
  proof (cases r)
    case None
    then show ?thesis using r less.prems by (subst remove_clients_loop.simps) auto
  next
    case (Some a)
    then have a: "a \<in> dom (cm_items s)" using r(2) by simp
    from drop_client_ok [OF less.prems(1) a] obtain s1 where s1: "drop_client s a = Some s1" "cm_inv s1"
        "dom (cm_items s1) = dom (cm_items s) - {a}" "cm_ipaddr s1 = cm_ipaddr s" "cm_port s1 = cm_port s" by blast
    have "card (dom (cm_items s1)) < card (dom (cm_items s))" using a less.prems(2) unfolding s1(3) by (rule card_Diff1_less [rotated])
    from less.hyps [OF this s1(2)] less.prems(2) s1(3) obtain s2 where "remove_clients_loop s1 = Some s2" "cm_inv s2" "cm_items s2 = Map.empty"
        "cm_ipaddr s2 = cm_ipaddr s1" "cm_port s2 = cm_port s1" by auto
    then show ?thesis using r(1) Some s1 by (subst remove_clients_loop.simps) auto
  qed
qed

lemma cm_inv_finite: "cm_inv s \<Longrightarrow> finite (dom (cm_items s))"
  unfolding cm_inv_def by (rule finite_subset [of _ "{..< cm_brk s}"]) auto

text \<open>
  The clients are a set. Adding an identity, removing one, asking for one and removing all do what these operations
  do on a set of strings; no operation fails, and the loop that removes all ends.
\<close>

theorem client_set:
  assumes "cm_inv s"
  shows "(\<exists>s'. add_client s identity = Some (0, s') \<and> cm_inv s' \<and> clients s' = insert identity (clients s)) \<and>
    (\<exists>s'. remove_client s identity = Some (0, s') \<and> cm_inv s' \<and> clients s' = clients s - {identity}) \<and>
    check_identity s identity = Some (if identity \<in> clients s then 0 else - ENOTFOUND) \<and>
    (\<exists>s'. remove_all_client s = Some (0, s') \<and> cm_inv s' \<and> clients s' = {})"
proof (intro conjI)
  show "\<exists>s'. add_client s identity = Some (0, s') \<and> cm_inv s' \<and> clients s' = insert identity (clients s)"
    using add_client_ok [OF assms] by blast
  from assms show "\<exists>s'. remove_client s identity = Some (0, s') \<and> cm_inv s' \<and> clients s' = clients s - {identity}"
  proof (cases rule: find_client_cases [where identity = identity])
    case (found a)
    then show ?thesis using drop_client_ok [OF assms found(2)] by (auto simp: remove_client_def)
  next
    case missing
    then show ?thesis using assms by (auto simp: remove_client_def)
  qed
  from assms show "check_identity s identity = Some (if identity \<in> clients s then 0 else - ENOTFOUND)"
    by (cases rule: find_client_cases [where identity = identity]) (simp_all add: check_identity_def)
  from remove_clients_loop_ok [OF assms cm_inv_finite [OF assms]] obtain t where t: "remove_clients_loop s = Some t" "cm_inv t" "cm_items t = Map.empty" by blast
  have "cm_inv (t\<lparr>cm_client_tree := None\<rparr>)" "clients (t\<lparr>cm_client_tree := None\<rparr>) = {}" using t(2,3) by (simp_all add: cm_inv_def clients_def)
  then show "\<exists>s'. remove_all_client s = Some (0, s') \<and> cm_inv s' \<and> clients s' = {}" using t(1) by (simp add: remove_all_client_def)
qed

theorem client_set_witness:
  "(\<exists>s'. add_client client_mgr_ctor ''c1'' = Some (0, s') \<and> clients s' = {''c1''}) \<and>
   check_identity client_mgr_ctor ''c1'' = Some (- ENOTFOUND) \<and> (\<exists>s'. remove_all_client client_mgr_ctor = Some (0, s') \<and> clients s' = {})"
  using client_set [OF ctor_clients(1), of "''c1''"] by auto

end
