(* ===== verification/Lb_Forward.thy ===== *)
theory Lb_Forward
  imports Arbitrate_Ops Client_Mgr
begin

text \<open>
  The message handlers of the load balancer, \<^verbatim>\<open>mec/load-balance/src/forward.cpp\<close>, on the arbiter and the set of clients. Requests
  of clients get four query parameters and go to a service, messages of services are registrations,
  requests or replies to a client, and messages on the socket for distribution go to the client that their URI
  names, if it is known. The handlers get the time in milliseconds (\<open>now\<close>) and what the stack holds
  where they write a frame (\<open>stack\<close>). The three sockets, the callback and the arbiter are set up before
  the first message. \<open>None\<close> is a crash: a null pointer, a read behind a frame, a failed assertion or an
  uncaught exception.
\<close>

record forward_ctx =
  fw_arb :: forward_arbitrate
  fw_clients :: client_mgr

section \<open>Handlers\<close>

text \<open>\<^verbatim>\<open>std::stoull\<close> with base 10; \<open>None\<close> is the exception.\<close>

definition is_space :: "char \<Rightarrow> bool" where
  "is_space c \<longleftrightarrow> c = CHR '' '' \<or> 9 \<le> (of_char c :: nat) \<and> (of_char c :: nat) \<le> 13"

definition stoull :: "string \<Rightarrow> nat option" where
  "stoull str =
     (let t = dropWhile is_space str;
          neg = (t \<noteq> [] \<and> hd t = CHR ''-'');
          u = (if t \<noteq> [] \<and> (hd t = CHR ''-'' \<or> hd t = CHR ''+'') then tl t else t);
          ds = takeWhile is_digit u
      in if ds = [] \<or> digits_value ds \<ge> 2 ^ 64 then None
         else Some (if neg then (2 ^ 64 - digits_value ds) mod 2 ^ 64 else digits_value ds))"

text \<open>The end of both handlers: write the changed URI and the content into the first frame of the body.\<close>

definition replace_frame :: "string \<Rightarrow> frame_content \<Rightarrow> nat \<Rightarrow> zeromq_msg \<Rightarrow> zeromq_msg" where
  "replace_frame add_uri content stack msg = set_part (parts msg - body_parts msg) (make_frame add_uri content stack) msg"

definition transfer_to_server ::
  "qsort \<Rightarrow> nat \<Rightarrow> nat \<Rightarrow> zeromq_msg \<Rightarrow> forward_ctx \<Rightarrow> (int \<times> zeromq_msg \<times> zframe list \<times> forward_ctx) option" where
  "transfer_to_server qs now stack msg s =
     do {
       identity \<leftarrow> get_part 0 msg;
       if length identity = 0 then Some (- EBADPARM, msg, [], s)
       else do {
         (_, cm) \<leftarrow> add_client (fw_clients s) identity;
         let s = s\<lparr>fw_clients := cm\<rparr>;
         addr \<leftarrow> body 0 msg;
         if length addr < 1 then Some (- EBADPARM, msg, [], s)
         else do {
           add_uri \<leftarrow> frame_uri addr;
           addr_info \<leftarrow> uri_ctor qs add_uri;
           (_, addr_info) \<leftarrow> uri_add_query qs addr_info ''cli_identity'' identity;
           (_, addr_info) \<leftarrow> uri_add_query qs addr_info ''issued_ipaddr'' (cm_ipaddr cm);
           (_, addr_info) \<leftarrow> uri_add_query qs addr_info ''issued_port'' (cm_port cm);
           (_, addr_info) \<leftarrow> uri_add_query qs addr_info ''start_time'' (nat_to_string now);
           let new_uri = uri_tostring addr_info;
           if length new_uri = 0 then Some (- EBADPARM, msg, [], s)
           else do {
             content \<leftarrow> frame_content_at addr (4 + length add_uri);
             let msg = replace_frame new_uri content stack msg;
             (ret, out, arb) \<leftarrow> forward_to_service (Some msg) addr_info (fw_arb s);
             Some (ret, msg, out, s\<lparr>fw_arb := arb\<rparr>)
           }
         }
       }
     }"

definition distribute_msg ::
  "qsort \<Rightarrow> nat \<Rightarrow> nat \<Rightarrow> zeromq_msg \<Rightarrow> forward_ctx \<Rightarrow> (int \<times> zeromq_msg \<times> zframe list \<times> forward_ctx) option" where
  "distribute_msg qs now stack msg s =
     do {
       addr \<leftarrow> body 0 msg;
       if length addr < 1 then Some (- EBADPARM, msg, [], s)
       else do {
         add_uri \<leftarrow> frame_uri addr;
         addr_info \<leftarrow> uri_ctor qs add_uri;
         identity \<leftarrow> uri_query_value addr_info ''identity'';
         str_time \<leftarrow> uri_query_value addr_info ''start_time'';
         st_time \<leftarrow> (if length str_time > 0 then stoull (c_str str_time) else Some 0);
         known \<leftarrow> check_identity (fw_clients s) identity;
         if known \<noteq> 0 then Some (- EBADPARM, msg, [], s)
         else do {
           let times = nat ((int now - int st_time) mod 2 ^ 64);
           (_, addr_info) \<leftarrow> uri_add_query qs addr_info ''processing-time'' (nat_to_string times);
           let new_uri = uri_tostring addr_info;
           if length new_uri = 0 then Some (- EBADPARM, msg, [], s)
           else do {
             content \<leftarrow> frame_content_at addr (4 + length add_uri);
             let msg = set_part 0 identity (replace_frame new_uri content stack msg);
             Some (0, msg, send msg, s)
           }
         }
       }
     }"

text \<open>\<^verbatim>\<open>transfer_to_client\<close>: what goes to the socket of the services and to the socket of the clients.\<close>

definition transfer_to_client ::
  "sysconfig \<Rightarrow> qsort \<Rightarrow> zeromq_msg \<Rightarrow> forward_ctx \<Rightarrow> (int \<times> zeromq_msg \<times> zframe list \<times> zframe list \<times> forward_ctx) option" where
  "transfer_to_client cf qs msg s =
     (if parts msg < 2 then Some (- EBADPARM, msg, [], [], s)
      else do {
        node_id \<leftarrow> get_part 0 msg;
        delimiter \<leftarrow> get_part 1 msg;
        if length delimiter = 0 then do {
          (ret, msg, out, arb) \<leftarrow> service_request cf qs msg (fw_arb s);
          Some (ret, msg, out, [], s\<lparr>fw_arb := arb\<rparr>)
        }
        else Some (0, msg, [], snd (sendparts msg 1 (parts msg) True), s)
      })"

text \<open>\<^verbatim>\<open>handle_zmq_msg\<close>: a handler that does not return 0 leaves the message to the callback, which gets the frames of the body.\<close>

datatype zsock = Client_sock | Service_sock | Distribute_sock | Other_sock

record emitted =
  to_service :: "zframe list"
  to_client :: "zframe list"
  on_recv :: "string option"

definition body_data :: "zeromq_msg \<Rightarrow> string option" where
  "body_data msg = map_option concat (those (map (\<lambda>i. body (int i) msg) [0..<body_parts msg]))"

definition handle_zmq_msg ::
  "sysconfig \<Rightarrow> qsort \<Rightarrow> nat \<Rightarrow> nat \<Rightarrow> zsock \<Rightarrow> zeromq_msg \<Rightarrow> forward_ctx \<Rightarrow> (emitted \<times> forward_ctx) option" where
  "handle_zmq_msg cf qs now stack wa_sock msg s =
     do {
       (ret, msg, svc_out, cli_out, s) \<leftarrow>
         (case wa_sock of
            Client_sock \<Rightarrow> do { (ret, msg, out, s) \<leftarrow> transfer_to_server qs now stack msg s; Some (ret, msg, out, [], s) }
          | Service_sock \<Rightarrow> transfer_to_client cf qs msg s
          | Distribute_sock \<Rightarrow> do { (ret, msg, out, s) \<leftarrow> distribute_msg qs now stack msg s; Some (ret, msg, [], out, s) }
          | Other_sock \<Rightarrow> Some (- 1, msg, [], [], s));
       if ret \<noteq> 0 then do { d \<leftarrow> body_data msg; Some (\<lparr>to_service = svc_out, to_client = cli_out, on_recv = Some d\<rparr>, s) }
       else Some (\<lparr>to_service = svc_out, to_client = cli_out, on_recv = None\<rparr>, s)
     }"

section \<open>The URI keeps its path\<close>

lemma uri_add_query_keeps:
  "uri_add_query qs (Some u) k v = Some (r, d) \<Longrightarrow> \<exists>u'. d = Some u' \<and> u_loaded u' = u_loaded u \<and> u_fullpath u' = u_fullpath u \<and> u_scheme u' = u_scheme u"
  by (auto simp: uri_add_query_def add_query_def Let_def split: prod.splits if_splits sum.splits)

lemma uri_add_query_total: "\<exists>r u'. uri_add_query qs (Some u) k v = Some (r, Some u') \<and> u_loaded u' = u_loaded u \<and> u_fullpath u' = u_fullpath u \<and> u_scheme u' = u_scheme u"
proof -
  obtain r d where "uri_add_query qs (Some u) k v = Some (r, d)" by (simp add: uri_add_query_def) (metis surj_pair)
  with uri_add_query_keeps [OF this] show ?thesis by auto
qed

lemma url_path_cong: "\<lbrakk>u_loaded u' = u_loaded u; u_fullpath u' = u_fullpath u\<rbrakk> \<Longrightarrow> url_path (Some u') = url_path (Some u)"
  by (simp add: url_path_def get_urlname_from_uri_def uri_get_fullpath_def)

lemma tostring_not_Nil: "tostring u \<noteq> []"
  by (simp add: tostring_def print_head_def)

section \<open>The invariant\<close>

definition fw_inv :: "forward_ctx \<Rightarrow> bool" where
  "fw_inv s \<longleftrightarrow> fa_inv (fw_arb s) \<and> cm_inv (fw_clients s)"

lemma forward_inv: "\<lbrakk>fa_inv f; forward_to_service (Some msg) url f = Some (ret, out, f')\<rbrakk> \<Longrightarrow> fa_inv f'"
  using forward_spec [of f msg url] by auto

lemma service_request_inv:
  assumes "fa_inv f" and "config_ok cf" and "service_request cf qs msg f = Some (ret, msg', out, f')"
  shows "fa_inv f'" and "routes f' M = routes f M"
proof -
  from assms(3) consider "f' = f" | m url ret out where "forward_to_service (Some m) url f = Some (ret, out, f')"
    | ident name where "registration msg ident name"
    by (auto simp: service_request_def registration_def bind_eq_Some_conv Let_def split: if_splits)
  then have "fa_inv f' \<and> routes f' M = routes f M"
  proof cases
    case 2
    then show ?thesis using forward_inv [OF assms(1)] forward_routes [OF assms(1)] by blast
  next
    case 3
    then show ?thesis using registration_ok [OF assms(1,2), of msg ident name qs] assms(1,3) by (auto split: if_splits)
  qed (use assms(1) in simp)
  then show "fa_inv f'" "routes f' M = routes f M" by simp_all
qed

lemma transfer_to_server_inv:
  assumes "fw_inv s" and "transfer_to_server qs now stack msg s = Some (ret, msg', out, s')"
  shows "fw_inv s'" and "clients (fw_clients s') \<subseteq> clients (fw_clients s) \<union> set (take 1 (zm_parts msg))" and "routes (fw_arb s') M = routes (fw_arb s) M"
proof -
  have inv: "fa_inv (fw_arb s)" "cm_inv (fw_clients s)" using assms(1) by (simp_all add: fw_inv_def)
  obtain ident where ident: "get_part 0 msg = Some ident" using assms(2) by (auto simp: transfer_to_server_def bind_eq_Some_conv)
  have "fw_inv s' \<and> clients (fw_clients s') \<subseteq> clients (fw_clients s) \<union> set (take 1 (zm_parts msg)) \<and> routes (fw_arb s') M = routes (fw_arb s) M"
  proof (cases "ident = []")
    case True
    then show ?thesis using assms ident by (auto simp: transfer_to_server_def)
  next
    case False
    obtain cm where cm: "add_client (fw_clients s) ident = Some (0, cm)" "cm_inv cm" "clients cm = insert ident (clients (fw_clients s))"
      using add_client_ok [OF inv(2), of ident] by blast
    have "fw_clients s' = cm \<and> (fw_arb s' = fw_arb s \<or> (\<exists>m url ret out. forward_to_service (Some m) url (fw_arb s) = Some (ret, out, fw_arb s')))"
      using assms(2) ident False cm(1) by (auto simp: transfer_to_server_def bind_eq_Some_conv Let_def split: if_splits)
    moreover from this have "fa_inv (fw_arb s')" "routes (fw_arb s') M = routes (fw_arb s) M"
      using inv(1) forward_inv [OF inv(1)] forward_routes [OF inv(1)] by metis+
    moreover have "ident \<in> set (take 1 (zm_parts msg))" using ident by (cases "zm_parts msg") (auto simp: get_part_def split: if_splits)
    ultimately show ?thesis using cm(2,3) by (auto simp: fw_inv_def)
  qed
  then show "fw_inv s'" "clients (fw_clients s') \<subseteq> clients (fw_clients s) \<union> set (take 1 (zm_parts msg))" "routes (fw_arb s') M = routes (fw_arb s) M"
    by simp_all
qed

lemma distribute_msg_state: "distribute_msg qs now stack msg s = Some (ret, msg', out, s') \<Longrightarrow> s' = s"
  by (auto simp: distribute_msg_def bind_eq_Some_conv Let_def split: if_splits)

text \<open>What goes out for distribution has the identity of a known client as its first frame.\<close>

lemma distribute_msg_known:
  assumes "cm_inv (fw_clients s)" and "distribute_msg qs now stack msg s = Some (ret, msg', out, s')" and "out \<noteq> []"
  shows "fst (hd out) \<in> clients (fw_clients s)"
proof -
  from assms(2,3) obtain identity m where i: "check_identity (fw_clients s) identity = Some 0" "out = send (set_part 0 identity m)"
    by (auto simp: distribute_msg_def bind_eq_Some_conv Let_def split: if_splits)
  have "identity \<in> clients (fw_clients s)"
    using assms(1) i(1) by (cases rule: find_client_cases [where identity = identity]) (auto simp: check_identity_def)
  moreover have "fst (hd out) = identity"
    using assms(3) unfolding i(2) by (cases "zm_parts m") (auto simp: send_def set_part_def hd_map hd_conv_nth simp del: upt_Suc)
  ultimately show ?thesis by simp
qed

lemma handle_inv:
  assumes "fw_inv s" and "config_ok cf" and "handle_zmq_msg cf qs now stack sk msg s = Some (e, s')"
  shows "fw_inv s'" and "routes (fw_arb s') M = routes (fw_arb s) M"
    and "clients (fw_clients s') \<subseteq> clients (fw_clients s) \<union> (if sk = Client_sock then set (take 1 (zm_parts msg)) else {})"
proof -
  have "fw_inv s' \<and> routes (fw_arb s') M = routes (fw_arb s) M \<and>
      clients (fw_clients s') \<subseteq> clients (fw_clients s) \<union> (if sk = Client_sock then set (take 1 (zm_parts msg)) else {})"
  proof (cases sk)
    case Client_sock
    then obtain ret m out where "transfer_to_server qs now stack msg s = Some (ret, m, out, s')"
      using assms(3) by (auto simp: handle_zmq_msg_def bind_eq_Some_conv split: if_splits)
    from transfer_to_server_inv [OF assms(1) this] show ?thesis using Client_sock by simp
  next
    case Service_sock
    then obtain ret m out cout where t: "transfer_to_client cf qs msg s = Some (ret, m, out, cout, s')"
      using assms(3) by (auto simp: handle_zmq_msg_def bind_eq_Some_conv split: if_splits)
    have "s' = s \<or> (\<exists>ret m out arb. service_request cf qs msg (fw_arb s) = Some (ret, m, out, arb) \<and> s' = s\<lparr>fw_arb := arb\<rparr>)"
      using t unfolding transfer_to_client_def by (simp add: bind_eq_Some_conv split: if_splits) metis+
    then consider "s' = s" | ret m out arb where "service_request cf qs msg (fw_arb s) = Some (ret, m, out, arb)" "s' = s\<lparr>fw_arb := arb\<rparr>"
      by metis
    then show ?thesis
    proof cases
      case 2
      from service_request_inv [OF _ assms(2) 2(1)] assms(1) show ?thesis using Service_sock by (simp add: fw_inv_def 2(2))
    qed (use assms(1) Service_sock in simp)
  next
    case Distribute_sock
    then have "s' = s" using assms(3) by (auto simp: handle_zmq_msg_def bind_eq_Some_conv dest!: distribute_msg_state split: if_splits)
    then show ?thesis using assms(1) by simp
  next
    case Other_sock
    then have "s' = s" using assms(3) by (auto simp: handle_zmq_msg_def bind_eq_Some_conv split: if_splits)
    then show ?thesis using assms(1) by simp
  qed
  then show "fw_inv s'" "routes (fw_arb s') M = routes (fw_arb s) M"
    "clients (fw_clients s') \<subseteq> clients (fw_clients s) \<union> (if sk = Client_sock then set (take 1 (zm_parts msg)) else {})" by simp_all
qed

section \<open>The running service\<close>

text \<open>
  The states of the service and the identities of the clients it has heard from: it starts with the rules of the configuration, and
  a step is a message on one of the sockets. A message that crashes the service has no step.
\<close>

inductive lb_reachable :: "sysconfig \<Rightarrow> qsort \<Rightarrow> (string \<Rightarrow> string option) \<Rightarrow> nat \<Rightarrow> forward_ctx \<times> string set \<Rightarrow> bool" for cf qs text_at n where
  start: "\<lbrakk>forward_arbitrate_ctor = Some f; init_rule_list text_at (Some n) f = Some (0, f')\<rbrakk> \<Longrightarrow>
    lb_reachable cf qs text_at n (\<lparr>fw_arb = f', fw_clients = client_mgr_ctor\<lparr>cm_ipaddr := ip, cm_port := port\<rparr>\<rparr>, {})"
| step: "\<lbrakk>lb_reachable cf qs text_at n (s, seen); handle_zmq_msg cf qs now stack sk msg s = Some (e, s')\<rbrakk> \<Longrightarrow>
    lb_reachable cf qs text_at n (s', seen \<union> (if sk = Client_sock then set (take 1 (zm_parts msg)) else {}))"

definition config_routes :: "(string \<Rightarrow> string option) \<Rightarrow> nat \<Rightarrow> string \<Rightarrow> string option" where
  "config_routes text_at n = foldl (add_route text_at) Map.empty [0..<n]"

lemma started_ok:
  assumes "forward_arbitrate_ctor = Some f" and "init_rule_list text_at (Some n) f = Some (0, f')"
  shows "fw_inv \<lparr>fw_arb = f', fw_clients = client_mgr_ctor\<lparr>cm_ipaddr := ip, cm_port := port\<rparr>\<rparr>" and "routes f' (config_routes text_at n)"
    and "clients (client_mgr_ctor\<lparr>cm_ipaddr := ip, cm_port := port\<rparr>) = {}"
proof -
  have f: "fa_inv f" "em_items (fa_mgr f) = Map.empty" "routes f Map.empty" using arbitrate_ctor [unfolded assms(1)] by auto
  have "rule_loop text_at [0..<n] f = Some f'" using assms(2) by (auto simp: init_rule_list_def bind_eq_Some_conv split: if_splits)
  with rule_loop_ok [OF f, of text_at "[0..<n]"] have "fa_inv f'" "routes f' (config_routes text_at n)" by (auto simp: config_routes_def)
  then show "fw_inv \<lparr>fw_arb = f', fw_clients = client_mgr_ctor\<lparr>cm_ipaddr := ip, cm_port := port\<rparr>\<rparr>" "routes f' (config_routes text_at n)"
    "clients (client_mgr_ctor\<lparr>cm_ipaddr := ip, cm_port := port\<rparr>) = {}"
    by (simp_all add: fw_inv_def cm_inv_def client_mgr_ctor_def clients_def)
qed

lemma lb_reachable_ok:
  assumes "lb_reachable cf qs text_at n x" and "config_ok cf"
  shows "fw_inv (fst x) \<and> routes (fw_arb (fst x)) (config_routes text_at n) \<and> clients (fw_clients (fst x)) \<subseteq> snd x"
  using assms(1)
proof induction
  case (start f f' ip port)
  then show ?case using started_ok [OF start] by simp
next
  case (step s seen now stack sk msg e s')
  then have inv: "fw_inv s" by simp
  note h = handle_inv [OF inv assms(2) step.hyps(2)]
  show ?case using h(1,3) h(2) [of "config_routes text_at n"] step.IH by auto
qed

text \<open>
  C20: The service over all messages. In every state it can reach, whatever messages arrive on whichever socket, trees, lists,
  references and counts of rules, servers, endpoints and clients agree, the table is the one that was
  configured, and a message for distribution goes out only to a client that the service has heard from.
\<close>

theorem lb_service_safe:
  assumes "lb_reachable cf qs text_at n (s, seen)" and "config_ok cf"
  shows "fw_inv s \<and> routes (fw_arb s) (config_routes text_at n) \<and>
    (\<forall>now stack msg e s'. handle_zmq_msg cf qs now stack Distribute_sock msg s = Some (e, s') \<and> to_client e \<noteq> [] \<longrightarrow>
       fst (hd (to_client e)) \<in> seen \<and> to_service e = [] \<and> s' = s)"
proof -
  have ok: "fw_inv s" "routes (fw_arb s) (config_routes text_at n)" "clients (fw_clients s) \<subseteq> seen" using lb_reachable_ok [OF assms] by simp_all
  have "fst (hd (to_client e)) \<in> seen \<and> to_service e = [] \<and> s' = s"
    if h: "handle_zmq_msg cf qs now stack Distribute_sock msg s = Some (e, s')" and out: "to_client e \<noteq> []" for now stack msg e s'
  proof -
    obtain ret m where d: "distribute_msg qs now stack msg s = Some (ret, m, to_client e, s')" "to_service e = []"
      using h by (auto simp: handle_zmq_msg_def bind_eq_Some_conv split: if_splits)
    have "cm_inv (fw_clients s)" using ok(1) by (simp add: fw_inv_def)
    from distribute_msg_known [OF this d(1) out] show ?thesis using ok(3) distribute_msg_state [OF d(1)] d(2) by auto
  qed
  then show ?thesis using ok(1,2) by blast
qed

theorem lb_service_safe_witness:
  "\<exists>f f'. forward_arbitrate_ctor = Some f \<and> init_rule_list (\<lambda>_. Some ''x'') (Some 1) f = Some (0, f') \<and>
     fw_inv \<lparr>fw_arb = f', fw_clients = client_mgr_ctor\<lparr>cm_ipaddr := ''h'', cm_port := ''1''\<rparr>\<rparr> \<and> routes f' (config_routes (\<lambda>_. Some ''x'') 1)"
proof -
  obtain f where f: "forward_arbitrate_ctor = Some f" "fa_inv f" "em_items (fa_mgr f) = Map.empty" "routes f Map.empty" using arbitrate_ctor by blast
  from rule_loop_ok [OF f(2-4), of "\<lambda>_. Some ''x''" "[0..<1]"] obtain f' where f': "init_rule_list (\<lambda>_. Some ''x'') (Some 1) f = Some (0, f')"
    unfolding init_rule_list_def by auto
  from lb_service_safe [OF lb_reachable.start [OF f(1) f'] lb_sample_config_ok(1), where qs = "sort_key qi_key"] f(1) f'
  show ?thesis by auto
qed

section \<open>Requests of clients\<close>

text \<open>A request of the client \<open>ident\<close>: the URI of its frame loads as \<open>ui\<close>, and the content of the frame is \<open>c\<close>.\<close>

definition client_request :: "qsort \<Rightarrow> zeromq_msg \<Rightarrow> string \<Rightarrow> uri_impl \<Rightarrow> frame_content \<Rightarrow> bool" where
  "client_request qs msg ident ui c \<longleftrightarrow> get_part 0 msg = Some ident \<and> ident \<noteq> [] \<and>
     (\<exists>addr u. body 0 msg = Some addr \<and> addr \<noteq> [] \<and> frame_uri addr = Some u \<and> uri_ctor qs u = Some (Some ui) \<and>
        frame_content_at addr (4 + length u) = Some c)"

lemma transfer_ok:
  assumes "fw_inv s" and "client_request qs msg ident ui c"
  shows "\<exists>u2 cm. u_loaded u2 \<and> u_fullpath u2 = u_fullpath ui \<and> u_scheme u2 = u_scheme ui \<and> cm_inv cm \<and> clients cm = insert ident (clients (fw_clients s)) \<and>
    transfer_to_server qs now stack msg s =
      do { (ret, out, arb) \<leftarrow> forward_to_service (Some (replace_frame (tostring u2) c stack msg)) (Some u2) (fw_arb s);
           Some (ret, replace_frame (tostring u2) c stack msg, out, \<lparr>fw_arb = arb, fw_clients = cm\<rparr>) }"
proof -
  obtain addr u where m: "get_part 0 msg = Some ident" "ident \<noteq> []" "body 0 msg = Some addr" "addr \<noteq> []" "frame_uri addr = Some u"
      "uri_ctor qs u = Some (Some ui)" "frame_content_at addr (4 + length u) = Some c"
    using assms(2) by (auto simp: client_request_def)
  have loaded: "u_loaded ui" using m(6) by (auto simp: uri_ctor_def bind_eq_Some_conv split: if_splits)
  obtain cm where cm: "add_client (fw_clients s) ident = Some (0, cm)" "cm_inv cm" "clients cm = insert ident (clients (fw_clients s))"
    using add_client_ok assms(1) unfolding fw_inv_def by blast
  note add = uri_add_query_total [of qs]
  obtain r1 v1 where v1: "uri_add_query qs (Some ui) ''cli_identity'' ident = Some (r1, Some v1)" "u_loaded v1 = u_loaded ui"
      "u_fullpath v1 = u_fullpath ui" "u_scheme v1 = u_scheme ui" using add by metis
  obtain r2 v2 where v2: "uri_add_query qs (Some v1) ''issued_ipaddr'' (cm_ipaddr cm) = Some (r2, Some v2)" "u_loaded v2 = u_loaded v1"
      "u_fullpath v2 = u_fullpath v1" "u_scheme v2 = u_scheme v1" using add by metis
  obtain r3 v3 where v3: "uri_add_query qs (Some v2) ''issued_port'' (cm_port cm) = Some (r3, Some v3)" "u_loaded v3 = u_loaded v2"
      "u_fullpath v3 = u_fullpath v2" "u_scheme v3 = u_scheme v2" using add by metis
  obtain r4 v4 where v4: "uri_add_query qs (Some v3) ''start_time'' (nat_to_string now) = Some (r4, Some v4)" "u_loaded v4 = u_loaded v3"
      "u_fullpath v4 = u_fullpath v3" "u_scheme v4 = u_scheme v3" using add by metis
  have keep: "u_loaded v4" "u_fullpath v4 = u_fullpath ui" "u_scheme v4 = u_scheme ui" using loaded v1 v2 v3 v4 by simp_all
  have str: "uri_tostring (Some v4) = tostring v4" using keep(1) by (simp add: uri_tostring_def)
  have "transfer_to_server qs now stack msg s =
      do { (ret, out, arb) \<leftarrow> forward_to_service (Some (replace_frame (tostring v4) c stack msg)) (Some v4) (fw_arb s);
           Some (ret, replace_frame (tostring v4) c stack msg, out, \<lparr>fw_arb = arb, fw_clients = cm\<rparr>) }"
    using m cm(1) v1(1) v2(1) v3(1) v4(1) tostring_not_Nil [of v4] by (cases s) (simp add: transfer_to_server_def str Let_def Suc_le_eq)
  then show ?thesis using keep cm(2,3) by blast
qed

lemma forward_served:
  assumes "fa_inv f" and "url_path url = Some path" and "fa_rules f r = Some it" and "rr_url_name it = path"
    and "em_items (fa_mgr f) a = Some sv" and "si_name sv = rr_name it" and "members (fa_mgr f) a \<noteq> {}"
  shows "\<exists>b ys f'. forward_to_service (Some msg) url f = Some (0, (identity_of (fa_mgr f) b, True) # send msg, f') \<and> fa_inv f' \<and>
    set ys = members (fa_mgr f) a \<and> least_loaded (em_points (fa_mgr f)) None ys b"
proof -
  let ?P = "\<lambda>a out. if members (fa_mgr f) a = {} then out = []
    else \<exists>b ys. out = (identity_of (fa_mgr f) b, True) # send msg \<and> set ys = members (fa_mgr f) a \<and>
      list_nodes (em_lists (fa_mgr f)) (Owner a) = Some (map Member ys) \<and> least_loaded (em_points (fa_mgr f)) None ys b"
  from forward_spec [OF assms(1), of msg url] obtain ret out f' where f': "forward_to_service (Some msg) url f = Some (ret, out, f')" "fa_inv f'"
      "if \<exists>r it a sv. fa_rules f r = Some it \<and> rr_url_name it = path \<and> em_items (fa_mgr f) a = Some sv \<and> si_name sv = rr_name it
       then ret = 0 \<and> (\<exists>r it a sv. fa_rules f r = Some it \<and> rr_url_name it = path \<and> em_items (fa_mgr f) a = Some sv \<and> si_name sv = rr_name it \<and> ?P a out)
       else ret = - ENOTFOUND \<and> out = []" unfolding assms(2) option.case by blast
  have "(\<exists>r it a sv. fa_rules f r = Some it \<and> rr_url_name it = path \<and> em_items (fa_mgr f) a = Some sv \<and> si_name sv = rr_name it) = True"
    using assms(3-6) by blast
  then have "ret = 0 \<and> (\<exists>r it a sv. fa_rules f r = Some it \<and> rr_url_name it = path \<and> em_items (fa_mgr f) a = Some sv \<and> si_name sv = rr_name it \<and> ?P a out)"
    using f'(3) by (simp only: if_True)
  then obtain r' it' a' sv' where r': "ret = 0" "fa_rules f r' = Some it'" "rr_url_name it' = path" "em_items (fa_mgr f) a' = Some sv'"
      "si_name sv' = rr_name it'" "?P a' out" by blast
  have "r' = r" using rule_url_unique [OF fa_invD(1) [OF assms(1)] assms(3) r'(2)] assms(4) r'(3) by simp
  then have "si_name sv' = si_name sv" using assms(3,6) r'(2,5) by simp
  then have "a' = a" using server_unique [OF lb_okD(1) [OF fa_invD(2) [OF assms(1)]] r'(4) assms(5)] by simp
  then obtain b ys where "out = (identity_of (fa_mgr f) b, True) # send msg" "set ys = members (fa_mgr f) a" "least_loaded (em_points (fa_mgr f)) None ys b"
    using r'(6) assms(7) by (simp only: if_False) blast
  then show ?thesis using f'(1,2) r'(1) by blast
qed

lemma request_ok:
  assumes "fw_inv s" and "routes (fw_arb s) M" and "client_request qs msg ident ui c" and "url_path (Some ui) = Some path" and "M path = Some svc"
    and "em_items (fa_mgr (fw_arb s)) a = Some sv" and "si_name sv = svc" and "members (fa_mgr (fw_arb s)) a \<noteq> {}"
  shows "\<exists>u2 b ys s'. u_fullpath u2 = u_fullpath ui \<and> u_scheme u2 = u_scheme ui \<and>
    handle_zmq_msg cf qs now stack Client_sock msg s =
      Some (\<lparr>to_service = (identity_of (fa_mgr (fw_arb s)) b, True) # send (replace_frame (tostring u2) c stack msg), to_client = [], on_recv = None\<rparr>, s') \<and>
    set ys = members (fa_mgr (fw_arb s)) a \<and> least_loaded (em_points (fa_mgr (fw_arb s))) None ys b \<and> fw_inv s' \<and>
    clients (fw_clients s') = insert ident (clients (fw_clients s))"
proof -
  let ?f = "fw_arb s"
  from transfer_ok [OF assms(1,3), of now stack] obtain u2 cm where u2: "u_loaded u2" "u_fullpath u2 = u_fullpath ui" "u_scheme u2 = u_scheme ui" "cm_inv cm"
      "clients cm = insert ident (clients (fw_clients s))"
      "transfer_to_server qs now stack msg s =
        do { (ret, out, arb) \<leftarrow> forward_to_service (Some (replace_frame (tostring u2) c stack msg)) (Some u2) (fw_arb s);
             Some (ret, replace_frame (tostring u2) c stack msg, out, \<lparr>fw_arb = arb, fw_clients = cm\<rparr>) }" by blast
  let ?m = "replace_frame (tostring u2) c stack msg"
  have inv: "fa_inv ?f" using assms(1) by (simp add: fw_inv_def)
  have "u_loaded ui" using assms(3) by (auto simp: client_request_def uri_ctor_def bind_eq_Some_conv split: if_splits)
  then have path: "url_path (Some u2) = Some path" using url_path_cong [of u2 ui] u2(1,2) assms(4) by simp
  obtain r it where it: "fa_rules ?f r = Some it" "rr_url_name it = path" "rr_name it = svc" using assms(2,5) by (auto simp: routes_def)
  obtain b ys f' where f': "forward_to_service (Some ?m) (Some u2) ?f = Some (0, (identity_of (fa_mgr ?f) b, True) # send ?m, f')" "fa_inv f'"
      "set ys = members (fa_mgr ?f) a" "least_loaded (em_points (fa_mgr ?f)) None ys b"
    using forward_served [OF inv path it(1,2) assms(6) _ assms(8)] it(3) assms(7) by blast
  have "handle_zmq_msg cf qs now stack Client_sock msg s =
      Some (\<lparr>to_service = (identity_of (fa_mgr ?f) b, True) # send ?m, to_client = [], on_recv = None\<rparr>, \<lparr>fw_arb = f', fw_clients = cm\<rparr>)"
    by (simp add: handle_zmq_msg_def u2(6) f'(1))
  moreover have "fw_inv \<lparr>fw_arb = f', fw_clients = cm\<rparr>" using f'(2) u2(4) by (simp add: fw_inv_def)
  ultimately show ?thesis using u2(2,3,5) f'(3,4) by (metis forward_ctx.select_convs(2))
qed


lemma registered_ok:
  assumes "fw_inv s" and "config_ok cf" and "registration rmsg ep name" and "name \<noteq> []" and "c_str ep \<noteq> []" and "lb_configured cf name"
    and "get_part 1 rmsg = Some []"
  shows "\<exists>s1 a it b. handle_zmq_msg cf qs now stack Service_sock rmsg s =
      Some (\<lparr>to_service = send (registration_reply rmsg), to_client = [], on_recv = None\<rparr>, s1) \<and> fw_inv s1 \<and>
    (\<forall>M. routes (fw_arb s1) M = routes (fw_arb s) M) \<and> em_items (fa_mgr (fw_arb s1)) a = Some it \<and> si_name it = name \<and>
    b \<in> members (fa_mgr (fw_arb s1)) a \<and> identity_of (fa_mgr (fw_arb s1)) b = c_str ep"
proof -
  have inv: "fa_inv (fw_arb s)" "cm_inv (fw_clients s)" using assms(1) by (simp_all add: fw_inv_def)
  from registration_ok [OF inv(1) assms(2,3), of qs] assms(4-6) obtain f' a it b where
    f': "service_request cf qs rmsg (fw_arb s) = Some (0, registration_reply rmsg, send (registration_reply rmsg), f')" "fa_inv f'"
      "\<forall>M. routes f' M = routes (fw_arb s) M" "em_items (fa_mgr f') a = Some it" "si_name it = name" "b \<in> members (fa_mgr f') a"
      "identity_of (fa_mgr f') b = c_str ep" by (auto split: if_splits)
  have "\<not> parts rmsg < 2" using assms(7) by (auto simp: parts_def get_part_def split: if_splits)
  moreover obtain node where "get_part 0 rmsg = Some node" using assms(3) by (auto simp: registration_def)
  ultimately have "transfer_to_client cf qs rmsg s = Some (0, registration_reply rmsg, send (registration_reply rmsg), [], s\<lparr>fw_arb := f'\<rparr>)"
    using assms(7) f'(1) by (simp add: transfer_to_client_def)
  then have "handle_zmq_msg cf qs now stack Service_sock rmsg s =
      Some (\<lparr>to_service = send (registration_reply rmsg), to_client = [], on_recv = None\<rparr>, s\<lparr>fw_arb := f'\<rparr>)" by (simp add: handle_zmq_msg_def)
  moreover have "fw_inv (s\<lparr>fw_arb := f'\<rparr>)" using f'(2) inv(2) by (simp add: fw_inv_def)
  ultimately show ?thesis using f'(3-7) by (intro exI [of _ "s\<lparr>fw_arb := f'\<rparr>"] exI [of _ a] exI [of _ it] exI [of _ b]) simp
qed


section \<open>A concrete run\<close>

definition sample_rules :: "string \<Rightarrow> string option" where
  "sample_rules path = (if path = ''load-balance-service.route-rule.0.url-name'' then Some ''/a/b'' else Some ''fusion'')"

lemma sample_routes: "config_routes sample_rules 1 = [''/a/b'' \<mapsto> ''fusion'']"
  by (simp add: config_routes_def add_route_def load_rule_url_name_def load_service_name_def sample_rules_def nat_to_string.simps digit_char_def
      char_of_def bit_Suc_0_iff)

definition sample_content :: frame_content where
  "sample_content = \<lparr>fc_sequence_id = 1, fc_timeout = 0, fc_attr = 1, fc_body_frames = 0, fc_body_size = 0\<rparr>"

definition sample_request :: zeromq_msg where
  "sample_request = \<lparr>zm_body_index = 2, zm_parts = [''c1'', [], make_frame (tostring plain_uri) sample_content 0]\<rparr>"

lemma make_frame_not_Nil: "make_frame u c stack \<noteq> []"
proof -
  have "length (make_frame u c stack) = 24 + length u" by (simp add: make_frame_def)
  then show ?thesis by auto
qed

lemma plain_uri_text: "tostring plain_uri = ''http://bob:pw@h:80/a/b''"
  by (simp add: tostring_def print_head_def plain_uri_def sample_uri_def)

lemma sample_request_ok:
  "client_request (sort_key qi_key) sample_request ''c1'' plain_uri sample_content" "url_path (Some plain_uri) = Some ''/a/b''"
proof -
  let ?fr = "make_frame (tostring plain_uri) sample_content 0"
  have "load (sort_key qi_key) (Some (tostring plain_uri)) uri_init = Some plain_uri"
    by (rule uri_reload [OF plain_uri_wf qsort_ok_sort_key]) (simp_all add: plain_uri_def)
  then have "uri_ctor (sort_key qi_key) (tostring plain_uri) = Some (Some plain_uri)" by (simp add: uri_ctor_def plain_uri_def sample_uri_def)
  moreover have "frame_uri ?fr = Some (tostring plain_uri)" by (rule frame_uri_make) (simp_all add: plain_uri_text)
  moreover have "frame_content_at ?fr (4 + length (tostring plain_uri)) = Some (sample_content\<lparr>fc_timeout := 0\<rparr>)"
    by (rule frame_content_make) (simp add: content_small_def sample_content_def)
  moreover have "sample_content\<lparr>fc_timeout := 0\<rparr> = sample_content" by (simp add: sample_content_def)
  moreover have "?fr \<noteq> []" by (rule make_frame_not_Nil)
  ultimately show "client_request (sort_key qi_key) sample_request ''c1'' plain_uri sample_content"
    unfolding client_request_def sample_request_def by (simp add: get_part_def body_def Let_def)
  show "url_path (Some plain_uri) = Some ''/a/b''"
    by (simp add: url_path_def get_urlname_from_uri_def uri_get_fullpath_def plain_uri_def sample_uri_def c_str_def)
qed

lemma sample_started:
  obtains f f' s where "forward_arbitrate_ctor = Some f" "init_rule_list sample_rules (Some 1) f = Some (0, f')" "s = \<lparr>fw_arb = f', fw_clients = client_mgr_ctor\<rparr>"
    "fw_inv s" "routes (fw_arb s) [''/a/b'' \<mapsto> ''fusion'']"
proof -
  obtain f where f: "forward_arbitrate_ctor = Some f" "fa_inv f" "em_items (fa_mgr f) = Map.empty" "routes f Map.empty" using arbitrate_ctor by blast
  from rule_loop_ok [OF f(2-4), of sample_rules "[0..<1]"] obtain f' where f': "init_rule_list sample_rules (Some 1) f = Some (0, f')"
    unfolding init_rule_list_def by auto
  have "client_mgr_ctor\<lparr>cm_ipaddr := [], cm_port := []\<rparr> = client_mgr_ctor" by (simp add: client_mgr_ctor_def)
  with started_ok(1) [OF f(1) f', of "[]" "[]"] started_ok(2) [OF f(1) f', unfolded sample_routes] show ?thesis using that [OF f(1) f' refl] by simp
qed

lemma sample_registration_parts: "get_part 1 (sample_registration ident) = Some []"
  by (simp add: sample_registration_def get_part_def)



text \<open>
  C40: A client can stop the service: a request whose URI does not load makes the handler call \<^verbatim>\<open>add_query\<close> on an object without
  data, which follows a null pointer.
\<close>

theorem lb_bad_uri_crash:
  assumes "fw_inv s" and "get_part 0 msg = Some ident" and "ident \<noteq> []" and "body 0 msg = Some addr" and "addr \<noteq> []" and "frame_uri addr = Some u"
    and "uri_ctor qs u = Some None"
  shows "handle_zmq_msg cf qs now stack Client_sock msg s = None"
proof -
  obtain cm where "add_client (fw_clients s) ident = Some (0, cm)" using add_client_ok assms(1) unfolding fw_inv_def by blast
  then show ?thesis using assms(2-7) by (simp add: handle_zmq_msg_def transfer_to_server_def uri_add_query_def)
qed

theorem lb_bad_uri_crash_witness:
  "\<exists>s. fw_inv s \<and> handle_zmq_msg lb_sample_config (sort_key qi_key) 0 0 Client_sock
     \<lparr>zm_body_index = 2, zm_parts = [''c1'', [], make_frame ''x'' sample_content 0]\<rparr> s = None"
proof -
  obtain f f' s where s: "s = \<lparr>fw_arb = f', fw_clients = client_mgr_ctor\<rparr>" "fw_inv s" using sample_started by metis
  have "frame_uri (make_frame ''x'' sample_content 0) = Some ''x''" by (rule frame_uri_make) simp_all
  moreover have "uri_ctor (sort_key qi_key) ''x'' = Some None"
    by (simp add: uri_ctor_def load_def load_scheme_def c_str_def strstr.simps uri_init_def)
  ultimately show ?thesis
    using lb_bad_uri_crash [OF s(2), of "\<lparr>zm_body_index = 2, zm_parts = [''c1'', [], make_frame ''x'' sample_content 0]\<rparr>" "''c1''"
        "make_frame ''x'' sample_content 0" "''x''" "sort_key qi_key" lb_sample_config 0 0] s(2) make_frame_not_Nil [of "''x''" sample_content 0]
    by (intro exI [of _ s]) (simp add: get_part_def body_def Let_def)
qed

end
