(* ===== verification/Timer_Wheel.thy ===== *)
theory Timer_Wheel
  imports List_Node "HOL-Library.Signed_Division"
begin

unbundle bit_operations_syntax

text \<open>
  The timers of \<^verbatim>\<open>mec/zsfd/utils/timer.cpp\<close>. A manager keeps its timers in a wheel of 512 lists: the first
  256 hold the timers of the next 256 ticks, one list for each tick; four groups of 64 lists hold
  the later ones, a list for each span of $2^8$, $2^{14}$, $2^{20}$ and $2^{26}$ ticks. When the wheel has turned, the
  timers of the next span move to finer lists. The lists stand at the addresses \<open>Owner i\<close> of the list heap, and the
  node of a timer at \<open>Member t\<close>, where \<open>t\<close> is the address of the timer.

  The methods \<^verbatim>\<open>on_timer\<close> belong to the users of the timers. A call of one is the
  sequence of operations on timers it performs, which may depend on the calls before it: the argument
  \<open>on_timer\<close> maps the calls so far, the current one at the end, to that sequence. Locks are left out.
\<close>

section \<open>Data\<close>

record timer_impl =
  interval :: u64
  expire :: u64
  tmr :: "nat option"

record timer_list =
  index :: u32
  timer_list :: nat

text \<open>
  \<open>timerfd\<close> is what the descriptor is set to: seconds and nanoseconds of the period, or \<open>None\<close> when it is stopped.
  The members \<open>list_heap\<close> and \<open>timer_heap\<close> are the memory: the nodes of lists and the timers.
\<close>

record timermgr_impl =
  timerfd :: "(int \<times> int) option"
  active_timer_count :: u32
  jiffies :: u64
  timer_jiffies :: u64
  prev :: int
  delta :: int
  min_interval :: int
  tl :: "timer_list list"
  list_heap :: "list_addr list_heap"
  timer_heap :: "nat \<Rightarrow> timer_impl option"

section \<open>The manager\<close>

text \<open>
  \<^verbatim>\<open>timer_init\<close> initialises 512 nodes, whose memory holds anything before: \<open>garbage\<close>.
\<close>

fun init_lists :: "nat list \<Rightarrow> list_addr list_heap \<Rightarrow> list_addr list_heap option" where
  "init_lists [] h = Some h"
| "init_lists (i # is) h = do { h \<leftarrow> listnode_init h (Owner i); init_lists is h }"

definition timer_init :: "(nat \<Rightarrow> list_addr listnode_t) \<Rightarrow> timermgr_impl \<Rightarrow> timermgr_impl option" where
  "timer_init garbage m =
     do {
       let h = (\<lambda>a. case a of Owner i \<Rightarrow> (if i < 512 then Some (garbage i) else None) | Member t \<Rightarrow> None);
       h \<leftarrow> init_lists [0..<512] h;
       Some (m\<lparr>tl := [\<lparr>index = 0, timer_list = 0\<rparr>, \<lparr>index = 0, timer_list = 256\<rparr>, \<lparr>index = 0, timer_list = 256 + 64\<rparr>,
         \<lparr>index = 0, timer_list = 256 + 64 + 64\<rparr>, \<lparr>index = 0, timer_list = 256 + 64 + 64 + 64\<rparr>], list_heap := h\<rparr>)
     }"

definition create_timermgr :: "(nat \<Rightarrow> list_addr listnode_t) \<Rightarrow> int \<Rightarrow> timermgr_impl option" where
  "create_timermgr garbage itvl =
     timer_init garbage \<lparr>timerfd = None, active_timer_count = 0, jiffies = 0, timer_jiffies = 0, prev = 0, delta = 0,
       min_interval = itvl, tl = [], list_heap = (\<lambda>_. None), timer_heap = (\<lambda>_. None)\<rparr>"

definition start_global_timer :: "timermgr_impl \<Rightarrow> timermgr_impl" where
  "start_global_timer m = m\<lparr>timerfd := Some (min_interval m sdiv 1000, min_interval m smod 1000 * 1000000)\<rparr>"

definition check_start_global_timer :: "timermgr_impl \<Rightarrow> timermgr_impl" where
  "check_start_global_timer m =
     (let tmrcnt = active_timer_count m;
          m = m\<lparr>active_timer_count := tmrcnt + 1\<rparr>
      in if tmrcnt = 0 then start_global_timer m else m)"

definition stop_global_timer :: "timermgr_impl \<Rightarrow> timermgr_impl" where
  "stop_global_timer m = m\<lparr>timerfd := None\<rparr>"

definition check_stop_global_timer :: "timermgr_impl \<Rightarrow> timermgr_impl" where
  "check_stop_global_timer m =
     (let m = m\<lparr>active_timer_count := active_timer_count m - 1\<rparr>
      in if active_timer_count m = 0 then stop_global_timer m else m)"

text \<open>The list for a time of expiry; \<^verbatim>\<open>(int)t < 0\<close> is bit 31 of \<open>t\<close>.\<close>

definition get_timer_list :: "timermgr_impl \<Rightarrow> timer_impl \<Rightarrow> nat" where
  "get_timer_list m ti =
     (let t = expire ti - timer_jiffies m in
      if t < 256 then timer_list (tl m ! 0) + unat (expire ti AND 255)
      else if t < 2 ^ (6 + 8) then timer_list (tl m ! 1) + unat (drop_bit 8 (expire ti) AND 63)
      else if t < 2 ^ (12 + 8) then timer_list (tl m ! 2) + unat (drop_bit (8 + 6) (expire ti) AND 63)
      else if t < 2 ^ (18 + 8) then timer_list (tl m ! 3) + unat (drop_bit (8 + 12) (expire ti) AND 63)
      else if bit t 31 then timer_list (tl m ! 0) + unat (index (tl m ! 0))
      else timer_list (tl m ! 4) + unat (drop_bit (8 + 3 * 6) (expire ti) AND 63))"

section \<open>A timer\<close>

text \<open>The time in ticks, rounded up; a division by zero ends the program.\<close>

definition ticks :: "timermgr_impl \<Rightarrow> u32 \<Rightarrow> u64 option" where
  "ticks m timelen =
     (if min_interval m = 0 then None
      else Some (word_of_int ((uint timelen + min_interval m - 1) sdiv min_interval m)))"

text \<open>\<open>p\<close> is the address that \<^verbatim>\<open>new\<close> returns; its memory is not in use.\<close>

definition create_timer :: "timermgr_impl \<Rightarrow> nat \<Rightarrow> nat option \<Rightarrow> u32 \<Rightarrow> timermgr_impl option" where
  "create_timer m p t timelen =
     do {
       itvl \<leftarrow> ticks m timelen;
       let exp = jiffies m + itvl;
       h \<leftarrow> listnode_init ((list_heap m)(Member p \<mapsto> \<lparr>ln_next = None, ln_prev = None\<rparr>)) (Member p);
       Some (m\<lparr>list_heap := h, timer_heap := (timer_heap m)(p \<mapsto> \<lparr>interval = itvl, expire = exp, tmr = t\<rparr>)\<rparr>)
     }"

definition timer_start :: "timermgr_impl \<Rightarrow> nat \<Rightarrow> (timermgr_impl \<times> bool) option" where
  "timer_start m p =
     do {
       ti \<leftarrow> timer_heap m p;
       if interval ti = 0 then Some (m, False)
       else do {
         single \<leftarrow> listnode_issingle (list_heap m) (Member p);
         if \<not> single then Some (m, False)
         else do {
           let ti = ti\<lparr>expire := jiffies m + interval ti\<rparr>;
           h \<leftarrow> listnode_add (list_heap m) (Owner (get_timer_list m ti)) (Member p);
           let m = m\<lparr>list_heap := h, timer_heap := (timer_heap m)(p \<mapsto> ti)\<rparr>;
           Some (check_start_global_timer m, True)
         }
       }
     }"

definition timer_stop :: "timermgr_impl \<Rightarrow> nat \<Rightarrow> bool \<Rightarrow> timermgr_impl option" where
  "timer_stop m p longstop =
     do {
       single \<leftarrow> listnode_issingle (list_heap m) (Member p);
       if single then Some m
       else do {
         h \<leftarrow> listnode_del (list_heap m) (Member p);
         let m = m\<lparr>list_heap := h\<rparr>;
         Some (if longstop then check_stop_global_timer m else m)
       }
     }"

definition timer_restart :: "timermgr_impl \<Rightarrow> nat \<Rightarrow> timermgr_impl option" where
  "timer_restart m p = do { m \<leftarrow> timer_stop m p False; r \<leftarrow> timer_start m p; Some (fst r) }"

definition timer_setinterval :: "timermgr_impl \<Rightarrow> nat \<Rightarrow> u32 \<Rightarrow> timermgr_impl option" where
  "timer_setinterval m p intv =
     do {
       m \<leftarrow> timer_stop m p False;
       ti \<leftarrow> timer_heap m p;
       itvl \<leftarrow> ticks m intv;
       Some (m\<lparr>timer_heap := (timer_heap m)(p \<mapsto> ti\<lparr>interval := itvl\<rparr>)\<rparr>)
     }"

definition timer_delete :: "timermgr_impl \<Rightarrow> nat \<Rightarrow> timermgr_impl option" where
  "timer_delete m p =
     do {
       m \<leftarrow> timer_stop m p False;
       Some (m\<lparr>list_heap := (list_heap m)(Member p := None), timer_heap := (timer_heap m)(p := None)\<rparr>)
     }"

text \<open>The operations that a user of timers performs, in the program or in \<^verbatim>\<open>on_timer\<close>.\<close>

datatype timer_op = Create nat u32 | Start nat | Stop nat | Restart nat | Setinterval nat u32 | Delete nat

fun timer_run :: "timermgr_impl \<Rightarrow> timer_op \<Rightarrow> timermgr_impl option" where
  "timer_run m (Create p intv) = create_timer m p (Some p) intv"
| "timer_run m (Start p) = map_option fst (timer_start m p)"
| "timer_run m (Stop p) = timer_stop m p False"
| "timer_run m (Restart p) = timer_restart m p"
| "timer_run m (Setinterval p intv) = timer_setinterval m p intv"
| "timer_run m (Delete p) = timer_delete m p"

fun timer_runs :: "timermgr_impl \<Rightarrow> timer_op list \<Rightarrow> timermgr_impl option" where
  "timer_runs m [] = Some m"
| "timer_runs m (op # ops) = do { m \<leftarrow> timer_run m op; timer_runs m ops }"

section \<open>Ticks\<close>

partial_function (option) move_loop :: "timermgr_impl \<Rightarrow> list_addr \<Rightarrow> list_addr option \<Rightarrow> timermgr_impl option" where
  "move_loop m head cur =
     (if cur = Some head then Some m
      else do {
        tmp \<leftarrow> list_entry cur;
        n \<leftarrow> ln_at (list_heap m) cur;
        let next = ln_next n;
        h \<leftarrow> listnode_del (list_heap m) (the cur);
        ti \<leftarrow> timer_heap m tmp;
        h \<leftarrow> listnode_add h (Owner (get_timer_list m ti)) (Member tmp);
        move_loop (m\<lparr>list_heap := h\<rparr>) head next
      })"

definition move_timers :: "timermgr_impl \<Rightarrow> nat \<Rightarrow> timermgr_impl option" where
  "move_timers m i =
     do {
       let tv = tl m ! i;
       let head = Owner (timer_list tv + unat (index tv));
       n \<leftarrow> list_heap m head;
       m \<leftarrow> move_loop m head (ln_next n);
       Some (m\<lparr>tl := (tl m)[i := tv\<lparr>index := (index tv + 1) AND 63\<rparr>]\<rparr>)
     }"

text \<open>The loop that moves timers to finer lists, from the list group \<open>i\<close> on; there are five groups.\<close>

function cascade :: "timermgr_impl \<Rightarrow> nat \<Rightarrow> timermgr_impl option" where
  "cascade m i =
     do {
       m \<leftarrow> move_timers m i;
       if index (tl m ! i) = 1 \<and> Suc i < 5 then cascade m (Suc i) else Some m
     }"
  by pat_completeness auto
termination
  by (relation "measure (\<lambda>(m, i). 5 - i)") auto

text \<open>
  \<^verbatim>\<open>run_timer\<close> calls the timers of a list until it is empty; the second component of the result are the
  calls so far.
\<close>

partial_function (option) run_timer ::
  "(nat list \<Rightarrow> timer_op list) \<Rightarrow> nat \<Rightarrow> timermgr_impl \<Rightarrow> nat list \<Rightarrow> (timermgr_impl \<times> nat list) option" where
  "run_timer on_timer tmrlist m calls =
     do {
       e \<leftarrow> listnode_isempty (list_heap m) (Owner tmrlist);
       if e then Some (m, calls)
       else do {
         n \<leftarrow> list_heap m (Owner tmrlist);
         nxt \<leftarrow> ln_next n;
         p \<leftarrow> list_entry (Some nxt);
         h \<leftarrow> listnode_del (list_heap m) nxt;
         ti \<leftarrow> timer_heap m p;
         let m = m\<lparr>list_heap := h\<rparr>;
         case tmr ti of
           None \<Rightarrow> run_timer on_timer tmrlist m calls
         | Some t \<Rightarrow>
             do {
               m \<leftarrow> timer_runs m (on_timer (calls @ [t]));
               run_timer on_timer tmrlist m (calls @ [t])
             }
       }
     }"

partial_function (option) run_timer_list ::
  "(nat list \<Rightarrow> timer_op list) \<Rightarrow> timermgr_impl \<Rightarrow> nat list \<Rightarrow> (timermgr_impl \<times> nat list) option" where
  "run_timer_list on_timer m calls =
     (if jiffies m < timer_jiffies m then Some (m, calls)
      else do {
        m \<leftarrow> (if index (tl m ! 0) = 0 then cascade m 1 else Some m);
        (m, calls) \<leftarrow> run_timer on_timer (timer_list (tl m ! 0) + unat (index (tl m ! 0))) m calls;
        let t1 = tl m ! 0;
        let m = m\<lparr>tl := (tl m)[0 := t1\<lparr>index := (index t1 + 1) AND 255\<rparr>], timer_jiffies := timer_jiffies m + 1\<rparr>;
        run_timer_list on_timer m calls
      })"

definition steprun :: "(nat list \<Rightarrow> timer_op list) \<Rightarrow> timermgr_impl \<Rightarrow> nat list \<Rightarrow> (timermgr_impl \<times> nat list) option" where
  "steprun on_timer m calls = run_timer_list on_timer (m\<lparr>jiffies := jiffies m + 1\<rparr>) calls"

text \<open>\<open>cur\<close> is what \<^verbatim>\<open>gettick_nanosecond\<close> returns.\<close>

partial_function (option) runner_loop ::
  "(nat list \<Rightarrow> timer_op list) \<Rightarrow> int \<Rightarrow> timermgr_impl \<Rightarrow> nat list \<Rightarrow> (timermgr_impl \<times> nat list) option" where
  "runner_loop on_timer itvl m calls =
     (if delta m < itvl then Some (m, calls)
      else do {
        (m, calls) \<leftarrow> steprun on_timer m calls;
        runner_loop on_timer itvl (m\<lparr>delta := delta m - itvl\<rparr>) calls
      })"

definition periodic_runner ::
  "(nat list \<Rightarrow> timer_op list) \<Rightarrow> int \<Rightarrow> timermgr_impl \<Rightarrow> (timermgr_impl \<times> nat list) option" where
  "periodic_runner on_timer cur m =
     (let itvl = 1000000 * min_interval m in
      if prev m = 0 then steprun on_timer (m\<lparr>prev := cur\<rparr>) []
      else do {
        (m, calls) \<leftarrow> runner_loop on_timer itvl (m\<lparr>delta := delta m + (cur - prev m)\<rparr>) [];
        Some (m\<lparr>prev := cur\<rparr>, calls)
      })"

end
