(* ===== verification/List_Family.thy ===== *)
theory List_Family
  imports List_Node
begin

text \<open>
  Families of intrusive lists in one heap, with heads \<open>Owner i\<close> for the indices \<open>i\<close> of a set, whose nodes move from list to
  list: the lists of the timer wheel and the slabs of memory pools. \<open>sl\<close> gives the objects of each list, \<open>D\<close> are all
  objects; a node that is in no list is a ring of its own, as \<^verbatim>\<open>listnode_del\<close> leaves it.
\<close>

section \<open>Families of lists\<close>

definition lists_ok :: "nat set \<Rightarrow> list_addr list_heap \<Rightarrow> (nat \<Rightarrow> nat list) \<Rightarrow> nat set \<Rightarrow> bool" where
  "lists_ok I h sl D \<longleftrightarrow>
     (\<forall>i. if i \<in> I then ring h (Owner i) (map Member (sl i)) else sl i = []) \<and>
     (\<forall>i k t. t \<in> set (sl i) \<longrightarrow> t \<in> set (sl k) \<longrightarrow> i = k) \<and>
     (\<forall>i. set (sl i) \<subseteq> D) \<and> (\<forall>t. h (Member t) \<noteq> None \<longleftrightarrow> t \<in> D) \<and>
     (\<forall>t \<in> D. (\<forall>i. t \<notin> set (sl i)) \<longrightarrow> ring h (Member t) [])"

definition in_slots :: "(nat \<Rightarrow> nat list) \<Rightarrow> nat \<Rightarrow> bool" where
  "in_slots sl t \<longleftrightarrow> (\<exists>i. t \<in> set (sl i))"

lemma slots_bound: "\<lbrakk>lists_ok I h sl D; t \<in> set (sl i)\<rbrakk> \<Longrightarrow> i \<in> I"
  unfolding lists_ok_def by (metis empty_iff empty_set)

lemma slots_ring: "\<lbrakk>lists_ok I h sl D; i \<in> I\<rbrakk> \<Longrightarrow> ring h (Owner i) (map Member (sl i))"
  unfolding lists_ok_def by meson

lemma slots_distinct: "\<lbrakk>lists_ok I h sl D; i \<in> I\<rbrakk> \<Longrightarrow> distinct (sl i)"
  using slots_ring [of I h sl D i] by (auto simp: ring_def distinct_map)

lemma slots_disj: "\<lbrakk>lists_ok I h sl D; t \<in> set (sl i); t \<in> set (sl k)\<rbrakk> \<Longrightarrow> i = k"
  unfolding lists_ok_def by blast

lemma slots_single: "\<lbrakk>lists_ok I h sl D; t \<in> D; \<not> in_slots sl t\<rbrakk> \<Longrightarrow> ring h (Member t) []"
  unfolding lists_ok_def in_slots_def by blast

lemma slots_dom: "lists_ok I h sl D \<Longrightarrow> h (Member t) \<noteq> None \<longleftrightarrow> t \<in> D"
  unfolding lists_ok_def by blast

lemma slots_sub: "\<lbrakk>lists_ok I h sl D; in_slots sl t\<rbrakk> \<Longrightarrow> t \<in> D"
  unfolding lists_ok_def in_slots_def by blast

lemma issingle_ring:
  assumes "ring h head xs" "m \<in> insert head (set xs)"
  shows "listnode_issingle h m = Some (xs = [])"
proof (cases "m = head")
  case True
  then show ?thesis using assms(1) by (cases xs rule: rev_cases) (auto simp: ring_def listnode_issingle_def linked_append [of h "head # _" _ "[head]", simplified])
next
  case False
  with assms(2) obtain us vs where xs: "xs = us @ m # vs" by (auto simp: in_set_conv_decomp)
  have "linked h ((head # us) @ m # vs @ [head])" using assms(1) by (simp add: ring_def xs)
  then have "linked h (m # vs @ [head])" by (subst (asm) linked_append) simp
  then have "nxt h m = Some (hd (vs @ [head]))" by (cases vs) auto
  moreover have "hd (vs @ [head]) \<noteq> m" using assms(1) by (cases vs) (auto simp: ring_def xs)
  ultimately show ?thesis by (auto simp: listnode_issingle_def xs)
qed

lemma slots_issingle:
  assumes "lists_ok I h sl D" "t \<in> D"
  shows "listnode_issingle h (Member t) = Some (\<not> in_slots sl t)"
proof (cases "in_slots sl t")
  case True
  then obtain i where i: "t \<in> set (sl i)" unfolding in_slots_def by blast
  then have "ring h (Owner i) (map Member (sl i))" using assms(1) slots_bound slots_ring by blast
  from issingle_ring [OF this, of "Member t"] i True show ?thesis by auto
next
  case False
  then show ?thesis using issingle_ring [OF slots_single [OF assms False], of "Member t"] by simp
qed

text \<open>The frame of an operation on one list: all other lists and nodes stay.\<close>

lemma slots_frame:
  assumes ok: "lists_ok I h sl D" and "i \<in> I" and ring: "ring h' (Owner i) (map Member ys)" and D': "dom h' = dom h"
    and frame: "\<And>a. a \<notin> insert (Owner i) (Member ` (set ys \<union> set (sl i))) \<Longrightarrow> h' a = h a"
    and new: "\<And>t. t \<in> set ys \<Longrightarrow> t \<in> set (sl i) \<or> t \<in> D \<and> \<not> in_slots sl t"
    and old: "\<And>t. t \<in> set (sl i) \<Longrightarrow> t \<notin> set ys \<Longrightarrow> ring h' (Member t) []"
  shows "lists_ok I h' (sl(i := ys)) D"
proof -
  have other: "t \<notin> set ys \<union> set (sl i)" if "t \<in> set (sl k)" "k \<noteq> i" for k t
    using that new slots_disj [OF ok] by (auto simp: in_slots_def)
  have "ring h' (Owner k) (map Member (sl k))" if "k \<in> I" "k \<noteq> i" for k
    by (rule ring_cong [OF slots_ring [OF ok that(1)] frame]) (use that other in auto)
  moreover have "ring h' (Member t) []" if "t \<in> D" "\<forall>k. t \<notin> set ((sl(i := ys)) k)" for t
  proof (cases "t \<in> set (sl i)")
    case True
    then show ?thesis using old that(2) by (metis fun_upd_same)
  next
    case False
    have n: "t \<notin> set ys" using that(2) by (metis fun_upd_same)
    have "\<not> in_slots sl t" using False that(2) by (auto simp: in_slots_def split: if_splits)
    from slots_single [OF ok that(1) this] show ?thesis
      by (rule ring_cong) (use frame False n in auto)
  qed
  moreover have "h' (Member t) \<noteq> None \<longleftrightarrow> t \<in> D" for t
    using slots_dom [OF ok] D' by (metis domIff)
  moreover have "i' = k" if "t \<in> set ((sl(i := ys)) i')" "t \<in> set ((sl(i := ys)) k)" for i' k t
    using that other slots_disj [OF ok, of t i' k] by (cases "i' = i"; cases "k = i") auto
  moreover have "set ((sl(i := ys)) k) \<subseteq> D" for k
    using new slots_sub [OF ok] by (cases "k = i") (auto simp: in_slots_def)
  moreover have "sl k = []" if "\<not> k \<in> I" for k using ok that by (auto simp: lists_ok_def)
  moreover have "if k \<in> I then ring h' (Owner k) (map Member ((sl(i := ys)) k)) else (sl(i := ys)) k = []" for k
    using calculation(1,6) ring \<open>i \<in> I\<close> by (cases "k = i") auto
  ultimately show ?thesis unfolding lists_ok_def by blast
qed

lemma slots_add:
  assumes ok: "lists_ok I h sl D" and "i \<in> I" and t: "t \<in> D" "\<not> in_slots sl t"
  obtains h' where "listnode_add h (Owner i) (Member t) = Some h'" "lists_ok I h' (sl(i := sl i @ [t])) D"
proof -
  have "Member t \<notin> insert (Owner i) (set (map Member (sl i)))" using t(2) by (auto simp: in_slots_def)
  from ring_add [OF slots_ring [OF ok \<open>i \<in> I\<close>] this] obtain h' where h': "listnode_add h (Owner i) (Member t) = Some h'"
    "ring h' (Owner i) (map Member (sl i) @ [Member t])" "dom h' = dom h"
    "\<forall>a. a \<notin> insert (Owner i) (insert (Member t) (set (map Member (sl i)))) \<longrightarrow> h' a = h a"
    using slots_dom [OF ok] t(1) by blast
  have "lists_ok I h' (sl(i := sl i @ [t])) D"
    by (rule slots_frame [OF ok \<open>i \<in> I\<close> _ h'(3)]) (use h'(2,4) t in auto)
  with h'(1) show ?thesis by (rule that)
qed

lemma slots_del:
  assumes ok: "lists_ok I h sl D" and t: "t \<in> set (sl i)"
  obtains h' where "listnode_del h (Member t) = Some h'" "lists_ok I h' (sl(i := remove1 t (sl i))) D"
proof -
  have i: "i \<in> I" using slots_bound [OF ok t] .
  from t obtain us vs where sl: "sl i = us @ t # vs" by (auto simp: in_set_conv_decomp)
  have d: "t \<notin> set us" "t \<notin> set vs" using slots_distinct [OF ok i] by (auto simp: sl)
  have "ring h (Owner i) (map Member us @ Member t # map Member vs)" using slots_ring [OF ok i] by (simp add: sl)
  from ring_del [OF this] obtain h' where h': "listnode_del h (Member t) = Some h'"
    "ring h' (Owner i) (map Member (us @ vs))" "ring h' (Member t) []" "dom h' = dom h"
    "\<forall>a. a \<notin> insert (Owner i) (set (map Member us @ Member t # map Member vs)) \<longrightarrow> h' a = h a" by auto
  have "remove1 t (sl i) = us @ vs" using d by (simp add: sl remove1_append)
  moreover have "lists_ok I h' (sl(i := us @ vs)) D"
    by (rule slots_frame [OF ok i h'(2) h'(4)]) (use h'(3,5) sl in auto)
  ultimately show ?thesis using h'(1) that by simp
qed

text \<open>New nodes and nodes that go away are in no list.\<close>

lemma slots_outside:
  assumes ok: "lists_ok I h sl D" and "\<not> in_slots sl p" and frame: "\<And>a. a \<noteq> Member p \<Longrightarrow> h' a = h a"
    and D': "D' - {p} = D - {p}" and p: "h' (Member p) \<noteq> None \<longleftrightarrow> p \<in> D'" "p \<in> D' \<Longrightarrow> ring h' (Member p) []"
  shows "lists_ok I h' sl D'"
proof -
  have sl: "p \<notin> set (sl i)" for i using assms(2) by (auto simp: in_slots_def)
  have "if i \<in> I then ring h' (Owner i) (map Member (sl i)) else sl i = []" for i
  proof (cases "i \<in> I")
    case True
    have "ring h' (Owner i) (map Member (sl i))"
      by (rule ring_cong [OF slots_ring [OF ok True] frame]) (use sl in auto)
    with True show ?thesis by simp
  qed (use ok in \<open>auto simp: lists_ok_def\<close>)
  moreover have "ring h' (Member t) []" if "t \<in> D'" "\<forall>i. t \<notin> set (sl i)" for t
  proof (cases "t = p")
    case False
    then have "t \<in> D" using that(1) D' by blast
    from slots_single [OF ok this] that(2) have "ring h (Member t) []" by (auto simp: in_slots_def)
    then show ?thesis by (rule ring_cong) (use frame False in auto)
  qed (use that p(2) in auto)
  moreover have "set (sl i) \<subseteq> D'" for i using slots_sub [OF ok] sl D' by (auto simp: in_slots_def)
  moreover have "h' (Member t) \<noteq> None \<longleftrightarrow> t \<in> D'" for t
    using p(1) slots_dom [OF ok, of t] frame [of "Member t"] D' by (cases "t = p") auto
  ultimately show ?thesis using slots_disj [OF ok] unfolding lists_ok_def by blast
qed

text \<open>A new node, whose links hold anything, may be added at once.\<close>

lemma slots_add_new:
  assumes ok: "lists_ok I h sl D" and "i \<in> I" and t: "t \<notin> D" and h1: "h1 = h(Member t \<mapsto> n)"
  obtains h' where "listnode_add h1 (Owner i) (Member t) = Some h'" "lists_ok I h' (sl(i := sl i @ [t])) (insert t D)"
proof -
  let ?h0 = "h(Member t \<mapsto> \<lparr>ln_next = Some (Member t), ln_prev = Some (Member t)\<rparr>)"
  have nt: "\<not> in_slots sl t" using slots_sub [OF ok] t by blast
  have r0: "lists_ok I ?h0 sl (insert t D)" by (rule slots_outside [OF ok nt]) (auto simp: ring_def)
  have ring: "ring h1 (Owner i) (map Member (sl i))"
    by (rule ring_cong [OF slots_ring [OF ok \<open>i \<in> I\<close>]]) (use nt in \<open>auto simp: h1 in_slots_def\<close>)
  have "Member t \<notin> insert (Owner i) (set (map Member (sl i)))" using nt by (auto simp: in_slots_def)
  from ring_add [OF ring this] obtain h' where h': "listnode_add h1 (Owner i) (Member t) = Some h'"
    "ring h' (Owner i) (map Member (sl i) @ [Member t])" "dom h' = dom h1"
    "\<forall>a. a \<notin> insert (Owner i) (insert (Member t) (set (map Member (sl i)))) \<longrightarrow> h' a = h1 a"
    by (auto simp: h1)
  have "lists_ok I h' (sl(i := sl i @ [t])) (insert t D)"
    by (rule slots_frame [OF r0 \<open>i \<in> I\<close>]) (use h'(2-4) nt in \<open>auto simp: h1\<close>)
  with h'(1) show ?thesis by (rule that)
qed

text \<open>New lists are empty.\<close>

lemma lists_more_heads:
  assumes ok: "lists_ok I h sl D" and "I \<subseteq> I'" and new: "\<And>i. i \<in> I' - I \<Longrightarrow> ring h' (Owner i) []"
    and frame: "\<And>a. a \<notin> Owner ` (I' - I) \<Longrightarrow> h' a = h a"
  shows "lists_ok I' h' sl D"
proof -
  have "if i \<in> I' then ring h' (Owner i) (map Member (sl i)) else sl i = []" for i
  proof (cases "i \<in> I")
    case True
    have "ring h' (Owner i) (map Member (sl i))"
      by (rule ring_cong [OF slots_ring [OF ok True] frame]) (use True in auto)
    then show ?thesis using True assms(2) by auto
  next
    case False
    then have "sl i = []" using ok by (auto simp: lists_ok_def)
    then show ?thesis using new [of i] False by simp
  qed
  moreover have "ring h' (Member t) []" if "t \<in> D" "\<forall>i. t \<notin> set (sl i)" for t
  proof -
    have "\<not> in_slots sl t" using that(2) by (simp add: in_slots_def)
    from slots_single [OF ok that(1) this] show ?thesis by (rule ring_cong) (use frame in auto)
  qed
  moreover have "h' (Member t) \<noteq> None \<longleftrightarrow> t \<in> D" for t
  proof -
    have "Member t \<notin> Owner ` (I' - I)" by auto
    then show ?thesis using slots_dom [OF ok, of t] frame [of "Member t"] by simp
  qed
  moreover have "set (sl i) \<subseteq> D" for i using slots_sub [OF ok] by (auto simp: in_slots_def)
  ultimately show ?thesis using slots_disj [OF ok] unfolding lists_ok_def by blast
qed

end
