(* ===== verification/Timer_Ops.thy ===== *)
theory Timer_Ops
  imports Timer_Wheel List_Family
begin

unbundle bit_operations_syntax

text \<open>
  The correctness of the timers. The invariant \<open>wheel\<close> relates the 512 lists to the times at which
  the timers in them expire; all operations and ticks keep it, none of them fails, and a timer is called in the
  tick at which it expires.
\<close>

section \<open>The lists\<close>

abbreviation slots_ok :: "list_addr list_heap \<Rightarrow> (nat \<Rightarrow> nat list) \<Rightarrow> nat set \<Rightarrow> bool" where
  "slots_ok \<equiv> lists_ok {..<512}"

section \<open>The wheel\<close>

text \<open>
  The five groups of lists. Group \<open>k\<close> of the coarse ones has lists for spans of \<open>wspan k\<close> ticks; \<open>c k\<close>
  is the number of spans that were moved from it so far.
\<close>

abbreviation wspan :: "nat \<Rightarrow> nat" where "wspan k \<equiv> 2 ^ (8 + 6 * k)"

definition fits :: "(nat \<Rightarrow> nat) \<Rightarrow> nat \<Rightarrow> nat \<Rightarrow> nat \<Rightarrow> bool" where
  "fits c T i e \<longleftrightarrow> T \<le> e \<and>
     (if i < 256 then i = e mod 256 \<and> e < T + 256
      else (let k = (i - 256) div 64; s = e div wspan k in i < 512 \<and> i mod 64 = s mod 64 \<and> c k \<le> s \<and> s < c k + 64))"

definition turned :: "(nat \<Rightarrow> nat) \<Rightarrow> nat \<Rightarrow> bool" where
  "turned c T \<longleftrightarrow> (\<forall>k < 4. T \<le> c k * wspan k \<and> c k \<le> T div wspan k + 1)"

definition layout :: "timermgr_impl \<Rightarrow> bool" where
  "layout m \<longleftrightarrow> length (tl m) = 5 \<and> timer_list (tl m ! 0) = 0 \<and> (\<forall>k < 4. timer_list (tl m ! Suc k) = 256 + 64 * k)"

lemma unat_and_255: "unat (w AND 255 :: u64) = unat w mod 256"
proof -
  have "w AND 255 = take_bit 8 w" by (simp add: take_bit_eq_mask mask_eq_exp_minus_1)
  then show ?thesis by (simp add: take_bit_eq_mod unat_mod_distrib)
qed

lemma unat_drop_and_63: "unat (drop_bit n w AND 63 :: u64) = (unat w div 2 ^ n) mod 64"
proof -
  have "drop_bit n w AND 63 = take_bit 6 (drop_bit n w)" by (simp add: take_bit_eq_mask mask_eq_exp_minus_1)
  then show ?thesis by (simp only: take_bit_eq_mod unat_mod_distrib unat_drop_bit_eq) (simp add: drop_bit_eq_div)
qed

lemma group_index:
  assumes "j < (64 :: nat)"
  shows "(256 + 64 * k + j - 256) div 64 = k" "(256 + 64 * k + j) mod 64 = j"
proof -
  have "(j + (4 + k) * 64) mod 64 = j" using assms by (simp only: mod_mult_self1) simp
  moreover have "j + (4 + k) * 64 = 256 + 64 * k + j" by simp
  ultimately show "(256 + 64 * k + j) mod 64 = j" by (simp only:)
qed (use assms in simp)

lemma fits_coarse:
  assumes c: "turned c T" "k < 4" and e: "T + wspan k \<le> e" "e < T + wspan k * 64"
  shows "fits c T (256 + 64 * k + (e div wspan k) mod 64) e"
proof -
  define b where "b = wspan k"
  define j where "j = (e div b) mod 64"
  have "0 < b" "T \<le> c k * b" "c k \<le> T div b + 1" using c by (simp_all add: turned_def b_def)
  moreover have "e < T + b * 64" using e(2) by (simp only: b_def)
  ultimately have "c k \<le> (T + b) div b" "e < (c k + 64) * b" by (simp_all add: distrib_right)
  moreover have "(T + b) div b \<le> e div b" using e(1) unfolding b_def by (rule div_le_mono)
  ultimately have "c k \<le> e div b" "e div b < c k + 64" by (simp, simp add: less_mult_imp_div_less)
  moreover have "j < 64" by (simp add: j_def)
  moreover from this have "256 + 64 * k + j < 512" "\<not> 256 + 64 * k + j < 256" using c(2) by simp_all
  moreover note group_index [OF \<open>j < 64\<close>, of k]
  moreover have "T \<le> e" using e(1) by simp
  ultimately show ?thesis unfolding fits_def b_def [symmetric] j_def [symmetric]
    by (simp only: if_False Let_def b_def [symmetric]) (simp add: j_def)
qed

lemma bit31_small:
  assumes "unat (t :: u64) < 2 ^ 31"
  shows "\<not> bit t 31"
proof -
  have "\<not> bit (unat t) 31" using assms by (simp add: bit_iff_odd)
  then show ?thesis by (simp add: bit_unsigned_iff)
qed

lemma u64_less:
  "unat (t :: u64) = n \<Longrightarrow> (t < 256) = (n < 256)" "unat t = n \<Longrightarrow> (t < 2 ^ (6 + 8)) = (n < 2 ^ 14)"
  "unat t = n \<Longrightarrow> (t < 2 ^ (12 + 8)) = (n < 2 ^ 20)" "unat t = n \<Longrightarrow> (t < 2 ^ (18 + 8)) = (n < 2 ^ 26)"
  by (simp_all add: word_less_nat_alt)

lemma layout_lists:
  assumes "layout m"
  shows "timer_list (tl m ! 0) = 0" "timer_list (tl m ! 1) = 256 + 64 * 0" "timer_list (tl m ! 2) = 256 + 64 * 1"
    "timer_list (tl m ! 3) = 256 + 64 * 2" "timer_list (tl m ! 4) = 256 + 64 * 3"
  using assms unfolding layout_def by (auto simp: numeral_nat)

lemma get_timer_list_fits:
  assumes "layout m" "turned c T" "T = unat (timer_jiffies m)" "e = unat (expire ti)" "T \<le> e" "e < T + 2 ^ 31"
  shows "fits c T (get_timer_list m ti) e"
proof -
  let ?t = "expire ti - timer_jiffies m"
  have t: "unat ?t = e - T" using assms(3-5) by (simp add: unat_sub word_le_nat_alt)
  then have b31: "\<not> bit ?t 31" using assms(6) by (intro bit31_small) simp
  note less = u64_less [OF t] and L = layout_lists [OF assms(1)]
  have sp: "wspan 0 = 2 ^ 8" "wspan 1 = 2 ^ 14" "wspan 2 = 2 ^ 20" "wspan 3 = 2 ^ 26" by simp_all
  consider "e - T < 256" | "256 \<le> e - T" "e - T < 2 ^ 14" | "2 ^ 14 \<le> e - T" "e - T < 2 ^ 20" | "2 ^ 20 \<le> e - T" "e - T < 2 ^ 26"
    | "2 ^ 26 \<le> e - T" by linarith
  then show ?thesis
  proof cases
    case 1
    then have "get_timer_list m ti = e mod 256" by (simp add: get_timer_list_def less L unat_and_255 assms(4))
    then show ?thesis using 1 assms(5) by (simp add: fits_def)
  next
    case 2
    then have "get_timer_list m ti = 256 + 64 * 0 + (e div wspan 0) mod 64"
      unfolding get_timer_list_def Let_def less L unat_drop_and_63 assms(4) [symmetric] by (simp add: sp)
    then show ?thesis using fits_coarse [OF assms(2), of 0 e] 2 by simp
  next
    case 3
    then have "get_timer_list m ti = 256 + 64 * 1 + (e div wspan 1) mod 64"
      unfolding get_timer_list_def Let_def less L unat_drop_and_63 assms(4) [symmetric] by (simp add: sp)
    then show ?thesis using fits_coarse [OF assms(2), of 1 e] 3 by simp
  next
    case 4
    then have "get_timer_list m ti = 256 + 64 * 2 + (e div wspan 2) mod 64"
      unfolding get_timer_list_def Let_def less L unat_drop_and_63 assms(4) [symmetric] by (simp add: sp)
    then show ?thesis using fits_coarse [OF assms(2), of 2 e] 4 by simp
  next
    case 5
    then have "get_timer_list m ti = 256 + 64 * 3 + (e div wspan 3) mod 64"
      unfolding get_timer_list_def Let_def less L unat_drop_and_63 assms(4) [symmetric] using b31 by (simp add: sp)
    then show ?thesis using fits_coarse [OF assms(2), of 3 e] 5 assms(6) by simp
  qed
qed

text \<open>A timer that expires within the current span of a group goes to a finer list.\<close>

lemma get_timer_list_finer:
  assumes "layout m" "T = unat (timer_jiffies m)" "e = unat (expire ti)" "T \<le> e" "e < T + wspan k" "k < 4"
  shows "get_timer_list m ti < 256 + 64 * k"
proof -
  let ?t = "expire ti - timer_jiffies m"
  have t: "unat ?t = e - T" using assms(2-4) by (simp add: unat_sub word_le_nat_alt)
  note less = u64_less [OF t] and L = layout_lists [OF assms(1)]
  have m: "x mod 64 < 64" "x mod 256 < 256" for x :: nat by simp_all
  have "k = 0 \<or> k = 1 \<or> k = 2 \<or> k = 3" using assms(6) by auto
  then show ?thesis using assms(4,5) m
    unfolding get_timer_list_def Let_def less L unat_drop_and_63 unat_and_255 assms(3) [symmetric]
    by (elim disjE) (auto simp: less_diff_conv2 trans_less_add1)
qed

lemma fits_bound: "fits c T i e \<Longrightarrow> i \<in> {..<512}"
  by (auto simp: fits_def Let_def split: if_splits)

lemma fits_le: "fits c T i e \<Longrightarrow> T \<le> e"
  by (simp add: fits_def)

definition wheel :: "timermgr_impl \<Rightarrow> (nat \<Rightarrow> nat list) \<Rightarrow> (nat \<Rightarrow> nat) \<Rightarrow> bool" where
  "wheel m sl c \<longleftrightarrow>
     slots_ok (list_heap m) sl (dom (timer_heap m)) \<and> layout m \<and> turned c (unat (timer_jiffies m)) \<and>
     unat (index (tl m ! 0)) = unat (timer_jiffies m) mod 256 \<and> (\<forall>k < 4. unat (index (tl m ! Suc k)) = c k mod 64) \<and>
     (\<forall>i t ti. t \<in> set (sl i) \<longrightarrow> timer_heap m t = Some ti \<longrightarrow> fits c (unat (timer_jiffies m)) i (unat (expire ti)))"

lemma wheel_slots: "wheel m sl c \<Longrightarrow> slots_ok (list_heap m) sl (dom (timer_heap m))"
  by (simp add: wheel_def)

text \<open>The minimum interval is a C \<open>int\<close>. From 3 ms on, every interval of 32 bits has less than $2^{31}$ ticks.\<close>

definition timers_ok :: "timermgr_impl \<Rightarrow> bool" where
  "timers_ok m \<longleftrightarrow> 3 \<le> min_interval m \<and> min_interval m < 2 ^ 31 \<and>
     (\<forall>t ti. timer_heap m t = Some ti \<longrightarrow> unat (interval ti) < 2 ^ 31 \<and> tmr ti = Some t)"

definition clock :: "timermgr_impl \<Rightarrow> bool" where
  "clock m \<longleftrightarrow> unat (timer_jiffies m) \<in> {unat (jiffies m), unat (jiffies m) + 1} \<and> unat (jiffies m) < 2 ^ 63"

section \<open>What timers promise\<close>

text \<open>
  The abstract state of a manager: the time in ticks, the duration of a tick, the interval of each existing timer in
  ticks and the time at which a running timer expires. Only existing timers may be used, and only unused addresses
  for new ones; other uses have no result.
\<close>

record alarms =
  now :: nat
  grain :: nat
  period :: "nat \<Rightarrow> nat option"
  due :: "nat \<Rightarrow> nat option"

definition whole_ticks :: "nat \<Rightarrow> u32 \<Rightarrow> nat" where
  "whole_ticks g intv = (unat intv + g - 1) div g"

fun alarm_run :: "alarms \<Rightarrow> timer_op \<Rightarrow> alarms option" where
  "alarm_run a (Create p intv) =
     (case period a p of
        None \<Rightarrow> Some (a\<lparr>period := (period a)(p \<mapsto> whole_ticks (grain a) intv)\<rparr>)
      | Some n \<Rightarrow> None)"
| "alarm_run a (Start p) =
     (case period a p of
        None \<Rightarrow> None
      | Some n \<Rightarrow> Some (if n = 0 \<or> due a p \<noteq> None then a else a\<lparr>due := (due a)(p \<mapsto> now a + n)\<rparr>))"
| "alarm_run a (Stop p) =
     (case period a p of None \<Rightarrow> None | Some n \<Rightarrow> Some (a\<lparr>due := (due a)(p := None)\<rparr>))"
| "alarm_run a (Restart p) =
     (case period a p of
        None \<Rightarrow> None
      | Some n \<Rightarrow> Some (a\<lparr>due := (due a)(p := if n = 0 then None else Some (now a + n))\<rparr>))"
| "alarm_run a (Setinterval p intv) =
     (case period a p of
        None \<Rightarrow> None
      | Some n \<Rightarrow> Some (a\<lparr>period := (period a)(p \<mapsto> whole_ticks (grain a) intv), due := (due a)(p := None)\<rparr>))"
| "alarm_run a (Delete p) =
     (case period a p of
        None \<Rightarrow> None
      | Some n \<Rightarrow> Some (a\<lparr>period := (period a)(p := None), due := (due a)(p := None)\<rparr>))"

fun alarm_runs :: "alarms \<Rightarrow> timer_op list \<Rightarrow> alarms option" where
  "alarm_runs a [] = Some a"
| "alarm_runs a (op # ops) = do { a \<leftarrow> alarm_run a op; alarm_runs a ops }"

definition pending :: "timermgr_impl \<Rightarrow> nat \<Rightarrow> nat option" where
  "pending m t =
     do {
       ti \<leftarrow> timer_heap m t;
       single \<leftarrow> listnode_issingle (list_heap m) (Member t);
       if single then None else Some (unat (expire ti))
     }"

definition abstract :: "timermgr_impl \<Rightarrow> alarms" where
  "abstract m = \<lparr>now = unat (jiffies m), grain = nat (min_interval m),
     period = (\<lambda>t. map_option (\<lambda>ti. unat (interval ti)) (timer_heap m t)), due = pending m\<rparr>"

lemma abstract_simps [simp]:
  "now (abstract m) = unat (jiffies m)" "grain (abstract m) = nat (min_interval m)" "due (abstract m) = pending m"
  "period (abstract m) t = map_option (\<lambda>ti. unat (interval ti)) (timer_heap m t)"
  by (simp_all add: abstract_def)

lemma pending_slots:
  assumes "slots_ok (list_heap m) sl (dom (timer_heap m))"
  shows "pending m t = (if in_slots sl t then map_option (\<lambda>ti. unat (expire ti)) (timer_heap m t) else None)"
proof (cases "timer_heap m t")
  case None
  then show ?thesis by (simp add: pending_def)
next
  case (Some ti)
  then have "t \<in> dom (timer_heap m)" by auto
  from slots_issingle [OF assms this] Some show ?thesis by (simp add: pending_def)
qed

section \<open>Operations\<close>

lemma ticks_whole:
  assumes "timers_ok m"
  obtains w where "ticks m intv = Some w" "unat w = whole_ticks (nat (min_interval m)) intv" "unat w < 2 ^ 31"
proof -
  define g where "g = nat (min_interval m)"
  define n where "n = whole_ticks g intv"
  have g: "3 \<le> g" "min_interval m = int g" using assms by (auto simp: timers_ok_def g_def)
  have "int (k + g - 1) sdiv int g = int ((k + g - 1) div g)" "int k + int g - 1 = int (k + g - 1)" for k
    using g(1) by (simp_all add: signed_divide_int_def zdiv_int sgn_if)
  then have e: "(uint intv + min_interval m - 1) sdiv min_interval m = int n"
    unfolding n_def whole_ticks_def g(2) uint_nat by (simp only:)
  have "unat intv < 2 ^ 32" using unsigned_less [of intv] by simp
  then have "unat intv + g - 1 < 2 ^ 31 * g" using g(1) by simp
  then have lt: "n < 2 ^ 31" by (simp add: n_def whole_ticks_def less_mult_imp_div_less)
  then have "unat (of_nat n :: u64) = n" by (simp add: unat_of_nat)
  with lt show ?thesis using that [of "of_nat n"] e g by (simp add: ticks_def n_def)
qed

text \<open>Operations leave the time, the groups of lists and the interval of the manager.\<close>

definition same_time :: "timermgr_impl \<Rightarrow> timermgr_impl \<Rightarrow> bool" where
  "same_time m m' \<longleftrightarrow> jiffies m' = jiffies m \<and> timer_jiffies m' = timer_jiffies m \<and> tl m' = tl m \<and>
     min_interval m' = min_interval m \<and> prev m' = prev m \<and> delta m' = delta m"

lemma same_time_simps [simp]:
  "same_time m m" "same_time m (m\<lparr>list_heap := h\<rparr>)" "same_time m (m\<lparr>list_heap := h, timer_heap := x\<rparr>)"
  "same_time m (m\<lparr>timer_heap := x\<rparr>)" "same_time m (check_start_global_timer m') = same_time m m'"
  by (simp_all add: same_time_def check_start_global_timer_def start_global_timer_def Let_def)

lemma same_time_trans: "\<lbrakk>same_time m m'; same_time m' m''\<rbrakk> \<Longrightarrow> same_time m m''"
  by (simp add: same_time_def)

lemma check_start_simps [simp]:
  "list_heap (check_start_global_timer m) = list_heap m" "timer_heap (check_start_global_timer m) = timer_heap m"
  "timer_jiffies (check_start_global_timer m) = timer_jiffies m" "tl (check_start_global_timer m) = tl m"
  "jiffies (check_start_global_timer m) = jiffies m" "min_interval (check_start_global_timer m) = min_interval m"
  by (simp_all add: check_start_global_timer_def start_global_timer_def Let_def)

text \<open>The invariant for the changed heaps, at the same time.\<close>

lemma wheel_change:
  assumes "wheel m sl c" "same_time m m'" "slots_ok (list_heap m') sl' (dom (timer_heap m'))"
    and "\<And>i t ti. \<lbrakk>t \<in> set (sl' i); timer_heap m' t = Some ti\<rbrakk> \<Longrightarrow> fits c (unat (timer_jiffies m)) i (unat (expire ti))"
  shows "wheel m' sl' c"
  using assms by (simp add: wheel_def same_time_def layout_def)

lemma timer_stop_ok:
  assumes w: "wheel m sl c" and p: "p \<in> dom (timer_heap m)"
  shows "\<exists>m' sl'. timer_stop m p False = Some m' \<and> wheel m' sl' c \<and> timer_heap m' = timer_heap m \<and> same_time m m' \<and>
    \<not> in_slots sl' p \<and> pending m' = (pending m)(p := None)"
proof (cases "in_slots sl p")
  case False
  have "pending m p = None" using False by (simp add: pending_slots [OF wheel_slots [OF w]])
  with False show ?thesis using w slots_issingle [OF wheel_slots [OF w] p]
    by (intro exI [of _ m] exI [of _ sl]) (auto simp: timer_stop_def)
next
  case True
  note ok = wheel_slots [OF w]
  from True obtain i where i: "p \<in> set (sl i)" by (auto simp: in_slots_def)
  from slots_del [OF ok i] obtain h' where h': "listnode_del (list_heap m) (Member p) = Some h'"
      "slots_ok h' (sl(i := remove1 p (sl i))) (dom (timer_heap m))" .
  let ?m = "m\<lparr>list_heap := h'\<rparr>" and ?sl = "sl(i := remove1 p (sl i))"
  have d: "distinct (sl i)" using slots_distinct [OF ok slots_bound [OF ok i]] .
  have "set (?sl k) = set (sl k) - {p}" for k using d slots_disj [OF ok i] by auto
  then have in_sl: "in_slots ?sl t \<longleftrightarrow> in_slots sl t \<and> t \<noteq> p" for t by (auto simp only: in_slots_def)
  have "wheel ?m ?sl c"
  proof (rule wheel_change [OF w])
    show "slots_ok (list_heap ?m) ?sl (dom (timer_heap ?m))" using h'(2) by simp
    fix k t ti assume "t \<in> set (?sl k)" "timer_heap ?m t = Some ti"
    then have "t \<in> set (sl k)" "timer_heap m t = Some ti" using d by (auto split: if_splits)
    with w show "fits c (unat (timer_jiffies m)) k (unat (expire ti))" unfolding wheel_def by blast
  qed simp
  moreover have "pending ?m = (pending m)(p := None)"
    using pending_slots [OF ok] pending_slots [of ?m ?sl] h'(2) in_sl by (auto simp: fun_eq_iff)
  moreover have "timer_stop m p False = Some ?m"
    using slots_issingle [OF ok p] True h'(1) by (simp add: timer_stop_def Let_def)
  ultimately show ?thesis using in_sl by (intro exI [of _ ?m] exI [of _ ?sl]) simp
qed

lemma timer_start_ok:
  assumes w: "wheel m sl c" and ok: "timers_ok m" "clock m" and p: "timer_heap m p = Some ti"
  shows "\<exists>m' r. timer_start m p = Some (m', r) \<and> same_time m m' \<and> timers_ok m' \<and>
    (r \<longleftrightarrow> interval ti \<noteq> 0 \<and> pending m p = None) \<and> period (abstract m') = period (abstract m) \<and>
    pending m' = (if r then (pending m)(p \<mapsto> unat (jiffies m) + unat (interval ti)) else pending m) \<and> (\<exists>sl'. wheel m' sl' c)"
proof (cases "interval ti \<noteq> 0 \<and> pending m p = None")
  case False
  have "p \<in> dom (timer_heap m)" using p by auto
  from slots_issingle [OF wheel_slots [OF w] this] False p w ok(1) pending_slots [OF wheel_slots [OF w], of p]
  have "timer_start m p = Some (m, False)" by (auto simp: timer_start_def split: if_splits)
  with False w ok(1) show ?thesis by auto
next
  case True
  note slots = wheel_slots [OF w]
  let ?ti = "ti\<lparr>expire := jiffies m + interval ti\<rparr>" and ?T = "unat (timer_jiffies m)"
  let ?i = "get_timer_list m ?ti"
  have ns: "\<not> in_slots sl p" using True p pending_slots [OF slots, of p] by (auto split: if_splits)
  have int: "unat (interval ti) < 2 ^ 31" "0 < unat (interval ti)" "tmr ti = Some p" using ok(1) p True
    by (auto simp: timers_ok_def unat_gt_0)
  have "unat (jiffies m) + unat (interval ti) < 2 ^ 64" using ok(2) int(1) by (simp add: clock_def)
  then have e: "unat (expire ?ti) = unat (jiffies m) + unat (interval ti)" by (simp add: unat_word_ariths)
  have fit: "fits c ?T ?i (unat (expire ?ti))"
    by (rule get_timer_list_fits) (use w ok(2) int e in \<open>auto simp: wheel_def clock_def\<close>)
  have pD: "p \<in> dom (timer_heap m)" using p by auto
  from slots_add [OF slots fits_bound [OF fit] pD ns] obtain h' where h': "listnode_add (list_heap m) (Owner ?i) (Member p) = Some h'"
    "slots_ok h' (sl(?i := sl ?i @ [p])) (dom (timer_heap m))" .
  let ?m = "check_start_global_timer (m\<lparr>list_heap := h', timer_heap := (timer_heap m)(p \<mapsto> ?ti)\<rparr>)" and ?sl = "sl(?i := sl ?i @ [p])"
  have dom: "dom (timer_heap ?m) = dom (timer_heap m)" using pD by auto
  have "set (?sl k) = set (sl k) \<union> (if k = ?i then {p} else {})" for k by auto
  then have in_sl: "in_slots ?sl t \<longleftrightarrow> in_slots sl t \<or> t = p" for t by (auto simp only: in_slots_def split: if_splits)
  have "wheel ?m ?sl c"
  proof (rule wheel_change [OF w])
    show "slots_ok (list_heap ?m) ?sl (dom (timer_heap ?m))" using h'(2) dom by simp
    fix k t tt assume t: "t \<in> set (?sl k)" "timer_heap ?m t = Some tt"
    show "fits c (unat (timer_jiffies m)) k (unat (expire tt))"
    proof (cases "t = p")
      case True
      then show ?thesis using t fit ns by (auto simp: in_slots_def split: if_splits)
    next
      case False
      then have "t \<in> set (sl k)" "timer_heap m t = Some tt" using t by (auto split: if_splits)
      with w show ?thesis unfolding wheel_def by blast
    qed
  qed simp
  moreover have "pending ?m = (pending m)(p \<mapsto> unat (jiffies m) + unat (interval ti))"
    using pending_slots [OF slots] pending_slots [of ?m ?sl] h'(2) in_sl e dom by (auto simp: fun_eq_iff)
  moreover have "timer_start m p = Some (?m, True)"
    using slots_issingle [OF slots pD] ns h'(1) p True by (simp add: timer_start_def Let_def)
  moreover have "timers_ok ?m" using ok(1) p int(3) by (auto simp: timers_ok_def)
  moreover have "period (abstract ?m) = period (abstract m)" using p by (auto simp: fun_eq_iff)
  ultimately show ?thesis using True by (intro exI [of _ ?m] exI [of _ True]) auto
qed

lemma abstract_eqI:
  "\<lbrakk>same_time m m'; period (abstract m') = period a; pending m' = due a; now a = now (abstract m); grain a = grain (abstract m)\<rbrakk> \<Longrightarrow>
     abstract m' = a"
  by (cases a) (simp add: abstract_def same_time_def)

lemma abstract_change:
  "\<lbrakk>same_time m m'; period (abstract m') = P; pending m' = d\<rbrakk> \<Longrightarrow> abstract m' = (abstract m)\<lparr>period := P, due := d\<rparr>"
  by (rule abstract_eqI) simp_all

lemma create_timer_ok:
  assumes w: "wheel m sl c" and ok: "timers_ok m" and p: "timer_heap m p = None"
  shows "\<exists>m'. create_timer m p (Some p) intv = Some m' \<and> wheel m' sl c \<and> timers_ok m' \<and> same_time m m' \<and>
    period (abstract m') = (period (abstract m))(p \<mapsto> whole_ticks (nat (min_interval m)) intv) \<and> pending m' = pending m"
proof -
  note slots = wheel_slots [OF w]
  from ok obtain itvl where i: "ticks m intv = Some itvl" "unat itvl = whole_ticks (nat (min_interval m)) intv" "unat itvl < 2 ^ 31"
    by (rule ticks_whole)
  have np: "\<not> in_slots sl p" using slots_sub [OF slots] p by blast
  let ?h = "(list_heap m)(Member p \<mapsto> \<lparr>ln_next = Some (Member p), ln_prev = Some (Member p)\<rparr>)"
  let ?m = "m\<lparr>list_heap := ?h, timer_heap := (timer_heap m)(p \<mapsto> \<lparr>interval = itvl, expire = jiffies m + itvl, tmr = Some p\<rparr>)\<rparr>"
  have "create_timer m p (Some p) intv = Some ?m"
    by (simp add: create_timer_def i(1) listnode_init_def set_next_def set_prev_def)
  moreover have so: "slots_ok (list_heap ?m) sl (dom (timer_heap ?m))"
    by (rule slots_outside [OF slots np]) (auto simp: ring_def)
  then have "wheel ?m sl c"
  proof (rule wheel_change [OF w, rotated])
    fix k t tt assume "t \<in> set (sl k)" "timer_heap ?m t = Some tt"
    then have "t \<in> set (sl k)" "timer_heap m t = Some tt" using np by (auto simp: in_slots_def split: if_splits)
    with w show "fits c (unat (timer_jiffies m)) k (unat (expire tt))" unfolding wheel_def by blast
  qed simp
  moreover have "pending ?m = pending m"
    using pending_slots [OF slots] pending_slots [OF so] np by (auto simp: fun_eq_iff)
  moreover have "timers_ok ?m" using ok i(3) by (auto simp: timers_ok_def)
  ultimately show ?thesis using i(2) by (intro exI [of _ ?m]) (auto simp: fun_eq_iff)
qed

lemma timer_delete_ok:
  assumes w: "wheel m sl c" and ok: "timers_ok m" and p: "p \<in> dom (timer_heap m)"
  shows "\<exists>m' sl'. timer_delete m p = Some m' \<and> wheel m' sl' c \<and> timers_ok m' \<and> same_time m m' \<and>
    period (abstract m') = (period (abstract m))(p := None) \<and> pending m' = (pending m)(p := None)"
proof -
  from timer_stop_ok [OF w p] obtain m1 sl' where m1: "timer_stop m p False = Some m1" "wheel m1 sl' c" "timer_heap m1 = timer_heap m"
    "same_time m m1" "\<not> in_slots sl' p" "pending m1 = (pending m)(p := None)" by blast
  note slots = wheel_slots [OF m1(2)]
  let ?m = "m1\<lparr>list_heap := (list_heap m1)(Member p := None), timer_heap := (timer_heap m1)(p := None)\<rparr>"
  have so: "slots_ok (list_heap ?m) sl' (dom (timer_heap ?m))"
    by (rule slots_outside [OF slots m1(5)]) auto
  then have "wheel ?m sl' c"
  proof (rule wheel_change [OF m1(2), rotated])
    fix k t tt assume "t \<in> set (sl' k)" "timer_heap ?m t = Some tt"
    with m1(2) show "fits c (unat (timer_jiffies m1)) k (unat (expire tt))" unfolding wheel_def by (auto split: if_splits)
  qed simp
  moreover have "pending ?m = (pending m)(p := None)"
    using pending_slots [OF slots] pending_slots [OF so] m1(5,6) by (auto simp: fun_eq_iff)
  moreover have "timers_ok ?m" using ok m1(3,4) by (auto simp: timers_ok_def same_time_def)
  moreover have "timer_delete m p = Some ?m" using m1(1) by (simp add: timer_delete_def)
  moreover have "same_time m ?m" using same_time_trans [OF m1(4)] by simp
  moreover have "period (abstract ?m) = (period (abstract m))(p := None)" using m1(3) by (auto simp: fun_eq_iff)
  ultimately show ?thesis by blast
qed

lemma timer_setinterval_ok:
  assumes w: "wheel m sl c" and ok: "timers_ok m" and p: "p \<in> dom (timer_heap m)"
  shows "\<exists>m' sl'. timer_setinterval m p intv = Some m' \<and> wheel m' sl' c \<and> timers_ok m' \<and> same_time m m' \<and>
    period (abstract m') = (period (abstract m))(p \<mapsto> whole_ticks (nat (min_interval m)) intv) \<and> pending m' = (pending m)(p := None)"
proof -
  from timer_stop_ok [OF w p] obtain m1 sl' where m1: "timer_stop m p False = Some m1" "wheel m1 sl' c" "timer_heap m1 = timer_heap m"
    "same_time m m1" "\<not> in_slots sl' p" "pending m1 = (pending m)(p := None)" by blast
  note slots = wheel_slots [OF m1(2)]
  from p obtain ti where ti: "timer_heap m p = Some ti" by blast
  have ok1: "timers_ok m1" using ok m1(3,4) by (auto simp: timers_ok_def same_time_def)
  then obtain itvl where i: "ticks m1 intv = Some itvl" "unat itvl = whole_ticks (nat (min_interval m1)) intv" "unat itvl < 2 ^ 31"
    by (rule ticks_whole)
  let ?m = "m1\<lparr>timer_heap := (timer_heap m1)(p \<mapsto> ti\<lparr>interval := itvl\<rparr>)\<rparr>"
  have so: "slots_ok (list_heap ?m) sl' (dom (timer_heap ?m))" using slots p m1(3) by (simp add: insert_absorb)
  then have "wheel ?m sl' c"
  proof (rule wheel_change [OF m1(2), rotated])
    fix k t tt assume t: "t \<in> set (sl' k)" "timer_heap ?m t = Some tt"
    then have "t \<noteq> p" using m1(5) by (auto simp: in_slots_def)
    with t m1(2) show "fits c (unat (timer_jiffies m1)) k (unat (expire tt))" unfolding wheel_def by auto
  qed simp
  moreover have "pending ?m = (pending m)(p := None)"
    using pending_slots [OF slots] pending_slots [OF so] m1(5,6) by (auto simp: fun_eq_iff)
  moreover have "timers_ok ?m" using ok1 i(3) ti m1(3) by (auto simp: timers_ok_def)
  moreover have "timer_setinterval m p intv = Some ?m" using m1(1,3) ti i(1) by (simp add: timer_setinterval_def)
  moreover have "same_time m ?m" using same_time_trans [OF m1(4)] by simp
  moreover have "min_interval m1 = min_interval m" using m1(4) by (simp add: same_time_def)
  then have "period (abstract ?m) = (period (abstract m))(p \<mapsto> whole_ticks (nat (min_interval m)) intv)"
    using m1(3) i(2) by (auto simp: fun_eq_iff)
  ultimately show ?thesis by blast
qed

lemma clock_same: "same_time m m' \<Longrightarrow> clock m' = clock m"
  by (simp add: clock_def same_time_def)

lemma timer_run_refines:
  assumes w: "wheel m sl c" "timers_ok m" "clock m" and a: "alarm_run (abstract m) op = Some a"
  shows "\<exists>m' sl'. timer_run m op = Some m' \<and> wheel m' sl' c \<and> timers_ok m' \<and> same_time m m' \<and> abstract m' = a"
proof (cases op)
  case (Create p intv)
  then have p: "timer_heap m p = None" using a by (auto split: option.splits)
  then have "a = (abstract m)\<lparr>period := (period (abstract m))(p \<mapsto> whole_ticks (nat (min_interval m)) intv), due := pending m\<rparr>"
    using a Create by (auto simp: abstract_def)
  then show ?thesis using create_timer_ok [OF w(1,2) p, of intv] abstract_change [of m] Create by fastforce
next
  case (Start p)
  with a obtain ti where p: "timer_heap m p = Some ti" by (auto split: option.splits)
  from timer_start_ok [OF w p] obtain m' r where m': "timer_start m p = Some (m', r)" "same_time m m'" "timers_ok m'"
    "r \<longleftrightarrow> interval ti \<noteq> 0 \<and> pending m p = None" "period (abstract m') = period (abstract m)" "\<exists>sl'. wheel m' sl' c"
    "pending m' = (if r then (pending m)(p \<mapsto> unat (jiffies m) + unat (interval ti)) else pending m)" by blast
  have "abstract m' = a" using a Start m'(4,5,7) p
    by (intro abstract_eqI [OF m'(2)]) (auto simp: unat_eq_0 split: if_splits)
  with m' Start show ?thesis by auto
next
  case (Stop p)
  then have p: "p \<in> dom (timer_heap m)" using a by (auto split: option.splits)
  from timer_stop_ok [OF w(1) p] obtain m' sl' where m': "timer_stop m p False = Some m'" "wheel m' sl' c" "timer_heap m' = timer_heap m"
    "same_time m m'" "pending m' = (pending m)(p := None)" by blast
  have "a = (abstract m)\<lparr>due := (pending m)(p := None)\<rparr>" using a Stop p by auto
  then have "abstract m' = a" using m'(3,5) by (intro abstract_eqI [OF m'(4)]) (auto simp: fun_eq_iff)
  moreover have "timers_ok m'" using w(2) m'(3,4) by (simp add: timers_ok_def same_time_def)
  ultimately show ?thesis using m' Stop by auto
next
  case (Restart p)
  with a obtain ti where p: "timer_heap m p = Some ti" by (auto split: option.splits)
  then have "p \<in> dom (timer_heap m)" by auto
  from timer_stop_ok [OF w(1) this] obtain m1 sl1 where m1: "timer_stop m p False = Some m1" "wheel m1 sl1 c" "timer_heap m1 = timer_heap m"
    "same_time m m1" "pending m1 = (pending m)(p := None)" by blast
  have ok: "timers_ok m1" "clock m1" using w(2,3) m1(3,4) by (simp_all add: timers_ok_def clock_def same_time_def)
  have p1: "timer_heap m1 p = Some ti" using p m1(3) by simp
  from timer_start_ok [OF m1(2) ok p1] obtain m' r where m': "timer_start m1 p = Some (m', r)" "same_time m1 m'" "timers_ok m'"
    "r \<longleftrightarrow> interval ti \<noteq> 0 \<and> pending m1 p = None" "period (abstract m') = period (abstract m1)" "\<exists>sl'. wheel m' sl' c"
    "pending m' = (if r then (pending m1)(p \<mapsto> unat (jiffies m1) + unat (interval ti)) else pending m1)" by blast
  have "jiffies m1 = jiffies m" using m1(4) by (simp add: same_time_def)
  then have "abstract m' = a" using a Restart m'(4,5,7) m1(3,5) p
    by (intro abstract_eqI [OF same_time_trans [OF m1(4) m'(2)]]) (auto simp: unat_eq_0 fun_eq_iff)
  with m' m1 Restart show ?thesis by (auto simp: timer_restart_def intro: same_time_trans)
next
  case (Setinterval p intv)
  then have p: "p \<in> dom (timer_heap m)" using a by (auto split: option.splits)
  then have "a = (abstract m)\<lparr>period := (period (abstract m))(p \<mapsto> whole_ticks (nat (min_interval m)) intv), due := (pending m)(p := None)\<rparr>"
    using a Setinterval by auto
  then show ?thesis using timer_setinterval_ok [OF w(1,2) p, of intv] abstract_change [of m] Setinterval by fastforce
next
  case (Delete p)
  then have p: "p \<in> dom (timer_heap m)" using a by (auto split: option.splits)
  then have "a = (abstract m)\<lparr>period := (period (abstract m))(p := None), due := (pending m)(p := None)\<rparr>"
    using a Delete by auto
  then show ?thesis using timer_delete_ok [OF w(1,2) p] abstract_change [of m] Delete by fastforce
qed

lemma timer_runs_refines:
  "\<lbrakk>wheel m sl c; timers_ok m; clock m; alarm_runs (abstract m) ops = Some a\<rbrakk> \<Longrightarrow>
     \<exists>m' sl'. timer_runs m ops = Some m' \<and> wheel m' sl' c \<and> timers_ok m' \<and> same_time m m' \<and> abstract m' = a"
proof (induction ops arbitrary: m sl)
  case Nil
  then show ?case by auto
next
  case (Cons op ops)
  from Cons.prems(4) obtain a1 where a1: "alarm_run (abstract m) op = Some a1" "alarm_runs a1 ops = Some a"
    by (auto simp: bind_eq_Some_conv)
  from timer_run_refines [OF Cons.prems(1-3) a1(1)] obtain m1 sl1 where m1: "timer_run m op = Some m1" "wheel m1 sl1 c"
    "timers_ok m1" "same_time m m1" "abstract m1 = a1" by blast
  from Cons.IH [OF m1(2,3)] a1(2) m1 Cons.prems(3) obtain m' sl' where "timer_runs m1 ops = Some m'" "wheel m' sl' c" "timers_ok m'"
    "same_time m1 m'" "abstract m' = a" by (auto simp: clock_same)
  with m1 show ?case by (auto intro: same_time_trans)
qed

end
