(* ===== verification/Timer_Ticks.thy ===== *)
theory Timer_Ticks
  imports Timer_Ops
begin

unbundle bit_operations_syntax

text \<open>
  Ticks of the timer manager: moving timers to finer lists as the wheel turns, and calling those that expire.
\<close>

section \<open>Turning the wheel\<close>

lemma unat_u32_and_63: "unat (w AND 63 :: u32) = unat w mod 64"
proof -
  have "w AND 63 = take_bit 6 w" by (simp add: take_bit_eq_mask mask_eq_exp_minus_1)
  then show ?thesis by (simp add: take_bit_eq_mod unat_mod_distrib)
qed

lemma unat_u32_and_255: "unat (w AND 255 :: u32) = unat w mod 256"
proof -
  have "w AND 255 = take_bit 8 w" by (simp add: take_bit_eq_mask mask_eq_exp_minus_1)
  then show ?thesis by (simp add: take_bit_eq_mod unat_mod_distrib)
qed

lemma unat_u32_Suc: "unat (w :: u32) < 256 \<Longrightarrow> unat (w + 1) = unat w + 1"
  by (simp add: unat_word_ariths)

lemma window_unique: "\<lbrakk>s mod 64 = c mod 64; c \<le> s; s < c + 64\<rbrakk> \<Longrightarrow> s = (c :: nat)"
  by (metis add_diff_inverse_nat add_less_cancel_left linorder_not_less mod_add_cong mod_eq_dvd_iff_nat mod_less
      nat_dvd_not_less diff_self_eq_0 le_neq_implies_less zero_less_diff)

lemma fits_group:
  assumes "fits c T (256 + 64 * k + j) e" "j < 64"
  shows "(e div wspan k) mod 64 = j" "c k \<le> e div wspan k" "e div wspan k < c k + 64"
  using assms(1) group_index [OF assms(2), of k] unfolding fits_def by (simp_all add: Let_def)

text \<open>What a change of the lists keeps: the timers, the times at which they expire and the clock.\<close>

definition quiet :: "timermgr_impl \<Rightarrow> timermgr_impl \<Rightarrow> bool" where
  "quiet m m' \<longleftrightarrow> timer_heap m' = timer_heap m \<and> pending m' = pending m \<and> jiffies m' = jiffies m \<and>
     timer_jiffies m' = timer_jiffies m \<and> min_interval m' = min_interval m \<and> prev m' = prev m \<and> delta m' = delta m"

lemma quiet_abstract: "quiet m m' \<Longrightarrow> abstract m' = abstract m"
  by (simp add: quiet_def abstract_def)

lemma quiet_timers_ok: "quiet m m' \<Longrightarrow> timers_ok m' = timers_ok m"
  by (simp add: quiet_def timers_ok_def)

lemma pending_cong: "\<lbrakk>list_heap m' = list_heap m; timer_heap m' = timer_heap m\<rbrakk> \<Longrightarrow> pending m' = pending m"
  by (rule ext) (simp add: pending_def)

lemma quiet_trans: "\<lbrakk>quiet m m'; quiet m' m''\<rbrakk> \<Longrightarrow> quiet m m''"
  by (simp add: quiet_def)

text \<open>When the spans before time \<open>T\<close> are moved and \<open>T\<close> is the beginning of a span, its list holds the timers that expire in it.\<close>

lemma current_span:
  assumes "fits c T (256 + 64 * k + c k mod 64) e" "T = c k * wspan k"
  shows "T \<le> e" "e < T + wspan k"
proof -
  define b where "b = wspan k"
  have j: "c k mod 64 < 64" by simp
  have "e div b = c k" unfolding b_def by (rule window_unique [OF fits_group [OF assms(1) j]])
  then have "c k * b + e mod b = e" using div_mult_mod_eq [of e b] by (simp only:)
  moreover have "e mod b < b" by (rule mod_less_divisor) (simp add: b_def)
  moreover have "T = c k * b" unfolding b_def by (rule assms(2))
  ultimately have "T \<le> e \<and> e < T + b" by linarith
  then show "T \<le> e" "e < T + wspan k" unfolding b_def by simp_all
qed

lemma move_loop_ok:
  "\<lbrakk>wheel m sl c; k < 4; i = 256 + 64 * k + c k mod 64; unat (timer_jiffies m) = c k * wspan k\<rbrakk> \<Longrightarrow>
     \<exists>m' sl'. move_loop m (Owner i) (Some (hd (map Member (sl i) @ [Owner i]))) = Some m' \<and> wheel m' sl' c \<and> sl' i = [] \<and>
       quiet m m' \<and> tl m' = tl m"
proof (induction "length (sl i)" arbitrary: m sl)
  case 0
  then have "move_loop m (Owner i) (Some (hd (map Member (sl i) @ [Owner i]))) = Some m" by (simp add: move_loop.simps)
  with 0 show ?case by (auto simp: quiet_def)
next
  case (Suc n)
  let ?T = "unat (timer_jiffies m)"
  note w = Suc.prems(1) and slots = wheel_slots [OF Suc.prems(1)]
  from Suc.hyps(2) obtain t ts where sl: "sl i = t # ts" by (metis length_Suc_conv)
  have i: "i \<in> {..<512}" by (rule slots_bound [OF slots, of t]) (simp add: sl)
  obtain ti where ti: "timer_heap m t = Some ti" using slots_sub [OF slots, of t] sl unfolding in_slots_def by (metis domD list.set_intros(1))
  have f: "fits c ?T i (unat (expire ti))" using w ti sl unfolding wheel_def by (metis list.set_intros(1))
  have e: "?T \<le> unat (expire ti)" "unat (expire ti) < ?T + wspan k"
    using current_span [of c ?T k] f Suc.prems(3,4) by auto
  have "wspan k \<le> wspan 3" using Suc.prems(2) by (intro power_increasing) auto
  then have e31: "unat (expire ti) < ?T + 2 ^ 31" using e(2) by simp
  let ?i = "get_timer_list m ti"
  have f': "fits c ?T ?i (unat (expire ti))" by (rule get_timer_list_fits) (use w e(1) e31 in \<open>auto simp: wheel_def\<close>)
  have "?i < 256 + 64 * k" by (rule get_timer_list_finer) (use w e Suc.prems(2) in \<open>auto simp: wheel_def\<close>)
  then have ne: "?i \<noteq> i" using Suc.prems(3) by simp
  have "t \<in> set (sl i)" using sl by simp
  from slots_del [OF slots this] obtain h1 where h1: "listnode_del (list_heap m) (Member t) = Some h1"
    "slots_ok h1 (sl(i := ts)) (dom (timer_heap m))" by (auto simp: sl)
  have d: "t \<notin> set ts" using slots_distinct [OF slots i] by (simp add: sl)
  have "\<not> in_slots (sl(i := ts)) t"
    using d slots_disj [OF slots, of t i] sl by (auto simp: in_slots_def)
  from slots_add [OF h1(2) fits_bound [OF f'] _ this] ti obtain h2 where h2: "listnode_add h1 (Owner ?i) (Member t) = Some h2"
    "slots_ok h2 (sl(i := ts, ?i := sl ?i @ [t])) (dom (timer_heap m))" using ne by auto
  let ?m = "m\<lparr>list_heap := h2\<rparr>" and ?sl = "sl(i := ts, ?i := sl ?i @ [t])"
  have w2: "wheel ?m ?sl c"
  proof (rule wheel_change [OF w])
    show "slots_ok (list_heap ?m) ?sl (dom (timer_heap ?m))" using h2(2) by simp
    fix x y z assume "y \<in> set (?sl x)" "timer_heap ?m y = Some z"
    then consider "y \<in> set (sl x)" "timer_heap m y = Some z" | "y = t" "x = ?i" "z = ti"
      using ti sl by (auto split: if_splits)
    then show "fits c ?T x (unat (expire z))"
      by cases (use w f' in \<open>auto simp: wheel_def\<close>)
  qed simp
  have "set (?sl y) \<subseteq> set (sl i) \<union> set (sl y)" "set (sl y) \<subseteq> set (?sl ?i) \<union> set (?sl y)" for y using sl ne by auto
  then have "in_slots ?sl x = in_slots sl x" for x unfolding in_slots_def by blast
  then have q: "quiet m ?m"
    using pending_slots [OF slots] pending_slots [OF wheel_slots [OF w2]] by (auto simp: quiet_def fun_eq_iff)
  have ring: "ring (list_heap m) (Owner i) (map Member (sl i))" using slots_ring [OF slots i] .
  then obtain nd where nd: "list_heap m (Member t) = Some nd" "ln_next nd = Some (hd (map Member ts @ [Owner i]))"
    by (cases ts) (auto simp: ring_def sl)
  have step: "move_loop m (Owner i) (Some (hd (map Member (sl i) @ [Owner i]))) =
      move_loop ?m (Owner i) (Some (hd (map Member (?sl i) @ [Owner i])))"
    using h1(1) h2(1) nd ti ne by (subst move_loop.simps) (simp add: sl list_entry_def ln_at_def)
  have "n = length (?sl i)" using Suc.hyps(2) sl ne by simp
  from Suc.hyps(1) [OF this w2 Suc.prems(2,3)] Suc.prems(4) step quiet_trans [OF q]
  show ?case by fastforce
qed

text \<open>A turn of group \<open>k\<close> at the beginning of a span.\<close>

lemma fits_turn:
  assumes f: "fits c T i e" and k: "k < 4" and ne: "i \<noteq> 256 + 64 * k + c k mod 64"
  shows "fits (c(k := c k + 1)) T i e"
proof (cases "256 \<le> i \<and> (i - 256) div 64 = k")
  case False
  then show ?thesis using f by (auto simp: fits_def Let_def)
next
  case True
  define j where "j = (i - 256) mod 64"
  have "i = 256 + ((i - 256) div 64 * 64 + j)" unfolding j_def div_mult_mod_eq using True by simp
  then have i: "i = 256 + 64 * k + j" "j < 64" using True by (simp_all add: j_def)
  note g = fits_group [OF f [unfolded i(1)] i(2)]
  have "e div wspan k \<noteq> c k"
  proof
    assume "e div wspan k = c k"
    then have "j = c k mod 64" using g(1) by (simp only:)
    with ne i(1) show False by simp
  qed
  with g(2) have "c k + 1 \<le> e div wspan k" by linarith
  moreover have "e div wspan k < c k + 1 + 64" using g(3) by linarith
  moreover have "i < 512" "T \<le> e" using fits_bound [OF f] fits_le [OF f] by simp_all
  ultimately show ?thesis using g(1) group_index [OF i(2), of k] unfolding i(1) fits_def by (simp add: Let_def)
qed

lemma turned_turn:
  assumes "turned c T" "T = c k * wspan k" "k < 4"
  shows "turned (c(k := c k + 1)) T"
proof -
  have "T div wspan k = c k" "T \<le> (c k + 1) * wspan k" unfolding assms(2) by simp_all
  then show ?thesis using assms(1) by (simp add: turned_def)
qed

lemma move_timers_ok:
  assumes w: "wheel m sl c" and k: "k < 4" and T: "unat (timer_jiffies m) = c k * wspan k"
  shows "\<exists>m' sl'. move_timers m (Suc k) = Some m' \<and> wheel m' sl' (c(k := c k + 1)) \<and> quiet m m'"
proof -
  let ?tv = "tl m ! Suc k" and ?c = "c(k := c k + 1)"
  have lay: "timer_list ?tv = 256 + 64 * k" "unat (index ?tv) = c k mod 64" "length (tl m) = 5"
    using w k by (simp_all add: wheel_def layout_def)
  let ?i = "256 + 64 * k + c k mod 64"
  have "c k mod 64 < 64" by simp
  then have "?i < 512" using k by linarith
  then have ring: "ring (list_heap m) (Owner ?i) (map Member (sl ?i))" using slots_ring [OF wheel_slots [OF w]] by simp
  then obtain nd where nd: "list_heap m (Owner ?i) = Some nd" "ln_next nd = Some (hd (map Member (sl ?i) @ [Owner ?i]))"
    by (cases "sl ?i") (auto simp: ring_def)
  from move_loop_ok [OF w k refl T] obtain m1 sl1 where m1: "move_loop m (Owner ?i) (ln_next nd) = Some m1" "wheel m1 sl1 c"
    "sl1 ?i = []" "quiet m m1" "tl m1 = tl m" unfolding nd(2) by blast
  let ?m = "m1\<lparr>tl := (tl m1)[Suc k := ?tv\<lparr>index := (index ?tv + 1) AND 63\<rparr>]\<rparr>"
  have idx: "unat ((index ?tv + 1) AND 63) = (c k + 1) mod 64"
    using unat_u32_Suc [of "index ?tv"] lay(2) by (simp add: unat_u32_and_63 mod_Suc_eq)
  have "wheel ?m sl1 ?c" unfolding wheel_def
  proof (intro conjI allI impI)
    show "slots_ok (list_heap ?m) sl1 (dom (timer_heap ?m))" using m1(2) by (simp add: wheel_def)
    show "layout ?m" using m1(2,5) lay(1,3) k by (auto simp: wheel_def layout_def nth_list_update)
    show "turned ?c (unat (timer_jiffies ?m))" using turned_turn [of c, OF _ T k] w m1(4) by (simp add: wheel_def quiet_def)
    show "unat (index (tl ?m ! 0)) = unat (timer_jiffies ?m) mod 256" using m1(2) by (simp add: wheel_def)
    fix j assume "j < (4 :: nat)"
    then show "unat (index (tl ?m ! Suc j)) = ?c j mod 64" using m1(2,5) lay(3) k idx by (auto simp: wheel_def nth_list_update)
  next
    fix i t ti assume t: "t \<in> set (sl1 i)" "timer_heap ?m t = Some ti"
    then have "fits c (unat (timer_jiffies m1)) i (unat (expire ti))" using m1(2) by (auto simp: wheel_def)
    moreover have "i \<noteq> ?i" using t(1) m1(3) by auto
    ultimately show "fits ?c (unat (timer_jiffies ?m)) i (unat (expire ti))" using fits_turn [OF _ k] by simp
  qed
  moreover have "move_timers m (Suc k) = Some ?m"
    using nd(1) m1(1) lay(1,2) by (simp add: move_timers_def Let_def)
  moreover have "quiet m ?m" using m1(4) pending_cong [of ?m m1] by (simp add: quiet_def)
  ultimately show ?thesis by blast
qed

text \<open>The counters of turns between ticks, and after the turns of tick \<open>T\<close>.\<close>

definition turns_before :: "nat \<Rightarrow> nat \<Rightarrow> nat" where
  "turns_before T k = (T + wspan k - 1) div wspan k"

definition turns_after :: "nat \<Rightarrow> nat \<Rightarrow> nat" where
  "turns_after T k = T div wspan k + 1"

lemma turns_before_after:
  "turns_before T k = (if T mod wspan k = 0 then T div wspan k else turns_after T k)"
proof -
  define b where "b = wspan k"
  define q r where "q = T div b" and "r = T mod b"
  have b: "0 < b" by (simp add: b_def)
  have T: "T = q * b + r" "r < b" using b by (simp_all add: q_def r_def)
  have "(T + b - 1) div b = (if r = 0 then q else q + 1)"
  proof (cases "r = 0")
    case True
    then have "T + b - 1 = (b - 1) + q * b" using T b by simp
    moreover have "b - 1 < b" using b by simp
    ultimately show ?thesis using True by (simp only: div_mult_self1) simp
  next
    case False
    then have "T + b - 1 = (r - 1) + (q + 1) * b" using T by simp
    moreover have "r - 1 < b" using T(2) by simp
    ultimately show ?thesis using False by (simp only: div_mult_self1) simp
  qed
  then show ?thesis by (simp add: turns_before_def turns_after_def b_def q_def r_def)
qed

lemma turns_after_before: "turns_before (T + 1) k = turns_after T k"
  by (simp add: turns_before_def turns_after_def)

lemma wspan_Suc_dvd:
  assumes "T = q * wspan k"
  shows "T mod wspan (Suc k) = 0 \<longleftrightarrow> q mod 64 = 0"
proof -
  define b where "b = wspan k"
  have "0 < b" "wspan (Suc k) = 64 * b" by (simp_all add: b_def power_add)
  moreover have "T = q * b" using assms by (simp add: b_def)
  ultimately show ?thesis by (simp add: mod_mult_mult2)
qed


lemma turn_mod: "T mod wspan k \<noteq> 0 \<Longrightarrow> k \<le> l \<Longrightarrow> T mod wspan l \<noteq> 0"
proof -
  assume "T mod wspan k \<noteq> 0" "k \<le> l"
  moreover have "wspan k dvd wspan l" using \<open>k \<le> l\<close> by (intro le_imp_power_dvd) simp
  ultimately show ?thesis by (meson dvd_trans mod_eq_0_iff_dvd)
qed

lemma cascade_ok:
  "\<lbrakk>wheel m sl c; k < 4; T = unat (timer_jiffies m); T mod wspan k = 0;
    \<And>j. j < k \<Longrightarrow> c j = turns_after T j; \<And>j. \<lbrakk>k \<le> j; j < 4\<rbrakk> \<Longrightarrow> c j = turns_before T j\<rbrakk> \<Longrightarrow>
   \<exists>m' sl' c'. cascade m (Suc k) = Some m' \<and> wheel m' sl' c' \<and> quiet m m' \<and> (\<forall>j < 4. c' j = turns_after T j)"
proof (induction "3 - k" arbitrary: m sl c k)
  case (0 k m sl c)
  then have k: "k = 3" by simp
  have ck: "c k = T div wspan k" using 0 by (simp add: turns_before_after)
  have "unat (timer_jiffies m) = c k * wspan k" using ck 0(4,5) by (metis add.right_neutral div_mult_mod_eq)
  from move_timers_ok [OF 0(2,3) this] obtain m' sl' where m': "move_timers m (Suc k) = Some m'" "wheel m' sl' (c(k := c k + 1))" "quiet m m'"
    by blast
  moreover have "\<forall>j < 4. (c(k := c k + 1)) j = turns_after T j" using 0(6) ck k by (auto simp: turns_after_def)
  moreover have "cascade m (Suc k) = Some m'" using m'(1) k by (subst cascade.simps) simp
  ultimately show ?case by blast
next
  case (Suc n k m sl c)
  then have k: "Suc k < 4" by simp
  have ck: "c k = T div wspan k" using Suc.prems by (simp add: turns_before_after)
  have T: "T = c k * wspan k" using ck Suc.prems(4) by (metis add.right_neutral div_mult_mod_eq)
  from move_timers_ok [OF Suc.prems(1,2) T [unfolded Suc.prems(3)]]
  obtain m1 sl1 where m1: "move_timers m (Suc k) = Some m1" "wheel m1 sl1 (c(k := c k + 1))" "quiet m m1"
    by blast
  let ?c = "c(k := c k + 1)"
  have "unat (index (tl m1 ! Suc k)) = (c k + 1) mod 64" using m1(2) Suc.prems(2) by (simp add: wheel_def)
  then have idx: "index (tl m1 ! Suc k) = 1 \<longleftrightarrow> T mod wspan (Suc k) = 0"
    unfolding wspan_Suc_dvd [OF T] by (simp add: word_unat_eq_iff mod_Suc)
  have T1: "T = unat (timer_jiffies m1)" using m1(3) Suc.prems(3) by (simp add: quiet_def)
  have fin: "?c j = turns_after T j" if "j < Suc k" for j
    using that Suc.prems(5) ck by (cases "j = k") (auto simp: turns_after_def)
  show ?case
  proof (cases "T mod wspan (Suc k) = 0")
    case True
    have "\<exists>m' sl' c'. cascade m1 (Suc (Suc k)) = Some m' \<and> wheel m' sl' c' \<and> quiet m1 m' \<and> (\<forall>j < 4. c' j = turns_after T j)"
      using Suc.hyps(2) Suc.prems(6) by (intro Suc.hyps(1) [OF _ m1(2) k T1 True fin]) auto
    moreover have "cascade m (Suc k) = cascade m1 (Suc (Suc k))" using m1(1) idx True k by (subst cascade.simps) simp
    ultimately show ?thesis using quiet_trans [OF m1(3)] by fastforce
  next
    case False
    have "?c j = turns_after T j" if "j < 4" for j
    proof (cases "j < Suc k")
      case False
      then have "T mod wspan j \<noteq> 0" using turn_mod [OF \<open>T mod wspan (Suc k) \<noteq> 0\<close>] by simp
      then show ?thesis using False that Suc.prems(6) [of j] by (simp add: turns_before_after)
    qed (rule fin)
    moreover have "cascade m (Suc k) = Some m1" using m1(1) idx False by (subst cascade.simps) simp
    ultimately show ?thesis using m1 by blast
  qed
qed

section \<open>Calling timers\<close>

text \<open>
  A tick of the abstract timers: as long as some timer is due at the current time, one of them is called, in any order.
  Its call takes it out and performs the operations of \<^verbatim>\<open>on_timer\<close>.
\<close>

inductive alarm_fires :: "(nat list \<Rightarrow> timer_op list) \<Rightarrow> alarms \<Rightarrow> nat list \<Rightarrow> alarms \<Rightarrow> nat list \<Rightarrow> bool"
  for on_timer where
  fires_done: "(\<And>t. due a t \<noteq> Some (now a)) \<Longrightarrow> alarm_fires on_timer a calls a calls"
| fires_call: "\<lbrakk>due a t = Some (now a); alarm_runs (a\<lparr>due := (due a)(t := None)\<rparr>) (on_timer (calls @ [t])) = Some a';
    alarm_fires on_timer a' (calls @ [t]) a'' calls'\<rbrakk> \<Longrightarrow> alarm_fires on_timer a calls a'' calls'"

text \<open>The operations of \<^verbatim>\<open>on_timer\<close> are admissible, whatever order the timers are called in.\<close>

inductive fires_ok :: "(nat list \<Rightarrow> timer_op list) \<Rightarrow> alarms \<Rightarrow> nat list \<Rightarrow> bool"
  for on_timer where
  fires_okI: "(\<And>t. due a t = Some (now a) \<Longrightarrow>
      \<exists>a'. alarm_runs (a\<lparr>due := (due a)(t := None)\<rparr>) (on_timer (calls @ [t])) = Some a' \<and> fires_ok on_timer a' (calls @ [t]))
    \<Longrightarrow> fires_ok on_timer a calls"

text \<open>After the turns of a tick, the list of the tick holds the timers that are due.\<close>

definition turning :: "timermgr_impl \<Rightarrow> (nat \<Rightarrow> nat list) \<Rightarrow> (nat \<Rightarrow> nat) \<Rightarrow> bool" where
  "turning m sl c \<longleftrightarrow> wheel m sl c \<and> timers_ok m \<and> (\<forall>k < 4. c k = turns_after (unat (timer_jiffies m)) k)"

lemma fits_now:
  assumes "fits c T i e" "\<And>k. k < 4 \<Longrightarrow> c k = turns_after T k"
  shows "e = T \<longleftrightarrow> i = T mod 256"
proof (cases "i < 256")
  case True
  then have e: "i = e mod 256" "T \<le> e" "e < T + 256" using assms(1) by (auto simp: fits_def)
  have "e = T" if "e mod 256 = T mod 256"
  proof -
    have "256 dvd e - T" using that e(2) by (simp add: mod_eq_dvd_iff_nat)
    moreover have "e - T < 256" using e by simp
    ultimately have "e - T = 0" by (meson nat_dvd_not_less not_gr_zero)
    with e(2) show ?thesis by simp
  qed
  then show ?thesis using e(1) by auto
next
  case False
  define k b where "k = (i - 256) div 64" and "b = wspan k"
  have "i < 512" using fits_bound [OF assms(1)] by simp
  then have "k < 4" using False by (simp add: k_def)
  then have "T div b + 1 \<le> e div b" using assms False by (simp add: fits_def Let_def turns_after_def b_def k_def)
  then have "e \<noteq> T" by auto
  moreover have "i \<noteq> T mod 256" using False by (metis mod_less_divisor zero_less_numeral)
  ultimately show ?thesis by simp
qed

lemma turning_due:
  assumes "turning m sl c"
  shows "t \<in> set (sl (unat (timer_jiffies m) mod 256)) \<longleftrightarrow> pending m t = Some (unat (timer_jiffies m))"
proof -
  let ?T = "unat (timer_jiffies m)"
  have w: "wheel m sl c" and c: "\<And>k. k < 4 \<Longrightarrow> c k = turns_after ?T k" using assms by (auto simp: turning_def)
  note slots = wheel_slots [OF w]
  show ?thesis
  proof (cases "in_slots sl t")
    case True
    then obtain i ti where i: "t \<in> set (sl i)" "timer_heap m t = Some ti"
      using slots_sub [OF slots True] by (auto simp: in_slots_def)
    then have "fits c ?T i (unat (expire ti))" using w unfolding wheel_def by blast
    from fits_now [OF this c] have "unat (expire ti) = ?T \<longleftrightarrow> i = ?T mod 256" by blast
    moreover have "t \<in> set (sl (?T mod 256)) \<longleftrightarrow> i = ?T mod 256" using i(1) slots_disj [OF slots i(1)] by blast
    ultimately show ?thesis using pending_slots [OF slots, of t] True i(2) by simp
  next
    case False
    then show ?thesis using pending_slots [OF slots, of t] by (simp add: in_slots_def)
  qed
qed

lemma timer_call_ok:
  assumes w: "turning m sl c" and t: "sl (unat (timer_jiffies m) mod 256) = t # ts"
  obtains ti h where "list_entry (Some (Member t)) = Some t" "listnode_del (list_heap m) (Member t) = Some h"
    "timer_heap m t = Some ti" "tmr ti = Some t" "turning (m\<lparr>list_heap := h\<rparr>) (sl(unat (timer_jiffies m) mod 256 := ts)) c"
    "abstract (m\<lparr>list_heap := h\<rparr>) = (abstract m)\<lparr>due := (pending m)(t := None)\<rparr>"
proof -
  let ?i = "unat (timer_jiffies m) mod 256"
  have wh: "wheel m sl c" using w by (simp add: turning_def)
  note slots = wheel_slots [OF wh]
  have ti0: "t \<in> set (sl ?i)" using t by simp
  then obtain ti where ti: "timer_heap m t = Some ti" using slots_sub [OF slots, of t] unfolding in_slots_def by blast
  from slots_del [OF slots ti0] obtain h where h: "listnode_del (list_heap m) (Member t) = Some h"
    "slots_ok h (sl(?i := ts)) (dom (timer_heap m))" by (auto simp: t)
  let ?m = "m\<lparr>list_heap := h\<rparr>" and ?sl = "sl(?i := ts)"
  have "t \<notin> set ts" using slots_distinct [OF slots slots_bound [OF slots ti0]] by (simp add: t)
  then have set_sl: "set (?sl k) = set (sl k) - {t}" for k using slots_disj [OF slots ti0] t by auto
  then have in_sl: "in_slots ?sl x \<longleftrightarrow> in_slots sl x \<and> x \<noteq> t" for x unfolding in_slots_def by blast
  have "wheel ?m ?sl c"
  proof (rule wheel_change [OF wh])
    fix k x tt assume "x \<in> set (?sl k)" "timer_heap ?m x = Some tt"
    then have "x \<in> set (sl k)" "timer_heap m x = Some tt" using set_sl by auto
    with wh show "fits c (unat (timer_jiffies m)) k (unat (expire tt))" unfolding wheel_def by blast
  qed (use h(2) in simp_all)
  then have "turning ?m ?sl c" using w by (simp add: turning_def timers_ok_def)
  moreover have "pending ?m = (pending m)(t := None)"
    using pending_slots [OF slots] pending_slots [of ?m ?sl] h(2) in_sl by (auto simp: fun_eq_iff)
  then have "abstract ?m = (abstract m)\<lparr>due := (pending m)(t := None)\<rparr>" by (simp add: abstract_def)
  moreover have "tmr ti = Some t" using w ti by (auto simp: turning_def timers_ok_def)
  ultimately show ?thesis using that [of h ti] h(1) ti by (simp add: list_entry_def)
qed

lemma run_timer_ok:
  "\<lbrakk>fires_ok f a calls; a = abstract m; turning m sl c; jiffies m = timer_jiffies m; unat (jiffies m) < 2 ^ 63\<rbrakk> \<Longrightarrow>
   \<exists>m' sl' calls'. run_timer f (unat (timer_jiffies m) mod 256) m calls = Some (m', calls') \<and>
     alarm_fires f a calls (abstract m') calls' \<and> turning m' sl' c \<and> sl' (unat (timer_jiffies m) mod 256) = [] \<and> same_time m m'"
proof (induction arbitrary: m sl rule: fires_ok.induct)
  case (fires_okI a calls)
  let ?i = "unat (timer_jiffies m) mod 256"
  have w: "wheel m sl c" using fires_okI.prems(2) by (simp add: turning_def)
  have ring: "ring (list_heap m) (Owner ?i) (map Member (sl ?i))"
    by (rule slots_ring [OF wheel_slots [OF w]]) (simp add: order_less_trans [OF mod_less_divisor])
  note due = turning_due [OF fires_okI.prems(2)]
  show ?case
  proof (cases "sl ?i")
    case Nil
    then have "run_timer f ?i m calls = Some (m, calls)" using ring_isempty [OF ring] by (subst run_timer.simps) simp
    moreover have "due a t \<noteq> Some (now a)" for t using due [of t] Nil fires_okI.prems(1,3) by simp
    ultimately show ?thesis using Nil fires_okI.prems(1,2) by (auto intro: fires_done)
  next
    case (Cons t ts)
    from timer_call_ok [OF fires_okI.prems(2) Cons] obtain ti h where h: "list_entry (Some (Member t)) = Some t"
      "listnode_del (list_heap m) (Member t) = Some h" "timer_heap m t = Some ti" "tmr ti = Some t"
      "turning (m\<lparr>list_heap := h\<rparr>) (sl(?i := ts)) c"
      "abstract (m\<lparr>list_heap := h\<rparr>) = (abstract m)\<lparr>due := (pending m)(t := None)\<rparr>" .
    let ?m = "m\<lparr>list_heap := h\<rparr>"
    have dt: "due a t = Some (now a)" using due [of t] Cons fires_okI.prems(1,3) by simp
    from fires_okI.IH [OF dt] obtain a' where a': "alarm_runs (abstract ?m) (f (calls @ [t])) = Some a'"
      "\<And>m sl. \<lbrakk>a' = abstract m; turning m sl c; jiffies m = timer_jiffies m; unat (jiffies m) < 2 ^ 63\<rbrakk> \<Longrightarrow>
         \<exists>m' sl' calls'. run_timer f (unat (timer_jiffies m) mod 256) m (calls @ [t]) = Some (m', calls') \<and>
           alarm_fires f a' (calls @ [t]) (abstract m') calls' \<and> turning m' sl' c \<and> sl' (unat (timer_jiffies m) mod 256) = [] \<and>
           same_time m m'"
      using h(6) fires_okI.prems(1) by auto
    have "wheel ?m (sl(?i := ts)) c" "timers_ok ?m" "clock ?m"
      using h(5) fires_okI.prems(3,4) by (simp_all add: turning_def clock_def)
    from timer_runs_refines [OF this a'(1)] obtain m1 sl1 where m1: "timer_runs ?m (f (calls @ [t])) = Some m1" "wheel m1 sl1 c"
      "timers_ok m1" "same_time ?m m1" "abstract m1 = a'" by blast
    then have tm1: "turning m1 sl1 c" and T: "timer_jiffies m1 = timer_jiffies m" "jiffies m1 = jiffies m"
      using h(5) by (simp_all add: turning_def same_time_def)
    have "jiffies m1 = timer_jiffies m1" "unat (jiffies m1) < 2 ^ 63" using T fires_okI.prems(3,4) by simp_all
    from a'(2) [OF m1(5) [symmetric] tm1 this] obtain m' sl' calls' where
      m': "run_timer f ?i m1 (calls @ [t]) = Some (m', calls')" "alarm_fires f a' (calls @ [t]) (abstract m') calls'"
        "turning m' sl' c" "sl' ?i = []" "same_time m1 m'" unfolding T by blast
    obtain nd where nd: "list_heap m (Owner ?i) = Some nd" "ln_next nd = Some (Member t)"
      using ring Cons by (auto simp: ring_def)
    have "run_timer f ?i m calls = Some (m', calls')"
      using ring_isempty [OF ring] Cons nd h(1-4) m1(1) m'(1) by (subst run_timer.simps) simp
    moreover have "alarm_fires f a calls (abstract m') calls'"
      using dt a'(1) m'(2) h(6) fires_okI.prems(1) by (intro fires_call [OF dt]) auto
    moreover have "same_time m m'" using m1(4) m'(5) by (simp add: same_time_def)
    ultimately show ?thesis using m'(3,4) by blast
  qed
qed

section \<open>Ticks\<close>

lemma turn_ok:
  assumes w: "wheel m sl c" "timers_ok m" and c: "\<And>k. k < 4 \<Longrightarrow> c k = turns_before (unat (timer_jiffies m)) k"
  shows "\<exists>m' sl' c'. (if index (tl m ! 0) = 0 then cascade m 1 else Some m) = Some m' \<and> turning m' sl' c' \<and> quiet m m'"
proof -
  let ?T = "unat (timer_jiffies m)"
  have "unat (index (tl m ! 0)) = ?T mod wspan 0" using w(1) by (simp add: wheel_def)
  then have idx: "index (tl m ! 0) = 0 \<longleftrightarrow> ?T mod wspan 0 = 0" by (metis unat_0 unat_eq_zero)
  show ?thesis
  proof (cases "?T mod wspan 0 = 0")
    case True
    from cascade_ok [OF w(1) _ refl True] c obtain m' sl' c' where m': "cascade m 1 = Some m'" "wheel m' sl' c'" "quiet m m'"
      "\<forall>j < 4. c' j = turns_after ?T j" by auto
    then have "turning m' sl' c'" using w(2) by (simp add: turning_def quiet_timers_ok) (simp add: quiet_def)
    with m' idx True show ?thesis by auto
  next
    case False
    have "c k = turns_after ?T k" if "k < 4" for k
      using c [OF that] turn_mod [OF False, of k] by (simp add: turns_before_after)
    then have "turning m sl c" using w by (simp add: turning_def)
    with idx False show ?thesis by (auto simp: quiet_def)
  qed
qed

lemma advance_ok:
  assumes t: "turning m sl c" and sl: "sl (unat (timer_jiffies m) mod 256) = []" and T: "unat (timer_jiffies m) < 2 ^ 63 + 1"
    and m': "m' = m\<lparr>tl := (tl m)[0 := (tl m ! 0)\<lparr>index := (index (tl m ! 0) + 1) AND 255\<rparr>], timer_jiffies := timer_jiffies m + 1\<rparr>"
  shows "wheel m' sl c" "\<And>k. k < 4 \<Longrightarrow> c k = turns_before (unat (timer_jiffies m')) k"
    "unat (timer_jiffies m') = unat (timer_jiffies m) + 1"
proof -
  let ?T = "unat (timer_jiffies m)"
  have w: "wheel m sl c" and c: "\<And>k. k < 4 \<Longrightarrow> c k = turns_after ?T k" using t by (auto simp: turning_def)
  have T': "unat (timer_jiffies m') = ?T + 1" using T m' by (simp add: unat_word_ariths)
  then show "unat (timer_jiffies m') = ?T + 1" .
  show "c k = turns_before (unat (timer_jiffies m')) k" if "k < 4" for k
    unfolding T' turns_after_before by (rule c [OF that])
  have lay: "length (tl m) = 5" "unat (index (tl m ! 0)) = ?T mod 256" using w by (simp_all add: wheel_def layout_def)
  have idx: "unat ((index (tl m ! 0) + 1) AND 255) = (?T + 1) mod 256"
    using unat_u32_Suc [of "index (tl m ! 0)"] lay(2) by (simp add: unat_u32_and_255 mod_Suc_eq)
  have turned: "turned c (?T + 1)" unfolding turned_def
  proof (intro allI impI conjI)
    fix k assume "k < (4 :: nat)"
    define b where "b = wspan k"
    have "0 < b" by (simp add: b_def)
    then have "?T < (?T div b + 1) * b" using dividend_less_div_times [of b ?T] by (simp add: distrib_right add.commute)
    then show "?T + 1 \<le> c k * wspan k" using c [OF \<open>k < 4\<close>] by (simp add: turns_after_def b_def)
    have "?T div b \<le> (?T + 1) div b" by (rule div_le_mono) simp
    then show "c k \<le> (?T + 1) div wspan k + 1" using c [OF \<open>k < 4\<close>] by (simp add: turns_after_def b_def)
  qed
  show "wheel m' sl c" unfolding wheel_def T'
  proof (intro conjI allI impI)
    show "slots_ok (list_heap m') sl (dom (timer_heap m'))" using w m' by (simp add: wheel_def)
    show "layout m'" using w m' lay(1) by (simp add: wheel_def layout_def)
    show "turned c (?T + 1)" by (rule turned)
    show "unat (index (tl m' ! 0)) = (?T + 1) mod 256" using m' lay(1) idx by simp
    fix k assume "k < (4 :: nat)"
    then show "unat (index (tl m' ! Suc k)) = c k mod 64" using w m' by (simp add: wheel_def)
  next
    fix i x ti assume x: "x \<in> set (sl i)" "timer_heap m' x = Some ti"
    then have f: "fits c ?T i (unat (expire ti))" using w m' by (auto simp: wheel_def)
    moreover have "i \<noteq> ?T mod 256" using x(1) sl by auto
    then have "unat (expire ti) \<noteq> ?T" using fits_now [OF f c] by blast
    ultimately show "fits c (?T + 1) i (unat (expire ti))" by (auto simp: fits_def Let_def)
  qed
qed

text \<open>The state between ticks. Before the first tick both counters are 0, later the wheel is one tick ahead.\<close>

definition at_rest :: "timermgr_impl \<Rightarrow> bool" where
  "at_rest m \<longleftrightarrow>
     (\<exists>sl c. wheel m sl c \<and> (\<forall>k < 4. c k = turns_before (unat (timer_jiffies m)) k)) \<and> timers_ok m \<and> clock m \<and>
     (timer_jiffies m = jiffies m \<longrightarrow> jiffies m = 0) \<and> (\<forall>t e. pending m t = Some e \<longrightarrow> unat (jiffies m) < e)"

text \<open>One pass of the loop, at the tick for which it stands.\<close>

lemma tick_ok:
  assumes w: "wheel m sl c" "timers_ok m" "\<And>k. k < 4 \<Longrightarrow> c k = turns_before (unat (timer_jiffies m)) k"
    and J: "jiffies m = timer_jiffies m" "unat (jiffies m) < 2 ^ 63" and f: "fires_ok f (abstract m) calls"
  shows "\<exists>m' calls'. run_timer_list f m calls = Some (m', calls') \<and> alarm_fires f (abstract m) calls (abstract m') calls' \<and> at_rest m' \<and>
    jiffies m' = jiffies m \<and> min_interval m' = min_interval m \<and> prev m' = prev m \<and> delta m' = delta m"
proof -
  let ?T = "unat (timer_jiffies m)"
  from turn_ok [OF w] obtain m1 sl1 c1 where m1: "(if index (tl m ! 0) = 0 then cascade m 1 else Some m) = Some m1"
    "turning m1 sl1 c1" "quiet m m1" by blast
  have T1: "timer_jiffies m1 = timer_jiffies m" "jiffies m1 = jiffies m" "abstract m1 = abstract m"
    using m1(3) quiet_abstract [OF m1(3)] by (simp_all add: quiet_def)
  from run_timer_ok [OF f [folded T1(3)] refl m1(2)] J obtain m2 sl2 calls' where
    m2: "run_timer f (?T mod 256) m1 calls = Some (m2, calls')" "alarm_fires f (abstract m) calls (abstract m2) calls'"
      "turning m2 sl2 c1" "sl2 (?T mod 256) = []" "same_time m1 m2"
    unfolding T1 by blast
  define m3 where "m3 = m2\<lparr>tl := (tl m2)[0 := (tl m2 ! 0)\<lparr>index := (index (tl m2 ! 0) + 1) AND 255\<rparr>],
    timer_jiffies := timer_jiffies m2 + 1\<rparr>"
  have T2: "timer_jiffies m2 = timer_jiffies m" "jiffies m2 = jiffies m" "tl m2 = tl m1" using m2(5) T1 by (simp_all add: same_time_def)
  have sl2: "sl2 (unat (timer_jiffies m2) mod 256) = []" "unat (timer_jiffies m2) < 2 ^ 63 + 1" using m2(4) J T2 by simp_all
  note m3 = advance_ok [OF m2(3) sl2 m3_def]
  have J3: "jiffies m3 = jiffies m" "unat (timer_jiffies m3) = unat (jiffies m) + 1" "unat (jiffies m3) < 2 ^ 63"
    using m3(3) T2 J by (simp_all add: m3_def)
  have "jiffies m3 < timer_jiffies m3" using J3 by (simp add: word_less_nat_alt)
  then have "run_timer_list f m3 calls' = Some (m3, calls')" by (subst run_timer_list.simps) simp
  moreover have "timer_list (tl m1 ! 0) + unat (index (tl m1 ! 0)) = ?T mod 256"
    using m1(2) T1(1) by (simp add: turning_def wheel_def layout_def)
  ultimately have r: "run_timer_list f m calls = Some (m3, calls')"
    using m1(1) m2(1) J(1) by (subst run_timer_list.simps) (simp add: m3_def Let_def)
  have p3: "pending m3 = pending m2" by (rule pending_cong) (simp_all add: m3_def)
  then have a3: "abstract m3 = abstract m2" by (simp add: abstract_def m3_def)
  have "unat (jiffies m3) < e" if "pending m3 t = Some e" for t e
  proof -
    from that pending_slots [OF wheel_slots [OF m3(1)], of t] obtain i ti where "t \<in> set (sl2 i)" "timer_heap m3 t = Some ti" "e = unat (expire ti)"
      by (auto simp: in_slots_def split: if_splits)
    then have "fits c1 (unat (timer_jiffies m3)) i e" using m3(1) unfolding wheel_def by blast
    from fits_le [OF this] J3 show ?thesis by simp
  qed
  moreover have "timers_ok m3" using m2(3) by (simp add: turning_def timers_ok_def m3_def)
  moreover have "clock m3" using J3 by (simp add: clock_def)
  moreover have "timer_jiffies m3 \<noteq> jiffies m3" using J3(1,2) by auto
  ultimately have "at_rest m3" using m3(1,2) unfolding at_rest_def by blast
  moreover have "min_interval m3 = min_interval m" "prev m3 = prev m" "delta m3 = delta m"
    using m2(5) m1(3) by (simp_all add: m3_def same_time_def quiet_def)
  ultimately show ?thesis using r m2(2) a3 J3(1) by auto
qed

text \<open>The first pass stands for tick 0, at which no timer is due.\<close>

lemma first_pass_ok:
  assumes w: "wheel m sl c" "timers_ok m" "\<And>k. k < 4 \<Longrightarrow> c k = turns_before (unat (timer_jiffies m)) k"
    and T: "timer_jiffies m = 0" and p: "\<And>t. pending m t \<noteq> Some 0"
  shows "\<exists>m' sl' c'. run_timer_list f m calls = run_timer_list f m' calls \<and> wheel m' sl' c' \<and> timers_ok m' \<and>
    (\<forall>k < 4. c' k = turns_before 1 k) \<and> timer_jiffies m' = 1 \<and> jiffies m' = jiffies m \<and> abstract m' = abstract m \<and>
    min_interval m' = min_interval m \<and> prev m' = prev m \<and> delta m' = delta m"
proof -
  from turn_ok [OF w] obtain m1 sl1 c1 where m1: "(if index (tl m ! 0) = 0 then cascade m 1 else Some m) = Some m1"
    "turning m1 sl1 c1" "quiet m m1" by blast
  have T1: "timer_jiffies m1 = 0" "jiffies m1 = jiffies m" "pending m1 = pending m" "abstract m1 = abstract m"
    using m1(3) T quiet_abstract [OF m1(3)] by (simp_all add: quiet_def)
  have "t \<notin> set (sl1 (unat (timer_jiffies m1) mod 256))" for t using turning_due [OF m1(2), of t] p [of t] T1(1,3) by simp
  then have e: "sl1 (unat (timer_jiffies m1) mod 256) = []" by (meson last_in_set)
  have T0: "unat (timer_jiffies m1) < 2 ^ 63 + 1" using T1(1) by simp
  define m3 where "m3 = m1\<lparr>tl := (tl m1)[0 := (tl m1 ! 0)\<lparr>index := (index (tl m1 ! 0) + 1) AND 255\<rparr>],
    timer_jiffies := timer_jiffies m1 + 1\<rparr>"
  note m3 = advance_ok [OF m1(2) e T0 m3_def]
  have wh: "wheel m1 sl1 c1" using m1(2) by (simp add: turning_def)
  have "ring (list_heap m1) (Owner 0) (map Member (sl1 0))" by (rule slots_ring [OF wheel_slots [OF wh]]) simp
  from ring_isempty [OF this] e T1(1) have "run_timer f 0 m1 calls = Some (m1, calls)" by (subst run_timer.simps) simp
  moreover have "timer_list (tl m1 ! 0) + unat (index (tl m1 ! 0)) = 0" using wh T1(1) by (simp add: wheel_def layout_def)
  ultimately have "run_timer_list f m calls = run_timer_list f m3 calls"
    using m1(1) T by (subst run_timer_list.simps) (simp add: m3_def Let_def)
  moreover have "pending m3 = pending m1" by (rule pending_cong) (simp_all add: m3_def)
  then have "abstract m3 = abstract m" using T1(4) by (simp add: abstract_def m3_def)
  moreover have "timers_ok m3" using m1(2) by (simp add: turning_def timers_ok_def m3_def)
  moreover have "timer_jiffies m3 = 1" "jiffies m3 = jiffies m" using T1 by (simp_all add: m3_def)
  moreover have "min_interval m3 = min_interval m" "prev m3 = prev m" "delta m3 = delta m"
    using m1(3) by (simp_all add: m3_def quiet_def)
  moreover have "\<forall>k < 4. c1 k = turns_before 1 k" using m3(2,3) T1(1) by simp
  ultimately show ?thesis using m3(1) by blast
qed

lemma steprun_ok:
  assumes r: "at_rest m" and J: "unat (jiffies m) + 1 < 2 ^ 63"
    and f: "fires_ok f ((abstract m)\<lparr>now := unat (jiffies m) + 1\<rparr>) calls"
  shows "\<exists>m' calls'. steprun f m calls = Some (m', calls') \<and> at_rest m' \<and>
    alarm_fires f ((abstract m)\<lparr>now := unat (jiffies m) + 1\<rparr>) calls (abstract m') calls' \<and>
    unat (jiffies m') = unat (jiffies m) + 1 \<and> min_interval m' = min_interval m \<and> prev m' = prev m \<and> delta m' = delta m"
proof -
  from r obtain sl c where w: "wheel m sl c" "\<And>k. k < 4 \<Longrightarrow> c k = turns_before (unat (timer_jiffies m)) k" "timers_ok m" "clock m"
    "timer_jiffies m = jiffies m \<longrightarrow> jiffies m = 0" "\<forall>t e. pending m t = Some e \<longrightarrow> unat (jiffies m) < e"
    by (auto simp: at_rest_def)
  let ?m = "m\<lparr>jiffies := jiffies m + 1\<rparr>"
  have J1: "unat (jiffies ?m) = unat (jiffies m) + 1" using J by (simp add: unat_word_ariths)
  have pm: "pending ?m = pending m" by (rule pending_cong) simp_all
  then have am: "abstract ?m = (abstract m)\<lparr>now := unat (jiffies m) + 1\<rparr>" using J1 by (simp add: abstract_def)
  have wm: "wheel ?m sl c" "timers_ok ?m" using w(1,3) by (simp_all add: wheel_def layout_def timers_ok_def)
  show ?thesis
  proof (cases "timer_jiffies m = jiffies m")
    case True
    then have z: "timer_jiffies ?m = 0" "unat (jiffies ?m) = 1" using w(5) J1 by simp_all
    have "pending ?m t \<noteq> Some 0" for t using w(6) pm by (metis not_less_zero)
    with first_pass_ok [OF wm _ z(1), of f calls] w(2) obtain m' sl' c' where m': "run_timer_list f ?m calls = run_timer_list f m' calls"
      "wheel m' sl' c'" "timers_ok m'" "\<forall>k < 4. c' k = turns_before 1 k" "timer_jiffies m' = 1" "jiffies m' = jiffies ?m"
      "abstract m' = abstract ?m" "min_interval m' = min_interval m" "prev m' = prev m" "delta m' = delta m" by auto
    have "jiffies m' = timer_jiffies m'" using m'(5,6) z(2) by (simp add: word_unat_eq_iff)
    with tick_ok [OF m'(2,3), of f calls] m' f am z(2) show ?thesis by (auto simp: steprun_def)
  next
    case False
    then have "unat (timer_jiffies m) = unat (jiffies m) + 1" using w(4) by (auto simp: clock_def word_unat_eq_iff)
    then have "jiffies ?m = timer_jiffies ?m" "unat (jiffies ?m) < 2 ^ 63" using J1 J by (simp_all add: word_unat_eq_iff)
    with tick_ok [OF wm, of f calls] w(2) f am J1 show ?thesis by (auto simp: steprun_def)
  qed
qed

end
