(* ===== verification/Timer.thy ===== *)
theory Timer
  imports Timer_Ticks
begin

unbundle bit_operations_syntax

text \<open>
  The properties of the timers: the manager refines the abstract alarms in all its reachable
  states, a running timer is called exactly in the tick at which it expires, and the number of ticks follows the clock without drift.
\<close>

section \<open>Initial state\<close>

lemma init_lists_ok:
  "\<lbrakk>distinct is; \<And>i. i \<in> set is \<Longrightarrow> h (Owner i) \<noteq> None\<rbrakk> \<Longrightarrow>
     \<exists>h'. init_lists is h = Some h' \<and> (\<forall>i \<in> set is. ring h' (Owner i) []) \<and> (\<forall>a. a \<notin> Owner ` set is \<longrightarrow> h' a = h a)"
proof (induction "is" arbitrary: h)
  case Nil
  then show ?case by simp
next
  case (Cons i "is")
  let ?h = "h(Owner i \<mapsto> \<lparr>ln_next = Some (Owner i), ln_prev = Some (Owner i)\<rparr>)"
  obtain y where "h (Owner i) = Some y" using Cons.prems(2) [of i] by auto
  then have i: "listnode_init h (Owner i) = Some ?h" by (cases y) (simp add: listnode_init_def set_next_def set_prev_def)
  have "\<And>k. k \<in> set is \<Longrightarrow> ?h (Owner k) \<noteq> None" using Cons.prems(2) by simp
  moreover have "distinct is" using Cons.prems(1) by simp
  ultimately obtain h' where h': "init_lists is ?h = Some h'" "\<forall>k \<in> set is. ring h' (Owner k) []"
    "\<forall>a. a \<notin> Owner ` set is \<longrightarrow> h' a = ?h a" using Cons.IH [of ?h] by blast
  have "h' (Owner i) = ?h (Owner i)" using h'(3) Cons.prems(1) by auto
  then have "ring h' (Owner i) []" by (simp add: ring_def)
  with i h' show ?case by auto
qed

lemma create_at_rest:
  assumes "3 \<le> g" "g < 2 ^ 31"
  shows "\<exists>m. create_timermgr garbage g = Some m \<and> at_rest m \<and>
    abstract m = \<lparr>now = 0, grain = nat g, period = (\<lambda>_. None), due = (\<lambda>_. None)\<rparr> \<and> prev m = 0 \<and> delta m = 0 \<and> min_interval m = g"
proof -
  let ?h = "\<lambda>a. case a of Owner i \<Rightarrow> (if i < 512 then Some (garbage i) else None) | Member t \<Rightarrow> None"
  obtain h where h: "init_lists [0..<512] ?h = Some h" "\<forall>i \<in> set [0..<512]. ring h (Owner i) []"
    "\<forall>a. a \<notin> Owner ` set [0..<512] \<longrightarrow> h a = ?h a"
    using init_lists_ok [of "[0..<512]" ?h] by auto
  let ?tl = "[\<lparr>index = 0, timer_list = 0\<rparr>, \<lparr>index = 0, timer_list = 256\<rparr>, \<lparr>index = 0, timer_list = 256 + 64\<rparr>,
    \<lparr>index = 0, timer_list = 256 + 64 + 64\<rparr>, \<lparr>index = 0, timer_list = 256 + 64 + 64 + 64\<rparr>]"
  define m where "m = \<lparr>timerfd = None, active_timer_count = 0, jiffies = 0, timer_jiffies = 0, prev = 0, delta = 0, min_interval = g,
    tl = ?tl, list_heap = h, timer_heap = (\<lambda>_. None)\<rparr>"
  have c: "create_timermgr garbage g = Some m" using h(1) by (simp add: create_timermgr_def timer_init_def m_def)
  have so: "slots_ok (list_heap m) (\<lambda>_. []) (dom (timer_heap m))" using h(2,3) by (auto simp: lists_ok_def m_def)
  have p: "pending m = (\<lambda>_. None)" by (simp add: pending_def m_def fun_eq_iff)
  have "layout m" unfolding layout_def
  proof (intro conjI allI impI)
    fix k assume "k < (4 :: nat)"
    then have "k = 0 \<or> k = 1 \<or> k = 2 \<or> k = 3" by auto
    then show "timer_list (tl m ! Suc k) = 256 + 64 * k" by (auto simp: m_def)
  qed (simp_all add: m_def)
  moreover have "unat (index (tl m ! Suc k)) = 0" if "k < 4" for k
  proof -
    from that have "k = 0 \<or> k = 1 \<or> k = 2 \<or> k = 3" by auto
    then show ?thesis by (auto simp: m_def)
  qed
  moreover have "turned (\<lambda>_. 0) (unat (timer_jiffies m))" "unat (index (tl m ! 0)) = unat (timer_jiffies m) mod 256" by (simp_all add: turned_def m_def)
  ultimately have "wheel m (\<lambda>_. []) (\<lambda>_. 0)" using so by (simp add: wheel_def)
  moreover have "turns_before (unat (timer_jiffies m)) k = 0" for k by (simp add: turns_before_def m_def)
  moreover have "timers_ok m" "clock m" using assms by (simp_all add: timers_ok_def clock_def m_def)
  ultimately have "at_rest m" unfolding at_rest_def using p by (auto simp: m_def)
  moreover have "abstract m = \<lparr>now = 0, grain = nat g, period = (\<lambda>_. None), due = (\<lambda>_. None)\<rparr>" by (simp add: abstract_def p) (simp add: m_def)
  ultimately show ?thesis using c by (auto simp: m_def)
qed

section \<open>Operations between ticks\<close>

lemma alarm_run_future:
  "\<lbrakk>alarm_run a op = Some a'; \<forall>t e. due a t = Some e \<longrightarrow> now a < e\<rbrakk> \<Longrightarrow> now a' = now a \<and> (\<forall>t e. due a' t = Some e \<longrightarrow> now a < e)"
  by (cases op) (auto split: option.splits if_splits)

lemma at_rest_run:
  assumes r: "at_rest m" and a: "alarm_run (abstract m) op = Some a"
  shows "\<exists>m'. timer_run m op = Some m' \<and> at_rest m' \<and> abstract m' = a \<and> prev m' = prev m \<and> delta m' = delta m"
proof -
  from r obtain sl c where w: "wheel m sl c" "\<forall>k < 4. c k = turns_before (unat (timer_jiffies m)) k" "timers_ok m" "clock m"
    "timer_jiffies m = jiffies m \<longrightarrow> jiffies m = 0" "\<forall>t e. pending m t = Some e \<longrightarrow> unat (jiffies m) < e"
    by (auto simp: at_rest_def)
  from timer_run_refines [OF w(1,3,4) a] obtain m' sl' where m': "timer_run m op = Some m'" "wheel m' sl' c" "timers_ok m'"
    "same_time m m'" "abstract m' = a" by blast
  have "\<forall>t e. pending m' t = Some e \<longrightarrow> unat (jiffies m) < e"
    using alarm_run_future [OF a] w(6) m'(5) by (auto simp flip: abstract_simps(3))
  then have "at_rest m'" using m'(2,3,4) w(2,4,5) clock_same [OF m'(4)] unfolding at_rest_def same_time_def by auto
  with m' show ?thesis by (auto simp: same_time_def)
qed


section \<open>Calls that keep to existing timers\<close>

text \<open>
  The operations of \<^verbatim>\<open>on_timer\<close> are admissible when they use existing timers and neither make nor delete any.
\<close>

fun op_timer :: "timer_op \<Rightarrow> nat" where
  "op_timer (Create p intv) = p"
| "op_timer (Start p) = p"
| "op_timer (Stop p) = p"
| "op_timer (Restart p) = p"
| "op_timer (Setinterval p intv) = p"
| "op_timer (Delete p) = p"

fun steady :: "timer_op \<Rightarrow> bool" where
  "steady (Create p intv) = False"
| "steady (Delete p) = False"
| "steady op = True"

definition tame :: "nat set \<Rightarrow> (nat list \<Rightarrow> timer_op list) \<Rightarrow> bool" where
  "tame S f \<longleftrightarrow> (\<forall>calls. \<forall>op \<in> set (f calls). steady op \<and> op_timer op \<in> S)"

lemma steady_run:
  assumes "steady op" "op_timer op \<in> dom (period a)"
  shows "\<exists>a'. alarm_run a op = Some a' \<and> now a' = now a \<and> dom (period a') = dom (period a) \<and>
    {t. due a' t = Some (now a)} \<subseteq> {t. due a t = Some (now a)}"
  using assms by (cases op) (auto split: if_splits)

lemma steady_runs:
  "\<lbrakk>\<forall>op \<in> set ops. steady op \<and> op_timer op \<in> dom (period a)\<rbrakk> \<Longrightarrow>
     \<exists>a'. alarm_runs a ops = Some a' \<and> now a' = now a \<and> dom (period a') = dom (period a) \<and>
       {t. due a' t = Some (now a)} \<subseteq> {t. due a t = Some (now a)}"
proof (induction ops arbitrary: a)
  case Nil
  then show ?case by simp
next
  case (Cons op ops)
  from steady_run [of op a] Cons.prems obtain a1 where a1: "alarm_run a op = Some a1" "now a1 = now a" "dom (period a1) = dom (period a)"
    "{t. due a1 t = Some (now a)} \<subseteq> {t. due a t = Some (now a)}" by auto
  with Cons.IH [of a1] Cons.prems obtain a' where "alarm_runs a1 ops = Some a'" "now a' = now a" "dom (period a') = dom (period a)"
    "{t. due a' t = Some (now a)} \<subseteq> {t. due a1 t = Some (now a)}" by auto
  with a1 show ?case by (intro exI [of _ a']) auto
qed

lemma tame_fires_ok:
  "\<lbrakk>finite {t. due a t = Some (now a)}; tame (dom (period a)) f\<rbrakk> \<Longrightarrow> fires_ok f a calls"
proof (induction "card {t. due a t = Some (now a)}" arbitrary: a calls rule: less_induct)
  case (less a calls)
  show ?case
  proof (rule fires_okI)
    fix t assume t: "due a t = Some (now a)"
    let ?a = "a\<lparr>due := (due a)(t := None)\<rparr>"
    from steady_runs [of "f (calls @ [t])" ?a] less.prems(2) obtain a' where a': "alarm_runs ?a (f (calls @ [t])) = Some a'"
      "now a' = now a" "dom (period a') = dom (period a)" "{t. due a' t = Some (now a)} \<subseteq> {t. due ?a t = Some (now a)}"
      by (auto simp: tame_def)
    have "{t. due ?a t = Some (now a)} \<subset> {t. due a t = Some (now a)}" using t by auto
    then have lt: "{t. due a' t = Some (now a')} \<subset> {t. due a t = Some (now a)}" using a'(2,4) by auto
    from psubset_card_mono [OF less.prems(1) lt] have "fires_ok f a' (calls @ [t])"
      using finite_subset [OF psubset_imp_subset [OF lt] less.prems(1)] a'(3) less.prems(2) by (intro less.hyps) auto
    with a'(1) show "\<exists>a'. alarm_runs ?a (f (calls @ [t])) = Some a' \<and> fires_ok f a' (calls @ [t])" by blast
  qed
qed

lemma at_rest_finite:
  assumes "at_rest m"
  shows "finite {t. pending m t = Some e}"
proof -
  from assms obtain sl c where w: "wheel m sl c" by (auto simp: at_rest_def)
  have "{t. pending m t = Some e} \<subseteq> (\<Union>i < 512. set (sl i))"
    using pending_slots [OF wheel_slots [OF w]] slots_bound [OF wheel_slots [OF w]] by (fastforce simp: in_slots_def split: if_splits)
  then show ?thesis by (rule finite_subset) simp
qed

lemma at_rest_fires_ok:
  assumes "at_rest m" "tame (dom (timer_heap m)) f"
  shows "fires_ok f ((abstract m)\<lparr>now := n\<rparr>) calls"
proof (rule tame_fires_ok)
  show "finite {t. due ((abstract m)\<lparr>now := n\<rparr>) t = Some (now ((abstract m)\<lparr>now := n\<rparr>))}"
    using at_rest_finite [OF assms(1)] by simp
  show "tame (dom (period ((abstract m)\<lparr>now := n\<rparr>))) f" using assms(2) by (simp add: dom_def)
qed

text \<open>A timer that no call touches is called once when it is due, and otherwise stays.\<close>

lemma untouched_run: "\<lbrakk>alarm_run a op = Some a'; op_timer op \<noteq> p\<rbrakk> \<Longrightarrow> now a' = now a \<and> due a' p = due a p \<and> period a' p = period a p"
  by (cases op) (auto split: option.splits if_splits)

lemma untouched_runs:
  "\<lbrakk>alarm_runs a ops = Some a'; \<forall>op \<in> set ops. op_timer op \<noteq> p\<rbrakk> \<Longrightarrow> now a' = now a \<and> due a' p = due a p \<and> period a' p = period a p"
proof (induction ops arbitrary: a)
  case (Cons op ops)
  then obtain a1 where "alarm_run a op = Some a1" "alarm_runs a1 ops = Some a'" by (auto simp: bind_eq_Some_conv)
  with Cons untouched_run show ?case by fastforce
qed simp

lemma untouched_fires:
  "\<lbrakk>alarm_fires f a calls a' calls'; \<forall>calls. \<forall>op \<in> set (f calls). op_timer op \<noteq> p\<rbrakk> \<Longrightarrow>
     count_list calls' p = count_list calls p + (if due a p = Some (now a) then 1 else 0) \<and>
     due a' p = (if due a p = Some (now a) then None else due a p) \<and> period a' p = period a p"
proof (induction rule: alarm_fires.induct)
  case (fires_done a calls)
  then show ?case by simp
next
  case (fires_call a t calls a' a'' calls')
  from untouched_runs [OF fires_call.hyps(2), of p] fires_call.prems
  have "now a' = now a" "due a' p = (if p = t then None else due a p)" "period a' p = period a p" by auto
  with fires_call.IH [OF fires_call.prems] fires_call.hyps(1) show ?case by auto
qed

lemma tame_fires_dom:
  "\<lbrakk>alarm_fires f a calls a' calls'; tame S f; S \<subseteq> dom (period a)\<rbrakk> \<Longrightarrow> dom (period a') = dom (period a)"
proof (induction rule: alarm_fires.induct)
  case (fires_call a t calls a' a'' calls')
  let ?a = "a\<lparr>due := (due a)(t := None)\<rparr>"
  have "\<forall>op \<in> set (f (calls @ [t])). steady op \<and> op_timer op \<in> dom (period ?a)" using fires_call.prems by (auto simp: tame_def)
  from steady_runs [OF this] fires_call.hyps(2) have "dom (period a') = dom (period a)" by simp
  with fires_call show ?case by simp
qed simp

lemma tame_subset: "\<lbrakk>tame S f; S \<subseteq> S'\<rbrakk> \<Longrightarrow> tame S' f"
  by (auto simp: tame_def)

lemma dom_period [simp]: "dom (period (abstract m)) = dom (timer_heap m)"
  by (auto simp: dom_def)

lemma steprun_tame:
  assumes r: "at_rest m" and J: "unat (jiffies m) + 1 < 2 ^ 63" and f: "tame S f" "S \<subseteq> dom (timer_heap m)"
  shows "\<exists>m' calls'. steprun f m calls = Some (m', calls') \<and> at_rest m' \<and>
    alarm_fires f ((abstract m)\<lparr>now := unat (jiffies m) + 1\<rparr>) calls (abstract m') calls' \<and> dom (timer_heap m') = dom (timer_heap m) \<and>
    unat (jiffies m') = unat (jiffies m) + 1 \<and> min_interval m' = min_interval m \<and> prev m' = prev m \<and> delta m' = delta m"
proof -
  have "fires_ok f ((abstract m)\<lparr>now := unat (jiffies m) + 1\<rparr>) calls"
    by (rule at_rest_fires_ok [OF r tame_subset [OF f]])
  from steprun_ok [OF r J this] obtain m' calls' where m': "steprun f m calls = Some (m', calls')" "at_rest m'"
    "alarm_fires f ((abstract m)\<lparr>now := unat (jiffies m) + 1\<rparr>) calls (abstract m') calls'"
    "unat (jiffies m') = unat (jiffies m) + 1" "min_interval m' = min_interval m" "prev m' = prev m" "delta m' = delta m" by blast
  moreover have "dom (timer_heap m') = dom (timer_heap m)" using tame_fires_dom [OF m'(3) f(1)] f(2) by simp
  ultimately show ?thesis by blast
qed

section \<open>Properties\<close>

text \<open>
  The reachable states of a manager: made with a minimum interval of at least 3 ms, then operated and ticked in any order. The
  counter of ticks does not overflow for $2^{63}$ ticks.
\<close>

inductive timer_reach :: "timermgr_impl \<Rightarrow> bool" where
  reach_new: "\<lbrakk>3 \<le> g; g < 2 ^ 31; create_timermgr garbage g = Some m\<rbrakk> \<Longrightarrow> timer_reach m"
| reach_op: "\<lbrakk>timer_reach m; alarm_run (abstract m) op = Some a; timer_run m op = Some m'\<rbrakk> \<Longrightarrow> timer_reach m'"
| reach_tick: "\<lbrakk>timer_reach m; unat (jiffies m) + 1 < 2 ^ 63; fires_ok f ((abstract m)\<lparr>now := unat (jiffies m) + 1\<rparr>) [];
    steprun f m [] = Some (m', calls)\<rbrakk> \<Longrightarrow> timer_reach m'"

lemma reach_at_rest: "timer_reach m \<Longrightarrow> at_rest m"
proof (induction rule: timer_reach.induct)
  case (reach_new g garbage m)
  then show ?case using create_at_rest [of g garbage] by auto
next
  case (reach_op m op a m')
  then show ?case using at_rest_run by fastforce
next
  case (reach_tick m f m' calls)
  then show ?case using steprun_ok by fastforce
qed

text \<open>
  C12: The timers implement alarms. In every reachable state of a manager with a minimum interval of at least 3 ms, each
  operation on existing timers succeeds and has the effect it has on the alarms: starting a stopped timer makes
  it due after its interval, stopping takes it out, restarting sets it anew, a new interval stops it. A tick ends,
  and calls the timers that are due at the new time, and no others, with whatever their
  calls do to other timers in between.
\<close>

theorem timer_refines:
  assumes "timer_reach m"
  shows "(\<forall>op a. alarm_run (abstract m) op = Some a \<longrightarrow>
       (\<exists>m'. timer_run m op = Some m' \<and> timer_reach m' \<and> abstract m' = a)) \<and>
    (\<forall>on_timer. unat (jiffies m) + 1 < 2 ^ 63 \<and> fires_ok on_timer ((abstract m)\<lparr>now := unat (jiffies m) + 1\<rparr>) [] \<longrightarrow>
       (\<exists>m' calls. steprun on_timer m [] = Some (m', calls) \<and> timer_reach m' \<and>
          alarm_fires on_timer ((abstract m)\<lparr>now := unat (jiffies m) + 1\<rparr>) [] (abstract m') calls))"
proof (intro conjI allI impI)
  fix op a assume a: "alarm_run (abstract m) op = Some a"
  from at_rest_run [OF reach_at_rest [OF assms] a] obtain m' where "timer_run m op = Some m'" "abstract m' = a" by blast
  with reach_op [OF assms a] show "\<exists>m'. timer_run m op = Some m' \<and> timer_reach m' \<and> abstract m' = a" by blast
next
  fix f assume f: "unat (jiffies m) + 1 < 2 ^ 63 \<and> fires_ok f ((abstract m)\<lparr>now := unat (jiffies m) + 1\<rparr>) []"
  from steprun_ok [OF reach_at_rest [OF assms] conjunct1 [OF f] conjunct2 [OF f]]
  obtain m' calls where "steprun f m [] = Some (m', calls)"
    "alarm_fires f ((abstract m)\<lparr>now := unat (jiffies m) + 1\<rparr>) [] (abstract m') calls" by blast
  with reach_tick [OF assms conjunct1 [OF f] conjunct2 [OF f]]
  show "\<exists>m' calls. steprun f m [] = Some (m', calls) \<and> timer_reach m' \<and>
      alarm_fires f ((abstract m)\<lparr>now := unat (jiffies m) + 1\<rparr>) [] (abstract m') calls" by blast
qed

text \<open>A manager of 5 ms ticks with a timer of 12 ms at address 7.\<close>

definition empty_node :: "nat \<Rightarrow> list_addr listnode_t" where
  "empty_node i = \<lparr>ln_next = None, ln_prev = None\<rparr>"

lemma sample_manager:
  obtains m ti where "timer_reach m" "timer_heap m 7 = Some ti" "unat (interval ti) = 3" "pending m = (\<lambda>_. None)" "jiffies m = 0"
    "min_interval m = 5" "prev m = 0" "delta m = 0" "alarm_run (abstract m) (Start 7) = Some ((abstract m)\<lparr>due := [7 \<mapsto> 3]\<rparr>)"
proof -
  from create_at_rest [of 5 empty_node] obtain m0 where m0: "create_timermgr empty_node 5 = Some m0" "at_rest m0"
    "abstract m0 = \<lparr>now = 0, grain = 5, period = (\<lambda>_. None), due = (\<lambda>_. None)\<rparr>" "prev m0 = 0" "delta m0 = 0" by auto
  have r: "timer_reach m0" using reach_new [OF _ _ m0(1)] by simp
  let ?a = "\<lparr>now = 0, grain = 5, period = [7 \<mapsto> 3 :: nat], due = (\<lambda>_. None)\<rparr>"
  have a: "alarm_run (abstract m0) (Create 7 12) = Some ?a" by (simp add: m0(3) whole_ticks_def)
  from at_rest_run [OF m0(2) a] obtain m where m: "timer_run m0 (Create 7 12) = Some m" "abstract m = ?a" "at_rest m" "prev m = 0" "delta m = 0"
    using m0(4,5) by auto
  have "timer_reach m" using reach_op [OF r a m(1)] .
  moreover have "period (abstract m) 7 = Some 3" "due (abstract m) = (\<lambda>_. None)" "now (abstract m) = 0" "grain (abstract m) = 5"
    unfolding m(2) by simp_all
  then obtain ti where "timer_heap m 7 = Some ti" "unat (interval ti) = 3" "pending m = (\<lambda>_. None)" "jiffies m = 0" "min_interval m = 5"
    by (auto simp: unat_eq_0)
  moreover have "alarm_run (abstract m) (Start 7) = Some ((abstract m)\<lparr>due := [7 \<mapsto> 3]\<rparr>)" by (simp add: m(2))
  ultimately show ?thesis using that m(4,5) by blast
qed

theorem timer_refines_witness:
  "\<exists>m m1 m'. timer_reach m \<and> timer_run m (Start 7) = Some m1 \<and> due (abstract m1) = [7 \<mapsto> 3] \<and>
     steprun (\<lambda>_. [Restart 7]) m1 [] = Some (m', []) \<and> due (abstract m') = [7 \<mapsto> 3]"
proof -
  obtain m ti where m: "timer_reach m" "timer_heap m 7 = Some ti" "jiffies m = 0"
    "alarm_run (abstract m) (Start 7) = Some ((abstract m)\<lparr>due := [7 \<mapsto> 3]\<rparr>)" using sample_manager by metis
  from timer_refines [OF m(1)] m(4) obtain m1 where m1: "timer_run m (Start 7) = Some m1" "timer_reach m1"
    "abstract m1 = (abstract m)\<lparr>due := [7 \<mapsto> 3]\<rparr>" by blast
  have J: "jiffies m1 = 0" "pending m1 = [7 \<mapsto> 3]" using m(3) arg_cong [OF m1(3), of now] arg_cong [OF m1(3), of due] by (simp_all add: unat_eq_0)
  let ?f = "\<lambda>_ :: nat list. [Restart 7]" and ?a = "(abstract m1)\<lparr>now := unat (jiffies m1) + 1\<rparr>"
  have nd: "due ?a t \<noteq> Some (now ?a)" for t by (simp add: J)
  have "fires_ok ?f ?a []" by (rule fires_okI) (use nd in blast)
  moreover have "unat (jiffies m1) + 1 < 2 ^ 63" using J by simp
  ultimately obtain m' calls where m': "steprun ?f m1 [] = Some (m', calls)" "alarm_fires ?f ?a [] (abstract m') calls"
    using timer_refines [OF m1(2)] by blast
  from m'(2) nd have "abstract m' = ?a" "calls = []" by (auto elim: alarm_fires.cases)
  then have "steprun ?f m1 [] = Some (m', [])" "due (abstract m') = [7 \<mapsto> 3]" "due (abstract m1) = [7 \<mapsto> 3]" using m'(1) J by simp_all
  with m(1) m1(1) show ?thesis by blast
qed

text \<open>Several ticks in a row, with what is called in each of them.\<close>

fun steps :: "(nat list \<Rightarrow> timer_op list) list \<Rightarrow> timermgr_impl \<Rightarrow> (timermgr_impl \<times> nat list list) option" where
  "steps [] m = Some (m, [])"
| "steps (f # fs) m = do { (m, calls) \<leftarrow> steprun f m []; (m, rest) \<leftarrow> steps fs m; Some (m, calls # rest) }"

lemma steps_exact:
  "\<lbrakk>at_rest m; pending m p = Some (unat (jiffies m) + length fs); fs \<noteq> []; unat (jiffies m) + length fs < 2 ^ 63;
    S \<subseteq> dom (timer_heap m); \<forall>f \<in> set fs. tame (S - {p}) f\<rbrakk> \<Longrightarrow>
   \<exists>m' cs. steps fs m = Some (m', cs) \<and> map (\<lambda>calls. count_list calls p) cs = replicate (length fs - 1) 0 @ [1]"
proof (induction fs arbitrary: m)
  case (Cons f fs)
  let ?a = "(abstract m)\<lparr>now := unat (jiffies m) + 1\<rparr>"
  have J: "unat (jiffies m) + 1 < 2 ^ 63" and f: "tame (S - {p}) f" "S - {p} \<subseteq> dom (timer_heap m)" using Cons.prems by auto
  from steprun_tame [OF Cons.prems(1) J f, of "[]"] obtain m1 calls where m1: "steprun f m [] = Some (m1, calls)" "at_rest m1"
    "alarm_fires f ?a [] (abstract m1) calls" "dom (timer_heap m1) = dom (timer_heap m)" "unat (jiffies m1) = unat (jiffies m) + 1" by blast
  have "\<forall>calls. \<forall>op \<in> set (f calls). op_timer op \<noteq> p" using f(1) by (auto simp: tame_def)
  note c = untouched_fires [OF m1(3) this]
  show ?case
  proof (cases "fs = []")
    case True
    then show ?thesis using m1(1) c Cons.prems(2) by simp
  next
    case False
    then have "due ?a p \<noteq> Some (now ?a)" using Cons.prems(2) by (cases fs) auto
    with c have n: "count_list calls p = 0" "pending m1 p = pending m p" by simp_all
    from Cons.IH [OF m1(2)] False m1(4,5) n(2) Cons.prems obtain m' cs where
      "steps fs m1 = Some (m', cs)" "map (\<lambda>calls. count_list calls p) cs = replicate (length fs - 1) 0 @ [1]" by auto
    then have "steps (f # fs) m = Some (m', calls # cs)"
      "map (\<lambda>calls. count_list calls p) (calls # cs) = replicate (Suc (length fs - 1)) 0 @ [1]" using m1(1) n(1) by simp_all
    moreover have "Suc (length fs - 1) = length (f # fs) - 1" using False by simp
    ultimately show ?thesis by metis
  qed
qed simp

text \<open>
  C13: A timer is called exactly when its interval is over. In every reachable state, starting a stopped timer with an interval of
  \<open>n\<close> ticks succeeds, and when the next \<open>n\<close> ticks only operate on other existing timers, the timer is called once in
  the last of them and in none before.
\<close>

theorem timer_exact:
  assumes "timer_reach m" "timer_heap m p = Some ti" "interval ti \<noteq> 0" "pending m p = None" "length fs = unat (interval ti)"
    "\<forall>on_timer \<in> set fs. tame (dom (timer_heap m) - {p}) on_timer" "unat (jiffies m) + unat (interval ti) < 2 ^ 63"
  shows "\<exists>m1 m' cs. timer_start m p = Some (m1, True) \<and> steps fs m1 = Some (m', cs) \<and>
    map (\<lambda>calls. count_list calls p) cs = replicate (length fs - 1) 0 @ [1]"
proof -
  note r = reach_at_rest [OF assms(1)]
  let ?n = "unat (interval ti)"
  have n: "0 < ?n" using assms(3) by (simp add: unat_gt_0)
  then have a: "alarm_run (abstract m) (Start p) = Some ((abstract m)\<lparr>due := (pending m)(p \<mapsto> unat (jiffies m) + ?n)\<rparr>)"
    using assms(2,4) by simp
  from at_rest_run [OF r a] obtain m1 where m1: "timer_run m (Start p) = Some m1" "at_rest m1"
    "abstract m1 = (abstract m)\<lparr>due := (pending m)(p \<mapsto> unat (jiffies m) + ?n)\<rparr>" by blast
  from r obtain sl c where "wheel m sl c" "timers_ok m" "clock m" by (auto simp: at_rest_def)
  from timer_start_ok [OF this assms(2)] m1(1) assms(3,4) have s: "timer_start m p = Some (m1, True)" by auto
  have J: "unat (jiffies m1) = unat (jiffies m)" "pending m1 p = Some (unat (jiffies m) + ?n)" "dom (timer_heap m1) = dom (timer_heap m)"
    using arg_cong [OF m1(3), of now] arg_cong [OF m1(3), of due] arg_cong [OF m1(3), of "\<lambda>a. dom (period a)"] by simp_all
  have "fs \<noteq> []" using assms(5) n by auto
  then show ?thesis using steps_exact [OF m1(2), of p fs "dom (timer_heap m)"] J assms(5-7) s by auto
qed

theorem timer_exact_witness:
  "\<exists>m m1 m' cs. timer_reach m \<and> timer_start m 7 = Some (m1, True) \<and> steps [\<lambda>_. [], \<lambda>_. [], \<lambda>_. []] m1 = Some (m', cs) \<and>
     map (\<lambda>calls. count_list calls 7) cs = [0, 0, 1]"
proof -
  obtain m ti where m: "timer_reach m" "timer_heap m 7 = Some ti" "unat (interval ti) = 3" "pending m = (\<lambda>_. None)" "jiffies m = 0"
    using sample_manager by metis
  have i: "interval ti \<noteq> 0" using m(3) by auto
  have r: "replicate (length [\<lambda>_ :: nat list. [] :: timer_op list, \<lambda>_. [], \<lambda>_. []] - 1) 0 @ [1 :: nat] = [0, 0, 1]"
    by (simp add: numeral_2_eq_2)
  show ?thesis using timer_exact [OF m(1,2) i, of "[\<lambda>_. [], \<lambda>_. [], \<lambda>_. []]"] m unfolding r by (auto simp: tame_def)
qed

text \<open>
  An interval of $2^{31}$ ticks or more, which a manager with a minimum interval of 1 or 2 ms accepts, goes to the list of the next
  tick: the test for a time in the past looks at bit 31 only.
\<close>

theorem timer_long_interval:
  assumes "wheel m sl c" "2 ^ 31 \<le> unat (expire ti) - unat (timer_jiffies m)" "unat (expire ti) - unat (timer_jiffies m) < 2 ^ 32"
  shows "get_timer_list m ti = unat (timer_jiffies m) mod 256"
proof -
  let ?t = "expire ti - timer_jiffies m"
  have "timer_jiffies m \<le> expire ti" using assms(2) by (simp add: word_le_nat_alt)
  then have t: "unat ?t = unat (expire ti) - unat (timer_jiffies m)" by (rule unat_sub)
  have "unat ?t div 2 ^ 31 = 1" using assms(2,3) t by (intro div_nat_eqI) simp_all
  then have "bit (unat ?t) 31" by (simp add: bit_iff_odd)
  then have "bit ?t 31" by (simp add: bit_unsigned_iff)
  moreover have "\<not> ?t < 256" "\<not> ?t < 2 ^ (6 + 8)" "\<not> ?t < 2 ^ (12 + 8)" "\<not> ?t < 2 ^ (18 + 8)"
    using assms(2) u64_less [OF t] by auto
  ultimately show ?thesis using assms(1) by (simp add: get_timer_list_def Let_def wheel_def layout_def)
qed

theorem timer_long_interval_witness:
  "\<exists>m. timer_reach m \<and> get_timer_list m \<lparr>interval = 2 ^ 31 + 1, expire = 2 ^ 31 + 1, tmr = Some 7\<rparr> = unat (timer_jiffies m)"
proof -
  obtain m where m: "timer_reach m" "jiffies m = 0" using sample_manager by metis
  from reach_at_rest [OF m(1)] obtain sl c where w: "wheel m sl c" "clock m" by (auto simp: at_rest_def)
  have T: "unat (timer_jiffies m) \<le> 1" using w(2) m(2) by (auto simp: clock_def)
  have e: "unat (expire \<lparr>interval = 2 ^ 31 + 1, expire = 2 ^ 31 + 1, tmr = Some 7\<rparr>) = 2 ^ 31 + 1" by simp
  from timer_long_interval [OF w(1), of "\<lparr>interval = 2 ^ 31 + 1, expire = 2 ^ 31 + 1, tmr = Some 7\<rparr>", unfolded e] T m(1)
  show ?thesis by (intro exI [of _ m]) simp
qed

section \<open>The clock\<close>

lemma at_rest_clock [simp]: "at_rest (m\<lparr>delta := d\<rparr>) = at_rest m" "at_rest (m\<lparr>prev := q\<rparr>) = at_rest m"
proof -
  have "pending (m\<lparr>delta := d\<rparr>) = pending m" "pending (m\<lparr>prev := q\<rparr>) = pending m" by (rule pending_cong; simp)+
  then show "at_rest (m\<lparr>delta := d\<rparr>) = at_rest m" "at_rest (m\<lparr>prev := q\<rparr>) = at_rest m"
    by (simp_all add: at_rest_def wheel_def layout_def timers_ok_def clock_def)
qed

lemma int_tick: "int n + 1 < 2 ^ 63 \<Longrightarrow> n + 1 < (2 :: nat) ^ 63"
  by simp

lemma runner_loop_ok:
  "\<lbrakk>at_rest m; 0 < itvl; 0 \<le> delta m; int (unat (jiffies m)) + delta m div itvl < 2 ^ 63; tame S f; S \<subseteq> dom (timer_heap m)\<rbrakk> \<Longrightarrow>
   \<exists>m' calls'. runner_loop f itvl m calls = Some (m', calls') \<and> at_rest m' \<and>
     int (unat (jiffies m')) = int (unat (jiffies m)) + delta m div itvl \<and> delta m' = delta m mod itvl \<and> prev m' = prev m \<and>
     min_interval m' = min_interval m \<and> dom (timer_heap m') = dom (timer_heap m)"
proof (induction "nat (delta m div itvl)" arbitrary: m calls)
  case 0
  have "0 \<le> delta m div itvl" using 0(3,4) by (simp add: pos_imp_zdiv_nonneg_iff)
  then have "delta m div itvl = 0" using 0(1) by linarith
  then have "delta m < itvl" using 0(3,4) by (auto simp: zdiv_eq_0_iff)
  then show ?case using 0 by (subst runner_loop.simps) simp
next
  case (Suc n m calls)
  have q: "1 \<le> delta m div itvl" using Suc.hyps(2) by simp
  then have d: "itvl \<le> delta m" using Suc.prems(2,3) by (metis div_pos_pos_trivial not_le zero_less_one)
  have "int (unat (jiffies m)) + 1 < 2 ^ 63" using q Suc.prems(4) by linarith
  then have "unat (jiffies m) + 1 < 2 ^ 63" by (rule int_tick)
  from steprun_tame [OF Suc.prems(1) this Suc.prems(5,6), of calls] obtain m1 calls1 where m1: "steprun f m calls = Some (m1, calls1)" "at_rest m1"
    "dom (timer_heap m1) = dom (timer_heap m)" "unat (jiffies m1) = unat (jiffies m) + 1" "min_interval m1 = min_interval m"
    "prev m1 = prev m" "delta m1 = delta m" by blast
  let ?m = "m1\<lparr>delta := delta m1 - itvl\<rparr>"
  have div: "delta ?m div itvl = delta m div itvl - 1" "delta ?m mod itvl = delta m mod itvl"
    using m1(7) Suc.prems(2) div_add_self2 [of itvl "delta m - itvl"] mod_add_self2 [of "delta m - itvl" itvl] by simp_all
  have "\<exists>m' calls'. runner_loop f itvl ?m calls1 = Some (m', calls') \<and> at_rest m' \<and>
      int (unat (jiffies m')) = int (unat (jiffies ?m)) + delta ?m div itvl \<and> delta m' = delta ?m mod itvl \<and> prev m' = prev ?m \<and>
      min_interval m' = min_interval ?m \<and> dom (timer_heap m') = dom (timer_heap ?m)"
    by (rule Suc.hyps(1)) (use Suc.hyps(2) Suc.prems m1 d div in auto)
  then show ?case using m1 d div Suc.prems by (subst runner_loop.simps) auto
qed

text \<open>The calls of \<^verbatim>\<open>periodic_runner\<close> from the event loop, each with what the clock shows and what the timers do.\<close>

fun runners :: "((nat list \<Rightarrow> timer_op list) \<times> int) list \<Rightarrow> timermgr_impl \<Rightarrow> timermgr_impl option" where
  "runners [] m = Some m"
| "runners ((f, cur) # xs) m = do { (m, calls) \<leftarrow> periodic_runner f cur m; runners xs m }"

lemma clock_split:
  "\<lbrakk>(0 :: int) < b; d = (t - c0) mod b\<rbrakk> \<Longrightarrow> (t - c0) div b + (d + (u - t)) div b = (u - c0) div b \<and> (d + (u - t)) mod b = (u - c0) mod b"
proof -
  assume b: "0 < b" and d: "d = (t - c0) mod b"
  define q where "q = (t - c0) div b"
  have e: "u - c0 = (d + (u - t)) + q * b" using d div_mult_mod_eq [of "t - c0" b] unfolding q_def by linarith
  have "(u - c0) div b = (d + (u - t)) div b + q" "(u - c0) mod b = (d + (u - t)) mod b" unfolding e using b by simp_all
  then show ?thesis by (simp add: q_def)
qed

lemma sorted_last: "sorted (x # xs) \<Longrightarrow> x \<le> last (x # xs)"
  by (cases "xs = []") auto

lemma runners_ok:
  "\<lbrakk>at_rest m; 0 < min_interval m; delta m = (prev m - c0) mod (1000000 * min_interval m); 0 < prev m;
    int (unat (jiffies m)) + (last (prev m # map snd xs) - c0) div (1000000 * min_interval m) < 2 ^ 63 + (prev m - c0) div (1000000 * min_interval m);
    sorted (prev m # map snd xs); \<forall>f \<in> fst ` set xs. tame S f; S \<subseteq> dom (timer_heap m)\<rbrakk> \<Longrightarrow>
   \<exists>m'. runners xs m = Some m' \<and> at_rest m' \<and>
     int (unat (jiffies m')) = int (unat (jiffies m)) + (last (prev m # map snd xs) - c0) div (1000000 * min_interval m)
       - (prev m - c0) div (1000000 * min_interval m)"
proof (induction xs arbitrary: m)
  case Nil
  then show ?case by simp
next
  case (Cons x xs)
  obtain f u where x: "x = (f, u)" by force
  let ?b = "1000000 * min_interval m" and ?m = "m\<lparr>delta := delta m + (u - prev m)\<rparr>"
  have b: "0 < ?b" using Cons.prems(2) by simp
  note sp = clock_split [OF b Cons.prems(3), of u]
  have u: "prev m \<le> u" using Cons.prems(6) x by simp
  have u2: "u \<le> last (u # map snd xs)" by (rule sorted_last) (use Cons.prems(6) x in simp)
  have d0: "0 \<le> delta ?m" using u Cons.prems(3) pos_mod_sign [OF b] by simp
  have "(u - c0) div ?b \<le> (last (u # map snd xs) - c0) div ?b" using u2 b by (intro zdiv_mono1) simp_all
  then have lim: "int (unat (jiffies ?m)) + delta ?m div ?b < 2 ^ 63" using Cons.prems(5) sp x by simp
  have f: "tame S f" "S \<subseteq> dom (timer_heap ?m)" using Cons.prems(7,8) x by auto
  from runner_loop_ok [OF _ b d0 lim f, of "[]"] Cons.prems(1) obtain m1 calls where m1: "runner_loop f ?b ?m [] = Some (m1, calls)"
    "at_rest m1" "int (unat (jiffies m1)) = int (unat (jiffies m)) + delta ?m div ?b" "delta m1 = delta ?m mod ?b"
    "min_interval m1 = min_interval m" "dom (timer_heap m1) = dom (timer_heap m)" by auto
  let ?m1 = "m1\<lparr>prev := u\<rparr>"
  have r: "runners (x # xs) m = runners xs ?m1" using m1(1) Cons.prems(4) x by (simp add: periodic_runner_def)
  have "\<exists>m'. runners xs ?m1 = Some m' \<and> at_rest m' \<and>
      int (unat (jiffies m')) = int (unat (jiffies ?m1)) + (last (prev ?m1 # map snd xs) - c0) div (1000000 * min_interval ?m1)
        - (prev ?m1 - c0) div (1000000 * min_interval ?m1)"
  proof (rule Cons.IH)
    show "int (unat (jiffies ?m1)) + (last (prev ?m1 # map snd xs) - c0) div (1000000 * min_interval ?m1)
      < 2 ^ 63 + (prev ?m1 - c0) div (1000000 * min_interval ?m1)" using Cons.prems(5) m1(3,5) sp x by simp
  qed (use Cons.prems m1 sp x u in auto)
  then obtain m' where "runners xs ?m1 = Some m'" "at_rest m'" "int (unat (jiffies m')) =
      int (unat (jiffies ?m1)) + (last (u # map snd xs) - c0) div ?b - (u - c0) div ?b" using m1(5) by auto
  moreover have "last (prev m # map snd (x # xs)) = last (u # map snd xs)" using x by simp
  ultimately show ?case using r m1(3) sp by (intro exI [of _ m']) (simp only:, simp)
qed

text \<open>
  C34: Ticks follow the clock without drift. The first call of the periodic runner of a manager makes one tick; however
  irregularly it is called after that, the number of ticks is that of the whole minimum intervals
  between the first and the last reading of the clock.
\<close>

theorem timer_no_drift:
  assumes "timer_reach m" "prev m = 0" "delta m = 0" "0 < c0" "sorted (c0 # map snd xs)" "tame S f0" "\<forall>f \<in> fst ` set xs. tame S f"
    "S \<subseteq> dom (timer_heap m)" "int (unat (jiffies m)) + 1 + (last (c0 # map snd xs) - c0) div (1000000 * min_interval m) < 2 ^ 63"
  shows "\<exists>m'. runners ((f0, c0) # xs) m = Some m' \<and>
    int (unat (jiffies m')) = int (unat (jiffies m)) + 1 + (last (c0 # map snd xs) - c0) div (1000000 * min_interval m)"
proof -
  note r = reach_at_rest [OF assms(1)]
  let ?m = "m\<lparr>prev := c0\<rparr>"
  have g: "0 < min_interval m" using r by (auto simp: at_rest_def timers_ok_def)
  have "c0 \<le> last (c0 # map snd xs)" using assms(5) by (rule sorted_last)
  then have "0 \<le> (last (c0 # map snd xs) - c0) div (1000000 * min_interval m)" using g by (simp add: pos_imp_zdiv_nonneg_iff)
  then have "int (unat (jiffies ?m)) + 1 < 2 ^ 63" using assms(9) by simp
  then have J: "unat (jiffies ?m) + 1 < 2 ^ 63" by (rule int_tick)
  have r': "at_rest ?m" and S: "S \<subseteq> dom (timer_heap ?m)" using r assms(8) by simp_all
  from steprun_tame [OF r' J assms(6) S, of "[]"] obtain m1 calls where m1: "steprun f0 ?m [] = Some (m1, calls)" "at_rest m1"
    "dom (timer_heap m1) = dom (timer_heap m)" "unat (jiffies m1) = unat (jiffies m) + 1" "min_interval m1 = min_interval m"
    "prev m1 = c0" "delta m1 = delta m" by auto
  have "\<exists>m'. runners xs m1 = Some m' \<and> at_rest m' \<and>
      int (unat (jiffies m')) = int (unat (jiffies m1)) + (last (prev m1 # map snd xs) - c0) div (1000000 * min_interval m1)
        - (prev m1 - c0) div (1000000 * min_interval m1)"
    by (rule runners_ok) (use m1 g assms in auto)
  then obtain m' where "runners xs m1 = Some m'" "int (unat (jiffies m')) =
      int (unat (jiffies m1)) + (last (c0 # map snd xs) - c0) div (1000000 * min_interval m)" using m1(5,6) by auto
  moreover have "runners ((f0, c0) # xs) m = runners xs m1" using m1(1) assms(2) by (simp add: periodic_runner_def)
  moreover have "int (unat (jiffies m1)) = int (unat (jiffies m)) + 1" unfolding m1(4) by simp
  ultimately show ?thesis by (intro exI [of _ m']) (simp only:)
qed

theorem timer_no_drift_witness:
  "\<exists>m m'. timer_reach m \<and> runners [(\<lambda>_. [], 1000), (\<lambda>_. [], 4001000), (\<lambda>_. [], 19001000)] m = Some m' \<and> jiffies m' = 4"
proof -
  obtain m where m: "timer_reach m" "jiffies m = 0" "min_interval m = 5" "prev m = 0" "delta m = 0" using sample_manager by metis
  have t: "tame {} (\<lambda>_. [])" by (simp add: tame_def)
  from timer_no_drift [OF m(1,4,5), of 1000 "[(\<lambda>_. [], 4001000), (\<lambda>_. [], 19001000)]" "{}" "\<lambda>_. []"] t m(2,3)
  obtain m' where m': "runners [(\<lambda>_. [], 1000), (\<lambda>_. [], 4001000), (\<lambda>_. [], 19001000)] m = Some m'" "int (unat (jiffies m')) = 4" by auto
  have "unat (jiffies m') = 4" using m'(2) by (metis of_nat_eq_iff of_nat_numeral)
  then have "unat (jiffies m') = unat (4 :: u64)" by simp
  then have "jiffies m' = 4" by (simp add: word_unat_eq_iff)
  with m(1) m'(1) show ?thesis by blast
qed

end
