(* ===== verification/Mem_Cache.thy ===== *)
theory Mem_Cache
  imports Name_Index List_Node
begin

text \<open>
  The pools of memory for objects of a fixed size, \<^verbatim>\<open>mec/zsfd/utils/mcache.cpp\<close>. A pool hands out objects from slabs: blocks of
  some pages with an array of objects, of which the first ones were handed out before and those that were given
  back form a list through the objects themselves. Each pool has three lists of slabs, and one AVL tree for all pools
  finds the slab of an address.

  Addresses are numbers. A slab stands at the address of its structure, which is the beginning of the block when the
  block has room for it. Pool \<open>c\<close> owns the list heads \<open>3 * c\<close> (slabs with some free objects), \<open>3 * c + 1\<close> (no object
  in use) and \<open>3 * c + 2\<close> (all in use). The results of \<^verbatim>\<open>malloc\<close> are arguments. Locks and the methods \<^verbatim>\<open>ctor\<close> and \<^verbatim>\<open>dtor\<close>,
  which are empty unless a user overrides them, are left out.
\<close>

section \<open>Data\<close>

record slab_t =
  sb_mcache :: nat
  sb_buffer :: nat
  sb_first :: nat
  sb_freelist :: ptr
  sb_used :: nat

record memcache_impl =
  mc_name :: string
  mc_pages :: nat
  mc_objects :: nat
  mc_size :: nat
  mc_coloroff :: nat

text \<open>
  All pools and their memory; \<open>ms_next\<close> is the member \<^verbatim>\<open>next\<close> that an object in a list of free objects
  holds.
\<close>

record mcaches =
  ms_caches :: "nat \<Rightarrow> memcache_impl option"
  ms_slabs :: "nat \<Rightarrow> slab_t option"
  ms_nodes :: avl_heap
  ms_lists :: "list_addr list_heap"
  ms_tree :: ptr
  ms_next :: "nat \<Rightarrow> ptr option"

abbreviation slabs_partial :: "nat \<Rightarrow> nat" where "slabs_partial c \<equiv> 3 * c"
abbreviation slabs_empty :: "nat \<Rightarrow> nat" where "slabs_empty c \<equiv> 3 * c + 1"
abbreviation slabs_full :: "nat \<Rightarrow> nat" where "slabs_full c \<equiv> 3 * c + 2"

section \<open>Sizes\<close>

text \<open>
  The members and most intermediate values have 32 bits. \<^verbatim>\<open>sizeof(slab_t)\<close> is 88, and its size rounded up to 16 bytes is 96.
\<close>

definition u32_of :: "nat \<Rightarrow> nat" where
  "u32_of n = n mod 2 ^ 32"

definition slab_coloroff :: nat where
  "slab_coloroff = (88 + 15) div 16 * 16"

definition calc_slab_coloroff :: "nat \<Rightarrow> nat" where
  "calc_slab_coloroff sz =
     (let coloroff = slab_coloroff in
      if sz < coloroff then coloroff
      else if sz < 4096 then (if 4096 mod sz < coloroff then 0 else coloroff)
      else if sz mod 4096 = 0 then 0 else coloroff)"

definition calc_slab_coloroff_with_max_items :: "nat \<Rightarrow> nat \<Rightarrow> nat" where
  "calc_slab_coloroff_with_max_items sz maxitems =
     (let total_sz = u32_of (sz * maxitems);
          coloroff = slab_coloroff;
          pgs_without_coloroff = u32_of (total_sz + 4096 - 1) div 4096;
          pgs_with_coloroff = u32_of (total_sz + coloroff + 4096 - 1) div 4096
      in if pgs_with_coloroff = pgs_without_coloroff then coloroff else 0)"

text \<open>The number of objects that is aimed at, then the colour offset, the pages and the objects of a slab.\<close>

definition calc_items :: "nat \<Rightarrow> nat \<Rightarrow> nat" where
  "calc_items sz coloroff =
     (if sz * 256 + coloroff \<le> 8 * 4096 then 256
      else if sz * ((2 * 256 + 8) div 3) + coloroff \<le> 8 * 4096 then (2 * 256 + 8) div 3
      else if sz * ((256 + 8) div 2) + coloroff \<le> 16 * 4096 then (256 + 8) div 2
      else if sz * ((256 + 2 * 8) div 3) + coloroff \<le> 16 * 4096 then (256 + 2 * 8) div 3
      else 8)"

definition calc_slab_pages :: "nat \<Rightarrow> nat \<Rightarrow> nat \<times> nat \<times> nat" where
  "calc_slab_pages sz flags =
     (let coloroff = (if odd flags then slab_coloroff else calc_slab_coloroff sz);
          items = calc_items sz coloroff;
          pages = u32_of ((items * sz + coloroff + 4096 - 1) div 4096);
          objs = u32_of (u32_of (u32_of (pages * 4096) + (2 ^ 32 - coloroff)) div sz)
      in (coloroff, pages, objs))"

definition init_mcache :: "string \<Rightarrow> nat \<Rightarrow> nat \<Rightarrow> nat \<Rightarrow> memcache_impl" where
  "init_mcache name sz maxitems flags =
     (let sz = (if sz < 16 then 16 else sz);
          size = u32_of ((sz + 4 - 1) div 4 * 4);
          (coloroff, pages, objects) = calc_slab_pages size flags;
          m = \<lparr>mc_name = take 15 (c_str name), mc_pages = pages, mc_objects = objects, mc_size = size, mc_coloroff = coloroff\<rparr>
      in if maxitems = 0 \<or> objects < maxitems then m
         else (let coloroff = (if odd flags then slab_coloroff else calc_slab_coloroff_with_max_items size maxitems);
                   objects = u32_of maxitems
               in m\<lparr>mc_coloroff := coloroff, mc_objects := objects,
                    mc_pages := u32_of (size * objects + coloroff + 4096 - 1) div 4096\<rparr>))"

text \<open>\<open>c\<close> is the address of the new pool; an assertion refuses a null name.\<close>

definition memcache_ctor :: "mcaches \<Rightarrow> nat \<Rightarrow> string option \<Rightarrow> nat \<Rightarrow> nat \<Rightarrow> nat \<Rightarrow> mcaches option" where
  "memcache_ctor s c name sz maxitems flags =
     do {
       name \<leftarrow> name;
       let n = \<lparr>ln_next = None, ln_prev = None\<rparr>;
       let h = (ms_lists s)(Owner (slabs_partial c) \<mapsto> n, Owner (slabs_empty c) \<mapsto> n, Owner (slabs_full c) \<mapsto> n);
       h \<leftarrow> listnode_init h (Owner (slabs_partial c));
       h \<leftarrow> listnode_init h (Owner (slabs_empty c));
       h \<leftarrow> listnode_init h (Owner (slabs_full c));
       Some (s\<lparr>ms_caches := (ms_caches s)(c \<mapsto> init_mcache name sz maxitems flags), ms_lists := h\<rparr>)
     }"

section \<open>Slabs\<close>

text \<open>The comparisons of slabs, by the pages of their buffers, and of an address with a slab.\<close>

definition page_of :: "nat \<Rightarrow> nat" where
  "page_of a = a div 4096 * 4096"

definition slab_bytes :: "mcaches \<Rightarrow> nat \<Rightarrow> nat" where
  "slab_bytes s b = (case ms_slabs s b of None \<Rightarrow> 0 | Some sb \<Rightarrow>
     (case ms_caches s (sb_mcache sb) of None \<Rightarrow> 0 | Some c \<Rightarrow> mc_pages c * 4096))"

definition buffer_of :: "mcaches \<Rightarrow> nat \<Rightarrow> nat" where
  "buffer_of s b = (case ms_slabs s b of None \<Rightarrow> 0 | Some sb \<Rightarrow> sb_buffer sb)"

definition slab_avltree_insert_cmp :: "mcaches \<Rightarrow> nat \<Rightarrow> nat \<Rightarrow> int" where
  "slab_avltree_insert_cmp s a b =
     (let f1 = page_of (buffer_of s a); f2 = f1 + slab_bytes s a;
          s1 = page_of (buffer_of s b); s2 = s1 + slab_bytes s b
      in if f2 \<le> s1 then - 1 else if s2 \<le> f1 then 1 else 0)"

definition slab_avltree_compare :: "mcaches \<Rightarrow> nat \<Rightarrow> nat \<Rightarrow> int" where
  "slab_avltree_compare s p b =
     (if p < buffer_of s b then - 1 else if buffer_of s b + slab_bytes s b \<le> p then 1 else 0)"

definition mcache_slab_alloc :: "mcaches \<Rightarrow> memcache_impl \<Rightarrow> nat \<Rightarrow> (ptr \<times> mcaches) option" where
  "mcache_slab_alloc s mc slab =
     do {
       sb \<leftarrow> ms_slabs s slab;
       if mc_objects mc \<le> sb_first sb then
         (case sb_freelist sb of
            None \<Rightarrow> Some (None, s)
          | Some node \<Rightarrow> do {
              nxt \<leftarrow> ms_next s node;
              Some (Some node, s\<lparr>ms_slabs := (ms_slabs s)(slab \<mapsto> sb\<lparr>sb_freelist := nxt, sb_used := u32_of (sb_used sb + 1)\<rparr>)\<rparr>)
            })
       else Some (Some (sb_buffer sb + sb_first sb * mc_size mc),
         s\<lparr>ms_slabs := (ms_slabs s)(slab \<mapsto> sb\<lparr>sb_first := u32_of (sb_first sb + 1), sb_used := u32_of (sb_used sb + 1)\<rparr>)\<rparr>)
     }"

definition move_to_list :: "mcaches \<Rightarrow> nat \<Rightarrow> nat \<Rightarrow> mcaches option" where
  "move_to_list s slab list =
     do {
       h \<leftarrow> listnode_del (ms_lists s) (Member slab);
       h \<leftarrow> listnode_add h (Owner list) (Member slab);
       Some (s\<lparr>ms_lists := h\<rparr>)
     }"

definition mcache_move_to_full_list :: "mcaches \<Rightarrow> nat \<Rightarrow> nat \<Rightarrow> mcaches option" where
  "mcache_move_to_full_list s c slab = move_to_list s slab (slabs_full c)"

definition mcache_move_to_partial_list :: "mcaches \<Rightarrow> nat \<Rightarrow> nat \<Rightarrow> mcaches option" where
  "mcache_move_to_partial_list s c slab = move_to_list s slab (slabs_partial c)"

definition mcache_move_to_empty_list :: "mcaches \<Rightarrow> nat \<Rightarrow> nat \<Rightarrow> mcaches option" where
  "mcache_move_to_empty_list s c slab = move_to_list s slab (slabs_empty c)"

definition mcache_is_empty_slab :: "mcaches \<Rightarrow> memcache_impl \<Rightarrow> nat \<Rightarrow> bool option" where
  "mcache_is_empty_slab s mc slab = do { sb \<leftarrow> ms_slabs s slab; Some (mc_objects mc \<le> sb_used sb) }"

definition mcache_release_node :: "mcaches \<Rightarrow> nat \<Rightarrow> memcache_impl \<Rightarrow> nat \<Rightarrow> nat \<Rightarrow> mcaches option" where
  "mcache_release_node s c mc slab p =
     do {
       sb \<leftarrow> ms_slabs s slab;
       let used = u32_of (sb_used sb + (2 ^ 32 - 1));
       let s = s\<lparr>ms_next := (ms_next s)(p \<mapsto> sb_freelist sb),
                 ms_slabs := (ms_slabs s)(slab \<mapsto> sb\<lparr>sb_freelist := Some p, sb_used := used\<rparr>)\<rparr>;
       if sb_used sb = mc_objects mc then mcache_move_to_partial_list s c slab
       else if used = 0 then mcache_move_to_empty_list s c slab
       else Some s
     }"

section \<open>Release and allocation\<close>

definition mcache_free :: "mcaches \<Rightarrow> ptr \<Rightarrow> mcaches option" where
  "mcache_free s p =
     (case p of
        None \<Rightarrow> Some s
      | Some p \<Rightarrow> do {
          node \<leftarrow> avl_find (ms_nodes s) (ms_tree s) p (slab_avltree_compare s);
          case node of
            None \<Rightarrow> Some s
          | Some slab \<Rightarrow> do {
              sb \<leftarrow> ms_slabs s slab;
              mc \<leftarrow> ms_caches s (sb_mcache sb);
              mcache_release_node s (sb_mcache sb) mc slab p
            }
        })"

text \<open>
  \<^verbatim>\<open>mcache_expand\<close>: \<open>buffer\<close> and \<open>block\<close> are what the first and the second \<^verbatim>\<open>malloc\<close> return. The macro \<^verbatim>\<open>bug\<close>, which
  is to report that the tree refuses a slab, is empty; \<^verbatim>\<open>free\<close> is the member function of that name.
\<close>

definition mcache_expand :: "mcaches \<Rightarrow> nat \<Rightarrow> nat option \<Rightarrow> nat option \<Rightarrow> mcaches option" where
  "mcache_expand s c buffer block =
     do {
       mc \<leftarrow> ms_caches s c;
       case buffer of
         None \<Rightarrow> Some s
       | Some buffer \<Rightarrow>
           (case (if mc_coloroff mc = 0 then block else Some buffer) of
              None \<Rightarrow> mcache_free s (Some buffer)
            | Some slab \<Rightarrow> do {
                let sb = \<lparr>sb_mcache = c, sb_buffer = buffer + mc_coloroff mc, sb_first = 0, sb_freelist = None, sb_used = 0\<rparr>;
                let s = s\<lparr>ms_slabs := (ms_slabs s)(slab \<mapsto> sb),
                          ms_nodes := (ms_nodes s)(slab \<mapsto> \<lparr>avl_balance = 0, avl_child_index = 0, avl_child0 = None, avl_child1 = None,
                            avl_parent = None\<rparr>)\<rparr>;
                l \<leftarrow> listnode_add ((ms_lists s)(Member slab \<mapsto> \<lparr>ln_next = None, ln_prev = None\<rparr>)) (Owner (slabs_empty c)) (Member slab);
                (h, rt, ret) \<leftarrow> avl_insert (ms_nodes s) (ms_tree s) slab (slab_avltree_insert_cmp s);
                Some (s\<lparr>ms_lists := l, ms_nodes := h, ms_tree := rt\<rparr>)
              })
     }"

definition first_slab :: "mcaches \<Rightarrow> nat \<Rightarrow> ptr option" where
  "first_slab s list = do { n \<leftarrow> ms_lists s (Owner list); Some (list_entry (ln_next n)) }"

definition mcache_alloc :: "mcaches \<Rightarrow> nat \<Rightarrow> nat option \<Rightarrow> nat option \<Rightarrow> (ptr \<times> mcaches) option" where
  "mcache_alloc s c buffer block =
     do {
       mc \<leftarrow> ms_caches s c;
       e \<leftarrow> listnode_isempty (ms_lists s) (Owner (slabs_partial c));
       if e then do {
         e \<leftarrow> listnode_isempty (ms_lists s) (Owner (slabs_empty c));
         s \<leftarrow> (if e then mcache_expand s c buffer block else Some s);
         e \<leftarrow> listnode_isempty (ms_lists s) (Owner (slabs_empty c));
         if e then Some (None, s)
         else do {
           slab \<leftarrow> first_slab s (slabs_empty c);
           slab \<leftarrow> slab;
           (ret, s) \<leftarrow> mcache_slab_alloc s mc slab;
           s \<leftarrow> (if ret \<noteq> None then mcache_move_to_partial_list s c slab else Some s);
           Some (ret, s)
         }
       }
       else do {
         slab \<leftarrow> first_slab s (slabs_partial c);
         slab \<leftarrow> slab;
         (ret, s) \<leftarrow> mcache_slab_alloc s mc slab;
         full \<leftarrow> mcache_is_empty_slab s mc slab;
         s \<leftarrow> (if ret \<noteq> None \<and> full then mcache_move_to_full_list s c slab else Some s);
         Some (ret, s)
       }
     }"

end
