(* ===== verification/Mem_Cache_Ops.thy ===== *)
theory Mem_Cache_Ops
  imports Mem_Cache List_Family
begin

text \<open>
  The correctness of the memory pools: the sizes of a pool are consistent, and allocation and release keep the
  objects in use apart from each other and from everything else.
\<close>

section \<open>Sizes\<close>

definition cache_fit :: "memcache_impl \<Rightarrow> bool" where
  "cache_fit mc \<longleftrightarrow> 16 \<le> mc_size mc \<and> 4 dvd mc_size mc \<and> 0 < mc_objects mc \<and> mc_objects mc < 2 ^ 32 \<and>
     mc_coloroff mc \<in> {0, slab_coloroff} \<and> mc_coloroff mc + mc_objects mc * mc_size mc \<le> mc_pages mc * 4096"

lemma coloroff_cases: "calc_slab_coloroff sz \<in> {0, slab_coloroff}" "calc_slab_coloroff_with_max_items sz k \<in> {0, slab_coloroff}"
  by (auto simp: calc_slab_coloroff_def calc_slab_coloroff_with_max_items_def Let_def)

lemma slab_coloroff_96: "slab_coloroff = 96"
  by (simp add: slab_coloroff_def)

lemma items_bound:
  assumes "sz \<le> 2 ^ 26 + 4" "co \<le> 96"
  shows "8 \<le> calc_items sz co" "calc_items sz co * sz + co < 2 ^ 30"
proof -
  show "8 \<le> calc_items sz co" by (simp add: calc_items_def)
  have "calc_items sz co * sz + co \<le> 16 * 4096 \<or> calc_items sz co = 8" by (auto simp: calc_items_def mult.commute)
  then show "calc_items sz co * sz + co < 2 ^ 30" using assms by auto
qed

lemma pages_cover: "(n :: nat) \<le> (n + 4096 - 1) div 4096 * 4096" "(n + 4096 - 1) div 4096 * 4096 < n + 4096"
  using div_mult_mod_eq [of "n + 4096 - 1" "4096 :: nat"] mod_less_divisor [of 4096 "n + 4096 - 1"] by linarith+

lemma calc_slab_pages_fit:
  assumes sz: "16 \<le> sz" "sz \<le> 2 ^ 26 + 4" and r: "calc_slab_pages sz flags = (co, pages, objs)"
  shows "co \<in> {0, slab_coloroff}" "8 \<le> objs" "objs < 2 ^ 32" "co + objs * sz \<le> pages * 4096" "pages * 4096 < 2 ^ 30 + 4096"
proof -
  define items where "items = calc_items sz co"
  define X where "X = items * sz + co"
  have coeq: "co = (if odd flags then slab_coloroff else calc_slab_coloroff sz)" using r by (simp add: calc_slab_pages_def Let_def)
  then have co: "co \<in> {0, slab_coloroff}" using coloroff_cases(1) [of sz] by auto
  then have co96: "co \<le> 96" by (auto simp: slab_coloroff_96)
  note ib = items_bound [OF sz(2) co96, folded items_def, folded X_def]
  define P where "P = (X + 4096 - 1) div 4096"
  note pc = pages_cover [of X, folded P_def]
  have P: "u32_of P = P" "u32_of (P * 4096) = P * 4096" using pc ib(2) by (simp_all add: u32_of_def)
  have "u32_of (P * 4096 + (2 ^ 32 - co)) = P * 4096 - co"
  proof -
    have "co \<le> P * 4096" using pc(1) by (simp add: X_def)
    then have "P * 4096 + (2 ^ 32 - co) = (P * 4096 - co) + 2 ^ 32" using co96 by simp
    moreover have "P * 4096 - co < 2 ^ 32" using pc(2) ib(2) by simp
    ultimately show ?thesis by (simp add: u32_of_def)
  qed
  note W = this
  have "(pages, objs) = (u32_of P, u32_of (u32_of (u32_of (u32_of P * 4096) + (2 ^ 32 - co)) div sz))"
    using r unfolding calc_slab_pages_def Let_def coeq [symmetric] items_def [symmetric] X_def [symmetric] P_def [symmetric]
    by (metis prod.inject)
  then have pages: "pages = P" and objs: "objs = u32_of ((P * 4096 - co) div sz)" unfolding P W by auto
  have "(P * 4096 - co) div sz \<le> P * 4096 - co" by (rule div_le_dividend)
  also have "P * 4096 - co < 2 ^ 32" using pc(2) ib(2) by simp
  finally have "(P * 4096 - co) div sz < 2 ^ 32" .
  then have o: "objs = (P * 4096 - co) div sz" "objs < 2 ^ 32" using objs by (simp_all add: u32_of_def)
  have "items * sz \<le> P * 4096 - co" using pc(1) by (simp add: X_def)
  then have "items \<le> objs" unfolding o(1) using sz(1) by (metis div_le_mono div_mult_self_is_m less_le_trans zero_less_numeral)
  then show "8 \<le> objs" using ib(1) by simp
  show "co \<in> {0, slab_coloroff}" "objs < 2 ^ 32" "pages * 4096 < 2 ^ 30 + 4096" using co o(2) pc(2) ib(2) pages by simp_all
  have "objs * sz \<le> P * 4096 - co" unfolding o(1) by (rule div_times_less_eq_dividend)
  moreover have "co \<le> P * 4096" using pc(1) by (simp add: X_def)
  ultimately show "co + objs * sz \<le> pages * 4096" using pages by simp
qed

lemma init_mcache_eq:
  assumes "u32_of (((if sz < 16 then 16 else sz) + 4 - 1) div 4 * 4) = w" "calc_slab_pages w flags = (co, pages, objs)"
    "co' = (if odd flags then slab_coloroff else calc_slab_coloroff_with_max_items w maxitems)"
  shows "init_mcache name sz maxitems flags =
    (if maxitems = 0 \<or> objs < maxitems
     then \<lparr>mc_name = take 15 (c_str name), mc_pages = pages, mc_objects = objs, mc_size = w, mc_coloroff = co\<rparr>
     else \<lparr>mc_name = take 15 (c_str name), mc_pages = u32_of (w * u32_of maxitems + co' + 4096 - 1) div 4096,
       mc_objects = u32_of maxitems, mc_size = w, mc_coloroff = co'\<rparr>)"
  unfolding init_mcache_def Let_def assms prod.case by simp

lemma round_up_4:
  assumes "sz \<le> 2 ^ 26" "z = (if sz < 16 then 16 else sz)" "w = (z + 4 - 1) div 4 * 4"
  shows "16 \<le> w" "w \<le> 2 ^ 26 + 4" "sz \<le> w" "w < sz + 4 \<or> w = 16" "u32_of w = w" "4 dvd w"
proof -
  have "z \<le> w" "w < z + 4" unfolding assms(3)
    using div_mult_mod_eq [of "z + 4 - 1" 4] mod_less_divisor [of 4 "z + 4 - 1"] by linarith+
  moreover show "4 dvd w" using assms(3) by simp
  moreover have "sz < 16 \<Longrightarrow> w = 16" using assms(2,3) by simp
  ultimately show "16 \<le> w" "w \<le> 2 ^ 26 + 4" "sz \<le> w" "w < sz + 4 \<or> w = 16" "u32_of w = w"
    using assms(1,2) by (auto simp: u32_of_def split: if_splits)
qed

lemma init_mcache_fits:
  assumes "sz \<le> 2 ^ 26" and mdef: "m = init_mcache name sz maxitems flags"
  shows "cache_fit m \<and> sz \<le> mc_size m \<and> (mc_size m < sz + 4 \<or> mc_size m = 16) \<and>
    (if maxitems = 0 then 8 \<le> mc_objects m else mc_objects m = maxitems \<or> 8 \<le> mc_objects m \<and> mc_objects m < maxitems)"
proof -
  define z where "z = (if sz < 16 then 16 else sz)"
  define w where "w = (z + 4 - 1) div 4 * 4"
  note w = round_up_4 [OF assms(1) z_def w_def]
  obtain co pages objs where r: "calc_slab_pages w flags = (co, pages, objs)" by (cases "calc_slab_pages w flags") auto
  note f = calc_slab_pages_fit [OF w(1,2) r]
  define co' where "co' = (if odd flags then slab_coloroff else calc_slab_coloroff_with_max_items w maxitems)"
  have co': "co' \<in> {0, slab_coloroff}" using coloroff_cases(2) by (auto simp: co'_def)
  have "u32_of (((if sz < 16 then 16 else sz) + 4 - 1) div 4 * 4) = w" using w(5) unfolding w_def z_def .
  note m = init_mcache_eq [OF this r co'_def, of name, folded mdef]
  show ?thesis
  proof (cases "maxitems = 0 \<or> objs < maxitems")
    case True
    then show ?thesis using f w m by (auto simp: cache_fit_def)
  next
    case False
    then have k: "u32_of maxitems = maxitems" "0 < maxitems" "maxitems \<le> objs" using f(3) by (simp_all add: u32_of_def)
    have "w * maxitems \<le> objs * w" using k(3) by (metis mult.commute mult_le_mono1)
    then have "w * maxitems < 2 ^ 30 + 4096" using f(4,5) by linarith
    moreover have "co' \<le> 96" using co' by (auto simp: slab_coloroff_96)
    ultimately have u: "u32_of (w * maxitems + co' + 4096 - 1) = w * maxitems + co' + 4096 - 1" by (simp add: u32_of_def)
    have "co' + maxitems * w \<le> (w * maxitems + co' + 4096 - 1) div 4096 * 4096"
      using pages_cover(1) [of "w * maxitems + co'"] by (simp add: mult.commute add.commute)
    then show ?thesis unfolding m if_not_P [OF False] cache_fit_def k(1) u using k(2,3) f(3) w co' by auto
  qed
qed

section \<open>Free lists\<close>

text \<open>\<open>chain nx p xs\<close>: following the members \<^verbatim>\<open>next\<close> from \<open>p\<close> passes the objects \<open>xs\<close> and ends at the null pointer.\<close>

fun chain :: "(nat \<Rightarrow> ptr option) \<Rightarrow> ptr \<Rightarrow> nat list \<Rightarrow> bool" where
  "chain nx p [] \<longleftrightarrow> p = None"
| "chain nx p (x # xs) \<longleftrightarrow> p = Some x \<and> (\<exists>q. nx x = Some q \<and> chain nx q xs)"

lemma chain_unique: "\<lbrakk>chain nx p xs; chain nx p ys\<rbrakk> \<Longrightarrow> xs = ys"
proof (induction xs arbitrary: p ys)
  case Nil
  then show ?case by (cases ys) auto
next
  case (Cons x xs)
  then show ?case by (cases ys) auto
qed

lemma chain_cong: "(\<And>x. x \<in> set xs \<Longrightarrow> nx' x = nx x) \<Longrightarrow> chain nx' p xs = chain nx p xs"
  by (induction xs arbitrary: p) auto

definition objects_of :: "memcache_impl \<Rightarrow> slab_t \<Rightarrow> nat \<Rightarrow> nat set" where
  "objects_of mc sb n = (\<lambda>k. sb_buffer sb + k * mc_size mc) ` {..<n}"

definition slab_ok :: "(nat \<Rightarrow> ptr option) \<Rightarrow> memcache_impl \<Rightarrow> slab_t \<Rightarrow> nat list \<Rightarrow> bool" where
  "slab_ok nx mc sb fs \<longleftrightarrow> chain nx (sb_freelist sb) fs \<and> distinct fs \<and> set fs \<subseteq> objects_of mc sb (sb_first sb) \<and>
     sb_used sb + length fs = sb_first sb \<and> sb_first sb \<le> mc_objects mc"

lemma objects_Suc: "objects_of mc sb (Suc n) = insert (sb_buffer sb + n * mc_size mc) (objects_of mc sb n)"
  by (simp add: objects_of_def lessThan_Suc)

lemma objects_cong: "sb_buffer sb' = sb_buffer sb \<Longrightarrow> objects_of mc sb' n = objects_of mc sb n"
  by (simp add: objects_of_def)

lemma objects_fresh: "0 < mc_size mc \<Longrightarrow> sb_buffer sb + n * mc_size mc \<notin> objects_of mc sb n"
  by (auto simp: objects_of_def)

lemma objects_card: "0 < mc_size mc \<Longrightarrow> finite (objects_of mc sb n) \<and> card (objects_of mc sb n) = n"
  by (simp add: objects_of_def card_image inj_on_def)

lemma objects_inside:
  assumes "cache_fit mc" "n \<le> mc_objects mc" "p \<in> objects_of mc sb n"
  shows "sb_buffer sb \<le> p" "p + mc_size mc + mc_coloroff mc \<le> sb_buffer sb + mc_pages mc * 4096"
proof -
  from assms(3) obtain k where k: "p = sb_buffer sb + k * mc_size mc" "k < n" by (auto simp: objects_of_def)
  then show "sb_buffer sb \<le> p" by simp
  have "Suc k * mc_size mc \<le> mc_objects mc * mc_size mc" using k(2) assms(2) by (intro mult_le_mono1) simp
  then show "p + mc_size mc + mc_coloroff mc \<le> sb_buffer sb + mc_pages mc * 4096" using assms(1) k(1) by (simp add: cache_fit_def)
qed

lemma objects_apart:
  assumes "p \<in> objects_of mc sb n" "q \<in> objects_of mc sb m" "p \<noteq> q"
  shows "p + mc_size mc \<le> q \<or> q + mc_size mc \<le> p"
proof -
  from assms obtain k l where k: "p = sb_buffer sb + k * mc_size mc" "q = sb_buffer sb + l * mc_size mc" "k \<noteq> l"
    by (auto simp: objects_of_def)
  have "Suc k * mc_size mc \<le> l * mc_size mc \<or> Suc l * mc_size mc \<le> k * mc_size mc"
    using k(3) by (metis Suc_leI mult_le_mono1 nat_neq_iff)
  then show ?thesis using k by (auto simp: add.commute)
qed

text \<open>A slab hands out an object that is not in use, and has one as long as not all are in use.\<close>

lemma slab_first:
  assumes "slab_ok nx mc sb fs" "cache_fit mc" "sb_first sb < mc_objects mc"
    and "sb' = sb\<lparr>sb_first := u32_of (sb_first sb + 1), sb_used := u32_of (sb_used sb + 1)\<rparr>"
  shows "slab_ok nx mc sb' fs" "sb_used sb' = sb_used sb + 1" "sb_first sb' = sb_first sb + 1"
proof -
  have "sb_first sb + 1 < 2 ^ 32" using assms(2,3) by (simp add: cache_fit_def)
  moreover have "sb_used sb \<le> sb_first sb" using assms(1) by (simp add: slab_ok_def)
  ultimately show u: "sb_used sb' = sb_used sb + 1" "sb_first sb' = sb_first sb + 1" using assms(4) by (simp_all add: u32_of_def)
  have "sb_freelist sb' = sb_freelist sb" "objects_of mc sb' n = objects_of mc sb n" for n
    by (simp_all add: assms(4) objects_of_def)
  then show "slab_ok nx mc sb' fs" using assms(1,3) u by (auto simp: slab_ok_def objects_Suc)
qed

lemma slab_next:
  assumes "slab_ok nx mc sb fs" "cache_fit mc" "fs = x # ys" "nx x = Some q"
    and "sb' = sb\<lparr>sb_freelist := q, sb_used := u32_of (sb_used sb + 1)\<rparr>"
  shows "slab_ok nx mc sb' ys" "sb_used sb' = sb_used sb + 1" "sb_first sb' = sb_first sb"
proof -
  have "sb_used sb + 1 \<le> mc_objects mc" "mc_objects mc < 2 ^ 32" using assms(1-3) by (auto simp: slab_ok_def cache_fit_def)
  then show u: "sb_used sb' = sb_used sb + 1" "sb_first sb' = sb_first sb" using assms(5) by (simp_all add: u32_of_def)
  have "sb_freelist sb' = q" "objects_of mc sb' n = objects_of mc sb n" for n
    by (simp_all add: assms(5) objects_of_def)
  then show "slab_ok nx mc sb' ys" using assms(1,3,4) u by (auto simp: slab_ok_def)
qed

lemma slab_give:
  assumes "slab_ok nx mc sb fs" "cache_fit mc" "x \<in> objects_of mc sb (sb_first sb)" "x \<notin> set fs"
    and "sb' = sb\<lparr>sb_freelist := Some x, sb_used := u32_of (sb_used sb + (2 ^ 32 - 1))\<rparr>"
    and "nx' = nx(x \<mapsto> sb_freelist sb)"
  shows "slab_ok nx' mc sb' (x # fs)" "sb_used sb = sb_used sb' + 1" "sb_first sb' = sb_first sb"
proof -
  have "0 < mc_size mc" using assms(2) by (simp add: cache_fit_def)
  from objects_card [OF this, of sb] have fin: "finite (objects_of mc sb n)" "card (objects_of mc sb n) = n" for n by simp_all
  have "set (x # fs) \<subseteq> objects_of mc sb (sb_first sb)" "distinct (x # fs)" using assms(1,3,4) by (auto simp: slab_ok_def)
  then have "length (x # fs) \<le> sb_first sb" using fin card_mono distinct_card by metis
  then have "0 < sb_used sb" "sb_used sb < 2 ^ 32" using assms(1,2) by (simp_all add: slab_ok_def cache_fit_def)
  then have "u32_of (sb_used sb + (2 ^ 32 - 1)) = sb_used sb - 1"
    by (cases "sb_used sb") (simp_all add: u32_of_def)
  then show u: "sb_used sb = sb_used sb' + 1" "sb_first sb' = sb_first sb" using assms(5) \<open>0 < sb_used sb\<close> by simp_all
  have "sb_freelist sb' = Some x" "objects_of mc sb' n = objects_of mc sb n" for n
    by (simp_all add: assms(5) objects_of_def)
  moreover have "chain nx' (sb_freelist sb) fs" using assms(1,4,6) by (subst chain_cong [of fs nx' nx]) (auto simp: slab_ok_def)
  ultimately show "slab_ok nx' mc sb' (x # fs)" using assms(1,3,4,6) u by (auto simp: slab_ok_def)
qed

section \<open>Slabs in the tree\<close>

text \<open>The tree holds the slabs in the order of the ranges that the search takes to be theirs.\<close>

definition zones_ok :: "avl_heap \<Rightarrow> ptr \<Rightarrow> (nat \<Rightarrow> nat) \<Rightarrow> (nat \<Rightarrow> nat) \<Rightarrow> nat set \<Rightarrow> bool" where
  "zones_ok h rt lo len A \<longleftrightarrow>
     (\<exists>t. rep_root h rt t \<and> avl t \<and> sorted_wrt (\<lambda>x y. lo x + len x \<le> lo y) (keys t) \<and> addrs t = A)"

definition apart :: "nat \<Rightarrow> nat \<Rightarrow> nat \<Rightarrow> nat \<Rightarrow> bool" where
  "apart a m b n \<longleftrightarrow> a + m \<le> b \<or> b + n \<le> a"

lemma sorted_wrt_pairs:
  assumes "sorted_wrt P xs" "x \<in> set xs" "y \<in> set xs" "x \<noteq> y"
  shows "P x y \<or> P y x"
proof -
  from assms obtain i j where "i < length xs" "j < length xs" "xs ! i = x" "xs ! j = y" "i \<noteq> j" by (auto simp: in_set_conv_nth)
  then show ?thesis using assms(1) by (metis nat_neq_iff sorted_wrt_nth_less)
qed

lemma zones_apart: "\<lbrakk>zones_ok h rt lo len A; x \<in> A; y \<in> A; x \<noteq> y\<rbrakk> \<Longrightarrow> apart (lo x) (len x) (lo y) (len y)"
  by (auto simp: zones_ok_def apart_def set_keys [symmetric] dest: sorted_wrt_pairs)

lemma zones_find:
  assumes "zones_ok h rt lo len A" and cmp: "\<And>b. cmp p b = (if p < lo b then - 1 else if lo b + len b \<le> p then 1 else 0)"
  shows "\<lbrakk>b \<in> A; lo b \<le> p; p < lo b + len b\<rbrakk> \<Longrightarrow> avl_find h rt p cmp = Some (Some b)"
    and "(\<And>b. b \<in> A \<Longrightarrow> p < lo b \<or> lo b + len b \<le> p) \<Longrightarrow> avl_find h rt p cmp = Some None"
proof -
  from assms(1) obtain t where t: "rep_root h rt t" "sorted_wrt (\<lambda>x y. lo x + len x \<le> lo y) (keys t)" "addrs t = A"
    by (auto simp: zones_ok_def)
  have "sorted_wrt (\<lambda>x y. cmp p y \<le> cmp p x) (keys t)" by (rule sorted_wrt_mono_rel [OF _ t(2)]) (auto simp: cmp)
  then have "cuts (cmp p) (keys t)" by (simp add: cuts_def cmp)
  from avl_find_rep [where cmp = cmp and v = p, OF t(1) this, unfolded t(3)] obtain r where r: "avl_find h rt p cmp = Some r"
    "case r of None \<Rightarrow> \<forall>k \<in> A. cmp p k \<noteq> 0 | Some k \<Rightarrow> k \<in> A \<and> cmp p k = 0" by blast
  show "avl_find h rt p cmp = Some (Some b)" if b: "b \<in> A" "lo b \<le> p" "p < lo b + len b"
  proof (cases r)
    case None
    then show ?thesis using r(2) b by (auto simp: cmp)
  next
    case (Some k)
    then have k: "k \<in> A" "lo k \<le> p" "p < lo k + len k" using r(2) by (auto simp: cmp split: if_splits)
    then have "k = b" using zones_apart [OF assms(1) k(1) b(1)] b by (fastforce simp: apart_def)
    then show ?thesis using r(1) Some by simp
  qed
  show "avl_find h rt p cmp = Some None" if o: "\<And>b. b \<in> A \<Longrightarrow> p < lo b \<or> lo b + len b \<le> p"
  proof (cases r)
    case (Some k)
    then have k: "k \<in> A" "cmp p k = 0" using r(2) by auto
    then show ?thesis using o [OF k(1)] by (auto simp: cmp split: if_splits)
  qed (use r(1) in simp)
qed

lemma zones_insert:
  assumes "zones_ok h rt lo len A" and a: "a \<notin> A" "h a \<noteq> None" and ap: "\<And>b. b \<in> A \<Longrightarrow> apart (lo a) (len a) (lo b) (len b)"
    and cmp: "\<And>b. b \<in> A \<Longrightarrow> cmp a b = (if lo a + len a \<le> lo b then - 1 else 1)"
  obtains h' rt' where "avl_insert h rt a cmp = Some (h', rt', 0)" "zones_ok h' rt' lo len (insert a A)"
proof -
  from assms(1) obtain t where t: "rep_root h rt t" "avl t" "sorted_wrt (\<lambda>x y. lo x + len x \<le> lo y) (keys t)" "addrs t = A"
    by (auto simp: zones_ok_def)
  have sk: "set (keys t) = A" by (simp add: set_keys t(4))
  have "sorted_wrt (\<lambda>x y. cmp a y \<le> cmp a x) (keys t)"
    by (rule sorted_wrt_mono_rel [OF _ t(3)]) (auto simp: sk cmp)
  then have "cuts (cmp a) (keys t)" using cmp by (simp add: cuts_def sk)
  from avl_insert_rep [where cmp = cmp and a = a, OF t(1,2) this] a obtain h' rt' t' where h': "avl_insert h rt a cmp = Some (h', rt', 0)"
      "rep_root h' rt' t'" "avl t'" "keys t' = place_key (cmp a) a (keys t)"
    using cmp by (auto simp: t(4) split: if_splits)
  define us vs where "us = takeWhile (\<lambda>b. cmp a b = 1) (keys t)" and "vs = dropWhile (\<lambda>b. cmp a b = 1) (keys t)"
  have ks: "keys t = us @ vs" by (simp add: us_def vs_def)
  have k': "keys t' = us @ a # vs" by (simp add: h'(4) place_key_def us_def vs_def)
  have us: "lo b + len b \<le> lo a" if "b \<in> set us" for b
  proof -
    have "cmp a b = 1" "b \<in> A" using that by (auto simp: us_def sk [symmetric] dest: set_takeWhileD)
    then show ?thesis using cmp [of b] ap [of b] by (auto simp: apart_def split: if_splits)
  qed
  have vs: "lo a + len a \<le> lo b" if "b \<in> set vs" for b
  proof (cases vs)
    case (Cons z zs)
    have "cmp a z \<noteq> 1" using Cons by (simp add: vs_def dropWhile_eq_Cons_conv)
    moreover have "z \<in> A" using Cons by (simp add: sk [symmetric] ks)
    ultimately have "lo a + len a \<le> lo z" using cmp [of z] by (auto split: if_splits)
    moreover have "b = z \<or> lo z + len z \<le> lo b" using that t(3) by (auto simp: ks Cons sorted_wrt_append)
    ultimately show ?thesis by auto
  qed (use that in simp)
  have "sorted_wrt (\<lambda>x y. lo x + len x \<le> lo y) (keys t')" using t(3) us vs by (auto simp: k' ks sorted_wrt_append)
  moreover have "addrs t' = insert a A" by (simp add: set_keys [symmetric] k') (simp add: sk [symmetric] ks)
  ultimately show ?thesis using h'(1-3) by (intro that) (auto simp: zones_ok_def)
qed

lemma zones_cong:
  assumes "zones_ok h rt lo len A" and "\<And>a. a \<in> A \<Longrightarrow> h' a = h a" and "\<And>a. a \<in> A \<Longrightarrow> lo' a = lo a \<and> len' a = len a"
  shows "zones_ok h' rt lo' len' A"
proof -
  from assms(1) obtain t where t: "rep_root h rt t" "avl t" "sorted_wrt (\<lambda>x y. lo x + len x \<le> lo y) (keys t)" "addrs t = A"
    by (auto simp: zones_ok_def)
  have "sorted_wrt (\<lambda>x y. lo' x + len' x \<le> lo' y) (keys t)"
    by (rule sorted_wrt_mono_rel [OF _ t(3)]) (use assms(3) t(4) in \<open>auto simp: set_keys\<close>)
  then show ?thesis using t rep_root_cong [OF t(1), of h'] assms(2) by (auto simp: zones_ok_def)
qed

end
