(* ===== verification/Mem_Pools.thy ===== *)
theory Mem_Pools
  imports Mem_Cache_Ops
begin

text \<open>
  Allocation from the memory pools and release: the invariant of the pools, the objects in use as an abstract set,
  and the refinement of that set by \<^verbatim>\<open>alloc\<close> and \<^verbatim>\<open>free\<close>.
\<close>

section \<open>The invariant\<close>

text \<open>The list a slab belongs to.\<close>

definition list_no :: "memcache_impl \<Rightarrow> slab_t \<Rightarrow> nat" where
  "list_no mc sb = 3 * sb_mcache sb + (if sb_used sb = 0 then 1 else if sb_used sb = mc_objects mc then 2 else 0)"

definition pools_ok :: "mcaches \<Rightarrow> (nat \<Rightarrow> nat list) \<Rightarrow> bool" where
  "pools_ok s sl \<longleftrightarrow>
     (\<forall>c mc. ms_caches s c = Some mc \<longrightarrow> cache_fit mc \<and> 2 \<le> mc_objects mc) \<and>
     (\<forall>b sb. ms_slabs s b = Some sb \<longrightarrow> (\<exists>mc fs. ms_caches s (sb_mcache sb) = Some mc \<and> slab_ok (ms_next s) mc sb fs \<and>
        b \<in> set (sl (list_no mc sb)))) \<and>
     zones_ok (ms_nodes s) (ms_tree s) (buffer_of s) (slab_bytes s) (dom (ms_slabs s)) \<and>
     lists_ok {i. ms_caches s (i div 3) \<noteq> None} (ms_lists s) sl (dom (ms_slabs s))"

text \<open>The objects in use, with the pools they are from.\<close>

definition slab_live :: "mcaches \<Rightarrow> slab_t \<Rightarrow> (nat \<times> nat) set" where
  "slab_live s sb = {(c, p). c = sb_mcache sb \<and> (\<exists>mc fs. ms_caches s c = Some mc \<and> chain (ms_next s) (sb_freelist sb) fs \<and>
     p \<in> objects_of mc sb (sb_first sb) - set fs)}"

definition live :: "mcaches \<Rightarrow> (nat \<times> nat) set" where
  "live s = (\<Union>sb \<in> ran (ms_slabs s). slab_live s sb)"

lemma pools_lists: "pools_ok s sl \<Longrightarrow> lists_ok {i. ms_caches s (i div 3) \<noteq> None} (ms_lists s) sl (dom (ms_slabs s))"
  by (simp add: pools_ok_def)

lemma pools_slabE:
  assumes "pools_ok s sl" "ms_slabs s b = Some sb"
  obtains mc fs where "ms_caches s (sb_mcache sb) = Some mc" "cache_fit mc" "2 \<le> mc_objects mc" "slab_ok (ms_next s) mc sb fs"
    "b \<in> set (sl (list_no mc sb))" "buffer_of s b = sb_buffer sb" "slab_bytes s b = mc_pages mc * 4096"
proof -
  from assms obtain mc fs where m: "ms_caches s (sb_mcache sb) = Some mc" "slab_ok (ms_next s) mc sb fs" "b \<in> set (sl (list_no mc sb))"
    unfolding pools_ok_def by blast
  moreover have "cache_fit mc" "2 \<le> mc_objects mc" using assms(1) m(1) unfolding pools_ok_def by blast+
  ultimately show ?thesis using that assms(2) by (auto simp: buffer_of_def slab_bytes_def)
qed

lemma used_bound: "\<lbrakk>pools_ok s sl; ms_slabs s b = Some sb; ms_caches s (sb_mcache sb) = Some mc\<rbrakk> \<Longrightarrow> sb_used sb \<le> mc_objects mc"
  by (rule pools_slabE) (auto simp: slab_ok_def)

lemma slab_live_eq:
  assumes "ms_caches s (sb_mcache sb) = Some mc" "slab_ok (ms_next s) mc sb fs"
  shows "slab_live s sb = Pair (sb_mcache sb) ` (objects_of mc sb (sb_first sb) - set fs)"
proof -
  have "chain (ms_next s) (sb_freelist sb) gs \<longleftrightarrow> gs = fs" for gs
    using assms(2) chain_unique by (auto simp: slab_ok_def)
  then show ?thesis using assms(1) by (auto simp: slab_live_def)
qed

text \<open>Objects of different slabs are apart, since the ranges of the slabs are.\<close>

lemma object_zone:
  assumes "cache_fit mc" "p \<in> objects_of mc sb n" "n \<le> mc_objects mc"
  shows "sb_buffer sb \<le> p" "p + mc_size mc \<le> sb_buffer sb + mc_pages mc * 4096" "p < sb_buffer sb + mc_pages mc * 4096"
  using objects_inside [OF assms(1,3,2)] assms(1) by (auto simp: cache_fit_def)

lemma slabs_apart:
  assumes "pools_ok s sl" "ms_slabs s b = Some sb" "ms_slabs s b' = Some sb'" "b \<noteq> b'"
    and "ms_caches s (sb_mcache sb) = Some mc" "ms_caches s (sb_mcache sb') = Some mc'"
    and "p \<in> objects_of mc sb n" "n \<le> mc_objects mc" "q \<in> objects_of mc' sb' n'" "n' \<le> mc_objects mc'"
  shows "apart p (mc_size mc) q (mc_size mc')"
proof -
  have z: "apart (buffer_of s b) (slab_bytes s b) (buffer_of s b') (slab_bytes s b')"
    by (rule zones_apart [of _ _ _ _ "dom (ms_slabs s)"]) (use assms(1-4) in \<open>auto simp: pools_ok_def\<close>)
  have f: "cache_fit mc" "cache_fit mc'" using assms(1,5,6) by (auto simp: pools_ok_def)
  show ?thesis using z object_zone(1,2) [OF f(1) assms(7,8)] object_zone(1,2) [OF f(2) assms(9,10)] assms(2,3,5,6)
    by (auto simp: apart_def buffer_of_def slab_bytes_def)
qed

lemma apart_neq: "\<lbrakk>apart p m p n; 0 < m; 0 < n\<rbrakk> \<Longrightarrow> False"
  by (auto simp: apart_def)

lemma cache_fit_pos: "cache_fit mc \<Longrightarrow> 0 < mc_size mc"
  by (simp add: cache_fit_def)

lemma cache_fit_pages: "cache_fit mc \<Longrightarrow> 0 < mc_pages mc * 4096"
proof -
  assume f: "cache_fit mc"
  then have "1 * 16 \<le> mc_objects mc * mc_size mc" by (intro mult_le_mono) (auto simp: cache_fit_def)
  moreover have "mc_objects mc * mc_size mc \<le> mc_pages mc * 4096" using f by (simp add: cache_fit_def)
  ultimately show ?thesis by linarith
qed

lemma union_exchange: "\<lbrakk>L = A \<union> R; L' = A' \<union> R; R \<inter> A = {}\<rbrakk> \<Longrightarrow> L' = L - A \<union> A'"
  by blast

lemma insert_exchange: "\<lbrakk>L' = L - A \<union> insert x A; A \<subseteq> L\<rbrakk> \<Longrightarrow> L' = insert x L"
  by blast

lemma ran_dom: "ran m = (\<lambda>a. the (m a)) ` dom m"
  by (auto simp: ran_def dom_def image_iff) (metis option.sel)

lemma live_split: "ms_slabs s b = Some sb \<Longrightarrow> live s = slab_live s sb \<union> (\<Union>a \<in> dom (ms_slabs s) - {b}. slab_live s (the (ms_slabs s a)))"
proof -
  assume b: "ms_slabs s b = Some sb"
  then have d: "dom (ms_slabs s) = insert b (dom (ms_slabs s) - {b})" by blast
  have "live s = (\<Union>a \<in> dom (ms_slabs s). slab_live s (the (ms_slabs s a)))" by (simp add: live_def ran_dom)
  also have "\<dots> = slab_live s (the (ms_slabs s b)) \<union> (\<Union>a \<in> dom (ms_slabs s) - {b}. slab_live s (the (ms_slabs s a)))"
    by (subst d) (rule UN_insert)
  finally show ?thesis using b by simp
qed

definition kept :: "(nat \<Rightarrow> nat list) \<Rightarrow> (nat \<Rightarrow> nat list) \<Rightarrow> nat \<Rightarrow> bool" where
  "kept sl sl' b \<longleftrightarrow> (\<forall>x k. x \<noteq> b \<longrightarrow> x \<in> set (sl k) \<longrightarrow> x \<in> set (sl' k))"

lemma kept_refl [simp]: "kept sl sl b"
  by (simp add: kept_def)

text \<open>A change of one slab: what it needs and what it means for the objects in use.\<close>

lemma pools_update:
  assumes ok: "pools_ok s sl" and b: "ms_slabs s b = Some sb" and mc: "ms_caches s (sb_mcache sb) = Some mc"
    and fs: "slab_ok (ms_next s) mc sb fs"
    and sb': "sb_mcache sb' = sb_mcache sb" "sb_buffer sb' = sb_buffer sb" "slab_ok nx' mc sb' fs'"
    and nx': "\<And>x. x \<notin> objects_of mc sb (mc_objects mc) \<Longrightarrow> nx' x = ms_next s x"
    and sl': "lists_ok {i. ms_caches s (i div 3) \<noteq> None} h' sl' (dom (ms_slabs s))" "b \<in> set (sl' (list_no mc sb'))"
      "kept sl sl' b"
    and s': "s' = s\<lparr>ms_slabs := (ms_slabs s)(b \<mapsto> sb'), ms_next := nx', ms_lists := h'\<rparr>"
    and A: "A = Pair (sb_mcache sb) ` (objects_of mc sb (sb_first sb) - set fs)"
    and A': "A' = Pair (sb_mcache sb) ` (objects_of mc sb (sb_first sb') - set fs')"
  shows "pools_ok s' sl'" "live s' = live s - A \<union> A'"
proof -
  have fit: "cache_fit mc" using ok mc by (auto simp: pools_ok_def)
  have other: "slab_ok nx' m x fx" if x: "ms_slabs s a = Some x" "a \<noteq> b" "ms_caches s (sb_mcache x) = Some m" "slab_ok (ms_next s) m x fx" for a x m fx
  proof -
    have "nx' y = ms_next s y" if y: "y \<in> set fx" for y
    proof (rule nx', rule notI)
      assume y0: "y \<in> objects_of mc sb (mc_objects mc)"
      have y1: "y \<in> objects_of m x (sb_first x)" "sb_first x \<le> mc_objects m" using x(4) y by (auto simp: slab_ok_def)
      have "cache_fit m" using ok x(3) by (auto simp: pools_ok_def)
      from apart_neq [OF slabs_apart [OF ok x(1) b x(2,3) mc y1 y0 order_refl] cache_fit_pos [OF this] cache_fit_pos [OF fit]]
      show False .
    qed
    then show ?thesis using x(4) chain_cong [of fx nx' "ms_next s"] by (simp add: slab_ok_def)
  qed
  have bo: "buffer_of s' a = buffer_of s a" "slab_bytes s' a = slab_bytes s a" for a
    using b by (auto simp: s' buffer_of_def slab_bytes_def sb' split: option.split)
  have dom': "dom (ms_slabs s') = dom (ms_slabs s)" using b by (auto simp: s')
  show "pools_ok s' sl'" unfolding pools_ok_def
  proof (intro conjI allI impI)
    show "zones_ok (ms_nodes s') (ms_tree s') (buffer_of s') (slab_bytes s') (dom (ms_slabs s'))" unfolding dom'
      by (rule zones_cong [of "ms_nodes s" _ "buffer_of s" "slab_bytes s"]) (use ok bo in \<open>auto simp: pools_ok_def s'\<close>)
    show "lists_ok {i. ms_caches s' (i div 3) \<noteq> None} (ms_lists s') sl' (dom (ms_slabs s'))" using sl'(1) by (simp add: dom') (simp add: s')
    fix a x assume x: "ms_slabs s' a = Some x"
    show "\<exists>m fx. ms_caches s' (sb_mcache x) = Some m \<and> slab_ok (ms_next s') m x fx \<and> a \<in> set (sl' (list_no m x))"
    proof (cases "a = b")
      case True
      then show ?thesis using x mc sb' sl'(2) by (auto simp: s')
    next
      case False
      then have x0: "ms_slabs s a = Some x" using x by (simp add: s')
      from pools_slabE [OF ok this] obtain m fx where m: "ms_caches s (sb_mcache x) = Some m" "slab_ok (ms_next s) m x fx"
        "a \<in> set (sl (list_no m x))" by metis
      with other [OF x0 False] sl'(3) False show ?thesis by (auto simp: s' kept_def)
    qed
  qed (use ok in \<open>auto simp: pools_ok_def s'\<close>)
  have same: "slab_live s' x = slab_live s x" "slab_live s x \<inter> A = {}" if x: "ms_slabs s a = Some x" "a \<noteq> b" for a x
  proof -
    from pools_slabE [OF ok x(1)] obtain m fx where m: "ms_caches s (sb_mcache x) = Some m" "slab_ok (ms_next s) m x fx" "cache_fit m" by metis
    from other [OF x m(1,2)] show "slab_live s' x = slab_live s x"
      using slab_live_eq [OF m(1,2)] slab_live_eq [of s' x m fx] m(1) by (simp add: s')
    have "sb_first x \<le> mc_objects m" "sb_first sb \<le> mc_objects mc" using m(2) fs by (auto simp: slab_ok_def)
    then have "p \<noteq> q" if "p \<in> objects_of m x (sb_first x)" "q \<in> objects_of mc sb (sb_first sb)" for p q
      using slabs_apart [OF ok x(1) b x(2) m(1) mc that(1) _ that(2)] apart_neq cache_fit_pos fit m(3) by blast
    then show "slab_live s x \<inter> A = {}" unfolding slab_live_eq [OF m(1,2)] A by blast
  qed
  have L: "slab_live s sb = A" "slab_live s' sb' = A'"
    using slab_live_eq [OF mc fs] slab_live_eq [of s' sb' mc fs'] mc sb' by (simp_all add: A A' s' objects_of_def)
  note live_split [OF b, unfolded L(1)]
  moreover have "live s' = A' \<union> (\<Union>a \<in> dom (ms_slabs s) - {b}. slab_live s (the (ms_slabs s a)))"
  proof -
    have "ms_slabs s' b = Some sb'" by (simp add: s')
    note live_split [OF this, unfolded L(2) dom']
    also have "(\<Union>a \<in> dom (ms_slabs s) - {b}. slab_live s' (the (ms_slabs s' a))) = (\<Union>a \<in> dom (ms_slabs s) - {b}. slab_live s (the (ms_slabs s a)))"
    proof (rule SUP_cong [OF refl])
      fix a assume "a \<in> dom (ms_slabs s) - {b}"
      then obtain x where "ms_slabs s a = Some x" "a \<noteq> b" "ms_slabs s' a = Some x" by (auto simp: s')
      with same(1) show "slab_live s' (the (ms_slabs s' a)) = slab_live s (the (ms_slabs s a))" by simp
    qed
    finally show ?thesis .
  qed
  moreover have "(\<Union>a \<in> dom (ms_slabs s) - {b}. slab_live s (the (ms_slabs s a))) \<inter> A = {}" using same(2) by fastforce
  ultimately show "live s' = live s - A \<union> A'" by (rule union_exchange)
qed

section \<open>Moving slabs between the lists\<close>

lemma move_to_list_ok:
  assumes "lists_ok I (ms_lists s) sl D" "b \<in> set (sl i)" "j \<in> I"
  obtains h' sl' where "move_to_list s b j = Some (s\<lparr>ms_lists := h'\<rparr>)" "lists_ok I h' sl' D" "b \<in> set (sl' j)"
    "kept sl sl' b"
proof -
  from slots_del [OF assms(1,2)] obtain h1 where h1: "listnode_del (ms_lists s) (Member b) = Some h1"
    "lists_ok I h1 (sl(i := remove1 b (sl i))) D" by metis
  have "b \<notin> set (remove1 b (sl i))" using slots_distinct [OF assms(1) slots_bound [OF assms(1,2)]] by simp
  then have n: "\<not> in_slots (sl(i := remove1 b (sl i))) b"
    using slots_disj [OF assms(1,2)] by (auto simp: in_slots_def split: if_splits)
  have "b \<in> D" using slots_sub [OF assms(1)] assms(2) by (auto simp: in_slots_def)
  from slots_add [OF h1(2) assms(3) this n] obtain h2 where h2: "listnode_add h1 (Owner j) (Member b) = Some h2"
    "lists_ok I h2 ((sl(i := remove1 b (sl i)))(j := (sl(i := remove1 b (sl i))) j @ [b])) D" by metis
  show ?thesis by (rule that [OF _ h2(2)]) (use h1(1) h2(1) in \<open>auto simp: move_to_list_def kept_def\<close>)
qed

lemma keep_list:
  assumes "pools_ok s sl" "ms_slabs s b = Some sb" "ms_caches s (sb_mcache sb) = Some mc"
  shows "lists_ok {i. ms_caches s (i div 3) \<noteq> None} (ms_lists s) sl (dom (ms_slabs s))" "b \<in> set (sl (list_no mc sb))"
proof -
  show "lists_ok {i. ms_caches s (i div 3) \<noteq> None} (ms_lists s) sl (dom (ms_slabs s))" using assms(1) by (simp add: pools_ok_def)
  show "b \<in> set (sl (list_no mc sb))" by (rule pools_slabE [OF assms(1,2)]) (use assms(3) in simp)
qed

lemma head_pool: "slabs_partial c div 3 = c" "slabs_empty c div 3 = c" "slabs_full c div 3 = c"
  by simp_all

lemma list_no_head: "ms_caches s (sb_mcache sb) \<noteq> None \<Longrightarrow> list_no mc sb \<in> {i. ms_caches s (i div 3) \<noteq> None}"
  by (auto simp: list_no_def)

text \<open>What a list of slabs says of its slabs.\<close>

lemma list_slab:
  assumes "pools_ok s sl" "b \<in> set (sl i)"
  obtains sb mc where "ms_slabs s b = Some sb" "ms_caches s (sb_mcache sb) = Some mc" "i = list_no mc sb"
proof -
  have l: "lists_ok {i. ms_caches s (i div 3) \<noteq> None} (ms_lists s) sl (dom (ms_slabs s))" using assms(1) by (simp add: pools_ok_def)
  from slots_sub [OF l] assms(2) have "b \<in> dom (ms_slabs s)" unfolding in_slots_def by blast
  then obtain sb where sb: "ms_slabs s b = Some sb" by blast
  from pools_slabE [OF assms(1) this] obtain mc where mc: "ms_caches s (sb_mcache sb) = Some mc" "b \<in> set (sl (list_no mc sb))" by metis
  moreover have "i = list_no mc sb" using slots_disj [OF l assms(2) mc(2)] .
  ultimately show ?thesis using that sb by blast
qed

lemma list_no_cases:
  assumes "2 \<le> mc_objects mc" "i = list_no mc sb"
  shows "i = slabs_partial c \<Longrightarrow> sb_mcache sb = c \<and> 0 < sb_used sb \<and> sb_used sb \<noteq> mc_objects mc"
    and "i = slabs_empty c \<Longrightarrow> sb_mcache sb = c \<and> sb_used sb = 0"
  using assms by (auto simp: list_no_def split: if_splits) presburger+

lemma first_slab_ring:
  assumes "lists_ok I (ms_lists s) sl D" "i \<in> I"
  shows "listnode_isempty (ms_lists s) (Owner i) = Some (sl i = [])" "sl i \<noteq> [] \<Longrightarrow> first_slab s i = Some (Some (hd (sl i)))"
proof -
  note r = slots_ring [OF assms]
  show "listnode_isempty (ms_lists s) (Owner i) = Some (sl i = [])" using ring_isempty [OF r] by simp
  show "first_slab s i = Some (Some (hd (sl i)))" if "sl i \<noteq> []"
    using r that by (cases "sl i") (auto simp: ring_def first_slab_def list_entry_def nxt_def Option.bind_eq_Some_conv)
qed

section \<open>Allocation from a slab\<close>

lemma slab_alloc_ok:
  assumes ok: "pools_ok s sl" and b: "ms_slabs s b = Some sb" and mc: "ms_caches s (sb_mcache sb) = Some mc"
    and u: "sb_used sb \<noteq> mc_objects mc"
  obtains p sb' fs fs' where "mcache_slab_alloc s mc b = Some (Some p, s\<lparr>ms_slabs := (ms_slabs s)(b \<mapsto> sb')\<rparr>)"
    "sb_mcache sb' = sb_mcache sb" "sb_buffer sb' = sb_buffer sb" "sb_used sb' = sb_used sb + 1"
    "slab_ok (ms_next s) mc sb fs" "slab_ok (ms_next s) mc sb' fs'" "p \<in> objects_of mc sb (sb_first sb')"
    "p \<notin> objects_of mc sb (sb_first sb) - set fs"
    "objects_of mc sb (sb_first sb') - set fs' = insert p (objects_of mc sb (sb_first sb) - set fs)"
proof -
  from pools_slabE [OF ok b] mc obtain fs where m: "cache_fit mc" "slab_ok (ms_next s) mc sb fs" by force
  show ?thesis
  proof (cases "sb_first sb < mc_objects mc")
    case True
    define sb' where "sb' = sb\<lparr>sb_first := u32_of (sb_first sb + 1), sb_used := u32_of (sb_used sb + 1)\<rparr>"
    note f = slab_first [OF m(2,1) True sb'_def]
    have "sb_buffer sb + sb_first sb * mc_size mc \<notin> set fs"
      using m(2) objects_fresh [OF cache_fit_pos [OF m(1)]] by (auto simp: slab_ok_def)
    then show ?thesis using that [OF _ _ _ f(2) m(2) f(1)] True f(3) objects_fresh [OF cache_fit_pos [OF m(1)]] b
      by (auto simp: mcache_slab_alloc_def sb'_def objects_Suc)
  next
    case False
    then have "sb_first sb = mc_objects mc" "fs \<noteq> []" using m(2) u by (auto simp: slab_ok_def)
    then obtain x ys where x: "fs = x # ys" by (cases fs) auto
    then obtain q where q: "sb_freelist sb = Some x" "ms_next s x = Some q" using m(2) by (auto simp: slab_ok_def)
    define sb' where "sb' = sb\<lparr>sb_freelist := q, sb_used := u32_of (sb_used sb + 1)\<rparr>"
    note f = slab_next [OF m(2,1) x q(2) sb'_def]
    have "x \<in> objects_of mc sb (sb_first sb)" "x \<notin> set ys" using m(2) by (auto simp: slab_ok_def x)
    then show ?thesis using that [OF _ _ _ f(2) m(2) f(1), of x] False f(3) b q
      by (auto simp: mcache_slab_alloc_def sb'_def x)
  qed
qed

lemma live_slabE:
  assumes "pools_ok s sl" "(c, p) \<in> live s"
  obtains b sb mc fs where "ms_slabs s b = Some sb" "sb_mcache sb = c" "ms_caches s c = Some mc" "cache_fit mc"
    "slab_ok (ms_next s) mc sb fs" "p \<in> objects_of mc sb (sb_first sb)" "p \<notin> set fs" "sb_first sb \<le> mc_objects mc"
proof -
  from assms(2) obtain b sb where b: "ms_slabs s b = Some sb" "(c, p) \<in> slab_live s sb" by (auto simp: live_def ran_def)
  from pools_slabE [OF assms(1) b(1)] obtain mc fs where m: "ms_caches s (sb_mcache sb) = Some mc" "cache_fit mc" "slab_ok (ms_next s) mc sb fs"
    by metis
  then show ?thesis using that b slab_live_eq [OF m(1,3)] by (auto simp: slab_ok_def)
qed

lemma live_in_slab:
  assumes ok: "pools_ok s sl" and "(c, p) \<in> live s" and b: "ms_slabs s b = Some sb" and mc: "ms_caches s (sb_mcache sb) = Some mc"
    and p: "p \<in> objects_of mc sb n" "n \<le> mc_objects mc"
  shows "(c, p) \<in> slab_live s sb"
proof -
  from live_slabE [OF assms(1,2)] obtain b' x m fs where x: "ms_slabs s b' = Some x" "sb_mcache x = c" "ms_caches s c = Some m" "cache_fit m"
    "slab_ok (ms_next s) m x fs" "p \<in> objects_of m x (sb_first x)" "p \<notin> set fs" "sb_first x \<le> mc_objects m" by metis
  have xc: "ms_caches s (sb_mcache x) = Some m" using x(2,3) by simp
  have "cache_fit mc" using ok mc by (auto simp: pools_ok_def)
  note pos = cache_fit_pos [OF x(4)] cache_fit_pos [OF this]
  have "b' = b"
  proof (rule ccontr)
    assume "b' \<noteq> b"
    from apart_neq [OF slabs_apart [OF ok x(1) b this xc mc x(6,8) p] pos] show False .
  qed
  then show ?thesis using x b slab_live_eq [OF xc x(5)] by auto
qed

lemma take_object:
  assumes ok: "pools_ok s sl" and b: "ms_slabs s b = Some sb" and mc: "ms_caches s (sb_mcache sb) = Some mc"
    and u: "sb_used sb \<noteq> mc_objects mc"
  obtains p sb' where "mcache_slab_alloc s mc b = Some (Some p, s\<lparr>ms_slabs := (ms_slabs s)(b \<mapsto> sb')\<rparr>)"
    "sb_mcache sb' = sb_mcache sb" "sb_used sb' = sb_used sb + 1" "(sb_mcache sb, p) \<notin> live s"
    "\<And>h' sl' s'. \<lbrakk>lists_ok {i. ms_caches s (i div 3) \<noteq> None} h' sl' (dom (ms_slabs s)); b \<in> set (sl' (list_no mc sb'));
        kept sl sl' b; s' = s\<lparr>ms_slabs := (ms_slabs s)(b \<mapsto> sb'), ms_lists := h'\<rparr>\<rbrakk> \<Longrightarrow>
      pools_ok s' sl' \<and> live s' = insert (sb_mcache sb, p) (live s)"
proof -
  from slab_alloc_ok [OF ok b mc u] obtain p sb' fs fs' where r: "mcache_slab_alloc s mc b = Some (Some p, s\<lparr>ms_slabs := (ms_slabs s)(b \<mapsto> sb')\<rparr>)"
    "sb_mcache sb' = sb_mcache sb" "sb_buffer sb' = sb_buffer sb" "sb_used sb' = sb_used sb + 1"
    "slab_ok (ms_next s) mc sb fs" "slab_ok (ms_next s) mc sb' fs'" "p \<in> objects_of mc sb (sb_first sb')"
    "p \<notin> objects_of mc sb (sb_first sb) - set fs"
    "objects_of mc sb (sb_first sb') - set fs' = insert p (objects_of mc sb (sb_first sb) - set fs)" by metis
  have sub: "Pair (sb_mcache sb) ` (objects_of mc sb (sb_first sb) - set fs) \<subseteq> live s"
    unfolding live_split [OF b] slab_live_eq [OF mc r(5)] by (rule Un_upper1)
  have "sb_first sb' \<le> mc_objects mc" using r(6) by (simp add: slab_ok_def)
  from live_in_slab [OF ok _ b mc r(7) this, of "sb_mcache sb"] have fresh: "(sb_mcache sb, p) \<notin> live s"
    using r(8) unfolding slab_live_eq [OF mc r(5)] by auto
  have "pools_ok s' sl' \<and> live s' = insert (sb_mcache sb, p) (live s)"
    if l: "lists_ok {i. ms_caches s (i div 3) \<noteq> None} h' sl' (dom (ms_slabs s))" "b \<in> set (sl' (list_no mc sb'))"
      "kept sl sl' b" "s' = s\<lparr>ms_slabs := (ms_slabs s)(b \<mapsto> sb'), ms_lists := h'\<rparr>" for h' sl' s'
  proof -
    have s': "s' = s\<lparr>ms_slabs := (ms_slabs s)(b \<mapsto> sb'), ms_next := ms_next s, ms_lists := h'\<rparr>" using l(4) by simp
    note up = pools_update [OF ok b mc r(5) r(2,3,6) refl l(1-3) s' refl refl]
    have "live s' = insert (sb_mcache sb, p) (live s)" using up(2) sub unfolding r(9) image_insert by (rule insert_exchange)
    with up(1) show ?thesis by simp
  qed
  with r(1,2,4) fresh show ?thesis by (rule that)
qed

section \<open>New slabs\<close>

text \<open>
  What is relied on of \<^verbatim>\<open>malloc\<close>: the range of the new slab is apart from the ranges of all slabs, and its structure
  is at a new address.
\<close>

definition room :: "mcaches \<Rightarrow> nat \<Rightarrow> nat option \<Rightarrow> nat option \<Rightarrow> bool" where
  "room s c buffer block \<longleftrightarrow> (\<forall>mc a. ms_caches s c = Some mc \<and> buffer = Some a \<longrightarrow>
     (\<forall>b sb. ms_slabs s b = Some sb \<longrightarrow> apart (a + mc_coloroff mc) (mc_pages mc * 4096) (buffer_of s b) (slab_bytes s b)) \<and>
     (\<forall>b. (if mc_coloroff mc = 0 then block else Some a) = Some b \<longrightarrow> ms_slabs s b = None))"

lemma malloc_room:
  assumes "ms_caches s c = Some mc" and "\<And>b. (if mc_coloroff mc = 0 then block else Some a) = Some b \<Longrightarrow> ms_slabs s b = None"
    and "\<And>b sb. ms_slabs s b = Some sb \<Longrightarrow>
      \<exists>b0. sb_buffer sb = b0 + mc_coloroff mc \<and> apart a (mc_pages mc * 4096) b0 (slab_bytes s b)"
  shows "room s c (Some a) block"
proof -
  have "apart (a + mc_coloroff mc) (mc_pages mc * 4096) (buffer_of s b) (slab_bytes s b)" if b: "ms_slabs s b = Some sb" for b sb
    using assms(3) [OF b] b by (auto simp: apart_def buffer_of_def)
  then show ?thesis using assms(1,2) by (auto simp: room_def)
qed

lemma page_of_mono: "a + k * 4096 \<le> b \<Longrightarrow> page_of a + k * 4096 \<le> page_of b"
proof -
  assume "a + k * 4096 \<le> b"
  then have "(a + k * 4096) div 4096 \<le> b div 4096" by (rule div_le_mono)
  then show ?thesis by (simp add: page_of_def)
qed

lemma insert_cmp_apart:
  assumes "apart (buffer_of s a) (slab_bytes s a) (buffer_of s b) (slab_bytes s b)" and "0 < slab_bytes s a"
  shows "slab_avltree_insert_cmp s a b = (if buffer_of s a + slab_bytes s a \<le> buffer_of s b then - 1 else 1)"
proof -
  have "4096 dvd slab_bytes s x" for x by (simp add: slab_bytes_def split: option.split)
  then obtain k m where k: "slab_bytes s a = k * 4096" "slab_bytes s b = m * 4096" by (metis dvd_def mult.commute)
  show ?thesis
  proof (cases "buffer_of s a + slab_bytes s a \<le> buffer_of s b")
    case True
    then have "page_of (buffer_of s a) + k * 4096 \<le> page_of (buffer_of s b)" unfolding k by (rule page_of_mono)
    with True show ?thesis by (simp add: slab_avltree_insert_cmp_def Let_def k)
  next
    case False
    then have "buffer_of s b + m * 4096 \<le> buffer_of s a" using assms(1) by (simp add: apart_def k)
    then have "page_of (buffer_of s b) + m * 4096 \<le> page_of (buffer_of s a)" by (rule page_of_mono)
    with False assms(2) show ?thesis by (simp add: slab_avltree_insert_cmp_def Let_def k)
  qed
qed

lemma free_outside:
  assumes "pools_ok s sl" and "\<And>b sb. ms_slabs s b = Some sb \<Longrightarrow> p < buffer_of s b \<or> buffer_of s b + slab_bytes s b \<le> p"
  shows "mcache_free s (Some p) = Some s"
proof -
  have "avl_find (ms_nodes s) (ms_tree s) p (slab_avltree_compare s) = Some None"
    by (rule zones_find(2) [of _ _ "buffer_of s" "slab_bytes s" "dom (ms_slabs s)"])
      (use assms in \<open>auto simp: pools_ok_def slab_avltree_compare_def\<close>)
  then show ?thesis by (simp add: mcache_free_def)
qed

lemma new_slab:
  assumes ok: "pools_ok s sl" and mc: "ms_caches s c = Some mc" and b: "ms_slabs s b = None"
    and ap: "\<And>x sx. ms_slabs s x = Some sx \<Longrightarrow> apart lo (mc_pages mc * 4096) (buffer_of s x) (slab_bytes s x)"
    and sb: "sb = \<lparr>sb_mcache = c, sb_buffer = lo, sb_first = 0, sb_freelist = None, sb_used = 0\<rparr>"
    and s1: "s1 = s\<lparr>ms_slabs := (ms_slabs s)(b \<mapsto> sb), ms_nodes := (ms_nodes s)(b \<mapsto> n)\<rparr>"
  obtains l h rt sl' where "listnode_add ((ms_lists s)(Member b \<mapsto> n')) (Owner (slabs_empty c)) (Member b) = Some l"
    "avl_insert (ms_nodes s1) (ms_tree s) b (slab_avltree_insert_cmp s1) = Some (h, rt, 0)"
    "pools_ok (s1\<lparr>ms_lists := l, ms_nodes := h, ms_tree := rt\<rparr>) sl'" "sl' (slabs_empty c) \<noteq> []"
    "live (s1\<lparr>ms_lists := l, ms_nodes := h, ms_tree := rt\<rparr>) = live s"
proof -
  let ?I = "{i. ms_caches s (i div 3) \<noteq> None}"
  have fit: "cache_fit mc" "2 \<le> mc_objects mc" using ok mc by (auto simp: pools_ok_def)
  have l0: "lists_ok ?I (ms_lists s) sl (dom (ms_slabs s))" using ok by (rule pools_lists)
  have bD: "b \<notin> dom (ms_slabs s)" using b by auto
  have "slabs_empty c \<in> ?I" using mc by (simp only: mem_Collect_eq head_pool) simp
  from slots_add_new [OF l0 this bD refl, of n'] obtain l where
    l: "listnode_add ((ms_lists s)(Member b \<mapsto> n')) (Owner (slabs_empty c)) (Member b) = Some l"
      "lists_ok ?I l (sl(slabs_empty c := sl (slabs_empty c) @ [b])) (insert b (dom (ms_slabs s)))" by metis
  have z: "buffer_of s1 x = (if x = b then lo else buffer_of s x)" "slab_bytes s1 x = (if x = b then mc_pages mc * 4096 else slab_bytes s x)" for x
    using mc by (auto simp: s1 sb buffer_of_def slab_bytes_def split: option.split)
  have z1: "zones_ok (ms_nodes s1) (ms_tree s) (buffer_of s1) (slab_bytes s1) (dom (ms_slabs s))"
    by (rule zones_cong [of "ms_nodes s" _ "buffer_of s" "slab_bytes s"]) (use ok z b in \<open>auto simp: pools_ok_def s1\<close>)
  have ap1: "apart (buffer_of s1 b) (slab_bytes s1 b) (buffer_of s1 x) (slab_bytes s1 x)" if "x \<in> dom (ms_slabs s)" for x
    using that ap b by (auto simp: z)
  have "0 < slab_bytes s1 b" using cache_fit_pages [OF fit(1)] by (simp add: z)
  note cmp = insert_cmp_apart [OF ap1 this]
  have "ms_nodes s1 b \<noteq> None" by (simp add: s1)
  from zones_insert [where cmp = "slab_avltree_insert_cmp s1", OF z1 bD this ap1 cmp] obtain h rt where
    h: "avl_insert (ms_nodes s1) (ms_tree s) b (slab_avltree_insert_cmp s1) = Some (h, rt, 0)"
      "zones_ok h rt (buffer_of s1) (slab_bytes s1) (insert b (dom (ms_slabs s)))" by metis
  let ?s = "s1\<lparr>ms_lists := l, ms_nodes := h, ms_tree := rt\<rparr>" and ?sl = "sl(slabs_empty c := sl (slabs_empty c) @ [b])"
  have same: "buffer_of ?s = buffer_of s1" "slab_bytes ?s = slab_bytes s1" by (auto simp: buffer_of_def slab_bytes_def fun_eq_iff split: option.split)
  have "pools_ok ?s ?sl" unfolding pools_ok_def same
  proof (intro conjI allI impI)
    show "zones_ok (ms_nodes ?s) (ms_tree ?s) (buffer_of s1) (slab_bytes s1) (dom (ms_slabs ?s))" using h(2) by (simp add: s1)
    show "lists_ok {i. ms_caches ?s (i div 3) \<noteq> None} (ms_lists ?s) ?sl (dom (ms_slabs ?s))" using l(2) by (simp add: s1)
    fix a x assume x: "ms_slabs ?s a = Some x"
    show "\<exists>m fx. ms_caches ?s (sb_mcache x) = Some m \<and> slab_ok (ms_next ?s) m x fx \<and> a \<in> set (?sl (list_no m x))"
    proof (cases "a = b")
      case True
      then have "x = sb" using x by (simp add: s1)
      then have "ms_caches ?s (sb_mcache x) = Some mc" "slab_ok (ms_next ?s) mc x []" "a \<in> set (?sl (list_no mc x))"
        using True mc by (simp_all add: s1 sb slab_ok_def list_no_def)
      then show ?thesis by blast
    next
      case False
      then have "ms_slabs s a = Some x" using x by (simp add: s1)
      from pools_slabE [OF ok this] obtain m fx where "ms_caches s (sb_mcache x) = Some m" "slab_ok (ms_next s) m x fx" "a \<in> set (sl (list_no m x))" by metis
      then show ?thesis by (auto simp: s1)
    qed
  qed (use ok in \<open>auto simp: pools_ok_def s1\<close>)
  moreover have "live ?s = live s"
  proof -
    have "slab_live ?s x = slab_live s x" for x by (simp add: slab_live_def s1)
    moreover have "slab_live s sb = {}" by (auto simp: slab_live_def sb objects_of_def)
    ultimately show ?thesis using b by (simp add: live_def s1 ran_map_upd)
  qed
  ultimately show ?thesis using that [OF l(1) h(1)] by simp
qed

lemma expand_ok:
  assumes ok: "pools_ok s sl" and mc: "ms_caches s c = Some mc" and room: "room s c buffer block"
  obtains s' sl' where "mcache_expand s c buffer block = Some s'" "pools_ok s' sl'" "live s' = live s" "ms_caches s' = ms_caches s"
    "buffer = None \<or> mc_coloroff mc = 0 \<and> block = None \<or> sl' (slabs_empty c) \<noteq> []"
    "buffer = None \<or> mc_coloroff mc = 0 \<and> block = None \<Longrightarrow> s' = s \<and> sl' = sl"
proof (cases buffer)
  case None
  then show ?thesis using that [of s sl] ok mc by (simp add: mcache_expand_def)
next
  case (Some a)
  have ap: "apart (a + mc_coloroff mc) (mc_pages mc * 4096) (buffer_of s x) (slab_bytes s x)" if "ms_slabs s x = Some sx" for x sx
    using room mc that Some by (auto simp: room_def)
  have fit: "cache_fit mc" "0 < mc_objects mc" using ok mc by (auto simp: pools_ok_def cache_fit_def)
  show ?thesis
  proof (cases "if mc_coloroff mc = 0 then block else Some a")
    case None
    then have co: "mc_coloroff mc = 0" "block = None" by (auto split: if_splits)
    have "mcache_free s (Some a) = Some s"
      by (intro free_outside [OF ok]) (use ap co cache_fit_pages [OF fit(1)] in \<open>fastforce simp: apart_def\<close>)
    then show ?thesis using that [of s sl] ok mc Some co by (simp add: mcache_expand_def)
  next
    case (Some b)
    have b: "ms_slabs s b = None" using room mc Some \<open>buffer = Some a\<close> by (auto simp: room_def)
    have nn: "\<not> (mc_coloroff mc = 0 \<and> block = None)" using Some by (auto split: if_splits)
    show ?thesis
    proof (rule new_slab [where n' = "\<lparr>ln_next = None, ln_prev = None\<rparr>" and
        n = "\<lparr>avl_balance = 0, avl_child_index = 0, avl_child0 = None, avl_child1 = None, avl_parent = None\<rparr>",
        OF ok mc b ap refl refl], assumption, goal_cases)
      case (1 l h rt sl')
      show ?case
        by (rule that [OF _ 1(3) 1(5)]) (use 1 mc Some nn \<open>buffer = Some a\<close> in \<open>simp_all add: mcache_expand_def Let_def\<close>)
    qed
  qed
qed

section \<open>Allocation\<close>

definition alloc_result :: "mcaches \<Rightarrow> nat \<Rightarrow> nat option \<Rightarrow> nat option \<Rightarrow> ptr \<times> mcaches \<Rightarrow> bool" where
  "alloc_result s c buffer block r \<longleftrightarrow> (case r of
     (None, s') \<Rightarrow> s' = s \<and> (buffer = None \<or> map_option mc_coloroff (ms_caches s c) = Some 0 \<and> block = None)
   | (Some p, s') \<Rightarrow> (c, p) \<notin> live s \<and> live s' = insert (c, p) (live s))"

lemma alloc_result_simps [simp]:
  "alloc_result s c buffer block (None, s') \<longleftrightarrow> s' = s \<and> (buffer = None \<or> map_option mc_coloroff (ms_caches s c) = Some 0 \<and> block = None)"
  "alloc_result s c buffer block (Some p, s') \<longleftrightarrow> (c, p) \<notin> live s \<and> live s' = insert (c, p) (live s)"
  by (simp_all add: alloc_result_def)

lemma head_in: "ms_caches s c = Some mc \<Longrightarrow> {slabs_partial c, slabs_empty c, slabs_full c} \<subseteq> {i. ms_caches s (i div 3) \<noteq> None}"
  by (simp only: insert_subset mem_Collect_eq head_pool) simp

text \<open>From a slab of the list of partly used ones, and from one that has no object in use.\<close>

lemma alloc_partial:
  assumes ok: "pools_ok s sl" and mc: "ms_caches s c = Some mc" and ne: "sl (slabs_partial c) \<noteq> []"
  obtains r s' sl' where "mcache_alloc s c buffer block = Some (r, s')" "pools_ok s' sl'" "ms_caches s' = ms_caches s"
    "alloc_result s c buffer block (r, s')"
proof -
  let ?I = "{i. ms_caches s (i div 3) \<noteq> None}" and ?b = "hd (sl (slabs_partial c))"
  have l: "lists_ok ?I (ms_lists s) sl (dom (ms_slabs s))" using ok by (rule pools_lists)
  have I: "slabs_partial c \<in> ?I" "slabs_full c \<in> ?I" using head_in [OF mc] by simp_all
  note fr = first_slab_ring [OF l I(1)]
  have obj: "2 \<le> mc_objects mc" using ok mc by (auto simp: pools_ok_def)
  have bin: "?b \<in> set (sl (slabs_partial c))" using ne by simp
  from list_slab [OF ok bin] obtain sb m where b: "ms_slabs s ?b = Some sb" "ms_caches s (sb_mcache sb) = Some m" "slabs_partial c = list_no m sb"
    by metis
  have "2 \<le> mc_objects m" using ok b(2) by (auto simp: pools_ok_def)
  from list_no_cases(1) [OF this b(3) refl] mc b(2) have c: "sb_mcache sb = c" "m = mc" "0 < sb_used sb" "sb_used sb \<noteq> mc_objects mc" by auto
  note b = b [unfolded c(1,2)]
  obtain p sb' where p: "mcache_slab_alloc s mc ?b = Some (Some p, s\<lparr>ms_slabs := (ms_slabs s)(?b \<mapsto> sb')\<rparr>)"
    "sb_mcache sb' = c" "sb_used sb' = sb_used sb + 1" "(c, p) \<notin> live s"
    "\<And>h' sl' s'. \<lbrakk>lists_ok ?I h' sl' (dom (ms_slabs s)); ?b \<in> set (sl' (list_no mc sb'));
        kept sl sl' ?b; s' = s\<lparr>ms_slabs := (ms_slabs s)(?b \<mapsto> sb'), ms_lists := h'\<rparr>\<rbrakk> \<Longrightarrow>
      pools_ok s' sl' \<and> live s' = insert (c, p) (live s)"
  proof (rule take_object [OF ok b(1) _ c(4), unfolded c(1), OF mc], goal_cases)
    case (1 p sb')
    from 1(2-6) show ?case by (rule 1(1))
  qed
  let ?s1 = "s\<lparr>ms_slabs := (ms_slabs s)(?b \<mapsto> sb')\<rparr>"
  have full: "mcache_is_empty_slab ?s1 mc ?b = Some (mc_objects mc \<le> sb_used sb')" by (simp add: mcache_is_empty_slab_def)
  note run = fr(1) fr(2) [OF ne] p(1) full
  show ?thesis
  proof (cases "mc_objects mc \<le> sb_used sb'")
    case True
    have u: "sb_used sb' = mc_objects mc"
      using True p(3) c(4) used_bound [OF ok b(1)] mc c(1) by simp
    have l1: "lists_ok ?I (ms_lists ?s1) sl (dom (ms_slabs s))" using l by simp
    from move_to_list_ok [OF l1 bin I(2)] obtain h' sl' where h': "move_to_list ?s1 ?b (slabs_full c) = Some (?s1\<lparr>ms_lists := h'\<rparr>)"
      "lists_ok ?I h' sl' (dom (ms_slabs s))" "?b \<in> set (sl' (slabs_full c))" "kept sl sl' ?b"
      by metis
    have "list_no mc sb' = slabs_full c" using u p(2) obj by (simp add: list_no_def)
    with p(5) [OF h'(2) _ h'(4), of "?s1\<lparr>ms_lists := h'\<rparr>"] h'(3)
    have q: "pools_ok (?s1\<lparr>ms_lists := h'\<rparr>) sl'" "live (?s1\<lparr>ms_lists := h'\<rparr>) = insert (c, p) (live s)" by auto
    show ?thesis by (rule that [of "Some p", OF _ q(1)])
      (use run mc ne True h'(1) p(4) q(2) in \<open>simp_all add: mcache_alloc_def mcache_move_to_full_list_def\<close>)
  next
    case False
    have "list_no mc sb' = slabs_partial c" using False p(2,3) by (simp add: list_no_def)
    with p(5) [OF l, of ?s1] bin have q: "pools_ok ?s1 sl" "live ?s1 = insert (c, p) (live s)" by auto
    show ?thesis by (rule that [of "Some p", OF _ q(1)])
      (use run mc ne False p(4) q(2) in \<open>simp_all add: mcache_alloc_def\<close>)
  qed
qed

lemma alloc_empty:
  assumes ok: "pools_ok s sl" and mc: "ms_caches s c = Some mc" and ne: "sl (slabs_empty c) \<noteq> []" and b: "b = hd (sl (slabs_empty c))"
  obtains p s1 s' sl' where "listnode_isempty (ms_lists s) (Owner (slabs_empty c)) = Some False" "first_slab s (slabs_empty c) = Some (Some b)"
    "mcache_slab_alloc s mc b = Some (Some p, s1)" "mcache_move_to_partial_list s1 c b = Some s'"
    "pools_ok s' sl'" "ms_caches s' = ms_caches s" "(c, p) \<notin> live s" "live s' = insert (c, p) (live s)"
proof -
  let ?I = "{i. ms_caches s (i div 3) \<noteq> None}"
  have l: "lists_ok ?I (ms_lists s) sl (dom (ms_slabs s))" using ok by (rule pools_lists)
  have I: "slabs_partial c \<in> ?I" "slabs_empty c \<in> ?I" using head_in [OF mc] by simp_all
  note fr = first_slab_ring [OF l I(2)]
  have obj: "2 \<le> mc_objects mc" using ok mc by (auto simp: pools_ok_def)
  have bin: "b \<in> set (sl (slabs_empty c))" using ne b by simp
  from list_slab [OF ok bin] obtain sb m where sb: "ms_slabs s b = Some sb" "ms_caches s (sb_mcache sb) = Some m" "slabs_empty c = list_no m sb"
    by metis
  have "2 \<le> mc_objects m" using ok sb(2) by (auto simp: pools_ok_def)
  from list_no_cases(2) [OF this sb(3) refl] mc sb(2) have c: "sb_mcache sb = c" "m = mc" "sb_used sb = 0" by auto
  then have un: "sb_used sb \<noteq> mc_objects mc" using obj by simp
  obtain p sb' where p: "mcache_slab_alloc s mc b = Some (Some p, s\<lparr>ms_slabs := (ms_slabs s)(b \<mapsto> sb')\<rparr>)"
    "sb_mcache sb' = c" "sb_used sb' = sb_used sb + 1" "(c, p) \<notin> live s"
    "\<And>h' sl' s'. \<lbrakk>lists_ok ?I h' sl' (dom (ms_slabs s)); b \<in> set (sl' (list_no mc sb'));
        kept sl sl' b; s' = s\<lparr>ms_slabs := (ms_slabs s)(b \<mapsto> sb'), ms_lists := h'\<rparr>\<rbrakk> \<Longrightarrow>
      pools_ok s' sl' \<and> live s' = insert (c, p) (live s)"
  proof (rule take_object [OF ok sb(1) _ un, unfolded c(1), OF mc], goal_cases)
    case (1 p sb')
    from 1(2-6) show ?case by (rule 1(1))
  qed
  let ?s1 = "s\<lparr>ms_slabs := (ms_slabs s)(b \<mapsto> sb')\<rparr>"
  have l1: "lists_ok ?I (ms_lists ?s1) sl (dom (ms_slabs s))" using l by simp
  from move_to_list_ok [OF l1 bin I(1)] obtain h' sl' where h': "move_to_list ?s1 b (slabs_partial c) = Some (?s1\<lparr>ms_lists := h'\<rparr>)"
    "lists_ok ?I h' sl' (dom (ms_slabs s))" "b \<in> set (sl' (slabs_partial c))" "kept sl sl' b"
    by metis
  have "list_no mc sb' = slabs_partial c" using p(2,3) c(3) obj by (simp add: list_no_def)
  with p(5) [OF h'(2) _ h'(4), of "?s1\<lparr>ms_lists := h'\<rparr>"] h'(3)
  have q: "pools_ok (?s1\<lparr>ms_lists := h'\<rparr>) sl'" "live (?s1\<lparr>ms_lists := h'\<rparr>) = insert (c, p) (live s)" by auto
  show ?thesis by (rule that [OF _ _ p(1) _ q(1) _ p(4) q(2)]) (use fr ne b h'(1) in \<open>simp_all add: mcache_move_to_partial_list_def\<close>)
qed

lemma alloc_ok:
  assumes ok: "pools_ok s sl" and mc: "ms_caches s c = Some mc" and room: "room s c buffer block"
  obtains r s' sl' where "mcache_alloc s c buffer block = Some (r, s')" "pools_ok s' sl'" "ms_caches s' = ms_caches s"
    "alloc_result s c buffer block (r, s')"
proof (cases "sl (slabs_partial c) = []")
  case False
  show ?thesis by (rule alloc_partial [OF ok mc False], rule that)
next
  case True
  let ?I = "{i. ms_caches s (i div 3) \<noteq> None}"
  have l: "lists_ok ?I (ms_lists s) sl (dom (ms_slabs s))" using ok by (rule pools_lists)
  have I: "slabs_partial c \<in> ?I" "slabs_empty c \<in> ?I" using head_in [OF mc] by simp_all
  note e = first_slab_ring(1) [OF l I(1)] first_slab_ring(1) [OF l I(2)]
  obtain s1 sl1 where s1: "(if sl (slabs_empty c) = [] then mcache_expand s c buffer block else Some s) = Some s1" "pools_ok s1 sl1" "live s1 = live s"
    "ms_caches s1 = ms_caches s" "sl1 (slabs_empty c) = [] \<Longrightarrow> s1 = s \<and> (buffer = None \<or> mc_coloroff mc = 0 \<and> block = None)"
  proof (cases "sl (slabs_empty c) = []")
    case True
    show ?thesis
    proof (rule expand_ok [OF ok mc room])
      fix s' sl'
      assume "mcache_expand s c buffer block = Some s'" and e: "pools_ok s' sl'" "live s' = live s" "ms_caches s' = ms_caches s"
        "buffer = None \<or> mc_coloroff mc = 0 \<and> block = None \<or> sl' (slabs_empty c) \<noteq> []"
        "buffer = None \<or> mc_coloroff mc = 0 \<and> block = None \<Longrightarrow> s' = s \<and> sl' = sl"
      with True show ?thesis by (intro that [OF _ e(1-3)]) auto
    qed
  qed (use that ok in auto)
  have mc1: "ms_caches s1 c = Some mc" using mc s1(4) by simp
  have "listnode_isempty (ms_lists s1) (Owner (slabs_empty c)) = Some (sl1 (slabs_empty c) = [])"
    by (rule first_slab_ring(1) [OF pools_lists [OF s1(2)]]) (use head_in [OF mc1] in simp)
  note run = e True s1(1) this
  show ?thesis
  proof (cases "sl1 (slabs_empty c) = []")
    case True
    then show ?thesis using that [of None, OF _ s1(2)] run mc s1(4,5) by (simp add: mcache_alloc_def)
  next
    case False
    show ?thesis
    proof (rule alloc_empty [OF s1(2) mc1 False refl])
      fix p s2 s' sl'
      assume a: "first_slab s1 (slabs_empty c) = Some (Some (hd (sl1 (slabs_empty c))))"
        "mcache_slab_alloc s1 mc (hd (sl1 (slabs_empty c))) = Some (Some p, s2)"
        "mcache_move_to_partial_list s2 c (hd (sl1 (slabs_empty c))) = Some s'" "pools_ok s' sl'" "ms_caches s' = ms_caches s1"
        "(c, p) \<notin> live s1" "live s' = insert (c, p) (live s1)"
      show ?thesis by (rule that [of "Some p", OF _ a(4)]) (use a run mc False s1(3,4) in \<open>simp_all add: mcache_alloc_def\<close>)
    qed
  qed
qed

section \<open>Release\<close>

lemma free_ok:
  assumes ok: "pools_ok s sl" and p: "(c, p) \<in> live s"
  obtains s' sl' where "mcache_free s (Some p) = Some s'" "pools_ok s' sl'" "ms_caches s' = ms_caches s" "live s' = live s - {(c, p)}"
proof -
  let ?I = "{i. ms_caches s (i div 3) \<noteq> None}"
  from live_slabE [OF ok p] obtain b sb mc fs where b: "ms_slabs s b = Some sb" "sb_mcache sb = c" "ms_caches s c = Some mc" "cache_fit mc"
    "slab_ok (ms_next s) mc sb fs" "p \<in> objects_of mc sb (sb_first sb)" "p \<notin> set fs" "sb_first sb \<le> mc_objects mc" by metis
  have mc: "ms_caches s (sb_mcache sb) = Some mc" using b(2,3) by simp
  have obj: "2 \<le> mc_objects mc" using ok b(3) by (auto simp: pools_ok_def)
  note z = object_zone [OF b(4,6,8)]
  have "avl_find (ms_nodes s) (ms_tree s) p (slab_avltree_compare s) = Some (Some b)"
    by (rule zones_find(1) [of _ _ "buffer_of s" "slab_bytes s" "dom (ms_slabs s)"])
      (use ok b(1,3) mc z in \<open>auto simp: pools_ok_def slab_avltree_compare_def buffer_of_def slab_bytes_def\<close>)
  then have free: "mcache_free s (Some p) = mcache_release_node s c mc b p" using b(1-3) by (simp add: mcache_free_def)
  define sb' where "sb' = sb\<lparr>sb_freelist := Some p, sb_used := u32_of (sb_used sb + (2 ^ 32 - 1))\<rparr>"
  define nx' where "nx' = (ms_next s)(p \<mapsto> sb_freelist sb)"
  note g = slab_give [OF b(5,4,6,7) sb'_def nx'_def]
  let ?s1 = "s\<lparr>ms_next := nx', ms_slabs := (ms_slabs s)(b \<mapsto> sb')\<rparr>"
  have rel: "mcache_release_node s c mc b p = (if sb_used sb = mc_objects mc then move_to_list ?s1 b (slabs_partial c)
      else if sb_used sb' = 0 then move_to_list ?s1 b (slabs_empty c) else Some ?s1)"
    using b(1) by (simp add: mcache_release_node_def mcache_move_to_partial_list_def mcache_move_to_empty_list_def sb'_def nx'_def)
  have sb': "sb_mcache sb' = sb_mcache sb" "sb_buffer sb' = sb_buffer sb" by (simp_all add: sb'_def)
  have "objects_of mc sb (sb_first sb) \<subseteq> objects_of mc sb (mc_objects mc)" using b(8) by (auto simp: objects_of_def)
  then have nx: "nx' x = ms_next s x" if "x \<notin> objects_of mc sb (mc_objects mc)" for x using that b(6) by (auto simp: nx'_def)
  have fin: "pools_ok s' sl' \<and> live s' = live s - {(c, p)}"
    if l: "lists_ok ?I h' sl' (dom (ms_slabs s))" "b \<in> set (sl' (list_no mc sb'))" "kept sl sl' b" "s' = ?s1\<lparr>ms_lists := h'\<rparr>" for h' sl' s'
  proof -
    have s': "s' = s\<lparr>ms_slabs := (ms_slabs s)(b \<mapsto> sb'), ms_next := nx', ms_lists := h'\<rparr>" using l(4) by simp
    note up = pools_update [OF ok b(1) mc b(5) sb' g(1) nx l(1-3) s' refl refl]
    have "Pair (sb_mcache sb) ` (objects_of mc sb (sb_first sb) - set fs) \<subseteq> live s"
      unfolding live_split [OF b(1)] slab_live_eq [OF mc b(5)] by (rule Un_upper1)
    then have "live s' = live s - {(c, p)}" using up(2) b(6,7) unfolding g(3) b(2) by auto
    with up(1) show ?thesis by simp
  qed
  have l: "lists_ok ?I (ms_lists s) sl (dom (ms_slabs s))" "b \<in> set (sl (list_no mc sb))" by (rule keep_list [OF ok b(1) mc])+
  have l1: "lists_ok ?I (ms_lists ?s1) sl (dom (ms_slabs s))" using l(1) by simp
  note result = that
  have move: ?thesis if j: "mcache_release_node s c mc b p = move_to_list ?s1 b (list_no mc sb')" "list_no mc sb' \<in> ?I"
  proof -
    from move_to_list_ok [OF l1 l(2) j(2)] obtain h' sl' where h': "move_to_list ?s1 b (list_no mc sb') = Some (?s1\<lparr>ms_lists := h'\<rparr>)"
      "lists_ok ?I h' sl' (dom (ms_slabs s))" "b \<in> set (sl' (list_no mc sb'))" "kept sl sl' b" by metis
    from fin [OF h'(2-4) refl] show ?thesis using result [of "?s1\<lparr>ms_lists := h'\<rparr>" sl'] free j(1) h'(1) by simp
  qed
  have I: "list_no mc sb' \<in> ?I" by (rule list_no_head) (simp add: sb'(1) mc)
  consider "sb_used sb = mc_objects mc" | "sb_used sb \<noteq> mc_objects mc" "sb_used sb' = 0" | "sb_used sb \<noteq> mc_objects mc" "sb_used sb' \<noteq> 0" by blast
  then show ?thesis
  proof cases
    case 1
    then have "list_no mc sb' = slabs_partial c" using g(2) obj sb'(1) b(2) by (simp add: list_no_def)
    then show ?thesis using move rel 1 I by simp
  next
    case 2
    then have "list_no mc sb' = slabs_empty c" using sb'(1) b(2) by (simp add: list_no_def)
    then show ?thesis using move rel 2 I by simp
  next
    case 3
    have "sb_used sb \<le> mc_objects mc" by (rule used_bound [OF ok b(1) mc])
    then have "list_no mc sb' = list_no mc sb" using 3 g(2) sb'(1) by (simp add: list_no_def)
    then have "b \<in> set (sl (list_no mc sb'))" using l(2) by simp
    from fin [OF l(1) this kept_refl, of ?s1] show ?thesis using that [of ?s1 sl] free rel 3 by simp
  qed
qed

lemma live_unique:
  assumes "pools_ok s sl" "(c, p) \<in> live s" "(c', p) \<in> live s"
  shows "c' = c"
proof -
  from live_slabE [OF assms(1,2)] obtain b sb mc where b: "ms_slabs s b = Some sb" "sb_mcache sb = c" "ms_caches s (sb_mcache sb) = Some mc"
    "p \<in> objects_of mc sb (sb_first sb)" "sb_first sb \<le> mc_objects mc" by metis
  from live_in_slab [OF assms(1,3) b(1,3-5)] b(2) show ?thesis by (simp add: slab_live_def)
qed

section \<open>New pools\<close>

lemma pool_ctor_ok:
  assumes ok: "pools_ok s sl" and new: "ms_caches s c = None" and fit: "cache_fit mc" "2 \<le> mc_objects mc"
    and mc: "mc = init_mcache name sz maxitems flags"
  obtains s' where "memcache_ctor s c (Some name) sz maxitems flags = Some s'" "pools_ok s' sl" "live s' = live s"
    "ms_caches s' = (ms_caches s)(c \<mapsto> mc)"
proof -
  let ?self = "\<lambda>i. \<lparr>ln_next = Some (Owner i), ln_prev = Some (Owner i)\<rparr>"
  let ?h = "(ms_lists s)(Owner (slabs_partial c) \<mapsto> ?self (slabs_partial c), Owner (slabs_empty c) \<mapsto> ?self (slabs_empty c),
    Owner (slabs_full c) \<mapsto> ?self (slabs_full c))"
  let ?s = "s\<lparr>ms_caches := (ms_caches s)(c \<mapsto> mc), ms_lists := ?h\<rparr>"
  let ?I = "{i. ms_caches s (i div 3) \<noteq> None}" and ?I' = "{i. ms_caches ?s (i div 3) \<noteq> None}"
  have run: "memcache_ctor s c (Some name) sz maxitems flags = Some ?s"
    by (simp add: memcache_ctor_def Let_def listnode_init_eq mc [symmetric] fun_upd_twist)
  have other: "sb_mcache sb \<noteq> c" if "sb \<in> ran (ms_slabs s)" for sb
  proof -
    from that obtain b where "ms_slabs s b = Some sb" by (auto simp: ran_def)
    from pools_slabE [OF ok this] new show ?thesis by (metis option.distinct(1))
  qed
  have I: "?I \<subseteq> ?I'" by auto
  have I3: "i \<in> ?I' - ?I \<longleftrightarrow> i \<in> {slabs_partial c, slabs_empty c, slabs_full c}" for i
  proof -
    have "i \<in> ?I' - ?I \<longleftrightarrow> i div 3 = c" using new by auto
    also have "\<dots> \<longleftrightarrow> i = 3 * c \<or> i = 3 * c + 1 \<or> i = 3 * c + 2" by presburger
    finally show ?thesis by simp
  qed
  have "lists_ok ?I' ?h sl (dom (ms_slabs s))"
  proof (rule lists_more_heads [OF pools_lists [OF ok] I])
    show "ring ?h (Owner i) []" if "i \<in> ?I' - ?I" for i using that [unfolded I3] by (auto simp: ring_def nxt_def prv_def)
    show "?h a = ms_lists s a" if "a \<notin> Owner ` (?I' - ?I)" for a
    proof -
      have "a \<noteq> Owner i" if "i \<in> {slabs_partial c, slabs_empty c, slabs_full c}" for i
        using \<open>a \<notin> Owner ` (?I' - ?I)\<close> that [folded I3] by blast
      then show ?thesis by simp
    qed
  qed
  moreover have "zones_ok (ms_nodes s) (ms_tree s) (buffer_of ?s) (slab_bytes ?s) (dom (ms_slabs s))"
    by (rule zones_cong [of "ms_nodes s" _ "buffer_of s" "slab_bytes s"])
      (use ok in \<open>auto simp: pools_ok_def buffer_of_def slab_bytes_def dest: other [OF ranI]\<close>)
  moreover have "\<exists>m fs. ms_caches ?s (sb_mcache sb) = Some m \<and> slab_ok (ms_next s) m sb fs \<and> b \<in> set (sl (list_no m sb))"
    if b: "ms_slabs s b = Some sb" for b sb
    by (rule pools_slabE [OF ok b]) (use other b in \<open>auto simp: ran_def\<close>)
  ultimately have "pools_ok ?s sl" using ok fit unfolding pools_ok_def by auto
  moreover have "live ?s = live s"
  proof -
    have "slab_live ?s sb = slab_live s sb" if "sb \<in> ran (ms_slabs s)" for sb using other [OF that] by (auto simp: slab_live_def)
    then show ?thesis by (simp add: live_def)
  qed
  ultimately show ?thesis using that run by simp
qed

section \<open>Runs\<close>

text \<open>
  The operations that programs use, with the results of \<^verbatim>\<open>malloc\<close>. A program creates a pool for objects of at most
  64 megabytes that is not limited to one object for each slab, and gives back an object that is in use.
\<close>

datatype pool_op = New_pool nat string nat nat nat | Alloc nat "nat option" "nat option" | Free nat

fun pool_run :: "mcaches \<Rightarrow> pool_op \<Rightarrow> (ptr \<times> mcaches) option" where
  "pool_run s (New_pool c name sz maxitems flags) = do { s \<leftarrow> memcache_ctor s c (Some name) sz maxitems flags; Some (None, s) }"
| "pool_run s (Alloc c buffer block) = mcache_alloc s c buffer block"
| "pool_run s (Free p) = do { s \<leftarrow> mcache_free s (Some p); Some (None, s) }"

fun op_ok :: "mcaches \<Rightarrow> pool_op \<Rightarrow> bool" where
  "op_ok s (New_pool c name sz maxitems flags) \<longleftrightarrow> ms_caches s c = None \<and> sz \<le> 2 ^ 26 \<and> maxitems \<noteq> 1"
| "op_ok s (Alloc c buffer block) \<longleftrightarrow> ms_caches s c \<noteq> None \<and> room s c buffer block"
| "op_ok s (Free p) \<longleftrightarrow> p \<in> snd ` live s"

definition pools_init :: mcaches where
  "pools_init = \<lparr>ms_caches = Map.empty, ms_slabs = Map.empty, ms_nodes = Map.empty, ms_lists = Map.empty, ms_tree = None, ms_next = Map.empty\<rparr>"

inductive pools_reach :: "mcaches \<Rightarrow> bool" where
  start: "pools_reach pools_init"
| step: "\<lbrakk>pools_reach s; op_ok s op; pool_run s op = Some (r, s')\<rbrakk> \<Longrightarrow> pools_reach s'"

definition op_effect :: "mcaches \<Rightarrow> pool_op \<Rightarrow> ptr \<times> mcaches \<Rightarrow> bool" where
  "op_effect s op r \<longleftrightarrow> (case op of
     New_pool c name sz maxitems flags \<Rightarrow> live (snd r) = live s \<and>
       ms_caches (snd r) = (ms_caches s)(c \<mapsto> init_mcache name sz maxitems flags)
   | Alloc c buffer block \<Rightarrow> ms_caches (snd r) = ms_caches s \<and> alloc_result s c buffer block r
   | Free p \<Rightarrow> ms_caches (snd r) = ms_caches s \<and> live (snd r) = {(c, q) \<in> live s. q \<noteq> p})"

lemma init_two_objects:
  assumes "sz \<le> 2 ^ 26" "maxitems \<noteq> 1" "mc = init_mcache name sz maxitems flags"
  shows "cache_fit mc" "2 \<le> mc_objects mc"
proof -
  note f = init_mcache_fits [OF assms(1,3)]
  then show fit: "cache_fit mc" by simp
  have "0 < mc_objects mc" using fit by (simp add: cache_fit_def)
  then show "2 \<le> mc_objects mc" using f assms(2) by (auto split: if_splits)
qed

lemma op_runs:
  assumes ok: "pools_ok s sl" and "op_ok s op"
  obtains r s' sl' where "pool_run s op = Some (r, s')" "pools_ok s' sl'" "op_effect s op (r, s')"
proof (cases op)
  case (New_pool c name sz maxitems flags)
  then have a: "ms_caches s c = None" "sz \<le> 2 ^ 26" "maxitems \<noteq> 1" using assms(2) by simp_all
  show ?thesis
  proof (rule pool_ctor_ok [OF ok a(1) init_two_objects [OF a(2,3) refl] refl])
    fix s' assume "memcache_ctor s c (Some name) sz maxitems flags = Some s'" "pools_ok s' sl" "live s' = live s"
      "ms_caches s' = (ms_caches s)(c \<mapsto> init_mcache name sz maxitems flags)"
    then show ?thesis using that [of None s' sl] New_pool by (simp add: op_effect_def)
  qed
next
  case (Alloc c buffer block)
  then obtain mc where a: "ms_caches s c = Some mc" "room s c buffer block" using assms(2) by auto
  show ?thesis by (rule alloc_ok [OF ok a], rule that) (simp_all add: Alloc op_effect_def)
next
  case (Free p)
  then obtain c where a: "(c, p) \<in> live s" using assms(2) by auto
  show ?thesis
  proof (rule free_ok [OF ok a])
    fix s' sl' assume f: "mcache_free s (Some p) = Some s'" "pools_ok s' sl'" "ms_caches s' = ms_caches s" "live s' = live s - {(c, p)}"
    have "live s - {(c, p)} = {(c, q) \<in> live s. q \<noteq> p}" using live_unique [OF ok a] by auto
    with f show ?thesis using that [of None s' sl'] Free by (simp add: op_effect_def)
  qed
qed

lemma pools_init_ok: "pools_ok pools_init (\<lambda>i. [])"
proof -
  have "zones_ok Map.empty None (buffer_of pools_init) (slab_bytes pools_init) {}"
    unfolding zones_ok_def by (rule exI [of _ Leaf]) (simp add: rep_root_def keys_def addrs_def)
  then show ?thesis by (simp add: pools_ok_def pools_init_def lists_ok_def)
qed

lemma reach_ok: "pools_reach s \<Longrightarrow> \<exists>sl. pools_ok s sl"
proof (induction rule: pools_reach.induct)
  case start
  show ?case using pools_init_ok by blast
next
  case (step s op r s')
  then obtain sl where "pools_ok s sl" by blast
  from op_runs [OF this step(2)] step(3) show ?case by (metis option.inject prod.inject)
qed

section \<open>The properties\<close>

text \<open>
  C35: The sizes of a pool. For objects of at most 64 megabytes the slots are large enough, at most three bytes larger than asked for unless
  that is less than 16, and aligned to four bytes; a slab has at least one and, unless it is limited, at least eight objects, at
  most as many as the limit, and they fit with the colour offset into its pages. No intermediate value of 32 bits wraps around.
\<close>

theorem memcache_sizes:
  assumes "sz \<le> 2 ^ 26" and "m = init_mcache name sz maxitems flags"
  shows "sz \<le> mc_size m \<and> (mc_size m < sz + 4 \<or> mc_size m = 16) \<and> 4 dvd mc_size m \<and> 0 < mc_objects m \<and>
    (maxitems = 0 \<longrightarrow> 8 \<le> mc_objects m) \<and> (maxitems \<noteq> 0 \<longrightarrow> mc_objects m \<le> maxitems) \<and>
    mc_coloroff m + mc_objects m * mc_size m \<le> mc_pages m * 4096"
  using init_mcache_fits [OF assms] by (auto simp: cache_fit_def split: if_splits)

theorem memcache_sizes_witness:
  "100 \<le> mc_size (init_mcache ''pool'' 100 20 0) \<and> 0 < mc_objects (init_mcache ''pool'' 100 20 0) \<and>
    mc_objects (init_mcache ''pool'' 100 20 0) \<le> 20"
  using memcache_sizes [of 100 "init_mcache ''pool'' 100 20 0" "''pool''" 20 0] by simp


lemma live_init [simp]: "live pools_init = {}"
  by (simp add: live_def pools_init_def)

lemma room_first: "ms_slabs s = Map.empty \<Longrightarrow> room s c buffer block"
  by (simp add: room_def)

lemma ctor_slabs: "pool_run s (New_pool c name sz maxitems flags) = Some (r, s') \<Longrightarrow> ms_slabs s' = ms_slabs s"
  by (auto simp: memcache_ctor_def Let_def Option.bind_eq_Some_conv)



text \<open>Every state has room for one more slab, so what is relied on of \<^verbatim>\<open>malloc\<close> can hold.\<close>

lemma room_exists:
  assumes "pools_ok s sl"
  obtains a where "room s c (Some a) (Some a)"
proof -
  let ?D = "dom (ms_slabs s)" and ?f = "\<lambda>b. buffer_of s b + slab_bytes s b + b"
  have "finite ?D" using assms by (auto simp: pools_ok_def zones_ok_def set_keys [symmetric]) (metis List.finite_set)
  then have le: "?f b \<le> sum ?f ?D" if "b \<in> ?D" for b using that by (intro member_le_sum) auto
  have "room s c (Some (Suc (sum ?f ?D))) (Some (Suc (sum ?f ?D)))"
    using le by (fastforce simp: room_def apart_def)
  then show ?thesis by (rule that)
qed

lemma alloc_reach:
  assumes "pools_reach s" "ms_caches s c \<noteq> None"
  obtains p s' where "pools_reach s'" "(c, p) \<notin> live s" "live s' = insert (c, p) (live s)" "ms_caches s' = ms_caches s"
proof -
  from reach_ok [OF assms(1)] obtain sl where ok: "pools_ok s sl" by blast
  from room_exists [OF ok] obtain a where "room s c (Some a) (Some a)" by metis
  then have o: "op_ok s (Alloc c (Some a) (Some a))" using assms(2) by simp
  show ?thesis
  proof (rule op_runs [OF ok o])
    fix r s' sl' assume r: "pool_run s (Alloc c (Some a) (Some a)) = Some (r, s')" "op_effect s (Alloc c (Some a) (Some a)) (r, s')"
    show ?thesis using pools_reach.step [OF assms(1) o r(1)] r(2) by (cases r) (auto simp: op_effect_def intro: that)
  qed
qed


end
