(* ===== verification/Named_Kids.thy ===== *)
theory Named_Kids
  imports Endpoint_Mgr List_Family
begin

text \<open>
  Trees and lists of named children. The arbiter of the indexing service has three levels of objects, rules,
  services and nodes, and each object holds the root of a tree and the head of a list of its children on the level
  below, with the name of a child as the key of the tree. One record holds a level: the tree nodes and the list
  nodes that are members of the children, the roots of the trees by parent, and the heads of the lists, which are owned by the
  parents.
\<close>

section \<open>Operations\<close>

record kids =
  k_avl :: avl_heap
  k_lists :: "list_addr list_heap"
  k_tree :: "nat \<Rightarrow> ptr"

definition no_kids :: kids where
  "no_kids = \<lparr>k_avl = Map.empty, k_lists = Map.empty, k_tree = (\<lambda>_. None)\<rparr>"

text \<open>The search in the tree of the parent \<open>p\<close>; \<open>key\<close> gives the names.\<close>

definition kids_find :: "(nat \<Rightarrow> string) \<Rightarrow> kids \<Rightarrow> nat \<Rightarrow> string \<Rightarrow> ptr option" where
  "kids_find key d p name = avl_find (k_avl d) (k_tree d p) name (\<lambda>k b. name_compare k (key b))"

text \<open>The members of a new child and those of a new parent, and the end of a child.\<close>

definition new_kid :: "kids \<Rightarrow> nat \<Rightarrow> kids" where
  "new_kid d a = d\<lparr>k_avl := (k_avl d)(a \<mapsto> zero_node), k_lists := (k_lists d)(Member a \<mapsto> zero_listnode)\<rparr>"

definition new_parent :: "kids \<Rightarrow> nat \<Rightarrow> kids option" where
  "new_parent d p =
     do {
       l \<leftarrow> listnode_init ((k_lists d)(Owner p \<mapsto> zero_listnode)) (Owner p);
       Some (d\<lparr>k_lists := l, k_tree := (k_tree d)(p := None)\<rparr>)
     }"

definition delete_kid :: "kids \<Rightarrow> nat \<Rightarrow> kids" where
  "delete_kid d a = d\<lparr>k_avl := (k_avl d)(a := None), k_lists := (k_lists d)(Member a := None)\<rparr>"

definition delete_parent :: "kids \<Rightarrow> nat \<Rightarrow> kids" where
  "delete_parent d p = d\<lparr>k_lists := (k_lists d)(Owner p := None), k_tree := (k_tree d)(p := None)\<rparr>"

text \<open>Insertion into tree and list, which ends when the tree refuses the child, and removal.\<close>

definition kids_insert :: "(nat \<Rightarrow> string) \<Rightarrow> kids \<Rightarrow> nat \<Rightarrow> nat \<Rightarrow> (bool \<times> kids) option" where
  "kids_insert key d p a =
     do {
       (h, rt, ret) \<leftarrow> avl_insert (k_avl d) (k_tree d p) a (\<lambda>x y. name_compare (key x) (key y));
       let d = d\<lparr>k_avl := h, k_tree := (k_tree d)(p := rt)\<rparr>;
       if ret \<noteq> 0 then Some (False, d)
       else do { l \<leftarrow> listnode_add (k_lists d) (Owner p) (Member a); Some (True, d\<lparr>k_lists := l\<rparr>) }
     }"

definition kids_remove :: "kids \<Rightarrow> nat \<Rightarrow> nat \<Rightarrow> kids option" where
  "kids_remove d p a =
     do {
       (h, rt) \<leftarrow> avl_remove (k_avl d) (k_tree d p) a 0;
       l \<leftarrow> listnode_del (k_lists d) (Member a);
       Some (d\<lparr>k_avl := h(0 := None), k_tree := (k_tree d)(p := rt), k_lists := l\<rparr>)
     }"

section \<open>The invariant\<close>

text \<open>\<open>P\<close> are the parents, \<open>D\<close> the children, and \<open>ch\<close> gives the children of a parent in the order of its list.\<close>

definition kids_ok :: "(nat \<Rightarrow> string) \<Rightarrow> nat set \<Rightarrow> (nat \<Rightarrow> nat list) \<Rightarrow> nat set \<Rightarrow> kids \<Rightarrow> bool" where
  "kids_ok key P ch D d \<longleftrightarrow>
     lists_ok P (k_lists d) ch D \<and> (\<forall>p \<in> P. indexed name_compare key (k_avl d) (k_tree d p) (set (ch p))) \<and>
     (\<forall>a \<in> D. in_slots ch a) \<and> finite D"

definition kid_at :: "(nat \<Rightarrow> string) \<Rightarrow> (nat \<Rightarrow> nat list) \<Rightarrow> nat \<Rightarrow> string \<Rightarrow> ptr" where
  "kid_at key ch p name = find (\<lambda>a. key a = name) (ch p)"

lemma kid_at_Some: "kid_at key ch p name = Some a \<Longrightarrow> a \<in> set (ch p) \<and> key a = name"
  unfolding kid_at_def by (auto simp: find_Some_iff)

lemma kid_at_None: "kid_at key ch p name = None \<longleftrightarrow> name \<notin> key ` set (ch p)"
  unfolding kid_at_def by (auto simp: find_None_iff)

lemma kids_inj: "\<lbrakk>kids_ok key P ch D d; p \<in> P\<rbrakk> \<Longrightarrow> inj_on key (set (ch p))"
  using names.indexed_inj by (auto simp: kids_ok_def)

lemma kid_at_eq: "\<lbrakk>kids_ok key P ch D d; p \<in> P; a \<in> set (ch p)\<rbrakk> \<Longrightarrow> kid_at key ch p (key a) = Some a"
proof (cases "kid_at key ch p (key a)")
  case None
  assume "a \<in> set (ch p)"
  with None show ?thesis unfolding kid_at_None by blast
next
  case (Some b)
  assume ok: "kids_ok key P ch D d" "p \<in> P" and a: "a \<in> set (ch p)"
  from kid_at_Some [OF Some] have "b \<in> set (ch p)" "key b = key a" by simp_all
  then have "b = a" using inj_onD [OF kids_inj [OF ok]] a by blast
  with Some show ?thesis by simp
qed

lemma kids_find_ok:
  assumes "kids_ok key P ch D d" "p \<in> P"
  shows "kids_find key d p name = Some (kid_at key ch p name)"
proof -
  have i: "indexed name_compare key (k_avl d) (k_tree d p) (set (ch p))" using assms by (simp add: kids_ok_def)
  show ?thesis
  proof (cases "kid_at key ch p name")
    case None
    show ?thesis unfolding kids_find_def None
      by (rule names.index_find(2) [OF i]) (use None in \<open>simp add: kid_at_None\<close>)
  next
    case (Some a)
    then have "a \<in> set (ch p)" "key a = name" by (auto dest: kid_at_Some)
    then show ?thesis using names.index_find(1) [OF i] Some by (auto simp: kids_find_def)
  qed
qed

lemma kids_disj: "\<lbrakk>kids_ok key P ch D d; a \<in> set (ch p); a \<in> set (ch q)\<rbrakk> \<Longrightarrow> p = q"
  using slots_disj by (auto simp: kids_ok_def)

lemma kids_parent: "\<lbrakk>kids_ok key P ch D d; a \<in> D\<rbrakk> \<Longrightarrow> \<exists>p \<in> P. a \<in> set (ch p)"
  using slots_bound by (fastforce simp: kids_ok_def in_slots_def)

lemma kids_sub: "\<lbrakk>kids_ok key P ch D d; a \<in> set (ch p)\<rbrakk> \<Longrightarrow> a \<in> D"
  using slots_sub by (fastforce simp: kids_ok_def in_slots_def)

lemma kids_outside: "\<lbrakk>kids_ok key P ch D d; p \<notin> P\<rbrakk> \<Longrightarrow> ch p = []"
  by (auto simp: kids_ok_def lists_ok_def)

lemma kids_key_cong: "\<lbrakk>kids_ok key P ch D d; \<And>a. a \<in> D \<Longrightarrow> key' a = key a\<rbrakk> \<Longrightarrow> kids_ok key' P ch D d"
proof -
  assume ok: "kids_ok key P ch D d" and key: "\<And>a. a \<in> D \<Longrightarrow> key' a = key a"
  have "indexed name_compare key' (k_avl d) (k_tree d p) (set (ch p))" if "p \<in> P" for p
  proof (rule indexed_cong [of _ key])
    show "indexed name_compare key (k_avl d) (k_tree d p) (set (ch p))" using ok that by (simp add: kids_ok_def)
    show "key' a = key a" if "a \<in> set (ch p)" for a using key kids_sub [OF ok that] .
  qed simp
  with ok show ?thesis by (simp add: kids_ok_def)
qed

lemma kids_list: "\<lbrakk>kids_ok key P ch D d; p \<in> P\<rbrakk> \<Longrightarrow> list_nodes (k_lists d) (Owner p) = Some (map Member (ch p))"
  by (rule ring_nodes [OF slots_ring]) (auto simp: kids_ok_def)

lemma kids_distinct: "\<lbrakk>kids_ok key P ch D d; p \<in> P\<rbrakk> \<Longrightarrow> distinct (ch p)"
  using slots_distinct by (auto simp: kids_ok_def)

lemma kids_empty: "kids_ok key {} (\<lambda>_. []) {} no_kids"
  by (simp add: kids_ok_def no_kids_def lists_ok_def)

section \<open>New parents and new children\<close>

lemma kids_new_parent:
  assumes ok: "kids_ok key P ch D d" and q: "q \<notin> P"
  obtains d' where "new_parent d q = Some d'" "kids_ok key (insert q P) ch D d'"
proof -
  let ?l = "(k_lists d)(Owner q \<mapsto> \<lparr>ln_next = Some (Owner q), ln_prev = Some (Owner q)\<rparr>)"
  let ?d = "d\<lparr>k_lists := ?l, k_tree := (k_tree d)(q := None)\<rparr>"
  have run: "new_parent d q = Some ?d" by (simp add: new_parent_def listnode_init_eq)
  have "insert q P - P = {q}" using q by blast
  have "lists_ok (insert q P) ?l ch D"
    by (rule lists_more_heads [of P "k_lists d"]) (use ok q in \<open>auto simp: kids_ok_def ring_def\<close>)
  moreover have "ch q = []" by (rule kids_outside [OF ok q])
  ultimately have "kids_ok key (insert q P) ch D ?d" using ok q by (auto simp: kids_ok_def)
  with run show ?thesis by (rule that)
qed

lemma kids_add:
  assumes ok: "kids_ok key P ch D d" and p: "p \<in> P" and a: "a \<notin> D" and key: "\<And>b. b \<in> D \<Longrightarrow> key' b = key b"
    and new: "key' a \<notin> key ` set (ch p)"
  obtains d' where "kids_insert key' (new_kid d a) p a = Some (True, d')" "kids_ok key' P (ch(p := ch p @ [a])) (insert a D) d'"
proof -
  let ?d = "new_kid d a"
  have l: "lists_ok P (k_lists d) ch D" using ok by (simp add: kids_ok_def)
  have i: "indexed name_compare key' (k_avl ?d) (k_tree d q) (set (ch q))" if "q \<in> P" for q
    by (rule indexed_cong [of _ key "k_avl d"]) (use ok a that key kids_sub [OF ok] in \<open>auto simp: kids_ok_def new_kid_def\<close>)
  have an: "a \<notin> set (ch q)" for q using kids_sub [OF ok] a by blast
  have "key' a \<notin> key' ` set (ch p)" using new key kids_sub [OF ok] by force
  with names.index_insert(2) [OF i [OF p] an] obtain h' rt' where
    h: "avl_insert (k_avl ?d) (k_tree d p) a (\<lambda>x y. name_compare (key' x) (key' y)) = Some (h', rt', 0)"
      "indexed name_compare key' h' rt' (insert a (set (ch p)))" "\<forall>x. x \<notin> insert a (set (ch p)) \<longrightarrow> h' x = k_avl ?d x"
    by (auto simp: new_kid_def)
  from slots_add_new [OF l p a refl, of zero_listnode] obtain l' where
    l': "listnode_add ((k_lists d)(Member a \<mapsto> zero_listnode)) (Owner p) (Member a) = Some l'" "lists_ok P l' (ch(p := ch p @ [a])) (insert a D)"
    by metis
  let ?d' = "d\<lparr>k_avl := h', k_tree := (k_tree d)(p := rt'), k_lists := l'\<rparr>"
  have run: "kids_insert key' ?d p a = Some (True, ?d')" using h(1) l'(1) by (simp add: kids_insert_def new_kid_def)
  have "indexed name_compare key' h' (((k_tree d)(p := rt')) q) (set ((ch(p := ch p @ [a])) q))" if q: "q \<in> P" for q
  proof (cases "q = p")
    case False
    have "indexed name_compare key' h' (k_tree d q) (set (ch q))"
    proof (rule indexed_cong [OF i [OF q]])
      fix b assume b: "b \<in> set (ch q)"
      then have "b \<notin> insert a (set (ch p))" using an [of q] kids_disj [OF ok b, of p] False by blast
      then show "h' b = k_avl ?d b" using h(3) by blast
    qed simp
    with False show ?thesis by simp
  qed (use h(2) in simp)
  moreover have "\<forall>b \<in> insert a D. in_slots (ch(p := ch p @ [a])) b"
  proof
    fix b assume "b \<in> insert a D"
    then show "in_slots (ch(p := ch p @ [a])) b"
    proof
      assume "b = a"
      then show ?thesis unfolding in_slots_def by (intro exI [of _ p]) simp
    next
      assume "b \<in> D"
      then obtain q where "b \<in> set (ch q)" using ok by (auto simp: kids_ok_def in_slots_def)
      then show ?thesis unfolding in_slots_def by (intro exI [of _ q]) auto
    qed
  qed
  ultimately have "kids_ok key' P (ch(p := ch p @ [a])) (insert a D) ?d'" using l'(2) ok by (simp add: kids_ok_def)
  with run show ?thesis by (rule that)
qed

lemma kids_delete:
  assumes ok: "kids_ok key P ch D d" and a: "a \<in> set (ch p)" and z: "0 \<notin> D"
  obtains d' where "kids_remove d p a = Some d'" "kids_ok key P (ch(p := remove1 a (ch p))) (D - {a}) (delete_kid d' a)"
proof -
  have l: "lists_ok P (k_lists d) ch D" using ok by (simp add: kids_ok_def)
  have p: "p \<in> P" by (rule slots_bound [OF l a])
  have i: "indexed name_compare key (k_avl d) (k_tree d q) (set (ch q))" if "q \<in> P" for q using ok that by (simp add: kids_ok_def)
  have z': "0 \<notin> set (ch q)" for q using kids_sub [OF ok] z by blast
  from names.index_remove [OF i [OF p] a z'] obtain h' rt' where h: "avl_remove (k_avl d) (k_tree d p) a 0 = Some (h', rt')"
    "indexed name_compare key h' rt' (set (ch p) - {a})" "\<forall>x. x \<notin> insert 0 (set (ch p)) \<longrightarrow> h' x = k_avl d x" by blast
  from slots_del [OF l a] obtain l' where l': "listnode_del (k_lists d) (Member a) = Some l'" "lists_ok P l' (ch(p := remove1 a (ch p))) D" by metis
  let ?d = "d\<lparr>k_avl := h'(0 := None), k_tree := (k_tree d)(p := rt'), k_lists := l'\<rparr>" and ?ch = "ch(p := remove1 a (ch p))"
  have run: "kids_remove d p a = Some ?d" using h(1) l'(1) by (simp add: kids_remove_def)
  have rm: "set (remove1 a (ch p)) = set (ch p) - {a}" by (rule set_remove1_eq [OF kids_distinct [OF ok p]])
  have out: "\<not> in_slots ?ch a" using rm kids_disj [OF ok a] by (auto simp: in_slots_def split: if_splits)
  have "lists_ok P (l'(Member a := None)) ?ch (D - {a})" by (rule slots_outside [OF l'(2) out]) auto
  moreover have "indexed name_compare key (h'(0 := None, a := None)) (((k_tree d)(p := rt')) q) (set (?ch q))" if q: "q \<in> P" for q
  proof (cases "q = p")
    case True
    have "indexed name_compare key (h'(0 := None, a := None)) rt' (set (ch p) - {a})"
      by (rule indexed_cong [OF h(2)]) (use z' [of p] in auto)
    with True show ?thesis by (simp add: rm)
  next
    case False
    have "indexed name_compare key (h'(0 := None, a := None)) (k_tree d q) (set (ch q))"
    proof (rule indexed_cong [OF i [OF q]])
      fix b assume b: "b \<in> set (ch q)"
      then have "b \<notin> set (ch p)" using kids_disj [OF ok b, of p] False by blast
      moreover have "b \<noteq> 0" using z' [of q] b by metis
      moreover have "b \<noteq> a" using a \<open>b \<notin> set (ch p)\<close> by blast
      ultimately show "(h'(0 := None, a := None)) b = k_avl d b" using h(3) by simp
    qed simp
    with False show ?thesis by simp
  qed
  moreover have "\<forall>b \<in> D - {a}. in_slots ?ch b"
  proof
    fix b assume b: "b \<in> D - {a}"
    then obtain q where "b \<in> set (ch q)" using ok by (auto simp: kids_ok_def in_slots_def)
    with b show "in_slots ?ch b" unfolding in_slots_def by (intro exI [of _ q]) auto
  qed
  ultimately have "kids_ok key P ?ch (D - {a}) (delete_kid ?d a)" using ok by (simp add: kids_ok_def delete_kid_def)
  with run show ?thesis by (rule that)
qed

end
