(* ===== verification/Indexing_Arbitrate.thy ===== *)
theory Indexing_Arbitrate
  imports Named_Kids Endpoint_Ops Forward_Arbitrate Vehicle_Mgr
begin

unbundle bit_operations_syntax

text \<open>
  The arbiter of the indexing service, \<^verbatim>\<open>mec/vehicle-indexing/src/forward_arbitrate.cpp\<close>. A rule is for a path and has
  services, and a service has a node for each vehicle, or other user of the service, that it has heard from. A node holds
  the endpoints that serve this vehicle, a master and a slave, as counted references. A request goes to the nodes of all
  services of the rule for its path that forward messages.

  The rules are the children of the arbiter itself, at address 0, the services those of rules, and the nodes those of services. The
  results \<open>None\<close> are failed assertions, invalid accesses or uncaught exceptions.
\<close>

section \<open>Data\<close>

record service_endpoint =
  sv_endpoint :: ptr
  sv_identity :: string

record forward_service_node =
  fn_name :: string
  fn_node_id :: string
  fn_master :: service_endpoint
  fn_slaver :: service_endpoint

record forwork_service_item =
  ws_name :: string
  ws_keyword :: string
  ws_type :: int
  ws_inter_change :: int

record indexing_arbitrate =
  ia_rules :: "nat \<Rightarrow> string option"
  ia_services :: "nat \<Rightarrow> forwork_service_item option"
  ia_nodes :: "nat \<Rightarrow> forward_service_node option"
  ia_rule_kids :: kids
  ia_service_kids :: kids
  ia_node_kids :: kids
  ia_brk :: nat
  ia_mgr :: server_endpoint_mgr

definition indexing_arbitrate_ctor :: "indexing_arbitrate option" where
  "indexing_arbitrate_ctor =
     do {
       d \<leftarrow> new_parent no_kids 0;
       mgr \<leftarrow> server_endpoint_mgr_ctor;
       Some \<lparr>ia_rules = Map.empty, ia_services = Map.empty, ia_nodes = Map.empty, ia_rule_kids = d, ia_service_kids = no_kids,
         ia_node_kids = no_kids, ia_brk = 1, ia_mgr = mgr\<rparr>
     }"

section \<open>Rules\<close>

definition rule_url :: "(nat \<Rightarrow> string option) \<Rightarrow> nat \<Rightarrow> string" where
  "rule_url R r = (case R r of None \<Rightarrow> [] | Some url \<Rightarrow> url)"

definition idx_find_rule :: "indexing_arbitrate \<Rightarrow> string \<Rightarrow> ptr option" where
  "idx_find_rule f name = kids_find (rule_url (ia_rules f)) (ia_rule_kids f) 0 name"

definition idx_add_rule :: "indexing_arbitrate \<Rightarrow> string \<Rightarrow> (ptr \<times> indexing_arbitrate) option" where
  "idx_add_rule f name =
     do {
       item \<leftarrow> idx_find_rule f name;
       if item \<noteq> None then Some (item, f)
       else do {
         let r = ia_brk f;
         let f = f\<lparr>ia_brk := Suc r, ia_rules := (ia_rules f)(r \<mapsto> name)\<rparr>;
         d \<leftarrow> new_parent (ia_service_kids f) r;
         (ok, e) \<leftarrow> kids_insert (rule_url (ia_rules f)) (new_kid (ia_rule_kids f) r) 0 r;
         if \<not> ok
         then Some (None, f\<lparr>ia_rules := (ia_rules f)(r := None), ia_rule_kids := delete_kid e r, ia_service_kids := delete_parent d r\<rparr>)
         else Some (Some r, f\<lparr>ia_rule_kids := e, ia_service_kids := d\<rparr>)
       }
     }"

section \<open>Services\<close>

definition service_name :: "(nat \<Rightarrow> forwork_service_item option) \<Rightarrow> nat \<Rightarrow> string" where
  "service_name S a = (case S a of None \<Rightarrow> [] | Some it \<Rightarrow> ws_name it)"

definition idx_find_service :: "indexing_arbitrate \<Rightarrow> ptr \<Rightarrow> string \<Rightarrow> ptr option" where
  "idx_find_service f item svc_name =
     (case item of
        None \<Rightarrow> Some None
      | Some r \<Rightarrow> kids_find (service_name (ia_services f)) (ia_service_kids f) r svc_name)"

definition delete_service :: "indexing_arbitrate \<Rightarrow> nat \<Rightarrow> indexing_arbitrate" where
  "delete_service f a = f\<lparr>ia_services := (ia_services f)(a := None), ia_service_kids := delete_kid (ia_service_kids f) a,
     ia_node_kids := delete_parent (ia_node_kids f) a\<rparr>"

definition idx_add_service :: "indexing_arbitrate \<Rightarrow> ptr \<Rightarrow> string \<Rightarrow> (ptr \<times> indexing_arbitrate) option" where
  "idx_add_service f item svc_name =
     (case item of
        None \<Rightarrow> Some (None, f)
      | Some r \<Rightarrow> do {
          svc_item \<leftarrow> idx_find_service f item svc_name;
          if svc_item \<noteq> None then Some (svc_item, f)
          else do {
            let a = ia_brk f;
            let f = f\<lparr>ia_brk := Suc a,
              ia_services := (ia_services f)(a \<mapsto> \<lparr>ws_name = svc_name, ws_keyword = [], ws_type = 0, ws_inter_change = 0\<rparr>)\<rparr>;
            d \<leftarrow> new_parent (ia_node_kids f) a;
            (ok, e) \<leftarrow> kids_insert (service_name (ia_services f)) (new_kid (ia_service_kids f) a) r a;
            let f = f\<lparr>ia_service_kids := e, ia_node_kids := d\<rparr>;
            if \<not> ok then Some (None, delete_service f a) else Some (Some a, f)
          }
        })"

text \<open>
  Loading of the rules. \<open>text_at\<close> gives the text at a path of the configuration, \<open>None\<close> when \<^verbatim>\<open>get_sysconfig\<close> reports an error,
  \<open>number_at\<close> the number at a path, as an \<^verbatim>\<open>int\<close>, given the default.
\<close>

definition rule_path :: "nat \<Rightarrow> string \<Rightarrow> string" where
  "rule_path order part = ''indexing-service.route-rule.rule-'' @ nat_to_string order @ part"

definition idx_load_rule_url_name :: "(string \<Rightarrow> string option) \<Rightarrow> nat \<Rightarrow> string option" where
  "idx_load_rule_url_name text_at order = text_at (rule_path order ''.url-name'')"

definition idx_load_service_name :: "(string \<Rightarrow> string option) \<Rightarrow> nat \<Rightarrow> string option" where
  "idx_load_service_name text_at order = text_at (rule_path order ''.service.name'')"

definition load_service_type :: "(string \<Rightarrow> string option) \<Rightarrow> nat \<Rightarrow> forwork_service_item \<Rightarrow> forwork_service_item" where
  "load_service_type text_at order item =
     (case text_at (rule_path order ''.service.type'') of
        None \<Rightarrow> item\<lparr>ws_type := 0\<rparr>
      | Some type \<Rightarrow>
          if type = ''all'' then item\<lparr>ws_type := 1 OR 2\<rparr>
          else if type = ''internal'' then item\<lparr>ws_type := 2\<rparr>
          else if type = ''forward'' then item\<lparr>ws_type := 1\<rparr>
          else item\<lparr>ws_type := 0\<rparr>)"

definition load_service_keyword :: "(string \<Rightarrow> string option) \<Rightarrow> nat \<Rightarrow> forwork_service_item \<Rightarrow> forwork_service_item" where
  "load_service_keyword text_at order item =
     (case text_at (rule_path order ''.service.keyword'') of
        None \<Rightarrow> item\<lparr>ws_keyword := c_str (ws_keyword item)\<rparr>
      | Some keyword \<Rightarrow> item\<lparr>ws_keyword := keyword\<rparr>)"

definition load_service_change :: "(string \<Rightarrow> int \<Rightarrow> int) \<Rightarrow> nat \<Rightarrow> forwork_service_item \<Rightarrow> forwork_service_item" where
  "load_service_change number_at order item =
     item\<lparr>ws_inter_change := number_at (rule_path order ''.service.inter_change'') (ws_inter_change item)\<rparr>"

fun idx_rule_loop ::
  "(string \<Rightarrow> string option) \<Rightarrow> (string \<Rightarrow> int \<Rightarrow> int) \<Rightarrow> nat list \<Rightarrow> indexing_arbitrate \<Rightarrow> indexing_arbitrate option" where
  "idx_rule_loop text_at number_at [] f = Some f"
| "idx_rule_loop text_at number_at (i # rest) f =
     (case idx_load_rule_url_name text_at i of
        None \<Rightarrow> idx_rule_loop text_at number_at rest f
      | Some name \<Rightarrow> do {
          item \<leftarrow> idx_find_rule f name;
          (item, f) \<leftarrow> (if item = None then idx_add_rule f name else Some (item, f));
          r \<leftarrow> item;
          case idx_load_service_name text_at i of
            None \<Rightarrow> idx_rule_loop text_at number_at rest f
          | Some svc_name \<Rightarrow> do {
              known \<leftarrow> idx_find_service f (Some r) svc_name;
              if known \<noteq> None then idx_rule_loop text_at number_at rest f
              else do {
                (svc_item, f) \<leftarrow> idx_add_service f (Some r) svc_name;
                case svc_item of
                  None \<Rightarrow> idx_rule_loop text_at number_at rest f
                | Some a \<Rightarrow> do {
                    it \<leftarrow> ia_services f a;
                    let it = load_service_change number_at i (load_service_keyword text_at i (load_service_type text_at i it));
                    idx_rule_loop text_at number_at rest (f\<lparr>ia_services := (ia_services f)(a \<mapsto> it)\<rparr>)
                  }
              }
            }
        })"

definition idx_init_rule_list ::
  "(string \<Rightarrow> string option) \<Rightarrow> (string \<Rightarrow> int \<Rightarrow> int) \<Rightarrow> nat option \<Rightarrow> indexing_arbitrate \<Rightarrow> (int \<times> indexing_arbitrate) option" where
  "idx_init_rule_list text_at number_at cnt f =
     (case cnt of
        None \<Rightarrow> None
      | Some n \<Rightarrow> if n = 0 then None else do { f \<leftarrow> idx_rule_loop text_at number_at [0..<n] f; Some (0, f) })"

definition idx_get_urlname_from_uri :: "uri_impl option \<Rightarrow> int + string" where
  "idx_get_urlname_from_uri url =
     (let name = c_str (uri_get_fullpath url)
      in case strchr name (CHR ''/'') of None \<Rightarrow> Inl (- ENOTFOUND) | Some first_slash \<Rightarrow> Inr (drop first_slash name))"

text \<open>The public \<^verbatim>\<open>find_service\<close>, which the requests that the service itself answers go through.\<close>

definition find_service_of_url :: "indexing_arbitrate \<Rightarrow> uri_impl option \<Rightarrow> string \<Rightarrow> ptr option" where
  "find_service_of_url f url svc_name =
     (case idx_get_urlname_from_uri url of
        Inl _ \<Rightarrow> Some None
      | Inr url_name \<Rightarrow> do {
          rule \<leftarrow> idx_find_rule f url_name;
          if rule = None then Some None else idx_find_service f rule svc_name
        })"

section \<open>Nodes\<close>

definition node_id_of :: "(nat \<Rightarrow> forward_service_node option) \<Rightarrow> nat \<Rightarrow> string" where
  "node_id_of N n = (case N n of None \<Rightarrow> [] | Some nd \<Rightarrow> fn_node_id nd)"

definition find_forward_service_node :: "indexing_arbitrate \<Rightarrow> ptr \<Rightarrow> string \<Rightarrow> ptr option" where
  "find_forward_service_node f item node_id =
     (case item of
        None \<Rightarrow> Some None
      | Some a \<Rightarrow> kids_find (node_id_of (ia_nodes f)) (ia_node_kids f) a node_id)"

text \<open>When the tree refuses the new node, the code deletes the service instead of the node.\<close>

definition add_forward_service_node :: "indexing_arbitrate \<Rightarrow> ptr \<Rightarrow> string \<Rightarrow> (ptr \<times> indexing_arbitrate) option" where
  "add_forward_service_node f item node_id =
     (case item of
        None \<Rightarrow> Some (None, f)
      | Some a \<Rightarrow>
          if length node_id = 0 then Some (None, f)
          else do {
            svc_node \<leftarrow> find_forward_service_node f item node_id;
            if svc_node \<noteq> None then Some (svc_node, f)
            else do {
              it \<leftarrow> ia_services f a;
              let n = ia_brk f;
              let f = f\<lparr>ia_brk := Suc n,
                ia_nodes := (ia_nodes f)(n \<mapsto> \<lparr>fn_name = ws_name it, fn_node_id = node_id,
                  fn_master = \<lparr>sv_endpoint = None, sv_identity = []\<rparr>, fn_slaver = \<lparr>sv_endpoint = None, sv_identity = []\<rparr>\<rparr>)\<rparr>;
              (ok, e) \<leftarrow> kids_insert (node_id_of (ia_nodes f)) (new_kid (ia_node_kids f) n) a n;
              let f = f\<lparr>ia_node_kids := e\<rparr>;
              if \<not> ok then Some (None, delete_service f a) else Some (Some n, f)
            }
          })"

text \<open>
  Handles to endpoints: the end of one, and \<^verbatim>\<open>operator=\<close>. A handle that a function returns is dropped after the
  assignment; the copies that are made for arguments add a reference and release it.
\<close>

definition ep_drop :: "server_endpoint_mgr \<Rightarrow> ptr \<Rightarrow> server_endpoint_mgr option" where
  "ep_drop mgr p = (case p of None \<Rightarrow> Some mgr | Some b \<Rightarrow> do { (_, mgr) \<leftarrow> release mgr b; Some mgr })"

definition ep_assign :: "server_endpoint_mgr \<Rightarrow> ptr \<Rightarrow> ptr \<Rightarrow> server_endpoint_mgr option" where
  "ep_assign mgr old new =
     do {
       mgr \<leftarrow> (case new of None \<Rightarrow> Some mgr | Some b \<Rightarrow> do { (_, mgr) \<leftarrow> addref mgr b; Some mgr });
       ep_drop mgr old
     }"

definition ep_alloc :: "server_endpoint_mgr \<Rightarrow> string \<Rightarrow> ptr \<Rightarrow> ptr \<Rightarrow> (ptr \<times> server_endpoint_mgr) option" where
  "ep_alloc mgr name old other =
     do {
       (r, mgr) \<leftarrow> alloc_server_endpoint_to_vehicle mgr name other;
       mgr \<leftarrow> ep_assign mgr old r;
       mgr \<leftarrow> ep_drop mgr r;
       Some (r, mgr)
     }"

definition ep_invalid :: "server_endpoint_mgr \<Rightarrow> ptr \<Rightarrow> bool option" where
  "ep_invalid mgr p = (case p of None \<Rightarrow> Some True | Some b \<Rightarrow> do { pt \<leftarrow> em_points mgr b; Some (se_status pt \<noteq> 1) })"

definition set_endpoint :: "server_endpoint_mgr \<Rightarrow> ptr \<Rightarrow> service_endpoint \<Rightarrow> service_endpoint option" where
  "set_endpoint mgr p se =
     (case p of
        None \<Rightarrow> Some (se\<lparr>sv_endpoint := None\<rparr>)
      | Some b \<Rightarrow> do { pt \<leftarrow> em_points mgr b; Some \<lparr>sv_endpoint = p, sv_identity = se_identity pt\<rparr> })"

definition check_set_service_node ::
  "server_endpoint_mgr \<Rightarrow> forward_service_node \<Rightarrow> (int \<times> forward_service_node \<times> server_endpoint_mgr) option" where
  "check_set_service_node mgr node =
     do {
       let master = sv_endpoint (fn_master node);
       let slaver = sv_endpoint (fn_slaver node);
       maste_invail \<leftarrow> ep_invalid mgr master;
       slave_invail \<leftarrow> ep_invalid mgr slaver;
       if maste_invail \<and> slave_invail then do {
         (m, mgr) \<leftarrow> ep_alloc mgr (fn_name node) master None;
         se \<leftarrow> set_endpoint mgr m (fn_master node);
         let node = node\<lparr>fn_master := se\<rparr>;
         if m = None then Some (- EINVALID, node, mgr)
         else do {
           (sl, mgr) \<leftarrow> ep_alloc mgr (fn_name node) slaver m;
           se \<leftarrow> set_endpoint mgr sl (fn_slaver node);
           Some (0, node\<lparr>fn_slaver := se\<rparr>, mgr)
         }
       }
       else if \<not> maste_invail \<and> slave_invail then do {
         (sl, mgr) \<leftarrow> ep_alloc mgr (fn_name node) slaver master;
         se \<leftarrow> set_endpoint mgr sl (fn_slaver node);
         Some (0, node\<lparr>fn_slaver := se\<rparr>, mgr)
       }
       else if maste_invail \<and> \<not> slave_invail then do {
         (m, mgr) \<leftarrow> ep_alloc mgr (fn_name node) master slaver;
         if m = None then do {
           mgr \<leftarrow> ep_assign mgr None slaver;
           se \<leftarrow> set_endpoint mgr slaver (fn_master node);
           mgr \<leftarrow> ep_assign mgr slaver None;
           Some (0, node\<lparr>fn_master := se, fn_slaver := \<lparr>sv_endpoint = None, sv_identity = []\<rparr>\<rparr>, mgr)
         }
         else do { se \<leftarrow> set_endpoint mgr m (fn_master node); Some (0, node\<lparr>fn_master := se\<rparr>, mgr) }
       }
       else Some (0, node, mgr)
     }"

definition remove_forward_service_node :: "indexing_arbitrate \<Rightarrow> nat \<Rightarrow> string \<Rightarrow> (int \<times> indexing_arbitrate) option" where
  "remove_forward_service_node f a node_id =
     do {
       node \<leftarrow> find_forward_service_node f (Some a) node_id;
       case node of
         None \<Rightarrow> Some (0, f)
       | Some n \<Rightarrow> do {
           d \<leftarrow> kids_remove (ia_node_kids f) a n;
           nd \<leftarrow> ia_nodes f n;
           mgr \<leftarrow> ep_assign (ia_mgr f) (sv_endpoint (fn_master nd)) None;
           mgr \<leftarrow> ep_assign mgr (sv_endpoint (fn_slaver nd)) None;
           Some (0, f\<lparr>ia_node_kids := delete_kid d n, ia_nodes := (ia_nodes f)(n := None), ia_mgr := mgr\<rparr>)
         }
     }"

section \<open>Requests\<close>

text \<open>\<^verbatim>\<open>forward::forward_to_service\<close> of \<^verbatim>\<open>forward.cpp\<close>: the frames for the master, and for the slave when there is one.\<close>

definition idx_backend_forward :: "zeromq_msg \<Rightarrow> forward_service_node \<Rightarrow> zframe list" where
  "idx_backend_forward msg node =
     (sv_identity (fn_master node), True) # (''MASTER'', True) # send msg @
     (if sv_endpoint (fn_slaver node) \<noteq> None
      then (sv_identity (fn_slaver node), True) # (''SLAVE'', True) # snd (sendparts msg 0 (parts msg) True) else [])"

definition uri_change_query :: "uri_impl option \<Rightarrow> string \<Rightarrow> string \<Rightarrow> (int \<times> uri_impl option) option" where
  "uri_change_query data key v =
     do {
       urii \<leftarrow> data;
       Some (if \<not> u_loaded urii then (- ENOTAVAIL, data) else (let (r, urii) = change_query key v urii in (r, Some urii)))
     }"

text \<open>
  \<^verbatim>\<open>handle_internal_change\<close>: for the service \<^verbatim>\<open>snapshot\<close> the user in the URI is replaced by the identifier of the vehicle, on a copy
  of the message.
\<close>

definition handle_internal_change ::
  "qsort \<Rightarrow> vehicle_mgr \<Rightarrow> forwork_service_item \<Rightarrow> zeromq_msg \<Rightarrow> forward_service_node \<Rightarrow> (int \<times> zframe list) option" where
  "handle_internal_change qs vm item data node =
     (if ws_name item = ''snapshot'' then do {
        let cpdata = zm_copy data;
        addr \<leftarrow> body 0 cpdata;
        if length addr = 0 then None
        else do {
          addr_uri \<leftarrow> frame_uri addr;
          addr_info \<leftarrow> uri_ctor qs addr_uri;
          uid \<leftarrow> uri_query_value addr_info (ws_keyword item);
          (_, vincode) \<leftarrow> get_vehicle_id vm uid;
          (_, addr_info) \<leftarrow> uri_change_query addr_info (ws_keyword item) (case vincode of None \<Rightarrow> [] | Some v \<Rightarrow> v);
          let new_uri = uri_tostring addr_info;
          if length new_uri = 0 then Some (- EBADPARM, [])
          else do {
            content \<leftarrow> read_at addr (4 + length addr_uri) 20;
            let frame = le_bytes 4 (length new_uri) @ strncpy new_uri (length new_uri) @ content;
            let cpdata = set_part (parts cpdata - body_parts cpdata) frame cpdata;
            Some (0, idx_backend_forward cpdata node)
          }
        }
      }
      else Some (0, idx_backend_forward data node))"

text \<open>One round of the loop in \<^verbatim>\<open>forward_to_service\<close>, from the test of the service's type on, and the loop.\<close>

definition forward_round ::
  "qsort \<Rightarrow> vehicle_mgr \<Rightarrow> zeromq_msg \<Rightarrow> uri_impl option \<Rightarrow> nat \<Rightarrow> indexing_arbitrate \<Rightarrow> (zframe list \<times> indexing_arbitrate) option" where
  "forward_round qs vm data url a f =
     do {
       item \<leftarrow> ia_services f a;
       if ws_type item AND 1 = 0 then Some ([], f)
       else do {
         uid \<leftarrow> uri_query_value url (ws_keyword item);
         if length uid < 1 then Some ([], f)
         else do {
           node \<leftarrow> find_forward_service_node f (Some a) uid;
           (node, f) \<leftarrow> (if node = None then add_forward_service_node f (Some a) uid else Some (node, f));
           case node of
             None \<Rightarrow> Some ([], f)
           | Some n \<Rightarrow> do {
               nd \<leftarrow> ia_nodes f n;
               (ret, nd, mgr) \<leftarrow> check_set_service_node (ia_mgr f) nd;
               let f = f\<lparr>ia_nodes := (ia_nodes f)(n \<mapsto> nd), ia_mgr := mgr\<rparr>;
               if ret \<noteq> 0 then Some ([], f)
               else if ws_inter_change item \<noteq> 0 then do { (_, out) \<leftarrow> handle_internal_change qs vm item data nd; Some (out, f) }
               else Some (idx_backend_forward data nd, f)
             }
         }
       }
     }"

fun forward_loop ::
  "qsort \<Rightarrow> vehicle_mgr \<Rightarrow> zeromq_msg \<Rightarrow> uri_impl option \<Rightarrow> list_addr list \<Rightarrow> int \<Rightarrow> zframe list \<Rightarrow> indexing_arbitrate \<Rightarrow>
     (int \<times> zframe list \<times> indexing_arbitrate) option" where
  "forward_loop qs vm data url [] interval_svc out f = Some (interval_svc, out, f)"
| "forward_loop qs vm data url (nd # nds) interval_svc out f =
     do {
       a \<leftarrow> list_entry (Some nd);
       item \<leftarrow> ia_services f a;
       let interval_svc = (if ws_type item = 0 \<or> (ws_type item OR 2) \<noteq> 0 then interval_svc + 1 else interval_svc);
       (sent, f) \<leftarrow> forward_round qs vm data url a f;
       forward_loop qs vm data url nds interval_svc (out @ sent) f
     }"

definition idx_forward_to_service ::
  "qsort \<Rightarrow> vehicle_mgr \<Rightarrow> zeromq_msg option \<Rightarrow> uri_impl option \<Rightarrow> indexing_arbitrate \<Rightarrow> (int \<times> zframe list \<times> indexing_arbitrate) option" where
  "idx_forward_to_service qs vm data url f =
     (case data of
        None \<Rightarrow> Some (- EBADPARM, [], f)
      | Some msg \<Rightarrow>
          (case idx_get_urlname_from_uri url of
             Inl _ \<Rightarrow> Some (- EBADPARM, [], f)
           | Inr url_name \<Rightarrow> do {
               rule \<leftarrow> idx_find_rule f url_name;
               case rule of
                 None \<Rightarrow> Some (- ENOTFOUND, [], f)
               | Some r \<Rightarrow> do {
                   nds \<leftarrow> list_nodes (k_lists (ia_service_kids f)) (Owner r);
                   forward_loop qs vm msg url nds 0 [] f
                 }
             }))"

text \<open>
  \<^verbatim>\<open>service_request\<close>, with the message it changes. A registration holds the number of vehicles at offset 0, the length of the name at offset 8
  and the name at offset 16. Message types: 2 request, 3 register, 6 reply.
\<close>

definition idx_service_request ::
  "sysconfig \<Rightarrow> qsort \<Rightarrow> vehicle_mgr \<Rightarrow> zeromq_msg \<Rightarrow> indexing_arbitrate \<Rightarrow> (int \<times> zeromq_msg \<times> zframe list \<times> indexing_arbitrate) option" where
  "idx_service_request cf qs vm msg f =
     do {
       identify \<leftarrow> get_part 0 msg;
       hdr_info \<leftarrow> get_part 2 msg;
       svc_type \<leftarrow> read_at hdr_info 0 4;
       if le_nat svc_type = 2 then do {
         addr \<leftarrow> body 1 msg;
         if length addr < 1 then Some (- EBADPARM, msg, [], f)
         else do {
           add_uri \<leftarrow> frame_uri addr;
           addr_info \<leftarrow> uri_ctor qs add_uri;
           let msg = snd (erase_part 2 msg);
           (ret, out, f) \<leftarrow> idx_forward_to_service qs vm (Some msg) addr_info f;
           Some (ret, msg, out, f)
         }
       }
       else if le_nat svc_type = 3 then do {
         svr_info \<leftarrow> get_part 3 msg;
         veh_cnt \<leftarrow> read_at svr_info 0 4;
         name \<leftarrow> register_name svr_info;
         (_, mgr) \<leftarrow> add_server_endpoint cf (ia_mgr f) (Some name) (Some (c_str identify)) (of_nat (le_nat veh_cnt));
         let msg = set_part 3 (le_bytes 4 0) (set_part 2 (le_bytes 4 6) msg);
         Some (0, msg, send msg, f\<lparr>ia_mgr := mgr\<rparr>)
       }
       else Some (0, msg, [], f)
     }"

end
