(* ===== verification/Indexing_Ops.thy ===== *)
theory Indexing_Ops
  imports Indexing_Arbitrate
begin

text \<open>
  The arbiter of the indexing service on its trees, lists and endpoint manager: its operations keep the structures and the reference
  counts, and their effect on the tables they stand for.
\<close>

section \<open>Handles\<close>

text \<open>
  The endpoint manager with \<open>H\<close> handles to its endpoints. In this program every endpoint is enabled, since nothing changes
  the status that a new one gets.
\<close>

definition mgr_ok :: "server_endpoint_mgr \<Rightarrow> (nat \<Rightarrow> nat) \<Rightarrow> bool" where
  "mgr_ok mgr H \<longleftrightarrow> em_inv mgr \<and> counts_ok mgr H \<and> (\<forall>b p. em_points mgr b = Some p \<longrightarrow> se_status p = 1)"

definition points_kept :: "server_endpoint_mgr \<Rightarrow> server_endpoint_mgr \<Rightarrow> bool" where
  "points_kept mgr mgr' \<longleftrightarrow> (\<forall>b p. em_points mgr b = Some p \<longrightarrow> (\<exists>p'. em_points mgr' b = Some p' \<and> se_identity p' = se_identity p))"

lemma points_kept_refl [simp]: "points_kept m m"
  by (simp add: points_kept_def)

lemma points_kept_trans: "\<lbrakk>points_kept m m'; points_kept m' m''\<rbrakk> \<Longrightarrow> points_kept m m''"
  unfolding points_kept_def by metis

lemma points_kept_upd:
  "\<lbrakk>em_points m b = Some p; em_points m' = (em_points m)(b \<mapsto> p'); se_identity p' = se_identity p\<rbrakk> \<Longrightarrow> points_kept m m'"
  by (auto simp: points_kept_def)

lemma handle_point: "\<lbrakk>mgr_ok m H; 0 < H b\<rbrakk> \<Longrightarrow> \<exists>p. em_points m b = Some p"
proof -
  assume "mgr_ok m H" "0 < H b"
  then have "count_ok (em_points m b) (H b)" "0 < H b" by (simp_all add: mgr_ok_def counts_ok_def)
  then show ?thesis by (cases "em_points m b") (auto simp: count_ok_def)
qed

lemma addref_ok:
  assumes ok: "mgr_ok m H" and p: "em_points m b = Some p"
  obtains c m' where "addref m b = Some (c, m')" "mgr_ok m' (H(b := Suc (H b)))" "points_kept m m'"
proof -
  let ?p = "p\<lparr>se_refcnt := se_refcnt p + 1\<rparr>"
  let ?m = "m\<lparr>em_points := (em_points m)(b \<mapsto> ?p)\<rparr>"
  have "em_inv ?m" by (rule point_update_inv [of m b p]) (use ok p in \<open>simp_all add: mgr_ok_def\<close>)
  moreover have "counts_ok ?m (H(b := Suc (H b)))"
    using ok p by (auto simp: mgr_ok_def counts_ok_def count_ok_def split: option.splits if_splits)
  ultimately have "mgr_ok ?m (H(b := Suc (H b)))" using ok p by (auto simp: mgr_ok_def)
  moreover have "points_kept m ?m" by (rule points_kept_upd [OF p, of _ ?p]) simp_all
  ultimately show ?thesis using that [of "se_refcnt p" ?m] p by (simp add: addref_def)
qed

lemma ep_drop_ok:
  assumes ok: "mgr_ok m H" and b: "0 < H b"
  obtains m' where "ep_drop m (Some b) = Some m'" "mgr_ok m' (H(b := H b - 1))" "points_kept m m'"
proof -
  from handle_point [OF ok b] obtain p where p: "em_points m b = Some p" by blast
  have c: "count_ok (Some p) (H b)" using ok p by (metis mgr_ok_def counts_ok_def)
  then have n: "se_refcnt p \<noteq> 0" using b by (auto simp: count_ok_def)
  let ?m = "m\<lparr>em_points := (em_points m)(b \<mapsto> p\<lparr>se_refcnt := se_refcnt p - 1\<rparr>)\<rparr>"
  have r: "release m b = Some (se_refcnt p, ?m)" using p n by (simp add: release_def Let_def)
  from drop_step [of m H b _ ?m] r ok b have "em_inv ?m" "counts_ok ?m (H(b := H b - 1))" by (auto simp: mgr_ok_def)
  then have "mgr_ok ?m (H(b := H b - 1))" using ok p by (auto simp: mgr_ok_def)
  moreover have "points_kept m ?m" by (rule points_kept_upd [OF p, of _ "p\<lparr>se_refcnt := se_refcnt p - 1\<rparr>"]) simp_all
  ultimately show ?thesis using that [of ?m] r by (simp add: ep_drop_def)
qed

lemma alloc_kept:
  assumes ok: "mgr_ok m H"
  obtains r m' where "alloc_server_endpoint_to_vehicle m name other = Some (r, m')" "mgr_ok m' (grab r H)" "points_kept m m'"
    "\<And>b. r = Some b \<Longrightarrow> other \<noteq> Some b"
proof -
  have inv: "em_inv m" "counts_ok m H" using ok by (simp_all add: mgr_ok_def)
  from alloc_least [OF inv(1), of name other] obtain r m' where r: "alloc_server_endpoint_to_vehicle m name other = Some (r, m')" by blast
  have a: "em_inv m'" "counts_ok m' (grab r H)" using alloc_step [OF inv r] by simp_all
  show ?thesis
  proof (cases r)
    case None
    then have "m' = m" using alloc_least [OF inv(1), of name other] r by auto
    then show ?thesis using that [OF r] ok None by (simp add: grab_def)
  next
    case (Some b)
    then obtain ys p where p: "least_loaded (em_points m) other ys b" "em_points m b = Some p"
        "em_points m' = (em_points m)(b \<mapsto> p\<lparr>se_veh_cnt := se_veh_cnt p + 1, se_refcnt := se_refcnt p + 1\<rparr>)"
      using alloc_least [OF inv(1), of name other] r by auto
    have "mgr_ok m' (grab r H)" using ok a p(2,3) by (auto simp: mgr_ok_def)
    moreover have "points_kept m m'" by (rule points_kept_upd [OF p(2,3)]) simp
    moreover have "other \<noteq> Some b" using p(1) by (auto simp: least_loaded_def eligible_def)
    ultimately show ?thesis using that [OF r] Some by auto
  qed
qed

lemma ep_alloc_ok:
  assumes ok: "mgr_ok m H"
  obtains r m1 m' where "alloc_server_endpoint_to_vehicle m name other = Some (r, m1)" "ep_alloc m name None other = Some (r, m')"
    "mgr_ok m' (grab r H)" "points_kept m m'" "\<And>b. r = Some b \<Longrightarrow> other \<noteq> Some b"
proof -
  from alloc_kept [OF ok, of name other] obtain r m1 where r: "alloc_server_endpoint_to_vehicle m name other = Some (r, m1)"
    "mgr_ok m1 (grab r H)" "points_kept m m1" "\<And>b. r = Some b \<Longrightarrow> other \<noteq> Some b" by metis
  show ?thesis
  proof (cases r)
    case None
    then show ?thesis using that [OF r(1), of m1] r by (simp add: ep_alloc_def ep_assign_def ep_drop_def)
  next
    case (Some b)
    have "0 < grab r H b" by (simp add: Some grab_def)
    from handle_point [OF r(2) this] obtain p where p: "em_points m1 b = Some p" by blast
    from addref_ok [OF r(2) p] obtain c m2 where m2: "addref m1 b = Some (c, m2)" "mgr_ok m2 ((grab r H)(b := Suc (grab r H b)))" "points_kept m1 m2"
      by metis
    from ep_drop_ok [OF m2(2), of b] obtain m3 where m3: "ep_drop m2 (Some b) = Some m3"
      "mgr_ok m3 ((grab r H)(b := Suc (grab r H b), b := Suc (grab r H b) - 1))" "points_kept m2 m3" by auto
    have "(grab r H)(b := Suc (grab r H b), b := Suc (grab r H b) - 1) = grab r H" by simp
    then have "mgr_ok m3 (grab r H)" using m3(2) by metis
    moreover have "ep_alloc m name None other = Some (r, m3)"
    proof -
      have "ep_assign m1 None r = Some m2" using m2(1) Some by (simp add: ep_assign_def ep_drop_def)
      then show ?thesis using r(1) m3(1) Some by (simp add: ep_alloc_def)
    qed
    moreover have "points_kept m m3" using r(3) m2(3) m3(3) points_kept_trans by blast
    ultimately show ?thesis using that [OF r(1)] r(4) by blast
  qed
qed

section \<open>The endpoints of a node\<close>

text \<open>
  A node holds the identities of its endpoints, master and slave differ, and there is no slave without a master. \<open>held\<close> counts the
  handles of a node to an endpoint.
\<close>

definition endpoint_ok :: "server_endpoint_mgr \<Rightarrow> service_endpoint \<Rightarrow> bool" where
  "endpoint_ok m se \<longleftrightarrow> (\<forall>b. sv_endpoint se = Some b \<longrightarrow> (\<exists>p. em_points m b = Some p \<and> sv_identity se = se_identity p))"

definition node_ok :: "server_endpoint_mgr \<Rightarrow> forward_service_node \<Rightarrow> bool" where
  "node_ok m nd \<longleftrightarrow> endpoint_ok m (fn_master nd) \<and> endpoint_ok m (fn_slaver nd) \<and>
     (sv_endpoint (fn_slaver nd) \<noteq> None \<longrightarrow> sv_endpoint (fn_master nd) \<noteq> None \<and> sv_endpoint (fn_master nd) \<noteq> sv_endpoint (fn_slaver nd))"

definition held :: "forward_service_node \<Rightarrow> nat \<Rightarrow> nat" where
  "held nd b = (if sv_endpoint (fn_master nd) = Some b then 1 else 0) + (if sv_endpoint (fn_slaver nd) = Some b then 1 else 0)"

lemma endpoint_ok_kept: "\<lbrakk>endpoint_ok m se; points_kept m m'\<rbrakk> \<Longrightarrow> endpoint_ok m' se"
  unfolding endpoint_ok_def points_kept_def by metis

lemma node_ok_kept: "\<lbrakk>node_ok m nd; points_kept m m'\<rbrakk> \<Longrightarrow> node_ok m' nd"
  using endpoint_ok_kept by (auto simp: node_ok_def)

lemma ep_invalid_ok: "\<lbrakk>mgr_ok m H; endpoint_ok m se\<rbrakk> \<Longrightarrow> ep_invalid m (sv_endpoint se) = Some (sv_endpoint se = None)"
  by (cases "sv_endpoint se") (auto simp: ep_invalid_def endpoint_ok_def mgr_ok_def)

lemma set_endpoint_ok:
  assumes "mgr_ok m H" "\<And>b. r = Some b \<Longrightarrow> 0 < H b"
  obtains se' where "set_endpoint m r se = Some se'" "sv_endpoint se' = r" "endpoint_ok m se'" "r = None \<Longrightarrow> sv_identity se' = sv_identity se"
proof (cases r)
  case None
  then show ?thesis using that [of "se\<lparr>sv_endpoint := None\<rparr>"] by (simp add: set_endpoint_def endpoint_ok_def)
next
  case (Some b)
  from handle_point [OF assms(1) assms(2) [OF Some]] obtain p where p: "em_points m b = Some p" by blast
  show ?thesis by (rule that [of "\<lparr>sv_endpoint = r, sv_identity = se_identity p\<rparr>"])
    (use Some p in \<open>simp_all add: set_endpoint_def endpoint_ok_def\<close>)
qed

lemma grab_held: "\<lbrakk>sv_endpoint (fn_master nd) = None; nd' = nd\<lparr>fn_master := se\<rparr>; sv_endpoint se = r\<rbrakk> \<Longrightarrow> grab r H b + held nd b = H b + held nd' b"
  "\<lbrakk>sv_endpoint (fn_slaver nd) = None; nd' = nd\<lparr>fn_slaver := se\<rparr>; sv_endpoint se = r\<rbrakk> \<Longrightarrow> grab r H b + held nd b = H b + held nd' b"
  by (auto simp: grab_def held_def split: option.split)

lemma grab_pos: "r = Some b \<Longrightarrow> 0 < grab r H b"
  by (simp add: grab_def)

text \<open>The slave of a node that has a master.\<close>

lemma slaver_ok:
  assumes ok: "mgr_ok m H" "node_ok m nd" and n: "sv_endpoint (fn_master nd) \<noteq> None" "sv_endpoint (fn_slaver nd) = None"
  obtains r m' se where "ep_alloc m (fn_name nd) None (sv_endpoint (fn_master nd)) = Some (r, m')" "set_endpoint m' r (fn_slaver nd) = Some se"
    "mgr_ok m' (grab r H)" "node_ok m' (nd\<lparr>fn_slaver := se\<rparr>)" "points_kept m m'" "sv_endpoint se = r"
proof -
  from ep_alloc_ok [OF ok(1), of "fn_name nd" "sv_endpoint (fn_master nd)"] obtain r m' where
    r: "ep_alloc m (fn_name nd) None (sv_endpoint (fn_master nd)) = Some (r, m')" "mgr_ok m' (grab r H)" "points_kept m m'"
      "\<And>b. r = Some b \<Longrightarrow> sv_endpoint (fn_master nd) \<noteq> Some b" by metis
  from set_endpoint_ok [OF r(2) grab_pos, of r "fn_slaver nd"] obtain se where
    se: "set_endpoint m' r (fn_slaver nd) = Some se" "sv_endpoint se = r" "endpoint_ok m' se" by metis
  have "node_ok m' (nd\<lparr>fn_slaver := se\<rparr>)" using node_ok_kept [OF ok(2) r(3)] se n r(4) by (auto simp: node_ok_def)
  with r se show ?thesis by (intro that) auto
qed

lemma check_set_ok:
  assumes ok: "mgr_ok m H" "node_ok m nd"
  obtains ret nd' m' H' where "check_set_service_node m nd = Some (ret, nd', m')" "node_ok m' nd'" "points_kept m m'"
    "fn_name nd' = fn_name nd" "fn_node_id nd' = fn_node_id nd" "mgr_ok m' H'" "\<And>b. H' b + held nd b = H b + held nd' b"
    "sv_endpoint (fn_master nd) \<noteq> None \<Longrightarrow> ret = 0 \<and> fn_master nd' = fn_master nd"
    "sv_endpoint (fn_slaver nd) \<noteq> None \<Longrightarrow> nd' = nd"
    "sv_endpoint (fn_master nd) = None \<Longrightarrow> \<exists>m1. alloc_server_endpoint_to_vehicle m (fn_name nd) None = Some (sv_endpoint (fn_master nd'), m1)"
    "ret = (if sv_endpoint (fn_master nd') = None then - EINVALID else 0)"
proof -
  let ?ma = "sv_endpoint (fn_master nd)" and ?sl = "sv_endpoint (fn_slaver nd)"
  note inv = ep_invalid_ok [OF ok(1)]
  have e: "ep_invalid m ?ma = Some (?ma = None)" "ep_invalid m ?sl = Some (?sl = None)" using inv ok(2) by (simp_all add: node_ok_def)
  consider "?ma \<noteq> None" "?sl \<noteq> None" | "?ma \<noteq> None" "?sl = None" | "?ma = None" "?sl = None" using ok(2) by (auto simp: node_ok_def)
  then show ?thesis
  proof cases
    case 1
    then obtain x y where xy: "?ma = Some x" "?sl = Some y" by blast
    show ?thesis by (rule that [of 0 nd m H]) (use xy e ok in \<open>simp_all add: check_set_service_node_def\<close>)
  next
    case 2
    from slaver_ok [OF ok 2] obtain r m' se where r: "ep_alloc m (fn_name nd) None ?ma = Some (r, m')" "set_endpoint m' r (fn_slaver nd) = Some se"
      "mgr_ok m' (grab r H)" "node_ok m' (nd\<lparr>fn_slaver := se\<rparr>)" "points_kept m m'" "sv_endpoint se = r" by metis
    from 2(1) obtain x where x: "?ma = Some x" by blast
    show ?thesis by (rule that [of 0 "nd\<lparr>fn_slaver := se\<rparr>" m' "grab r H"])
      (use r e 2(2) x in \<open>simp_all add: check_set_service_node_def grab_held(2) [OF 2(2) refl r(6)]\<close>)
  next
    case 3
    from ep_alloc_ok [OF ok(1), of "fn_name nd" None] obtain r m0 m' where r0: "alloc_server_endpoint_to_vehicle m (fn_name nd) None = Some (r, m0)"
      and r: "ep_alloc m (fn_name nd) None None = Some (r, m')" "mgr_ok m' (grab r H)" "points_kept m m'" by metis
    from set_endpoint_ok [OF r(2) grab_pos, of r "fn_master nd"] obtain se where
      se: "set_endpoint m' r (fn_master nd) = Some se" "sv_endpoint se = r" "endpoint_ok m' se" by metis
    let ?nd = "nd\<lparr>fn_master := se\<rparr>"
    have nd: "node_ok m' ?nd" using node_ok_kept [OF ok(2) r(3)] se 3(2) by (auto simp: node_ok_def)
    note h1 = grab_held(1) [OF 3(1) refl se(2), of H]
    show ?thesis
    proof (cases r)
      case None
      show ?thesis by (rule that [of "- EINVALID" ?nd m' "grab r H"])
        (use r r0 e 3 se nd None in \<open>simp_all add: check_set_service_node_def h1 [unfolded None]\<close>)
    next
      case (Some b)
      have n: "sv_endpoint (fn_master ?nd) \<noteq> None" "sv_endpoint (fn_slaver ?nd) = None" using se(2) Some 3(2) by simp_all
      from slaver_ok [OF r(2) nd n] obtain q m2 se2 where q: "ep_alloc m' (fn_name ?nd) None (sv_endpoint (fn_master ?nd)) = Some (q, m2)"
        "set_endpoint m2 q (fn_slaver ?nd) = Some se2" "mgr_ok m2 (grab q (grab r H))" "node_ok m2 (?nd\<lparr>fn_slaver := se2\<rparr>)" "points_kept m' m2"
        "sv_endpoint se2 = q" by metis
      have h: "grab q (grab r H) b + held nd b = H b + held (?nd\<lparr>fn_slaver := se2\<rparr>) b" for b
        using grab_held(2) [OF n(2) refl q(6), of "grab r H" b] h1 [of b] by linarith
      show ?thesis by (rule that [of 0 "?nd\<lparr>fn_slaver := se2\<rparr>" m2 "grab q (grab r H)"])
        (use r r0 e 3 se q Some h points_kept_trans [OF r(3) q(5)] in \<open>simp_all add: check_set_service_node_def\<close>)
    qed
  qed
qed

end
