(* ===== verification/Indexing_Service.thy ===== *)
theory Indexing_Service
  imports Indexing_Ops
begin

unbundle bit_operations_syntax

text \<open>
  What the arbiter of the indexing service does. Its trees and lists stand for two tables: the services of each path, in the order of
  the configuration, and the seats of the vehicles, a node with master and slave for a path, a service and a vehicle. The operations
  are shown to have their effect on these tables, over all states that the arbiter reaches.
\<close>

section \<open>Handles of all nodes\<close>

definition handles :: "(nat \<Rightarrow> forward_service_node option) \<Rightarrow> nat \<Rightarrow> nat" where
  "handles N b = (\<Sum>n \<in> dom N. held (the (N n)) b)"

lemma handles_split: "\<lbrakk>finite (dom N); N n = Some nd\<rbrakk> \<Longrightarrow> handles N b = held nd b + (\<Sum>k \<in> dom N - {n}. held (the (N k)) b)"
  unfolding handles_def by (subst sum.remove [of _ n]) auto

lemma handles_update:
  assumes "finite (dom N)" "N n = Some nd"
  shows "handles (N(n \<mapsto> nd')) b + held nd b = handles N b + held nd' b"
proof -
  have "dom (N(n \<mapsto> nd')) = dom N" using assms(2) by auto
  then have "handles (N(n \<mapsto> nd')) b = held nd' b + (\<Sum>k \<in> dom N - {n}. held (the (N k)) b)"
    using handles_split [of "N(n \<mapsto> nd')" n nd' b] assms(1) by simp
  then show ?thesis using handles_split [OF assms, of b] by simp
qed

lemma handles_new:
  assumes "finite (dom N)" "n \<notin> dom N" "held nd = (\<lambda>_. 0)"
  shows "handles (N(n \<mapsto> nd)) = handles N"
proof
  fix b
  have "handles (N(n \<mapsto> nd)) b = (\<Sum>k \<in> dom N. held (the ((N(n \<mapsto> nd)) k)) b)"
    unfolding handles_def using assms by (simp add: sum.insert_if)
  also have "\<dots> = handles N b" unfolding handles_def by (rule sum.cong) (use assms(2) in auto)
  finally show "handles (N(n \<mapsto> nd)) b = handles N b" .
qed

section \<open>The invariant\<close>

text \<open>
  \<open>rs\<close>, \<open>ss\<close> and \<open>ns\<close> give the lists of rules, services and nodes. The name in a node is that of its service, and the handles to
  endpoints are those in the nodes.
\<close>

definition idx_ok :: "(nat \<Rightarrow> nat list) \<Rightarrow> (nat \<Rightarrow> nat list) \<Rightarrow> (nat \<Rightarrow> nat list) \<Rightarrow> indexing_arbitrate \<Rightarrow> bool" where
  "idx_ok rs ss ns f \<longleftrightarrow>
     kids_ok (rule_url (ia_rules f)) {0} rs (dom (ia_rules f)) (ia_rule_kids f) \<and>
     kids_ok (service_name (ia_services f)) (dom (ia_rules f)) ss (dom (ia_services f)) (ia_service_kids f) \<and>
     kids_ok (node_id_of (ia_nodes f)) (dom (ia_services f)) ns (dom (ia_nodes f)) (ia_node_kids f) \<and>
     0 < ia_brk f \<and> (\<forall>a \<in> dom (ia_rules f) \<union> dom (ia_services f) \<union> dom (ia_nodes f). 0 < a \<and> a < ia_brk f) \<and>
     mgr_ok (ia_mgr f) (handles (ia_nodes f)) \<and> (\<forall>nd \<in> ran (ia_nodes f). node_ok (ia_mgr f) nd) \<and>
     (\<forall>a. \<forall>n \<in> set (ns a). map_option fn_name (ia_nodes f n) = map_option ws_name (ia_services f a))"

lemma idx_okD:
  assumes "idx_ok rs ss ns f"
  shows "kids_ok (rule_url (ia_rules f)) {0} rs (dom (ia_rules f)) (ia_rule_kids f)"
    "kids_ok (service_name (ia_services f)) (dom (ia_rules f)) ss (dom (ia_services f)) (ia_service_kids f)"
    "kids_ok (node_id_of (ia_nodes f)) (dom (ia_services f)) ns (dom (ia_nodes f)) (ia_node_kids f)"
    "0 < ia_brk f" "\<And>a. a \<in> dom (ia_rules f) \<union> dom (ia_services f) \<union> dom (ia_nodes f) \<Longrightarrow> 0 < a \<and> a < ia_brk f"
    "mgr_ok (ia_mgr f) (handles (ia_nodes f))" "\<And>n nd. ia_nodes f n = Some nd \<Longrightarrow> node_ok (ia_mgr f) nd"
    "\<And>a n. n \<in> set (ns a) \<Longrightarrow> map_option fn_name (ia_nodes f n) = map_option ws_name (ia_services f a)"
    "ia_brk f \<notin> dom (ia_rules f)" "ia_brk f \<notin> dom (ia_services f)" "ia_brk f \<notin> dom (ia_nodes f)" "finite (dom (ia_nodes f))"
  using assms unfolding idx_ok_def by (blast, blast, blast, blast, blast, blast, blast intro: ranI, blast, force, force, force, simp add: kids_ok_def)

definition seat_node :: "(nat \<Rightarrow> nat list) \<Rightarrow> (nat \<Rightarrow> nat list) \<Rightarrow> (nat \<Rightarrow> nat list) \<Rightarrow> indexing_arbitrate \<Rightarrow> string \<times> string \<times> string \<Rightarrow> ptr" where
  "seat_node rs ss ns f = (\<lambda>(path, svc, uid).
     do {
       r \<leftarrow> kid_at (rule_url (ia_rules f)) rs 0 path;
       a \<leftarrow> kid_at (service_name (ia_services f)) ss r svc;
       kid_at (node_id_of (ia_nodes f)) ns a uid
     })"

definition seats :: "(nat \<Rightarrow> nat list) \<Rightarrow> (nat \<Rightarrow> nat list) \<Rightarrow> (nat \<Rightarrow> nat list) \<Rightarrow> indexing_arbitrate \<Rightarrow>
    string \<times> string \<times> string \<Rightarrow> forward_service_node option" where
  "seats rs ss ns f key = do { n \<leftarrow> seat_node rs ss ns f key; ia_nodes f n }"

definition services_at :: "(nat \<Rightarrow> nat list) \<Rightarrow> (nat \<Rightarrow> nat list) \<Rightarrow> indexing_arbitrate \<Rightarrow> string \<Rightarrow> forwork_service_item list option" where
  "services_at rs ss f path = map_option (\<lambda>r. map (\<lambda>a. the (ia_services f a)) (ss r)) (kid_at (rule_url (ia_rules f)) rs 0 path)"

lemma seat_node_iff:
  assumes ok: "idx_ok rs ss ns f" and r: "r \<in> set (rs 0)" and a: "a \<in> set (ss r)" and n: "n \<in> set (ns a)"
  shows "seat_node rs ss ns f (path, svc, uid) = Some n \<longleftrightarrow>
    path = rule_url (ia_rules f) r \<and> svc = service_name (ia_services f) a \<and> uid = node_id_of (ia_nodes f) n"
proof -
  note k = idx_okD(1-3) [OF ok]
  have R: "r \<in> dom (ia_rules f)" and A: "a \<in> dom (ia_services f)" using kids_sub [OF k(1) r] kids_sub [OF k(2) a] by blast+
  show ?thesis
  proof (intro iffI)
    assume "seat_node rs ss ns f (path, svc, uid) = Some n"
    then obtain r' a' where c: "kid_at (rule_url (ia_rules f)) rs 0 path = Some r'" "kid_at (service_name (ia_services f)) ss r' svc = Some a'"
      "kid_at (node_id_of (ia_nodes f)) ns a' uid = Some n" by (auto simp: seat_node_def bind_eq_Some_conv)
    have "a' = a" using kids_disj [OF k(3)] n kid_at_Some [OF c(3)] by blast
    then have "r' = r" using kids_disj [OF k(2)] a kid_at_Some [OF c(2)] by blast
    with \<open>a' = a\<close> c show "path = rule_url (ia_rules f) r \<and> svc = service_name (ia_services f) a \<and> uid = node_id_of (ia_nodes f) n"
      using kid_at_Some [OF c(1)] kid_at_Some [OF c(2)] kid_at_Some [OF c(3)] by simp
  next
    assume "path = rule_url (ia_rules f) r \<and> svc = service_name (ia_services f) a \<and> uid = node_id_of (ia_nodes f) n"
    then show "seat_node rs ss ns f (path, svc, uid) = Some n"
      using kid_at_eq [OF k(1) _ r] kid_at_eq [OF k(2) R a] kid_at_eq [OF k(3) A n] by (simp add: seat_node_def)
  qed
qed

section \<open>Nodes\<close>

lemma seats_update:
  assumes ok: "idx_ok rs ss ns f" and at: "seat_node rs ss ns f key = Some n" and n: "ia_nodes f n = Some nd"
    and nd: "fn_name nd' = fn_name nd" "fn_node_id nd' = fn_node_id nd" "node_ok m nd'"
    and m: "mgr_ok m H" "points_kept (ia_mgr f) m" "\<And>b. H b + held nd b = handles (ia_nodes f) b + held nd' b"
  defines "f' \<equiv> f\<lparr>ia_nodes := (ia_nodes f)(n \<mapsto> nd'), ia_mgr := m\<rparr>"
  shows "idx_ok rs ss ns f'" "seats rs ss ns f' = (seats rs ss ns f)(key \<mapsto> nd')"
proof -
  note k = idx_okD [OF ok]
  have id: "node_id_of ((ia_nodes f)(n \<mapsto> nd')) = node_id_of (ia_nodes f)" using n nd by (auto simp: node_id_of_def)
  have dom: "dom ((ia_nodes f)(n \<mapsto> nd')) = dom (ia_nodes f)" using n by auto
  have "H = handles ((ia_nodes f)(n \<mapsto> nd'))"
  proof
    fix b show "H b = handles ((ia_nodes f)(n \<mapsto> nd')) b" using m(3) [of b] handles_update [OF k(12) n, of nd' b] by linarith
  qed
  with m(1) have "mgr_ok m (handles ((ia_nodes f)(n \<mapsto> nd')))" by simp
  moreover have "\<forall>x \<in> ran ((ia_nodes f)(n \<mapsto> nd')). node_ok m x"
    using node_ok_kept [OF k(7) m(2)] nd(3) by (auto simp: ran_def split: if_splits)
  moreover have "map_option fn_name (((ia_nodes f)(n \<mapsto> nd')) x) = map_option ws_name (ia_services f a)" if "x \<in> set (ns a)" for a x
    using k(8) [OF that] n nd(1) by auto
  ultimately show "idx_ok rs ss ns f'"
    unfolding idx_ok_def f'_def using k(1-5) by (simp add: id dom del: dom_fun_upd)
  have at': "seat_node rs ss ns f' = seat_node rs ss ns f" and nodes': "ia_nodes f' = (ia_nodes f)(n \<mapsto> nd')" by (simp_all add: seat_node_def f'_def id)
  obtain path svc uid where key: "key = (path, svc, uid)" by (cases key)
  from at obtain r a where c: "kid_at (rule_url (ia_rules f)) rs 0 path = Some r" "kid_at (service_name (ia_services f)) ss r svc = Some a"
    "kid_at (node_id_of (ia_nodes f)) ns a uid = Some n" by (auto simp: seat_node_def key bind_eq_Some_conv)
  note iff = seat_node_iff [OF ok, of r a n] kid_at_Some [OF c(1)] kid_at_Some [OF c(2)] kid_at_Some [OF c(3)]
  show "seats rs ss ns f' = (seats rs ss ns f)(key \<mapsto> nd')"
  proof
    fix q
    show "seats rs ss ns f' q = ((seats rs ss ns f)(key \<mapsto> nd')) q"
    proof (cases "q = key")
      case True
      then show ?thesis using at by (simp add: seats_def at' nodes')
    next
      case False
      obtain path' svc' uid' where q: "q = (path', svc', uid')" by (cases q)
      have "seat_node rs ss ns f q \<noteq> Some n" using iff False by (auto simp: q key)
      then show ?thesis using False by (cases "seat_node rs ss ns f q") (auto simp: seats_def at' nodes')
    qed
  qed
qed

definition new_node :: "string \<Rightarrow> string \<Rightarrow> forward_service_node" where
  "new_node name uid = \<lparr>fn_name = name, fn_node_id = uid, fn_master = \<lparr>sv_endpoint = None, sv_identity = []\<rparr>,
     fn_slaver = \<lparr>sv_endpoint = None, sv_identity = []\<rparr>\<rparr>"

lemma new_node_ok [simp]: "node_ok m (new_node name uid)" "held (new_node name uid) = (\<lambda>_. 0)" "fn_name (new_node name uid) = name"
  "fn_node_id (new_node name uid) = uid"
  by (auto simp: new_node_def node_ok_def endpoint_ok_def held_def)

lemma kid_at_append:
  assumes "\<And>b. b \<in> set (ch p) \<Longrightarrow> key' b = key b" and "key' a \<notin> key ` set (ch p)"
  shows "kid_at key' (ch(p := ch p @ [a])) p name = (if name = key' a then Some a else kid_at key ch p name)"
proof -
  have c: "find (\<lambda>a. key' a = name) (ch p) = find (\<lambda>a. key a = name) (ch p)" using assms(1) by (induction "ch p") (auto cong: find_cong)
  have app: "find P (xs @ ys) = (case find P xs of None \<Rightarrow> find P ys | Some x \<Rightarrow> Some x)" for P and xs ys :: "nat list" by (induction xs) auto
  show ?thesis
  proof (cases "name = key' a")
    case True
    then have "find (\<lambda>a. key a = name) (ch p) = None" using assms(2) by (force simp: find_None_iff)
    then have "find (\<lambda>a. key' a = name) (ch p) = None" using c by simp
    then show ?thesis using True by (simp add: kid_at_def app)
  next
    case False
    then show ?thesis by (simp add: kid_at_def app c split: option.split)
  qed
qed

lemma kid_at_cong: "\<lbrakk>\<And>b. b \<in> set (ch p) \<Longrightarrow> key' b = key b; ch' p = ch p\<rbrakk> \<Longrightarrow> kid_at key' ch' p name = kid_at key ch p name"
  unfolding kid_at_def by (auto intro: find_cong)

lemma add_node_ok:
  assumes ok: "idx_ok rs ss ns f" and r: "kid_at (rule_url (ia_rules f)) rs 0 path = Some r" and a: "a \<in> set (ss r)" and it: "ia_services f a = Some it"
    and uid: "uid \<noteq> []" and new: "kid_at (node_id_of (ia_nodes f)) ns a uid = None"
  obtains f' ns' n where "add_forward_service_node f (Some a) uid = Some (Some n, f')" "idx_ok rs ss ns' f'"
    "seats rs ss ns' f' = (seats rs ss ns f)((path, ws_name it, uid) \<mapsto> new_node (ws_name it) uid)"
    "seat_node rs ss ns' f' (path, ws_name it, uid) = Some n" "ia_nodes f' n = Some (new_node (ws_name it) uid)" "ia_mgr f' = ia_mgr f"
    "ia_rules f' = ia_rules f" "ia_services f' = ia_services f" "ia_rule_kids f' = ia_rule_kids f" "ia_service_kids f' = ia_service_kids f"
proof -
  note k = idx_okD [OF ok]
  let ?n = "ia_brk f" and ?nd = "new_node (ws_name it) uid"
  let ?N = "(ia_nodes f)(?n \<mapsto> ?nd)" and ?ns = "ns(a := ns a @ [?n])"
  have A: "a \<in> dom (ia_services f)" using it by blast
  have R: "r \<in> dom (ia_rules f)" "r \<in> set (rs 0)" "rule_url (ia_rules f) r = path"
    using kid_at_Some [OF r] kids_sub [OF k(1)] by blast+
  have key: "node_id_of ?N b = node_id_of (ia_nodes f) b" if "b \<in> dom (ia_nodes f)" for b
    using that k(11) by (auto simp: node_id_of_def)
  have newkey: "node_id_of ?N ?n = uid" by (simp add: node_id_of_def)
  have fresh: "node_id_of ?N ?n \<notin> node_id_of (ia_nodes f) ` set (ns a)" using new by (simp add: newkey kid_at_None)
  from kids_add [OF k(3) A k(11) key fresh] obtain d where
    d: "kids_insert (node_id_of ?N) (new_kid (ia_node_kids f) ?n) a ?n = Some (True, d)"
      "kids_ok (node_id_of ?N) (dom (ia_services f)) ?ns (insert ?n (dom (ia_nodes f))) d" by metis
  let ?f = "f\<lparr>ia_brk := Suc ?n, ia_nodes := ?N, ia_node_kids := d\<rparr>"
  have run: "add_forward_service_node f (Some a) uid = Some (Some ?n, ?f)"
    using kids_find_ok [OF k(3) A, of uid] new uid it d(1)
    by (simp add: add_forward_service_node_def find_forward_service_node_def new_node_def Let_def)
  have h: "handles ?N = handles (ia_nodes f)" by (rule handles_new [OF k(12,11)]) simp
  have "map_option fn_name (?N x) = map_option ws_name (ia_services f b)" if "x \<in> set (?ns b)" for b x
  proof (cases "x = ?n")
    case True
    have "?n \<notin> set (ns b)" using kids_sub [OF k(3)] k(11) by blast
    with that True have "b = a" by (simp split: if_splits)
    with True it show ?thesis by simp
  next
    case False
    with that have "x \<in> set (ns b)" by (simp split: if_splits)
    then show ?thesis using k(8) False by simp
  qed
  moreover have "\<forall>x \<in> ran ?N. node_ok (ia_mgr f) x" using k(7) by (auto simp: ran_def split: if_splits)
  moreover have "\<forall>x \<in> dom (ia_rules f) \<union> dom (ia_services f) \<union> dom ?N. 0 < x \<and> x < Suc ?n" using k(4,5) by (auto simp: less_Suc_eq)
  ultimately have ok': "idx_ok rs ss ?ns ?f" unfolding idx_ok_def using k(1,2,6) d(2) by (simp add: h)
  have at: "kid_at (node_id_of ?N) ?ns b u = (if b = a \<and> u = uid then Some ?n else kid_at (node_id_of (ia_nodes f)) ns b u)" for b u
  proof (cases "b = a")
    case True
    then show ?thesis using kid_at_append [of ns a "node_id_of ?N", OF key fresh, of u] kids_sub [OF k(3)] by (auto simp: newkey)
  next
    case False
    then show ?thesis using kid_at_cong [of ns b "node_id_of ?N", OF key, of ?ns u] kids_sub [OF k(3)] by auto
  qed
  have sa: "kid_at (service_name (ia_services f)) ss r (ws_name it) = Some a"
    using kid_at_eq [OF k(2) R(1) a] it by (simp add: service_name_def)
  have node: "seat_node rs ss ?ns ?f (path, ws_name it, uid) = Some ?n" using r sa at by (simp add: seat_node_def)
  have "seats rs ss ?ns ?f = (seats rs ss ns f)((path, ws_name it, uid) \<mapsto> ?nd)"
  proof
    fix q :: "string \<times> string \<times> string"
    obtain p s u where q: "q = (p, s, u)" by (cases q)
    have other: "seat_node rs ss ?ns ?f q = seat_node rs ss ns f q" if "q \<noteq> (path, ws_name it, uid)"
    proof -
      have "r' = r \<Longrightarrow> p = path" if "kid_at (rule_url (ia_rules f)) rs 0 p = Some r'" for r' using kid_at_Some [OF that] R(3) by simp
      moreover have "r' = r \<and> s = ws_name it" if "kid_at (service_name (ia_services f)) ss r' s = Some a" for r'
        using kid_at_Some [OF that] kids_disj [OF k(2) a] it by (auto simp: service_name_def)
      ultimately show ?thesis using that by (auto simp: seat_node_def q at split: option.splits bind_splits)
    qed
    show "seats rs ss ?ns ?f q = ((seats rs ss ns f)((path, ws_name it, uid) \<mapsto> ?nd)) q"
    proof (cases "q = (path, ws_name it, uid)")
      case True
      then show ?thesis using node by (simp add: seats_def)
    next
      case False
      have "seat_node rs ss ns f q \<noteq> Some ?n"
        using kids_sub [OF k(3)] k(11) by (auto simp: seat_node_def q bind_eq_Some_conv dest!: kid_at_Some)
      then show ?thesis using other [OF False] False by (cases "seat_node rs ss ns f q") (auto simp: seats_def)
    qed
  qed
  with run ok' node show ?thesis by (intro that [of ?n ?f ?ns]) simp_all
qed

section \<open>Requests on the tables\<close>

text \<open>
  The contract of a request: for each service of the path, in order, that forwards messages and whose keyword is in the URI, the seat of the vehicle is
  looked up or made, completed with the endpoints that are missing, and the message goes to its endpoints.
\<close>

type_synonym seating = "string \<times> string \<times> string \<Rightarrow> forward_service_node option"

definition seat_round ::
  "qsort \<Rightarrow> vehicle_mgr \<Rightarrow> zeromq_msg \<Rightarrow> uri_impl option \<Rightarrow> string \<Rightarrow> forwork_service_item \<Rightarrow> seating \<Rightarrow> server_endpoint_mgr \<Rightarrow>
     (zframe list \<times> seating \<times> server_endpoint_mgr) option" where
  "seat_round qs vm data url path item T mgr =
     (if ws_type item AND 1 = 0 then Some ([], T, mgr)
      else do {
        uid \<leftarrow> uri_query_value url (ws_keyword item);
        if uid = [] then Some ([], T, mgr)
        else do {
          let key = (path, ws_name item, uid);
          (ret, nd, mgr) \<leftarrow> check_set_service_node mgr (case T key of None \<Rightarrow> new_node (ws_name item) uid | Some nd \<Rightarrow> nd);
          out \<leftarrow> (if ret \<noteq> 0 then Some []
            else if ws_inter_change item \<noteq> 0 then map_option snd (handle_internal_change qs vm item data nd)
            else Some (idx_backend_forward data nd));
          Some (out, T(key \<mapsto> nd), mgr)
        }
      })"

fun seat_loop ::
  "qsort \<Rightarrow> vehicle_mgr \<Rightarrow> zeromq_msg \<Rightarrow> uri_impl option \<Rightarrow> string \<Rightarrow> forwork_service_item list \<Rightarrow> seating \<Rightarrow> server_endpoint_mgr \<Rightarrow>
     (zframe list \<times> seating \<times> server_endpoint_mgr) option" where
  "seat_loop qs vm data url path [] T mgr = Some ([], T, mgr)"
| "seat_loop qs vm data url path (item # items) T mgr =
     do {
       (out, T, mgr) \<leftarrow> seat_round qs vm data url path item T mgr;
       (rest, T, mgr) \<leftarrow> seat_loop qs vm data url path items T mgr;
       Some (out @ rest, T, mgr)
     }"

lemma find_or_add_ok:
  assumes ok: "idx_ok rs ss ns f" and r: "kid_at (rule_url (ia_rules f)) rs 0 path = Some r" and a: "a \<in> set (ss r)" and it: "ia_services f a = Some it"
    and uid: "uid \<noteq> []"
  obtains node f' ns' n nd where "find_forward_service_node f (Some a) uid = Some node"
    "(if node = None then add_forward_service_node f (Some a) uid else Some (node, f)) = Some (Some n, f')" "idx_ok rs ss ns' f'"
    "seat_node rs ss ns' f' (path, ws_name it, uid) = Some n" "ia_nodes f' n = Some nd"
    "nd = (case seats rs ss ns f (path, ws_name it, uid) of None \<Rightarrow> new_node (ws_name it) uid | Some nd \<Rightarrow> nd)"
    "\<forall>nd'. (seats rs ss ns' f')((path, ws_name it, uid) \<mapsto> nd') = (seats rs ss ns f)((path, ws_name it, uid) \<mapsto> nd')" "ia_mgr f' = ia_mgr f"
    "ia_rules f' = ia_rules f" "ia_services f' = ia_services f" "ia_rule_kids f' = ia_rule_kids f" "ia_service_kids f' = ia_service_kids f"
proof -
  note k = idx_okD [OF ok]
  let ?key = "(path, ws_name it, uid)"
  have A: "a \<in> dom (ia_services f)" using it by blast
  have find: "find_forward_service_node f (Some a) uid = Some (kid_at (node_id_of (ia_nodes f)) ns a uid)"
    using kids_find_ok [OF k(3) A] by (simp add: find_forward_service_node_def)
  have "r \<in> dom (ia_rules f)" using kid_at_Some [OF r] kids_sub [OF k(1)] by blast
  then have sa: "kid_at (service_name (ia_services f)) ss r (ws_name it) = Some a"
    using kid_at_eq [OF k(2) _ a] it by (simp add: service_name_def)
  then have at: "seat_node rs ss ns f ?key = kid_at (node_id_of (ia_nodes f)) ns a uid" using r by (simp add: seat_node_def)
  show ?thesis
  proof (cases "kid_at (node_id_of (ia_nodes f)) ns a uid")
    case None
    from add_node_ok [OF ok r a it uid None] obtain f' ns' n where f':
      "add_forward_service_node f (Some a) uid = Some (Some n, f')" "idx_ok rs ss ns' f'"
      "seats rs ss ns' f' = (seats rs ss ns f)(?key \<mapsto> new_node (ws_name it) uid)" "seat_node rs ss ns' f' ?key = Some n"
      "ia_nodes f' n = Some (new_node (ws_name it) uid)" "ia_mgr f' = ia_mgr f"
      "ia_rules f' = ia_rules f" "ia_services f' = ia_services f" "ia_rule_kids f' = ia_rule_kids f" "ia_service_kids f' = ia_service_kids f" .
    have "seats rs ss ns f ?key = None" using at None by (simp add: seats_def)
    then show ?thesis using that [OF find _ f'(2,4,5)] None f' by simp
  next
    case (Some n)
    then have "n \<in> dom (ia_nodes f)" using kid_at_Some [OF Some] kids_sub [OF k(3)] by blast
    then obtain nd where nd: "ia_nodes f n = Some nd" by blast
    then have "seats rs ss ns f ?key = Some nd" using at Some by (simp add: seats_def)
    then show ?thesis using that [OF find _ ok _ nd] Some at by simp
  qed
qed

lemma forward_round_ok:
  assumes ok: "idx_ok rs ss ns f" and r: "kid_at (rule_url (ia_rules f)) rs 0 path = Some r" and a: "a \<in> set (ss r)" and it: "ia_services f a = Some it"
  shows "case seat_round qs vm data url path it (seats rs ss ns f) (ia_mgr f) of
      None \<Rightarrow> forward_round qs vm data url a f = None
    | Some (out, T, mgr) \<Rightarrow> \<exists>f' ns'. forward_round qs vm data url a f = Some (out, f') \<and> idx_ok rs ss ns' f' \<and> seats rs ss ns' f' = T \<and> ia_mgr f' = mgr \<and>
        ia_rules f' = ia_rules f \<and> ia_services f' = ia_services f \<and> ia_service_kids f' = ia_service_kids f"
proof (cases "ws_type it AND 1 = 0 \<or> uri_query_value url (ws_keyword it) \<in> {None, Some []}")
  case True
  then show ?thesis using ok it by (auto simp: seat_round_def forward_round_def)
next
  case False
  then obtain uid where type: "ws_type it AND 1 \<noteq> 0" and uid: "uri_query_value url (ws_keyword it) = Some uid" "uid \<noteq> []" by auto
  let ?key = "(path, ws_name it, uid)"
  from find_or_add_ok [OF ok r a it uid(2)] obtain node f1 ns1 n nd where
    f1: "find_forward_service_node f (Some a) uid = Some node"
    "(if node = None then add_forward_service_node f (Some a) uid else Some (node, f)) = Some (Some n, f1)" "idx_ok rs ss ns1 f1"
    "seat_node rs ss ns1 f1 ?key = Some n" "ia_nodes f1 n = Some nd"
    "nd = (case seats rs ss ns f ?key of None \<Rightarrow> new_node (ws_name it) uid | Some nd \<Rightarrow> nd)"
    "\<forall>nd'. (seats rs ss ns1 f1)(?key \<mapsto> nd') = (seats rs ss ns f)(?key \<mapsto> nd')" "ia_mgr f1 = ia_mgr f"
    "ia_rules f1 = ia_rules f" "ia_services f1 = ia_services f" "ia_rule_kids f1 = ia_rule_kids f" "ia_service_kids f1 = ia_service_kids f" by metis
  note k = idx_okD [OF f1(3)]
  from check_set_ok [OF k(6) k(7) [OF f1(5)]] obtain ret nd' m' H' where
    c: "check_set_service_node (ia_mgr f1) nd = Some (ret, nd', m')" "node_ok m' nd'" "points_kept (ia_mgr f1) m'"
      "fn_name nd' = fn_name nd" "fn_node_id nd' = fn_node_id nd" "mgr_ok m' H'" "\<And>b. H' b + held nd b = handles (ia_nodes f1) b + held nd' b" by metis
  let ?f = "f1\<lparr>ia_nodes := (ia_nodes f1)(n \<mapsto> nd'), ia_mgr := m'\<rparr>"
  note up = seats_update [OF f1(3-5) c(4,5,2,6,3,7)]
  let ?out = "if ret \<noteq> 0 then Some [] else if ws_inter_change it \<noteq> 0 then map_option snd (handle_internal_change qs vm it data nd')
    else Some (idx_backend_forward data nd')"
  have run: "forward_round qs vm data url a f = map_option (\<lambda>out. (out, ?f)) ?out"
    using it type uid f1(1,2,5) c(1)
    by (auto simp: forward_round_def Let_def split: option.splits bind_splits)
  have spec: "seat_round qs vm data url path it (seats rs ss ns f) (ia_mgr f) = map_option (\<lambda>out. (out, (seats rs ss ns f)(?key \<mapsto> nd'), m')) ?out"
    using type uid c(1) unfolding f1(6,8) by (auto simp: seat_round_def Let_def split: option.splits bind_splits)
  show ?thesis
  proof (cases ?out)
    case None
    then show ?thesis by (simp only: run spec option.map option.case)
  next
    case (Some out)
    have "idx_ok rs ss ns1 ?f \<and> seats rs ss ns1 ?f = (seats rs ss ns f)(?key \<mapsto> nd') \<and> ia_mgr ?f = m' \<and>
        ia_rules ?f = ia_rules f \<and> ia_services ?f = ia_services f \<and> ia_service_kids ?f = ia_service_kids f" using up f1(7,9,10,12) by simp
    then show ?thesis unfolding run spec Some by auto
  qed
qed

lemma internal_bit: "(t OR 2 :: int) \<noteq> 0"
proof
  assume "t OR 2 = 0"
  then have "bit (t OR 2) 1 = bit (0 :: int) 1" by simp
  then show False by (simp add: bit_or_iff bit_numeral_rec)
qed

lemma forward_loop_ok:
  assumes "idx_ok rs ss ns f" and "kid_at (rule_url (ia_rules f)) rs 0 path = Some r" and "set as \<subseteq> set (ss r)"
  shows "case seat_loop qs vm data url path (map (\<lambda>a. the (ia_services f a)) as) (seats rs ss ns f) (ia_mgr f) of
      None \<Rightarrow> forward_loop qs vm data url (map Member as) i out f = None
    | Some (sent, T, mgr) \<Rightarrow> \<exists>f' ns'. forward_loop qs vm data url (map Member as) i out f = Some (i + int (length as), out @ sent, f') \<and>
        idx_ok rs ss ns' f' \<and> seats rs ss ns' f' = T \<and> ia_mgr f' = mgr \<and> ia_rules f' = ia_rules f \<and> ia_services f' = ia_services f"
  using assms
proof (induction as arbitrary: ns f i out)
  case (Cons a as)
  note k = idx_okD [OF Cons.prems(1)]
  have a: "a \<in> set (ss r)" using Cons.prems(3) by simp
  with kids_sub [OF k(2)] obtain it where it: "ia_services f a = Some it" by blast
  note round = forward_round_ok [OF Cons.prems(1,2) a it, of qs vm data url]
  let ?spec = "seat_round qs vm data url path it (seats rs ss ns f) (ia_mgr f)"
  show ?case
  proof (cases ?spec)
    case None
    then show ?thesis using round it by (simp add: list_entry_def internal_bit)
  next
    case (Some x)
    obtain o1 T m where x: "x = (o1, T, m)" by (cases x)
    from round obtain f1 ns1 where f1: "forward_round qs vm data url a f = Some (o1, f1)" "idx_ok rs ss ns1 f1" "seats rs ss ns1 f1 = T" "ia_mgr f1 = m"
      "ia_rules f1 = ia_rules f" "ia_services f1 = ia_services f" by (auto simp: Some x)
    have run: "forward_loop qs vm data url (map Member (a # as)) i out f = forward_loop qs vm data url (map Member as) (i + 1) (out @ o1) f1"
      using it f1(1) by (simp add: list_entry_def internal_bit)
    have r1: "kid_at (rule_url (ia_rules f1)) rs 0 path = Some r" using Cons.prems(2) f1(5) by simp
    have as: "set as \<subseteq> set (ss r)" using Cons.prems(3) by simp
    note IH = Cons.IH [OF f1(2) r1 as, of "i + 1" "out @ o1", unfolded f1(3-6)]
    show ?thesis unfolding run using IH it Some x by (auto split: option.splits)
  qed
qed auto

text \<open>The state stands for the table \<open>R\<close> of services and the seating \<open>T\<close>.\<close>

definition idx_view :: "indexing_arbitrate \<Rightarrow> (string \<Rightarrow> forwork_service_item list option) \<Rightarrow> seating \<Rightarrow> bool" where
  "idx_view f R T \<longleftrightarrow> (\<exists>rs ss ns. idx_ok rs ss ns f \<and> services_at rs ss f = R \<and> seats rs ss ns f = T)"

definition idx_spec ::
  "qsort \<Rightarrow> vehicle_mgr \<Rightarrow> zeromq_msg option \<Rightarrow> uri_impl option \<Rightarrow> (string \<Rightarrow> forwork_service_item list option) \<Rightarrow> seating \<Rightarrow> server_endpoint_mgr \<Rightarrow>
     (int \<times> zframe list \<times> seating \<times> server_endpoint_mgr) option" where
  "idx_spec qs vm data url R T mgr =
     (case (data, idx_get_urlname_from_uri url) of
        (Some msg, Inr path) \<Rightarrow>
          (case R path of
             None \<Rightarrow> Some (- ENOTFOUND, [], T, mgr)
           | Some items \<Rightarrow> map_option (\<lambda>(out, T, mgr). (int (length items), out, T, mgr)) (seat_loop qs vm msg url path items T mgr))
      | _ \<Rightarrow> Some (- EBADPARM, [], T, mgr))"

lemma forward_refines:
  assumes "idx_view f R T"
  shows "case idx_spec qs vm data url R T (ia_mgr f) of
      None \<Rightarrow> idx_forward_to_service qs vm data url f = None
    | Some (ret, out, T', mgr') \<Rightarrow> \<exists>f'. idx_forward_to_service qs vm data url f = Some (ret, out, f') \<and> idx_view f' R T' \<and> ia_mgr f' = mgr'"
proof -
  from assms obtain rs ss ns where v: "idx_ok rs ss ns f" "services_at rs ss f = R" "seats rs ss ns f = T" by (auto simp: idx_view_def)
  note k = idx_okD [OF v(1)]
  show ?thesis
  proof (cases "data = None \<or> (\<exists>e. idx_get_urlname_from_uri url = Inl e)")
    case True
    then show ?thesis using assms by (auto simp: idx_spec_def idx_forward_to_service_def split: option.split sum.split)
  next
    case False
    then obtain msg path where m: "data = Some msg" "idx_get_urlname_from_uri url = Inr path" by (metis option.exhaust old.sum.exhaust)
    have find: "idx_find_rule f path = Some (kid_at (rule_url (ia_rules f)) rs 0 path)" using kids_find_ok [OF k(1)] by (simp add: idx_find_rule_def)
    show ?thesis
    proof (cases "kid_at (rule_url (ia_rules f)) rs 0 path")
      case None
      then have "R path = None" using v(2) by (auto simp: services_at_def)
      then show ?thesis using m find None assms by (simp add: idx_spec_def idx_forward_to_service_def)
    next
      case (Some r)
      then have R: "R path = Some (map (\<lambda>a. the (ia_services f a)) (ss r))" using v(2) by (auto simp: services_at_def)
      have "r \<in> dom (ia_rules f)" using kid_at_Some [OF Some] kids_sub [OF k(1)] by blast
      then have nodes: "list_nodes (k_lists (ia_service_kids f)) (Owner r) = Some (map Member (ss r))" by (rule kids_list [OF k(2)])
      have run: "idx_forward_to_service qs vm data url f = forward_loop qs vm msg url (map Member (ss r)) 0 [] f"
        using m find Some nodes by (simp add: idx_forward_to_service_def)
      note loop = forward_loop_ok [OF v(1) Some subset_refl, of qs vm msg url 0 "[]", unfolded v(3)]
      have "idx_view f' R T'" if "idx_ok rs ss ns' f'" "seats rs ss ns' f' = T'" "ia_rules f' = ia_rules f" "ia_services f' = ia_services f" for f' ns' T'
        unfolding idx_view_def by (intro exI [of _ rs] exI [of _ ss] exI [of _ ns']) (use that v(2) in \<open>auto simp: services_at_def\<close>)
      then show ?thesis unfolding run using loop m R by (fastforce simp: idx_spec_def split: option.splits)
    qed
  qed
qed

section \<open>Loading of the rules\<close>

lemma idx_ctor_ok: "\<exists>f. indexing_arbitrate_ctor = Some f \<and> idx_view f Map.empty Map.empty"
proof -
  from kids_new_parent [OF kids_empty, of 0] obtain d where
    d: "new_parent no_kids 0 = Some d" "kids_ok (rule_url Map.empty) {0} (\<lambda>_. []) {} d" by auto
  from ctor_inv obtain m where m: "server_endpoint_mgr_ctor = Some m" "em_inv m" "em_points m = Map.empty" by blast
  let ?f = "\<lparr>ia_rules = Map.empty, ia_services = Map.empty, ia_nodes = Map.empty, ia_rule_kids = d, ia_service_kids = no_kids,
    ia_node_kids = no_kids, ia_brk = 1, ia_mgr = m\<rparr>"
  have "mgr_ok m (handles Map.empty)" using m by (simp add: mgr_ok_def counts_ok_def count_ok_def handles_def)
  then have ok: "idx_ok (\<lambda>_. []) (\<lambda>_. []) (\<lambda>_. []) ?f" using d(2) kids_empty by (simp add: idx_ok_def)
  have none: "kid_at key (\<lambda>_. []) p name = None" for key p name by (simp add: kid_at_def)
  have "idx_view ?f Map.empty Map.empty" unfolding idx_view_def
    by (intro exI conjI) (rule ok, simp_all add: services_at_def seats_def seat_node_def none fun_eq_iff)
  moreover have "indexing_arbitrate_ctor = Some ?f" by (simp add: indexing_arbitrate_ctor_def d(1) m(1))
  ultimately show ?thesis by blast
qed

lemma idx_add_rule_ok:
  assumes ok: "idx_ok rs ss ns f" and new: "kid_at (rule_url (ia_rules f)) rs 0 name = None"
  obtains r f' rs' where "idx_add_rule f name = Some (Some r, f')" "idx_ok rs' ss ns f'" "kid_at (rule_url (ia_rules f')) rs' 0 name = Some r"
    "services_at rs' ss f' = (services_at rs ss f)(name \<mapsto> [])" "seats rs' ss ns f' = seats rs ss ns f"
proof -
  note k = idx_okD [OF ok]
  let ?r = "ia_brk f"
  let ?R = "(ia_rules f)(?r \<mapsto> name)" and ?rs = "rs(0 := rs 0 @ [?r])"
  have key: "rule_url ?R b = rule_url (ia_rules f) b" if "b \<in> dom (ia_rules f)" for b using that k(9) by (auto simp: rule_url_def)
  have newkey: "rule_url ?R ?r = name" by (simp add: rule_url_def)
  have fresh: "rule_url ?R ?r \<notin> rule_url (ia_rules f) ` set (rs 0)" using new by (simp add: newkey kid_at_None)
  have z: "0 \<in> {0 :: nat}" by simp
  from kids_add [OF k(1) z k(9) key fresh] obtain e where
    e: "kids_insert (rule_url ?R) (new_kid (ia_rule_kids f) ?r) 0 ?r = Some (True, e)" "kids_ok (rule_url ?R) {0} ?rs (insert ?r (dom (ia_rules f))) e" by metis
  from kids_new_parent [OF k(2,9)] obtain d where
    d: "new_parent (ia_service_kids f) ?r = Some d" "kids_ok (service_name (ia_services f)) (insert ?r (dom (ia_rules f))) ss (dom (ia_services f)) d" by metis
  let ?f = "f\<lparr>ia_brk := Suc ?r, ia_rules := ?R, ia_rule_kids := e, ia_service_kids := d\<rparr>"
  have run: "idx_add_rule f name = Some (Some ?r, ?f)"
    using kids_find_ok [OF k(1), of 0 name] new d(1) e(1) by (simp add: idx_add_rule_def idx_find_rule_def Let_def)
  have "\<forall>x \<in> dom ?R \<union> dom (ia_services f) \<union> dom (ia_nodes f). 0 < x \<and> x < Suc ?r" using k(4,5) by (auto simp: less_Suc_eq)
  then have ok': "idx_ok ?rs ss ns ?f" using ok d(2) e(2) by (simp add: idx_ok_def)
  have at: "kid_at (rule_url ?R) ?rs 0 p = (if p = name then Some ?r else kid_at (rule_url (ia_rules f)) rs 0 p)" for p
    using kid_at_append [of rs 0 "rule_url ?R", OF key fresh, of p] kids_sub [OF k(1)] by (auto simp: newkey)
  have "ss ?r = []" using kids_outside [OF k(2,9)] .
  then have none: "kid_at (service_name (ia_services f)) ss ?r s = None" for s by (simp add: kid_at_def)
  have "services_at ?rs ss ?f = (services_at rs ss f)(name \<mapsto> [])" using \<open>ss ?r = []\<close> by (auto simp: services_at_def at)
  moreover have "seats ?rs ss ns ?f = seats rs ss ns f" by (auto simp: seats_def seat_node_def at none new fun_eq_iff)
  ultimately show ?thesis using that [OF run ok'] at by simp
qed

lemma idx_obtain_rule:
  assumes ok: "idx_ok rs ss ns f"
  obtains item r f' rs' where "idx_find_rule f name = Some item" "(if item = None then idx_add_rule f name else Some (item, f)) = Some (Some r, f')"
    "idx_ok rs' ss ns f'" "kid_at (rule_url (ia_rules f')) rs' 0 name = Some r"
    "services_at rs' ss f' = (services_at rs ss f)(name \<mapsto> (case services_at rs ss f name of None \<Rightarrow> [] | Some items \<Rightarrow> items))"
    "seats rs' ss ns f' = seats rs ss ns f"
proof -
  have find: "idx_find_rule f name = Some (kid_at (rule_url (ia_rules f)) rs 0 name)"
    using kids_find_ok [OF idx_okD(1) [OF ok]] by (simp add: idx_find_rule_def)
  show ?thesis
  proof (cases "kid_at (rule_url (ia_rules f)) rs 0 name")
    case None
    from idx_add_rule_ok [OF ok None] obtain r f' rs' where f': "idx_add_rule f name = Some (Some r, f')" "idx_ok rs' ss ns f'"
      "kid_at (rule_url (ia_rules f')) rs' 0 name = Some r" "services_at rs' ss f' = (services_at rs ss f)(name \<mapsto> [])" "seats rs' ss ns f' = seats rs ss ns f" .
    have "services_at rs ss f name = None" using None by (simp add: services_at_def)
    then show ?thesis using that [OF find _ f'(2,3)] None f' by simp
  next
    case (Some r)
    then have "services_at rs ss f name = Some (map (\<lambda>a. the (ia_services f a)) (ss r))" by (simp add: services_at_def)
    then show ?thesis using that [OF find _ ok Some] Some by (simp add: fun_upd_idem)
  qed
qed

lemma idx_add_service_ok:
  assumes ok: "idx_ok rs ss ns f" and r: "kid_at (rule_url (ia_rules f)) rs 0 path = Some r"
    and items: "services_at rs ss f path = Some items" "svc \<notin> ws_name ` set items" and it: "ws_name it = svc"
  obtains a f' ss' where "idx_add_service f (Some r) svc = Some (Some a, f')"
    "ia_services f' a = Some \<lparr>ws_name = svc, ws_keyword = [], ws_type = 0, ws_inter_change = 0\<rparr>"
    "idx_ok rs ss' ns (f'\<lparr>ia_services := (ia_services f')(a \<mapsto> it)\<rparr>)"
    "services_at rs ss' (f'\<lparr>ia_services := (ia_services f')(a \<mapsto> it)\<rparr>) = (services_at rs ss f)(path \<mapsto> items @ [it])"
    "seats rs ss' ns (f'\<lparr>ia_services := (ia_services f')(a \<mapsto> it)\<rparr>) = seats rs ss ns f"
proof -
  note k = idx_okD [OF ok]
  let ?a = "ia_brk f" and ?it = "\<lparr>ws_name = svc, ws_keyword = [], ws_type = 0, ws_inter_change = 0\<rparr>"
  let ?S = "(ia_services f)(?a \<mapsto> ?it)" and ?T = "(ia_services f)(?a \<mapsto> it)" and ?ss = "ss(r := ss r @ [?a])"
  have R: "r \<in> dom (ia_rules f)" using kid_at_Some [OF r] kids_sub [OF k(1)] by blast
  have old: "x \<noteq> ?a" "x \<in> dom (ia_services f)" if "x \<in> set (ss q)" for x q using kids_sub [OF k(2) that] k(10) by auto
  have names: "service_name (ia_services f) ` set (ss r) = ws_name ` set items"
  proof -
    have "items = map (\<lambda>a. the (ia_services f a)) (ss r)" using items(1) r by (simp add: services_at_def)
    moreover have "service_name (ia_services f) x = ws_name (the (ia_services f x))" if "x \<in> set (ss r)" for x
      using old(2) [OF that] by (auto simp: service_name_def)
    ultimately show ?thesis by (simp add: image_image)
  qed
  have key: "service_name ?S b = service_name (ia_services f) b" if "b \<in> dom (ia_services f)" for b using that k(10) by (auto simp: service_name_def)
  have newkey: "service_name ?S ?a = svc" by (simp add: service_name_def)
  have fresh: "service_name ?S ?a \<notin> service_name (ia_services f) ` set (ss r)" using items(2) by (simp add: newkey names)
  have new: "kid_at (service_name (ia_services f)) ss r svc = None" using items(2) by (simp add: kid_at_None names)
  from kids_add [OF k(2) R k(10) key fresh] obtain e where
    e: "kids_insert (service_name ?S) (new_kid (ia_service_kids f) ?a) r ?a = Some (True, e)"
      "kids_ok (service_name ?S) (dom (ia_rules f)) ?ss (insert ?a (dom (ia_services f))) e" by metis
  from kids_new_parent [OF k(3,10)] obtain d where
    d: "new_parent (ia_node_kids f) ?a = Some d" "kids_ok (node_id_of (ia_nodes f)) (insert ?a (dom (ia_services f))) ns (dom (ia_nodes f)) d" by metis
  let ?f = "f\<lparr>ia_brk := Suc ?a, ia_services := ?S, ia_service_kids := e, ia_node_kids := d\<rparr>"
  let ?g = "?f\<lparr>ia_services := (ia_services ?f)(?a \<mapsto> it)\<rparr>"
  have run: "idx_add_service f (Some r) svc = Some (Some ?a, ?f)"
    using kids_find_ok [OF k(2) R, of svc] new d(1) e(1) by (simp add: idx_add_service_def idx_find_service_def Let_def)
  have S: "service_name ?T = service_name ?S" using it by (auto simp: service_name_def)
  have "ns ?a = []" using kids_outside [OF k(3,10)] .
  then have "map_option fn_name (ia_nodes f n) = map_option ws_name (?T b)" if "n \<in> set (ns b)" for b n
    using k(8) [OF that] that by (cases "b = ?a") auto
  moreover have "\<forall>x \<in> dom (ia_rules f) \<union> dom ?T \<union> dom (ia_nodes f). 0 < x \<and> x < Suc ?a" using k(4,5) by (auto simp: less_Suc_eq)
  ultimately have ok': "idx_ok rs ?ss ns ?g" using ok d(2) e(2) by (simp add: idx_ok_def S)
  have at: "kid_at (service_name ?S) ?ss q s = (if q = r \<and> s = svc then Some ?a else kid_at (service_name (ia_services f)) ss q s)" for q s
  proof (cases "q = r")
    case True
    then show ?thesis using kid_at_append [of ss r "service_name ?S", OF key fresh, of s] old by (auto simp: newkey)
  next
    case False
    then show ?thesis using kid_at_cong [of ss q "service_name ?S", OF key, of ?ss s] old by auto
  qed
  have none: "kid_at (node_id_of (ia_nodes f)) ns ?a u = None" for u using \<open>ns ?a = []\<close> by (simp add: kid_at_def)
  have path: "q = r \<longleftrightarrow> p = path" if "kid_at (rule_url (ia_rules f)) rs 0 p = Some q" for p q
    using kid_at_Some [OF that] kid_at_Some [OF r] that r by (metis option.inject)
  have same: "map (\<lambda>x. the (?T x)) (ss q) = map (\<lambda>x. the (ia_services f x)) (ss q)" for q using old by auto
  have "services_at rs ?ss ?g = (services_at rs ss f)(path \<mapsto> items @ [it])"
  proof
    fix p
    show "services_at rs ?ss ?g p = ((services_at rs ss f)(path \<mapsto> items @ [it])) p"
    proof (cases "kid_at (rule_url (ia_rules f)) rs 0 p")
      case None
      then show ?thesis using r by (auto simp: services_at_def)
    next
      case (Some q)
      then show ?thesis using path [OF Some] items(1) r same [of q] by (auto simp: services_at_def)
    qed
  qed
  moreover have "seats rs ?ss ns ?g = seats rs ss ns f"
  proof
    fix q :: "string \<times> string \<times> string"
    obtain p s u where q: "q = (p, s, u)" by (cases q)
    have "seat_node rs ?ss ns ?g q = seat_node rs ss ns f q"
      using new none by (cases "kid_at (rule_url (ia_rules f)) rs 0 p") (auto simp: seat_node_def q S at)
    then show "seats rs ?ss ns ?g q = seats rs ss ns f q" by (simp add: seats_def)
  qed
  ultimately show ?thesis by (intro that [OF run _ ok']) simp_all
qed

text \<open>
  What the configuration says: the entry \<open>i\<close> adds its service to the services of its path, unless the path has a service of this name.
\<close>

definition configured_service :: "(string \<Rightarrow> string option) \<Rightarrow> (string \<Rightarrow> int \<Rightarrow> int) \<Rightarrow> nat \<Rightarrow> string \<Rightarrow> forwork_service_item" where
  "configured_service text_at number_at i svc =
     \<lparr>ws_name = svc,
      ws_keyword = (case text_at (rule_path i ''.service.keyword'') of None \<Rightarrow> [] | Some keyword \<Rightarrow> keyword),
      ws_type = (case text_at (rule_path i ''.service.type'') of None \<Rightarrow> 0 | Some t \<Rightarrow>
        if t = ''all'' then 3 else if t = ''internal'' then 2 else if t = ''forward'' then 1 else 0),
      ws_inter_change = number_at (rule_path i ''.service.inter_change'') 0\<rparr>"

definition add_entry :: "(string \<Rightarrow> string option) \<Rightarrow> (string \<Rightarrow> int \<Rightarrow> int) \<Rightarrow> (string \<Rightarrow> forwork_service_item list option) \<Rightarrow> nat \<Rightarrow>
    string \<Rightarrow> forwork_service_item list option" where
  "add_entry text_at number_at R i =
     (case text_at (rule_path i ''.url-name'') of
        None \<Rightarrow> R
      | Some path \<Rightarrow>
          let items = (case R path of None \<Rightarrow> [] | Some items \<Rightarrow> items)
          in R(path \<mapsto> (case text_at (rule_path i ''.service.name'') of
            None \<Rightarrow> items
          | Some svc \<Rightarrow> if svc \<in> ws_name ` set items then items else items @ [configured_service text_at number_at i svc])))"

lemma load_service_eq:
  "load_service_change number_at i (load_service_keyword text_at i (load_service_type text_at i
     \<lparr>ws_name = svc, ws_keyword = [], ws_type = 0, ws_inter_change = 0\<rparr>)) = configured_service text_at number_at i svc"
  by (simp add: load_service_change_def load_service_keyword_def load_service_type_def configured_service_def c_str_def split: option.split)

lemma idx_find_service_ok:
  assumes ok: "idx_ok rs ss ns f" and r: "kid_at (rule_url (ia_rules f)) rs 0 path = Some r" and items: "services_at rs ss f path = Some items"
  shows "\<exists>s. idx_find_service f (Some r) svc = Some s \<and> (s = None \<longleftrightarrow> svc \<notin> ws_name ` set items)"
proof -
  note k = idx_okD [OF ok]
  have R: "r \<in> dom (ia_rules f)" using kid_at_Some [OF r] kids_sub [OF k(1)] by blast
  have "items = map (\<lambda>a. the (ia_services f a)) (ss r)" using items r by (simp add: services_at_def)
  moreover have "service_name (ia_services f) x = ws_name (the (ia_services f x))" if "x \<in> set (ss r)" for x
    using kids_sub [OF k(2) that] by (auto simp: service_name_def)
  ultimately have "service_name (ia_services f) ` set (ss r) = ws_name ` set items" by (simp add: image_image)
  then show ?thesis using kids_find_ok [OF k(2) R, of svc] by (simp add: idx_find_service_def kid_at_None)
qed

lemma idx_rule_loop_ok:
  assumes "idx_ok rs ss ns f"
  shows "\<exists>f' rs' ss'. idx_rule_loop text_at number_at is f = Some f' \<and> idx_ok rs' ss' ns f' \<and>
    services_at rs' ss' f' = foldl (add_entry text_at number_at) (services_at rs ss f) is \<and> seats rs' ss' ns f' = seats rs ss ns f"
  using assms
proof (induction "is" arbitrary: rs ss f)
  case (Cons i rest)
  show ?case
  proof (cases "text_at (rule_path i ''.url-name'')")
    case None
    then show ?thesis using Cons.IH [OF Cons.prems] by (simp add: add_entry_def idx_load_rule_url_name_def)
  next
    case url: (Some path)
    let ?items = "case services_at rs ss f path of None \<Rightarrow> [] | Some items \<Rightarrow> items"
    from idx_obtain_rule [OF Cons.prems, of path] obtain item r f1 rs1 where f1: "idx_find_rule f path = Some item"
      "(if item = None then idx_add_rule f path else Some (item, f)) = Some (Some r, f1)" "idx_ok rs1 ss ns f1"
      "kid_at (rule_url (ia_rules f1)) rs1 0 path = Some r" "services_at rs1 ss f1 = (services_at rs ss f)(path \<mapsto> ?items)" "seats rs1 ss ns f1 = seats rs ss ns f" .
    have at: "services_at rs1 ss f1 path = Some ?items" by (simp add: f1(5))
    note IH1 = Cons.IH [OF f1(3)]
    note [simp] = idx_load_rule_url_name_def idx_load_service_name_def
    show ?thesis
    proof (cases "text_at (rule_path i ''.service.name'')")
      case None
      then have "idx_rule_loop text_at number_at (i # rest) f = idx_rule_loop text_at number_at rest f1" using url f1(1,2) by simp
      moreover have "add_entry text_at number_at (services_at rs ss f) i = services_at rs1 ss f1" using url None by (simp add: add_entry_def f1(5))
      ultimately show ?thesis using IH1 by (simp only: foldl_Cons f1(6))
    next
      case svc: (Some svc)
      from idx_find_service_ok [OF f1(3,4) at, of svc] obtain s where s: "idx_find_service f1 (Some r) svc = Some s"
        "s = None \<longleftrightarrow> svc \<notin> ws_name ` set ?items" by blast
      show ?thesis
      proof (cases "svc \<in> ws_name ` set ?items")
        case True
        then obtain x where "s = Some x" using s(2) by blast
        then have "idx_rule_loop text_at number_at (i # rest) f = idx_rule_loop text_at number_at rest f1" using url svc f1(1,2) s(1) by simp
        moreover have "add_entry text_at number_at (services_at rs ss f) i = services_at rs1 ss f1" using url svc True by (simp add: add_entry_def f1(5))
        ultimately show ?thesis using IH1 by (simp only: foldl_Cons f1(6))
      next
        case False
        let ?it = "configured_service text_at number_at i svc"
        have "ws_name ?it = svc" by (simp add: configured_service_def)
        from idx_add_service_ok [OF f1(3,4) at False this] obtain a f2 ss2 where f2: "idx_add_service f1 (Some r) svc = Some (Some a, f2)"
          "ia_services f2 a = Some \<lparr>ws_name = svc, ws_keyword = [], ws_type = 0, ws_inter_change = 0\<rparr>"
          "idx_ok rs1 ss2 ns (f2\<lparr>ia_services := (ia_services f2)(a \<mapsto> ?it)\<rparr>)"
          "services_at rs1 ss2 (f2\<lparr>ia_services := (ia_services f2)(a \<mapsto> ?it)\<rparr>) = (services_at rs1 ss f1)(path \<mapsto> ?items @ [?it])"
          "seats rs1 ss2 ns (f2\<lparr>ia_services := (ia_services f2)(a \<mapsto> ?it)\<rparr>) = seats rs1 ss ns f1" .
        have "s = None" using s(2) False by blast
        then have "idx_rule_loop text_at number_at (i # rest) f = idx_rule_loop text_at number_at rest (f2\<lparr>ia_services := (ia_services f2)(a \<mapsto> ?it)\<rparr>)"
          using url svc f1(1,2) s(1) f2(1,2) by (simp add: Let_def load_service_eq)
        moreover have "add_entry text_at number_at (services_at rs ss f) i = (services_at rs1 ss f1)(path \<mapsto> ?items @ [?it])"
          using url svc False by (simp add: add_entry_def f1(5))
        ultimately show ?thesis using Cons.IH [OF f2(3)] by (simp only: foldl_Cons f1(6) f2(4,5))
      qed
    qed
  qed
qed auto

section \<open>Seats are kept\<close>

text \<open>A later seat has the endpoints of the earlier one; what was missing may have been filled in.\<close>

definition seat_kept :: "forward_service_node \<Rightarrow> forward_service_node \<Rightarrow> bool" where
  "seat_kept nd nd' \<longleftrightarrow> fn_name nd' = fn_name nd \<and> fn_node_id nd' = fn_node_id nd \<and>
     (sv_endpoint (fn_master nd) \<noteq> None \<longrightarrow> fn_master nd' = fn_master nd) \<and> (sv_endpoint (fn_slaver nd) \<noteq> None \<longrightarrow> fn_slaver nd' = fn_slaver nd)"

definition seats_kept :: "seating \<Rightarrow> seating \<Rightarrow> bool" where
  "seats_kept T T' \<longleftrightarrow> (\<forall>key nd. T key = Some nd \<longrightarrow> (\<exists>nd'. T' key = Some nd' \<and> seat_kept nd nd'))"

definition seating_ok :: "seating \<Rightarrow> server_endpoint_mgr \<Rightarrow> bool" where
  "seating_ok T m \<longleftrightarrow> (\<exists>H. mgr_ok m H) \<and> (\<forall>key nd. T key = Some nd \<longrightarrow> node_ok m nd)"

lemma seat_kept_refl [simp]: "seat_kept nd nd" "seats_kept T T"
  by (auto simp: seat_kept_def seats_kept_def)

lemma seat_kept_trans: "\<lbrakk>seat_kept x y; seat_kept y z\<rbrakk> \<Longrightarrow> seat_kept x z"
  unfolding seat_kept_def by (auto; metis)

lemma seats_kept_trans: "\<lbrakk>seats_kept T T'; seats_kept T' T''\<rbrakk> \<Longrightarrow> seats_kept T T''"
  unfolding seats_kept_def by (meson seat_kept_trans)

text \<open>The frames that a service gets: those for the seat of the vehicle, when it has a master.\<close>

definition deliver :: "zeromq_msg \<Rightarrow> uri_impl option \<Rightarrow> string \<Rightarrow> seating \<Rightarrow> forwork_service_item \<Rightarrow> zframe list" where
  "deliver msg url path T item =
     (if ws_type item AND 1 = 0 then []
      else case uri_query_value url (ws_keyword item) of
        None \<Rightarrow> []
      | Some uid \<Rightarrow>
          (if uid = [] then []
           else case T (path, ws_name item, uid) of
             None \<Rightarrow> []
           | Some nd \<Rightarrow> if sv_endpoint (fn_master nd) = None then [] else idx_backend_forward msg nd))"

definition plain :: "forwork_service_item \<Rightarrow> bool" where
  "plain item \<longleftrightarrow> ws_inter_change item = 0 \<or> ws_name item \<noteq> ''snapshot''"

lemma seat_completed:
  assumes ok: "seating_ok T m" and nd: "nd = (case T key of None \<Rightarrow> new_node name uid | Some nd \<Rightarrow> nd)"
  obtains ret nd' m' where "check_set_service_node m nd = Some (ret, nd', m')" "seating_ok (T(key \<mapsto> nd')) m'" "seats_kept T (T(key \<mapsto> nd'))"
    "points_kept m m'" "ret = (if sv_endpoint (fn_master nd') = None then - EINVALID else 0)"
proof -
  from ok obtain H where H: "mgr_ok m H" by (auto simp: seating_ok_def)
  have "node_ok m nd"
  proof (cases "T key")
    case (Some x)
    then have "node_ok m x" using ok unfolding seating_ok_def by blast
    with Some nd show ?thesis by simp
  qed (use nd in simp)
  from check_set_ok [OF H this] obtain ret nd' m' H' where
    c: "check_set_service_node m nd = Some (ret, nd', m')" "node_ok m' nd'" "points_kept m m'" "fn_name nd' = fn_name nd" "fn_node_id nd' = fn_node_id nd"
      "mgr_ok m' H'" "sv_endpoint (fn_master nd) \<noteq> None \<Longrightarrow> ret = 0 \<and> fn_master nd' = fn_master nd" "sv_endpoint (fn_slaver nd) \<noteq> None \<Longrightarrow> nd' = nd"
      "ret = (if sv_endpoint (fn_master nd') = None then - EINVALID else 0)" by metis
  have "seating_ok (T(key \<mapsto> nd')) m'" using ok c(2,6) node_ok_kept [OF _ c(3)] by (auto simp: seating_ok_def)
  moreover have "seat_kept nd nd'" using c(4,5,7,8) by (auto simp: seat_kept_def)
  then have "seats_kept T (T(key \<mapsto> nd'))" using nd by (auto simp: seats_kept_def)
  ultimately show ?thesis using that c(1,3,9) by blast
qed

lemma plain_change: "\<lbrakk>plain item; ws_inter_change item \<noteq> 0\<rbrakk> \<Longrightarrow> handle_internal_change qs vm item data nd = Some (0, idx_backend_forward data nd)"
  by (simp add: plain_def handle_internal_change_def)

lemma EINVALID_pos: "- EINVALID \<noteq> (0 :: int)"
  by simp

lemma seat_round_cases:
  assumes ok: "seating_ok T m"
  shows "case seat_round qs vm data url path item T m of
      None \<Rightarrow> url = None \<or> \<not> plain item
    | Some (out, T', m') \<Rightarrow> seating_ok T' m' \<and> seats_kept T T' \<and> points_kept m m' \<and> (\<forall>p s u. s \<noteq> ws_name item \<longrightarrow> T' (p, s, u) = T (p, s, u)) \<and>
        (plain item \<longrightarrow> out = deliver data url path T' item)"
proof (cases "ws_type item AND 1 = 0 \<or> uri_query_value url (ws_keyword item) \<in> {None, Some []}")
  case True
  have "url = None" if "uri_query_value url (ws_keyword item) = None" using that by (auto simp: uri_query_value_def bind_eq_None_conv)
  with True ok show ?thesis by (auto simp: seat_round_def deliver_def split: option.split)
next
  case False
  then obtain uid where type: "ws_type item AND 1 \<noteq> 0" and uid: "uri_query_value url (ws_keyword item) = Some uid" "uid \<noteq> []" by auto
  let ?key = "(path, ws_name item, uid)"
  let ?nd = "case T ?key of None \<Rightarrow> new_node (ws_name item) uid | Some nd \<Rightarrow> nd"
  from seat_completed [OF ok refl, where key = ?key and name = "ws_name item" and uid = uid] obtain ret nd' m' where c: "check_set_service_node m ?nd = Some (ret, nd', m')"
    "seating_ok (T(?key \<mapsto> nd')) m'" "seats_kept T (T(?key \<mapsto> nd'))" "points_kept m m'" "ret = (if sv_endpoint (fn_master nd') = None then - EINVALID else 0)" .
  let ?out = "if ret \<noteq> 0 then Some [] else if ws_inter_change item \<noteq> 0 then map_option snd (handle_internal_change qs vm item data nd')
    else Some (idx_backend_forward data nd')"
  have run: "seat_round qs vm data url path item T m = map_option (\<lambda>out. (out, T(?key \<mapsto> nd'), m')) ?out"
    using type uid c(1) by (auto simp: seat_round_def Let_def split: option.splits bind_splits)
  have plain: "?out = Some (deliver data url path (T(?key \<mapsto> nd')) item)" if "plain item"
    using that type uid c(5) EINVALID_pos by (auto simp: deliver_def plain_change)
  show ?thesis unfolding run using c(2-4) plain by (cases ?out) auto
qed

lemma seat_loop_cases:
  assumes "seating_ok T m" and "distinct (map ws_name items)"
  shows "case seat_loop qs vm data url path items T m of
      None \<Rightarrow> url = None \<or> (\<exists>item \<in> set items. \<not> plain item)
    | Some (out, T', m') \<Rightarrow> seating_ok T' m' \<and> seats_kept T T' \<and> points_kept m m' \<and>
        (\<forall>p s u. s \<notin> ws_name ` set items \<longrightarrow> T' (p, s, u) = T (p, s, u)) \<and>
        ((\<forall>item \<in> set items. plain item) \<longrightarrow> out = concat (map (deliver data url path T') items))"
  using assms
proof (induction items arbitrary: T m)
  case (Cons item items)
  note round = seat_round_cases [OF Cons.prems(1), where qs = qs and vm = vm and data = data and url = url and path = path and item = item]
  show ?case
  proof (cases "seat_round qs vm data url path item T m")
    case None
    then show ?thesis using round by auto
  next
    case (Some x)
    obtain o1 T1 m1 where x: "x = (o1, T1, m1)" by (cases x)
    from round have r: "seating_ok T1 m1" "seats_kept T T1" "points_kept m m1" "\<forall>p s u. s \<noteq> ws_name item \<longrightarrow> T1 (p, s, u) = T (p, s, u)"
      "plain item \<longrightarrow> o1 = deliver data url path T1 item" by (simp_all add: Some x)
    note IH = Cons.IH [OF r(1)]
    have d: "distinct (map ws_name items)" "ws_name item \<notin> ws_name ` set items" using Cons.prems(2) by simp_all
    show ?thesis
    proof (cases "seat_loop qs vm data url path items T1 m1")
      case None
      then show ?thesis using IH [OF d(1)] Some x by auto
    next
      case rest: (Some y)
      obtain o2 T2 m2 where y: "y = (o2, T2, m2)" by (cases y)
      from IH [OF d(1)] have l: "seating_ok T2 m2" "seats_kept T1 T2" "points_kept m1 m2" "\<forall>p s u. s \<notin> ws_name ` set items \<longrightarrow> T2 (p, s, u) = T1 (p, s, u)"
        "(\<forall>item \<in> set items. plain item) \<longrightarrow> o2 = concat (map (deliver data url path T2) items)" by (simp_all add: rest y)
      have "T2 (path, ws_name item, u) = T1 (path, ws_name item, u)" for u using l(4) d(2) by blast
      then have same: "deliver data url path T2 item = deliver data url path T1 item" by (simp add: deliver_def split: option.split)
      show ?thesis using seats_kept_trans [OF r(2) l(2)] points_kept_trans [OF r(3) l(3)] r(4,5) l(1,4,5) same by (simp add: Some x rest y)
    qed
  qed
qed simp

section \<open>All states\<close>

lemma register_endpoint_ok:
  assumes ok: "mgr_ok m H" and run: "add_server_endpoint cf m name identity cnt = Some (r, m')"
  shows "mgr_ok m' H" "points_kept m m'"
proof -
  have inv: "em_inv m" "counts_ok m H" using ok by (simp_all add: mgr_ok_def)
  have pts: "m' = m \<or> (\<exists>b p. b \<notin> dom (em_points m) \<and> em_points m' = (em_points m)(b \<mapsto> p) \<and> se_status p = 1)"
  proof (cases "name \<in> {None, Some []} \<or> identity \<in> {None, Some []}")
    case True
    then show ?thesis using run by (auto simp: add_server_endpoint_def)
  next
    case False
    then obtain n i where ni: "name = Some n" "identity = Some i" "n \<noteq> []" "i \<noteq> []" by (cases name; cases identity) auto
    from add_spec [OF inv(1) ni(3,4), of cf cnt] run
    have "m' = m \<or> (\<exists>b a. b \<notin> dom (em_points m) \<and> em_points m' = (em_points m)(b \<mapsto> new_point i a cnt))" by (auto simp: ni split: if_splits)
    then show ?thesis by force
  qed
  then show "mgr_ok m' H" using add_step [OF inv run] ok by (auto simp: mgr_ok_def split: if_splits)
  from pts show "points_kept m m'" by (auto simp: points_kept_def split: if_splits)
qed

lemma idx_view_mgr:
  assumes v: "idx_view f R T" and run: "add_server_endpoint cf (ia_mgr f) name identity cnt = Some (r, m)"
  shows "idx_view (f\<lparr>ia_mgr := m\<rparr>) R T"
proof -
  from v obtain rs ss ns where ok: "idx_ok rs ss ns f" "services_at rs ss f = R" "seats rs ss ns f = T" by (auto simp: idx_view_def)
  note k = idx_okD [OF ok(1)]
  note m = register_endpoint_ok [OF k(6) run]
  have "\<forall>nd \<in> ran (ia_nodes f). node_ok m nd" using node_ok_kept [OF k(7) m(2)] by (auto simp: ran_def)
  then have "idx_ok rs ss ns (f\<lparr>ia_mgr := m\<rparr>)" using ok(1) m(1) by (simp add: idx_ok_def)
  moreover have "services_at rs ss (f\<lparr>ia_mgr := m\<rparr>) = R" using ok(2) by (simp add: services_at_def fun_eq_iff)
  moreover have "seats rs ss ns (f\<lparr>ia_mgr := m\<rparr>) = T" using ok(3) by (simp add: seats_def seat_node_def fun_eq_iff)
  ultimately show ?thesis unfolding idx_view_def by blast
qed

lemma idx_view_facts:
  assumes "idx_view f R T"
  shows "seating_ok T (ia_mgr f)" "R path = Some items \<Longrightarrow> distinct (map ws_name items)"
proof -
  from assms obtain rs ss ns where v: "idx_ok rs ss ns f" "services_at rs ss f = R" "seats rs ss ns f = T" by (auto simp: idx_view_def)
  note k = idx_okD [OF v(1)]
  show "seating_ok T (ia_mgr f)" using k(6,7) v(3) by (auto simp: seating_ok_def seats_def bind_eq_Some_conv)
  show "distinct (map ws_name items)" if "R path = Some items"
  proof -
    from that v(2) obtain r where r: "kid_at (rule_url (ia_rules f)) rs 0 path = Some r" "items = map (\<lambda>a. the (ia_services f a)) (ss r)"
      by (auto simp: services_at_def)
    have R: "r \<in> dom (ia_rules f)" using kid_at_Some [OF r(1)] kids_sub [OF k(1)] by blast
    have "ws_name (the (ia_services f x)) = service_name (ia_services f) x" if "x \<in> set (ss r)" for x
      using kids_sub [OF k(2) that] by (auto simp: service_name_def)
    then have "map ws_name items = map (service_name (ia_services f)) (ss r)" by (simp add: r(2))
    then show ?thesis using kids_inj [OF k(2) R] kids_distinct [OF k(2) R] by (simp add: distinct_map)
  qed
qed

lemma forward_kept:
  assumes v: "idx_view f R T" and run: "idx_forward_to_service qs vm data url f = Some (ret, out, f')"
  shows "\<exists>T'. idx_view f' R T' \<and> seats_kept T T' \<and> points_kept (ia_mgr f) (ia_mgr f')"
proof -
  from forward_refines [OF v, of qs vm data url] run obtain T' where
    s: "idx_spec qs vm data url R T (ia_mgr f) = Some (ret, out, T', ia_mgr f')" "idx_view f' R T'" by (auto split: option.splits)
  have "seats_kept T T' \<and> points_kept (ia_mgr f) (ia_mgr f')"
  proof (cases "\<exists>msg path items. data = Some msg \<and> idx_get_urlname_from_uri url = Inr path \<and> R path = Some items")
    case True
    then obtain msg path items where m: "data = Some msg" "idx_get_urlname_from_uri url = Inr path" "R path = Some items" by blast
    note loop = seat_loop_cases [OF idx_view_facts [OF v], OF m(3), where qs = qs and vm = vm and data = msg and url = url]
    from s(1) m have "seat_loop qs vm msg url path items T (ia_mgr f) = Some (out, T', ia_mgr f')" by (auto simp: idx_spec_def)
    with loop [of path] show ?thesis by simp
  next
    case False
    then have "T' = T" "ia_mgr f' = ia_mgr f" using s(1) by (auto simp: idx_spec_def split: option.splits sum.splits)
    then show ?thesis by simp
  qed
  with s(2) show ?thesis by blast
qed

text \<open>A step of the service: a request from a client, or a message of a server, which is a request or a registration.\<close>

inductive idx_step :: "sysconfig \<Rightarrow> qsort \<Rightarrow> indexing_arbitrate \<Rightarrow> indexing_arbitrate \<Rightarrow> bool" for cf qs where
  forward: "idx_forward_to_service qs vm data url f = Some (ret, out, f') \<Longrightarrow> idx_step cf qs f f'"
| request: "idx_service_request cf qs vm msg f = Some (ret, msg', out, f') \<Longrightarrow> idx_step cf qs f f'"

inductive idx_reachable :: "sysconfig \<Rightarrow> qsort \<Rightarrow> (string \<Rightarrow> string option) \<Rightarrow> (string \<Rightarrow> int \<Rightarrow> int) \<Rightarrow> nat \<Rightarrow> indexing_arbitrate \<Rightarrow> bool"
  for cf qs text_at number_at n where
  start: "\<lbrakk>indexing_arbitrate_ctor = Some f; idx_init_rule_list text_at number_at (Some n) f = Some (ret, f')\<rbrakk> \<Longrightarrow>
    idx_reachable cf qs text_at number_at n f'"
| step: "\<lbrakk>idx_reachable cf qs text_at number_at n f; idx_step cf qs f f'\<rbrakk> \<Longrightarrow> idx_reachable cf qs text_at number_at n f'"

text \<open>
  The contract of a service that only adds to what it has promised: every state has a view, and a step leads to a view above the one
  before.
\<close>

locale kept_steps =
  fixes step :: "'s \<Rightarrow> 's \<Rightarrow> bool" and view :: "'s \<Rightarrow> 't \<Rightarrow> bool" and above :: "'t \<Rightarrow> 't \<Rightarrow> bool"
  assumes above_refl: "above T T"
    and above_trans: "above T T' \<Longrightarrow> above T' T'' \<Longrightarrow> above T T''"
    and view_step: "view s T \<Longrightarrow> step s s' \<Longrightarrow> \<exists>T'. view s' T' \<and> above T T'"
begin

lemma view_steps: "step\<^sup>*\<^sup>* s s' \<Longrightarrow> view s T \<Longrightarrow> \<exists>T'. view s' T' \<and> above T T'"
proof (induction rule: rtranclp_induct)
  case base
  then show ?case using above_refl by blast
next
  case (step x y)
  then obtain T' where "view x T'" "above T T'" by blast
  then show ?case using view_step [OF _ step.hyps(2)] above_trans by blast
qed

end

lemma idx_request_cases:
  assumes run: "idx_service_request cf qs vm msg f = Some (ret, msg', out, f')"
  obtains "f' = f" | data url where "idx_forward_to_service qs vm data url f = Some (ret, out, f')"
    | name identity cnt r m where "add_server_endpoint cf (ia_mgr f) name identity cnt = Some (r, m)" "f' = f\<lparr>ia_mgr := m\<rparr>"
proof -
  from run obtain identify hdr_info svc_type where h: "get_part 0 msg = Some identify" "get_part 2 msg = Some hdr_info" "read_at hdr_info 0 4 = Some svc_type"
    by (auto simp: idx_service_request_def bind_eq_Some_conv simp del: Let_def)
  consider "le_nat svc_type = 2" | "le_nat svc_type = 3" | "le_nat svc_type \<noteq> 2" "le_nat svc_type \<noteq> 3" by blast
  then show ?thesis
  proof cases
    case 1
    then obtain addr where addr: "body 1 msg = Some addr" using run h by (auto simp: idx_service_request_def bind_eq_Some_conv)
    show ?thesis
    proof (cases "length addr < 1")
      case True
      then have "f' = f" using run h 1 addr by (simp add: idx_service_request_def)
      then show ?thesis by (rule that(1))
    next
      case False
      then show ?thesis using run h 1 addr that(2) by (auto simp: idx_service_request_def bind_eq_Some_conv Let_def)
    qed
  next
    case 2
    then show ?thesis using run h that(3) by (auto simp: idx_service_request_def bind_eq_Some_conv Let_def)
  next
    case 3
    then show ?thesis using run h that(1) by (simp add: idx_service_request_def)
  qed
qed

lemma idx_step_kept:
  assumes v: "idx_view f R T" and step: "idx_step cf qs f f'"
  shows "\<exists>T'. idx_view f' R T' \<and> seats_kept T T' \<and> points_kept (ia_mgr f) (ia_mgr f')"
  using step
proof cases
  case (forward vm data url ret out)
  then show ?thesis using forward_kept [OF v] by blast
next
  case (request vm msg ret msg' out)
  from idx_request_cases [OF this]
  show ?thesis
  proof cases
    case 1
    then show ?thesis using v by auto
  next
    case 2
    then show ?thesis using forward_kept [OF v] by blast
  next
    case 3
    from idx_view_facts(1) [OF v] obtain H where "mgr_ok (ia_mgr f) H" by (auto simp: seating_ok_def)
    from register_endpoint_ok(2) [OF this 3(1)] idx_view_mgr [OF v 3(1)] show ?thesis unfolding 3(2) by (intro exI [of _ T]) simp
  qed
qed

interpretation seating: kept_steps "idx_step cf qs" "\<lambda>f T. idx_view f R T" seats_kept for cf qs R
  by unfold_locales (simp, erule (1) seats_kept_trans, use idx_step_kept in blast)

definition idx_table :: "(string \<Rightarrow> string option) \<Rightarrow> (string \<Rightarrow> int \<Rightarrow> int) \<Rightarrow> nat \<Rightarrow> string \<Rightarrow> forwork_service_item list option" where
  "idx_table text_at number_at n = foldl (add_entry text_at number_at) Map.empty [0..<n]"

lemma idx_started:
  assumes "0 < n"
  obtains f0 f where "indexing_arbitrate_ctor = Some f0" "idx_init_rule_list text_at number_at (Some n) f0 = Some (0, f)"
    "idx_view f (idx_table text_at number_at n) Map.empty"
proof -
  from idx_ctor_ok obtain f0 rs ss ns where f0: "indexing_arbitrate_ctor = Some f0" "idx_ok rs ss ns f0" "services_at rs ss f0 = Map.empty" "seats rs ss ns f0 = Map.empty"
    by (auto simp: idx_view_def)
  from idx_rule_loop_ok [OF f0(2), of text_at number_at "[0..<n]", unfolded f0(3,4)] obtain f rs' ss' where
    f: "idx_rule_loop text_at number_at [0..<n] f0 = Some f" "idx_ok rs' ss' ns f" "services_at rs' ss' f = idx_table text_at number_at n" "seats rs' ss' ns f = Map.empty"
    unfolding idx_table_def by blast
  have "idx_view f (idx_table text_at number_at n) Map.empty" unfolding idx_view_def using f(2-4) by blast
  then show ?thesis using that f0(1) f(1) assms by (simp add: idx_init_rule_list_def)
qed

lemma idx_reachable_view: "idx_reachable cf qs text_at number_at n f \<Longrightarrow> \<exists>T. idx_view f (idx_table text_at number_at n) T"
proof (induction rule: idx_reachable.induct)
  case (start f ret f')
  then have "0 < n" by (auto simp: idx_init_rule_list_def split: if_splits)
  then show ?case using idx_started [of n text_at number_at] start by (metis option.inject prod.inject)
next
  case (step f f')
  then show ?case using idx_step_kept by blast
qed

text \<open>The seat of a vehicle, looked up with the searches of the code.\<close>

definition idx_seat :: "indexing_arbitrate \<Rightarrow> string \<times> string \<times> string \<Rightarrow> forward_service_node option option" where
  "idx_seat f = (\<lambda>(path, svc, uid).
     do {
       r \<leftarrow> idx_find_rule f path;
       a \<leftarrow> idx_find_service f r svc;
       n \<leftarrow> find_forward_service_node f a uid;
       case n of None \<Rightarrow> Some None | Some n \<Rightarrow> map_option Some (ia_nodes f n)
     })"

lemma idx_seat_ok:
  assumes "idx_view f R T"
  shows "idx_seat f key = Some (T key)"
proof -
  from assms obtain rs ss ns where v: "idx_ok rs ss ns f" "seats rs ss ns f = T" by (auto simp: idx_view_def)
  note k = idx_okD [OF v(1)]
  obtain path svc uid where key: "key = (path, svc, uid)" by (cases key)
  have r: "idx_find_rule f path = Some (kid_at (rule_url (ia_rules f)) rs 0 path)" using kids_find_ok [OF k(1)] by (simp add: idx_find_rule_def)
  have T: "T (path, svc, uid) = seats rs ss ns f (path, svc, uid)" using v(2) by simp
  show ?thesis
  proof (cases "kid_at (rule_url (ia_rules f)) rs 0 path")
    case None
    then show ?thesis using r by (simp add: T idx_seat_def key idx_find_service_def find_forward_service_node_def seats_def seat_node_def)
  next
    case (Some q)
    then have "q \<in> dom (ia_rules f)" using kid_at_Some [OF Some] kids_sub [OF k(1)] by blast
    then have s: "idx_find_service f (Some q) svc = Some (kid_at (service_name (ia_services f)) ss q svc)"
      using kids_find_ok [OF k(2)] by (simp add: idx_find_service_def)
    show ?thesis
    proof (cases "kid_at (service_name (ia_services f)) ss q svc")
      case None
      then show ?thesis using r s Some by (simp add: T idx_seat_def key find_forward_service_node_def seats_def seat_node_def)
    next
      case a: (Some a)
      then have "a \<in> dom (ia_services f)" using kid_at_Some [OF a] kids_sub [OF k(2)] by blast
      then have n: "find_forward_service_node f (Some a) uid = Some (kid_at (node_id_of (ia_nodes f)) ns a uid)"
        using kids_find_ok [OF k(3)] by (simp add: find_forward_service_node_def)
      have "x \<in> dom (ia_nodes f)" if "kid_at (node_id_of (ia_nodes f)) ns a uid = Some x" for x using kid_at_Some [OF that] kids_sub [OF k(3)] by blast
      then show ?thesis using r s n Some a by (auto simp: T idx_seat_def key seats_def seat_node_def split: option.split)
    qed
  qed
qed

lemma find_map: "find P (map g xs) = map_option g (find (\<lambda>x. P (g x)) xs)"
  by (induction xs) auto

lemma find_service_of_url_ok:
  assumes "idx_view f R T" and "idx_get_urlname_from_uri url = Inr path"
  shows "\<exists>p. find_service_of_url f url svc = Some p \<and> p \<bind> ia_services f = R path \<bind> find (\<lambda>it. ws_name it = svc)"
proof -
  from assms obtain rs ss ns where v: "idx_ok rs ss ns f" "services_at rs ss f = R" by (auto simp: idx_view_def)
  note k = idx_okD [OF v(1)]
  have r: "idx_find_rule f path = Some (kid_at (rule_url (ia_rules f)) rs 0 path)" using kids_find_ok [OF k(1)] by (simp add: idx_find_rule_def)
  have R: "R path = services_at rs ss f path" using v(2) by simp
  show ?thesis
  proof (cases "kid_at (rule_url (ia_rules f)) rs 0 path")
    case None
    then show ?thesis using r assms(2) by (simp add: find_service_of_url_def R services_at_def)
  next
    case (Some q)
    then have "q \<in> dom (ia_rules f)" using kid_at_Some [OF Some] kids_sub [OF k(1)] by blast
    then have s: "idx_find_service f (Some q) svc = Some (kid_at (service_name (ia_services f)) ss q svc)"
      using kids_find_ok [OF k(2)] by (simp add: idx_find_service_def)
    have name: "\<exists>it. ia_services f x = Some it \<and> service_name (ia_services f) x = ws_name it" if "x \<in> set (ss q)" for x
      using kids_sub [OF k(2) that] by (auto simp: service_name_def)
    have "find (\<lambda>x. ws_name (the (ia_services f x)) = svc) (ss q) = kid_at (service_name (ia_services f)) ss q svc"
      unfolding kid_at_def by (rule find_cong [OF refl]) (use name in force)
    moreover have "ia_services f x = Some (the (ia_services f x))" if "kid_at (service_name (ia_services f)) ss q svc = Some x" for x
      using name kid_at_Some [OF that] by force
    ultimately show ?thesis using r s Some assms(2)
      by (cases "kid_at (service_name (ia_services f)) ss q svc") (auto simp: find_service_of_url_def R services_at_def find_map)
  qed
qed

section \<open>Removal of a node\<close>

lemma handle_dropped:
  assumes "mgr_ok m H" and "\<And>b. r = Some b \<Longrightarrow> 0 < H b"
  obtains m' where "ep_assign m r None = Some m'" "mgr_ok m' (\<lambda>b. H b - (if r = Some b then 1 else 0))" "points_kept m m'"
proof (cases r)
  case None
  then show ?thesis using that [of m] assms(1) by (simp add: ep_assign_def ep_drop_def)
next
  case (Some b)
  from ep_drop_ok [OF assms(1) assms(2) [OF Some]] obtain m' where m': "ep_drop m (Some b) = Some m'" "mgr_ok m' (H(b := H b - 1))" "points_kept m m'" .
  have "H(b := H b - 1) = (\<lambda>x. H x - (if r = Some x then 1 else 0))" using Some by auto
  then show ?thesis using that [of m'] m' Some by (simp add: ep_assign_def)
qed

lemma handles_remove:
  assumes "finite (dom N)" "N n = Some nd"
  shows "handles (N(n := None)) = (\<lambda>b. handles N b - held nd b)" "held nd b \<le> handles N b"
proof -
  have "handles (N(n := None)) b = handles N b - held nd b" for b
  proof -
    have "handles (N(n := None)) b = (\<Sum>k \<in> dom N - {n}. held (the ((N(n := None)) k)) b)" by (simp add: handles_def)
    also have "\<dots> = (\<Sum>k \<in> dom N - {n}. held (the (N k)) b)" by (rule sum.cong) auto
    finally show ?thesis using handles_split [OF assms, of b] by simp
  qed
  then show "handles (N(n := None)) = (\<lambda>b. handles N b - held nd b)" by blast
  show "held nd b \<le> handles N b" using handles_split [OF assms, of b] by simp
qed

lemma handles_released:
  assumes ok: "mgr_ok m (handles N)" and N: "finite (dom N)" "N n = Some nd"
  obtains m1 m2 where "ep_assign m (sv_endpoint (fn_master nd)) None = Some m1" "ep_assign m1 (sv_endpoint (fn_slaver nd)) None = Some m2"
    "mgr_ok m2 (handles (N(n := None)))" "points_kept m m2"
proof -
  note h = handles_remove [OF N]
  let ?d = "\<lambda>r b. if r = Some b then 1 else 0 :: nat"
  have "0 < handles N b" if "sv_endpoint (fn_master nd) = Some b" for b using h(2) [of b] that by (simp add: held_def)
  from handle_dropped [OF ok this] obtain m1 where m1: "ep_assign m (sv_endpoint (fn_master nd)) None = Some m1"
    "mgr_ok m1 (\<lambda>b. handles N b - ?d (sv_endpoint (fn_master nd)) b)" "points_kept m m1" .
  have "0 < handles N b - ?d (sv_endpoint (fn_master nd)) b" if "sv_endpoint (fn_slaver nd) = Some b" for b
    using h(2) [of b] that by (simp add: held_def split: if_splits)
  from handle_dropped [OF m1(2) this] obtain m2 where m2: "ep_assign m1 (sv_endpoint (fn_slaver nd)) None = Some m2"
    "mgr_ok m2 (\<lambda>b. handles N b - ?d (sv_endpoint (fn_master nd)) b - ?d (sv_endpoint (fn_slaver nd)) b)" "points_kept m1 m2" .
  have "(\<lambda>b. handles N b - ?d (sv_endpoint (fn_master nd)) b - ?d (sv_endpoint (fn_slaver nd)) b) = handles (N(n := None))"
    unfolding h(1) by (simp add: held_def diff_diff_left fun_eq_iff)
  then show ?thesis using that [OF m1(1) m2(1)] m2(2) points_kept_trans [OF m1(3) m2(3)] by simp
qed

lemma remove_node_ok:
  assumes ok: "idx_ok rs ss ns f" and r: "kid_at (rule_url (ia_rules f)) rs 0 path = Some r" and a: "a \<in> set (ss r)" and it: "ia_services f a = Some it"
  shows "\<exists>f' ns'. remove_forward_service_node f a uid = Some (0, f') \<and> idx_ok rs ss ns' f' \<and> services_at rs ss f' = services_at rs ss f \<and>
    seats rs ss ns' f' = (seats rs ss ns f)((path, ws_name it, uid) := None)"
proof -
  note k = idx_okD [OF ok]
  let ?id = "node_id_of (ia_nodes f)"
  have A: "a \<in> dom (ia_services f)" using it by blast
  have R: "r \<in> dom (ia_rules f)" "rule_url (ia_rules f) r = path" using kid_at_Some [OF r] kids_sub [OF k(1)] by blast+
  have sa: "kid_at (service_name (ia_services f)) ss r (ws_name it) = Some a" using kid_at_eq [OF k(2) R(1) a] it by (simp add: service_name_def)
  have find: "find_forward_service_node f (Some a) uid = Some (kid_at ?id ns a uid)" using kids_find_ok [OF k(3) A] by (simp add: find_forward_service_node_def)
  have at: "seat_node rs ss ns f (path, ws_name it, uid) = kid_at ?id ns a uid" using r sa by (simp add: seat_node_def)
  show ?thesis
  proof (cases "kid_at ?id ns a uid")
    case None
    then have "(seats rs ss ns f)((path, ws_name it, uid) := None) = seats rs ss ns f" using at by (auto simp: seats_def)
    then show ?thesis using find None ok by (auto simp: remove_forward_service_node_def)
  next
    case (Some n)
    then have n: "n \<in> set (ns a)" "?id n = uid" "n \<in> dom (ia_nodes f)" using kid_at_Some [OF Some] kids_sub [OF k(3)] by blast+
    then obtain nd where nd: "ia_nodes f n = Some nd" by blast
    have z: "0 \<notin> dom (ia_nodes f)" using k(5) [of 0] by blast
    let ?N = "(ia_nodes f)(n := None)" and ?ns = "ns(a := remove1 n (ns a))"
    from kids_delete [OF k(3) n(1) z] obtain d where d: "kids_remove (ia_node_kids f) a n = Some d"
      "kids_ok ?id (dom (ia_services f)) ?ns (dom (ia_nodes f) - {n}) (delete_kid d n)" by metis
    from handles_released [OF k(6,12) nd] obtain m1 m2 where m: "ep_assign (ia_mgr f) (sv_endpoint (fn_master nd)) None = Some m1"
      "ep_assign m1 (sv_endpoint (fn_slaver nd)) None = Some m2" "mgr_ok m2 (handles ?N)" "points_kept (ia_mgr f) m2" .
    let ?f = "f\<lparr>ia_node_kids := delete_kid d n, ia_nodes := ?N, ia_mgr := m2\<rparr>"
    have run: "remove_forward_service_node f a uid = Some (0, ?f)" using find Some d(1) nd m(1,2) by (simp add: remove_forward_service_node_def)
    have id: "node_id_of ?N x = ?id x" if "x \<noteq> n" for x using that by (simp add: node_id_of_def)
    have kids: "kids_ok (node_id_of ?N) (dom (ia_services f)) ?ns (dom ?N) (delete_kid d n)"
      by (rule kids_key_cong [of ?id]) (use d(2) id in auto)
    have sub: "set (?ns b) = set (ns b) - {n}" if "b \<in> dom (ia_services f)" for b
      using set_remove1_eq [OF kids_distinct [OF k(3) A]] kids_disj [OF k(3) n(1), of b] by auto
    have out: "n \<notin> set (?ns b)" for b using kids_sub [OF kids] by force
    have "x \<in> set (ns b)" if "x \<in> set (?ns b)" for x b using that set_remove1_subset [of n "ns a"] by (auto split: if_splits)
    then have "\<forall>b. \<forall>x \<in> set (?ns b). map_option fn_name (?N x) = map_option ws_name (ia_services f b)"
      using k(8) out by (metis fun_upd_other)
    moreover have "\<forall>x \<in> ran ?N. node_ok m2 x" using node_ok_kept [OF k(7) m(4)] by (auto simp: ran_def split: if_splits)
    moreover have "\<forall>x \<in> dom (ia_rules f) \<union> dom (ia_services f) \<union> dom ?N. 0 < x \<and> x < ia_brk f" using k(5) by auto
    ultimately have ok': "idx_ok rs ss ?ns ?f" unfolding idx_ok_def using k(1,2,4) kids m(3) by simp
    have node: "kid_at (node_id_of ?N) ?ns b u = (if kid_at ?id ns b u = Some n then None else kid_at ?id ns b u)" if b: "b \<in> dom (ia_services f)" for b u
    proof (cases "kid_at ?id ns b u")
      case None
      have "u \<notin> node_id_of ?N ` set (?ns b)" unfolding sub [OF b] using None [unfolded kid_at_None] id by force
      then have "kid_at (node_id_of ?N) ?ns b u = None" unfolding kid_at_None .
      then show ?thesis using None by simp
    next
      case x: (Some x)
      show ?thesis
      proof (cases "x = n")
        case True
        have "u \<notin> node_id_of ?N ` set (?ns b)"
        proof
          assume "u \<in> node_id_of ?N ` set (?ns b)"
          then obtain y where y: "y \<in> set (ns b)" "y \<noteq> n" "?id y = u" using id unfolding sub [OF b] by force
          then have "y = n" using inj_onD [OF kids_inj [OF k(3) b]] kid_at_Some [OF x] True by blast
          with y(2) show False ..
        qed
        then have "kid_at (node_id_of ?N) ?ns b u = None" unfolding kid_at_None .
        then show ?thesis using x True by simp
      next
        case False
        have "x \<in> set (?ns b)" using kid_at_Some [OF x] False unfolding sub [OF b] by simp
        moreover have "node_id_of ?N x = u" using id [OF False] kid_at_Some [OF x] by simp
        ultimately have "kid_at (node_id_of ?N) ?ns b u = Some x" using kid_at_eq [OF kids b] by metis
        then show ?thesis unfolding x using False by simp
      qed
    qed
    have "seats rs ss ?ns ?f = (seats rs ss ns f)((path, ws_name it, uid) := None)"
    proof
      fix q :: "string \<times> string \<times> string"
      obtain p s u where q: "q = (p, s, u)" by (cases q)
      have "b \<in> dom (ia_services f)" if "kid_at (service_name (ia_services f)) ss x s = Some b" for b x
        using kid_at_Some [OF that] kids_sub [OF k(2)] by blast
      then have c: "seat_node rs ss ?ns ?f q = (if seat_node rs ss ns f q = Some n then None else seat_node rs ss ns f q)"
        by (auto simp: seat_node_def q node split: bind_splits)
      have iff: "seat_node rs ss ns f q = Some n \<longleftrightarrow> q = (path, ws_name it, uid)"
        using seat_node_iff [OF ok _ a n(1), of p s u] kid_at_Some [OF r] it n(2) by (auto simp: q service_name_def)
      show "seats rs ss ?ns ?f q = ((seats rs ss ns f)((path, ws_name it, uid) := None)) q"
      proof (cases "q = (path, ws_name it, uid)")
        case True
        then show ?thesis using c iff by (simp add: seats_def)
      next
        case False
        then have "seat_node rs ss ?ns ?f q = seat_node rs ss ns f q" "seat_node rs ss ns f q \<noteq> Some n" using c iff by simp_all
        then show ?thesis using False by (cases "seat_node rs ss ns f q") (simp_all add: seats_def)
      qed
    qed
    moreover have "services_at rs ss ?f = services_at rs ss f" by (simp add: services_at_def fun_eq_iff)
    ultimately show ?thesis using run ok' by blast
  qed
qed

section \<open>Properties\<close>

text \<open>A configuration with one rule, for the path \<^verbatim>\<open>/a/b\<close>, and a registration, for the witnesses.\<close>

declare avl_search.simps [code] avl_insert_up.simps [code] list_walk.simps [code]

definition idx_sample_text :: "string \<Rightarrow> string option" where
  "idx_sample_text = map_of [(rule_path 0 ''.url-name'', ''/a/b''), (rule_path 0 ''.service.name'', ''fusion''),
     (rule_path 0 ''.service.type'', ''forward''), (rule_path 0 ''.service.keyword'', ''k'')]"

definition idx_sample_registration :: zeromq_msg where
  "idx_sample_registration = \<lparr>zm_body_index = 2, zm_parts = [''e1'', [], le_bytes 4 3, le_bytes 8 0 @ le_bytes 8 6 @ ''fusion'']\<rparr>"

definition idx_sample_run :: "vehicle_mgr \<Rightarrow> (nat option \<times> string \<times> int \<times> string list) option" where
  "idx_sample_run vm =
     do {
       f \<leftarrow> indexing_arbitrate_ctor;
       (_, f) \<leftarrow> idx_init_rule_list idx_sample_text (\<lambda>_ d. d) (Some 1) f;
       (_, _, _, f) \<leftarrow> idx_service_request sample_config (sort_key qi_key) vm idx_sample_registration f;
       (_, _, f) \<leftarrow> idx_forward_to_service (sort_key qi_key) vm (Some zm_new) (Some sample_uri) f;
       s \<leftarrow> idx_seat f (''/a/b'', ''fusion'', ''A'');
       nd \<leftarrow> s;
       (ret, out, f) \<leftarrow> idx_forward_to_service (sort_key qi_key) vm (Some zm_new) (Some sample_uri) f;
       Some (sv_endpoint (fn_master nd), sv_identity (fn_master nd), ret, map fst out)
     }"

lemma idx_sample_run_eq: "idx_sample_run vm = Some (Some 2, ''e1'', 1, [''e1'', ''MASTER''])"
  by code_simp

lemma idx_sample:
  obtains f f1 f2 nd ret out where "idx_reachable sample_config (sort_key qi_key) idx_sample_text (\<lambda>_ d. d) 1 f"
    "idx_reachable sample_config (sort_key qi_key) idx_sample_text (\<lambda>_ d. d) 1 f1" "idx_seat f1 (''/a/b'', ''fusion'', ''A'') = Some (Some nd)"
    "sv_endpoint (fn_master nd) = Some 2" "sv_identity (fn_master nd) = ''e1''"
    "idx_forward_to_service (sort_key qi_key) vm (Some zm_new) (Some sample_uri) f1 = Some (ret, out, f2)"
proof -
  from idx_sample_run_eq [of vm] obtain f0 ret0 f' ret1 msg out1 f ret2 out2 f1 nd ret out f2 where
    "indexing_arbitrate_ctor = Some f0" "idx_init_rule_list idx_sample_text (\<lambda>_ d. d) (Some 1) f0 = Some (ret0, f')"
    and r: "idx_service_request sample_config (sort_key qi_key) vm idx_sample_registration f' = Some (ret1, msg, out1, f)"
      "idx_forward_to_service (sort_key qi_key) vm (Some zm_new) (Some sample_uri) f = Some (ret2, out2, f1)"
    and s: "idx_seat f1 (''/a/b'', ''fusion'', ''A'') = Some (Some nd)" "sv_endpoint (fn_master nd) = Some 2" "sv_identity (fn_master nd) = ''e1''"
      "idx_forward_to_service (sort_key qi_key) vm (Some zm_new) (Some sample_uri) f1 = Some (ret, out, f2)"
    unfolding idx_sample_run_def by (auto simp: bind_eq_Some_conv)
  then have "idx_reachable sample_config (sort_key qi_key) idx_sample_text (\<lambda>_ d. d) 1 f'" by (intro idx_reachable.start)
  then have f: "idx_reachable sample_config (sort_key qi_key) idx_sample_text (\<lambda>_ d. d) 1 f" by (rule idx_reachable.step) (rule idx_step.request [OF r(1)])
  then have "idx_reachable sample_config (sort_key qi_key) idx_sample_text (\<lambda>_ d. d) 1 f1" by (rule idx_reachable.step) (rule idx_step.forward [OF r(2)])
  from that [OF f this s] show ?thesis .
qed



text \<open>
  C22: Forwarding. In every state that the arbiter reaches, its trees and lists stand for the table of the configuration and a table of
  seats, and a request has the effect of the contract on them: the same return code and frames, the same allocations, and seats for the vehicle; it
  fails exactly when the contract does, which only the change of a message for \<^verbatim>\<open>snapshot\<close> can make it do.
\<close>

theorem idx_forward_refines:
  assumes "idx_reachable cf qs text_at number_at n f"
  shows "\<exists>T. (\<forall>key. idx_seat f key = Some (T key)) \<and>
    (\<forall>vm data url. case idx_spec qs vm data url (idx_table text_at number_at n) T (ia_mgr f) of
        None \<Rightarrow> idx_forward_to_service qs vm data url f = None
      | Some (ret, out, T', mgr') \<Rightarrow> \<exists>f'. idx_forward_to_service qs vm data url f = Some (ret, out, f') \<and> ia_mgr f' = mgr' \<and>
          (\<forall>key. idx_seat f' key = Some (T' key)))"
proof -
  from idx_reachable_view [OF assms] obtain T where T: "idx_view f (idx_table text_at number_at n) T" by blast
  have "case idx_spec qs vm data url (idx_table text_at number_at n) T (ia_mgr f) of
        None \<Rightarrow> idx_forward_to_service qs vm data url f = None
      | Some (ret, out, T', mgr') \<Rightarrow> \<exists>f'. idx_forward_to_service qs vm data url f = Some (ret, out, f') \<and> ia_mgr f' = mgr' \<and>
          (\<forall>key. idx_seat f' key = Some (T' key))" for vm data url
    using forward_refines [OF T, of qs vm data url] idx_seat_ok by (fastforce split: option.splits)
  then show ?thesis using idx_seat_ok [OF T] by blast
qed

theorem idx_forward_refines_witness:
  "\<exists>f f'. idx_reachable sample_config (sort_key qi_key) idx_sample_text (\<lambda>_ d. d) 1 f \<and>
     (\<forall>vm. idx_forward_to_service (sort_key qi_key) vm None None f = Some (- EBADPARM, [], f'))"
proof -
  fix vm
  obtain f where f: "idx_reachable sample_config (sort_key qi_key) idx_sample_text (\<lambda>_ d. d) 1 f" by (rule idx_sample)
  from idx_forward_refines [OF f] f show ?thesis by (auto simp: idx_spec_def idx_forward_to_service_def)
qed

text \<open>
  C23: Vehicles keep their endpoints. Once a vehicle has a master for a service, whatever messages follow, it has this master, the identity in its seat is
  that of the endpoint, and the endpoint exists and is enabled; so it is with the slave. Master and slave differ.
\<close>

theorem idx_sticky:
  assumes "idx_reachable cf qs text_at number_at n f" and "(idx_step cf qs)\<^sup>*\<^sup>* f f'"
    and "idx_seat f key = Some (Some nd)" and "sv_endpoint (fn_master nd) = Some b"
  shows "\<exists>nd' p. idx_seat f' key = Some (Some nd') \<and> fn_master nd' = fn_master nd \<and>
    (sv_endpoint (fn_slaver nd) \<noteq> None \<longrightarrow> fn_slaver nd' = fn_slaver nd) \<and> sv_endpoint (fn_slaver nd') \<noteq> Some b \<and>
    em_points (ia_mgr f') b = Some p \<and> se_status p = 1 \<and> se_identity p = sv_identity (fn_master nd)"
proof -
  let ?R = "idx_table text_at number_at n"
  from idx_reachable_view [OF assms(1)] obtain T where T: "idx_view f ?R T" by blast
  from seating.view_steps [OF assms(2) T] obtain T' where T': "idx_view f' ?R T'" "seats_kept T T'" by blast
  have "T key = Some nd" using idx_seat_ok [OF T, of key] assms(3) by simp
  with T'(2) obtain nd' where nd': "T' key = Some nd'" "seat_kept nd nd'" unfolding seats_kept_def by blast
  from idx_view_facts(1) [OF T'(1)] nd'(1) obtain H where H: "mgr_ok (ia_mgr f') H" "node_ok (ia_mgr f') nd'" unfolding seating_ok_def by blast
  have ma: "fn_master nd' = fn_master nd" using nd'(2) assms(4) by (simp add: seat_kept_def)
  with H(2) assms(4) obtain p where p: "em_points (ia_mgr f') b = Some p" "se_identity p = sv_identity (fn_master nd)"
    by (auto simp: node_ok_def endpoint_ok_def)
  have "se_status p = 1" using H(1) p(1) by (auto simp: mgr_ok_def)
  moreover have "sv_endpoint (fn_slaver nd') \<noteq> Some b" using H(2) ma assms(4) by (auto simp: node_ok_def)
  ultimately show ?thesis using idx_seat_ok [OF T'(1), of key] nd' ma p by (auto simp: seat_kept_def)
qed

theorem idx_sticky_witness:
  "\<exists>f f' nd nd'. idx_step sample_config (sort_key qi_key) f f' \<and> idx_seat f (''/a/b'', ''fusion'', ''A'') = Some (Some nd) \<and>
     idx_seat f' (''/a/b'', ''fusion'', ''A'') = Some (Some nd') \<and> sv_identity (fn_master nd) = ''e1'' \<and> fn_master nd' = fn_master nd"
proof -
  fix vm
  obtain f f' nd ret out where f: "idx_reachable sample_config (sort_key qi_key) idx_sample_text (\<lambda>_ d. d) 1 f"
    "idx_seat f (''/a/b'', ''fusion'', ''A'') = Some (Some nd)" "sv_endpoint (fn_master nd) = Some 2" "sv_identity (fn_master nd) = ''e1''"
    "idx_forward_to_service (sort_key qi_key) vm (Some zm_new) (Some sample_uri) f = Some (ret, out, f')" by (rule idx_sample)
  have step: "idx_step sample_config (sort_key qi_key) f f'" by (rule idx_step.forward [OF f(5)])
  from idx_sticky [OF f(1) r_into_rtranclp [of "idx_step sample_config (sort_key qi_key)", OF step] f(2,3)] step f(2,4) show ?thesis by blast
qed

text \<open>
  Delivery. A request for a path of the configuration whose services are not \<^verbatim>\<open>snapshot\<close> with a change of the message is answered in every state that the
  arbiter reaches, with the number of services of the path. The frames that go out are, service by service in the order of the configuration, those for the
  seat that the vehicle has then: the message for the master, and again for the slave when there is one. Services of the path that do not forward,
  vehicles that the URI does not name and seats without a master get nothing.
\<close>

theorem idx_delivery:
  assumes "idx_reachable cf qs text_at number_at n f" and "idx_get_urlname_from_uri url = Inr path"
    and "idx_table text_at number_at n path = Some items" and "\<forall>item \<in> set items. plain item"
  shows "\<exists>f' T'. idx_forward_to_service qs vm (Some msg) url f = Some (int (length items), concat (map (deliver msg url path T') items), f') \<and>
    (\<forall>key. idx_seat f' key = Some (T' key))"
proof -
  from idx_reachable_view [OF assms(1)] obtain T where T: "idx_view f (idx_table text_at number_at n) T" by blast
  have url: "url \<noteq> None"
  proof
    assume "url = None"
    then have "idx_get_urlname_from_uri url = Inl (- ENOTFOUND)" by (simp add: idx_get_urlname_from_uri_def uri_get_fullpath_def c_str_def)
    with assms(2) show False by simp
  qed
  note facts = idx_view_facts [OF T]
  note loop = seat_loop_cases [OF facts(1) facts(2) [OF assms(3)], where qs = qs and vm = vm and data = msg and url = url and path = path]
  with url assms(4) obtain out T' m' where l: "seat_loop qs vm msg url path items T (ia_mgr f) = Some (out, T', m')"
    by (cases "seat_loop qs vm msg url path items T (ia_mgr f)") auto
  with loop assms(4) have out: "out = concat (map (deliver msg url path T') items)" by simp
  from forward_refines [OF T, of qs vm "Some msg" url] l assms(2,3)
  obtain f' where "idx_forward_to_service qs vm (Some msg) url f = Some (int (length items), out, f')" "idx_view f' (idx_table text_at number_at n) T'"
    by (auto simp: idx_spec_def)
  then show ?thesis using idx_seat_ok out by blast
qed

theorem idx_delivery_witness:
  "\<forall>vm. \<exists>f f' T'. idx_reachable sample_config (sort_key qi_key) idx_sample_text (\<lambda>_ d. d) 1 f \<and> (\<forall>key. idx_seat f' key = Some (T' key)) \<and>
     idx_forward_to_service (sort_key qi_key) vm (Some zm_new) (Some sample_uri) f =
       Some (1, deliver zm_new (Some sample_uri) ''/a/b'' T' \<lparr>ws_name = ''fusion'', ws_keyword = ''k'', ws_type = 1, ws_inter_change = 0\<rparr>, f')"
proof
  fix vm
  have u: "idx_get_urlname_from_uri (Some sample_uri) = Inr ''/a/b''" by code_simp
  have t: "idx_table idx_sample_text (\<lambda>_ d. d) 1 ''/a/b'' = Some [\<lparr>ws_name = ''fusion'', ws_keyword = ''k'', ws_type = 1, ws_inter_change = 0\<rparr>]"
    by code_simp
  obtain f where f: "idx_reachable sample_config (sort_key qi_key) idx_sample_text (\<lambda>_ d. d) 1 f" by (rule idx_sample)
  from idx_delivery [OF f u t, of vm zm_new] f
  show "\<exists>f f' T'. idx_reachable sample_config (sort_key qi_key) idx_sample_text (\<lambda>_ d. d) 1 f \<and> (\<forall>key. idx_seat f' key = Some (T' key)) \<and>
     idx_forward_to_service (sort_key qi_key) vm (Some zm_new) (Some sample_uri) f =
       Some (1, deliver zm_new (Some sample_uri) ''/a/b'' T' \<lparr>ws_name = ''fusion'', ws_keyword = ''k'', ws_type = 1, ws_inter_change = 0\<rparr>, f')"
    by (auto simp: plain_def)
qed

text \<open>
  C26: References to endpoints. In every state that the arbiter reaches, the count of each endpoint is the number of seats that hold it, as master or as slave, and
  one more for the server it belongs to, and no seat holds an endpoint that does not exist.
\<close>

theorem idx_counts:
  assumes "idx_reachable cf qs text_at number_at n f"
  shows "case em_points (ia_mgr f) b of
      None \<Rightarrow> handles (ia_nodes f) b = 0
    | Some p \<Rightarrow> se_refcnt p = int (handles (ia_nodes f) b) + (if se_server p = None then 0 else 1)"
proof -
  from idx_reachable_view [OF assms] obtain rs ss ns where "idx_ok rs ss ns f" by (auto simp: idx_view_def)
  then have "counts_ok (ia_mgr f) (handles (ia_nodes f))" using idx_okD(6) by (auto simp: mgr_ok_def)
  then show ?thesis unfolding counts_ok_def count_ok_def by blast
qed

theorem idx_counts_witness:
  "\<exists>f p. idx_reachable sample_config (sort_key qi_key) idx_sample_text (\<lambda>_ d. d) 1 f \<and> em_points (ia_mgr f) 2 = Some p \<and>
     se_refcnt p = int (handles (ia_nodes f) 2) + (if se_server p = None then 0 else 1)"
proof -
  fix vm
  obtain f nd where f: "idx_reachable sample_config (sort_key qi_key) idx_sample_text (\<lambda>_ d. d) 1 f"
    "idx_seat f (''/a/b'', ''fusion'', ''A'') = Some (Some nd)" "sv_endpoint (fn_master nd) = Some 2" by (rule idx_sample)
  from idx_reachable_view [OF f(1)] obtain T where T: "idx_view f (idx_table idx_sample_text (\<lambda>_ d. d) 1) T" by blast
  have "node_ok (ia_mgr f) nd" using idx_view_facts(1) [OF T] idx_seat_ok [OF T] f(2) unfolding seating_ok_def by (metis option.inject)
  then obtain p where "em_points (ia_mgr f) 2 = Some p" using f(3) by (auto simp: node_ok_def endpoint_ok_def)
  moreover from this have "se_refcnt p = int (handles (ia_nodes f) 2) + (if se_server p = None then 0 else 1)"
    using idx_counts [OF f(1), of 2] by simp
  ultimately show ?thesis using f(1) by blast
qed



end
