(* ===== verification/Indexing_Forward.thy ===== *)
theory Indexing_Forward
  imports Indexing_Service Lb_Forward
begin

text \<open>
  The message handlers of the indexing service, \<^verbatim>\<open>mec/vehicle-indexing/src/forward.cpp\<close>, on the arbiter: requests that come through the load balancer are
  forwarded to the seats of the vehicle, messages of the servers are registrations, requests or answers to a client. The two sockets, the callback and
  the arbiter are set up before the first message. \<open>None\<close> is a crash.
\<close>

section \<open>Handlers\<close>

abbreviation ENOTHANDLED :: int where "ENOTHANDLED \<equiv> 1007"

text \<open>
  \<^verbatim>\<open>webapp_socket_zmq::send\<close> on a socket of a worker: an empty frame comes before the first frame of a message. The second result is the
  flag \<^verbatim>\<open>_isnew\<close>.
\<close>

definition worker_send :: "bool \<Rightarrow> string \<Rightarrow> bool \<Rightarrow> zframe list \<times> bool" where
  "worker_send isnew data bfinished = ((if isnew then [([], True)] else []) @ [(data, \<not> bfinished)], bfinished)"

text \<open>\<^verbatim>\<open>init_client\<close>, the registration at the load balancer. \<open>padding\<close> are the four bytes behind \<^verbatim>\<open>veh_cnt\<close>, which nothing sets.\<close>

definition idx_init_client :: "string \<Rightarrow> zframe list" where
  "idx_init_client padding =
     (let name = ''indexing-service'';
          info = le_bytes 4 0 @ padding @ le_bytes 8 (length name) @ strncpy name (length name);
          (hdr_out, isnew) = worker_send True (le_bytes 4 3) False;
          (info_out, isnew) = worker_send isnew info True
      in hdr_out @ info_out)"

definition idx_handle_worker_info :: "zeromq_msg \<Rightarrow> int option" where
  "idx_handle_worker_info msg =
     do {
       first \<leftarrow> get_part 0 msg;
       if length first \<noteq> 0 then Some (- ENOTHANDLED)
       else do { data \<leftarrow> get_part 1 msg; svc_type \<leftarrow> read_at data 0 4; Some 0 }
     }"

definition idx_transfer_to_server :: "qsort \<Rightarrow> vehicle_mgr \<Rightarrow> zeromq_msg \<Rightarrow> indexing_arbitrate \<Rightarrow> (int \<times> zframe list \<times> indexing_arbitrate) option" where
  "idx_transfer_to_server qs vm msg f =
     do {
       addr \<leftarrow> body 0 msg;
       if length addr < 1 then Some (- EBADPARM, [], f)
       else do {
         add_uri \<leftarrow> frame_uri addr;
         addr_info \<leftarrow> uri_ctor qs add_uri;
         idx_forward_to_service qs vm (Some msg) addr_info f
       }
     }"

definition idx_transfer_to_client ::
  "sysconfig \<Rightarrow> qsort \<Rightarrow> vehicle_mgr \<Rightarrow> zeromq_msg \<Rightarrow> indexing_arbitrate \<Rightarrow> (int \<times> zeromq_msg \<times> zframe list \<times> zframe list \<times> indexing_arbitrate) option" where
  "idx_transfer_to_client cf qs vm msg f =
     (if parts msg < 2 then Some (- EBADPARM, msg, [], [], f)
      else do {
        node_id \<leftarrow> get_part 0 msg;
        delimiter \<leftarrow> get_part 1 msg;
        if length delimiter = 0 then do {
          (ret, msg, out, f) \<leftarrow> idx_service_request cf qs vm msg f;
          Some (ret, msg, out, [], f)
        }
        else Some (0, msg, [], snd (sendparts msg 1 (parts msg) True), f)
      })"

datatype idx_sock = Idx_client | Idx_snapshot | Idx_other

text \<open>A handler that does not return 0 leaves the message to the callback, which gets the frames of the body.\<close>

definition idx_handle_zmq_msg ::
  "sysconfig \<Rightarrow> qsort \<Rightarrow> vehicle_mgr \<Rightarrow> idx_sock \<Rightarrow> zeromq_msg \<Rightarrow> indexing_arbitrate \<Rightarrow> (emitted \<times> indexing_arbitrate) option" where
  "idx_handle_zmq_msg cf qs vm wa_sock msg f =
     do {
       ret \<leftarrow> (if wa_sock = Idx_client then idx_handle_worker_info msg else Some (- 1));
       (ret, msg, svc_out, cli_out, f) \<leftarrow>
         (if wa_sock = Idx_client \<and> ret \<noteq> 0 then do { (ret, out, f) \<leftarrow> idx_transfer_to_server qs vm msg f; Some (ret, msg, out, [], f) }
          else if wa_sock = Idx_snapshot then idx_transfer_to_client cf qs vm msg f
          else Some (ret, msg, [], [], f));
       if ret \<noteq> 0 then do { d \<leftarrow> body_data msg; Some (\<lparr>to_service = svc_out, to_client = cli_out, on_recv = Some d\<rparr>, f) }
       else Some (\<lparr>to_service = svc_out, to_client = cli_out, on_recv = None\<rparr>, f)
     }"

section \<open>Messages are steps of the arbiter\<close>

lemma idx_handle_step:
  assumes "idx_handle_zmq_msg cf qs vm wa_sock msg f = Some (e, f')"
  shows "f' = f \<or> idx_step cf qs f f'"
proof (cases wa_sock)
  case Idx_client
  from assms obtain ret where ret: "idx_handle_worker_info msg = Some ret" by (auto simp: idx_handle_zmq_msg_def Idx_client bind_eq_Some_conv)
  show ?thesis
  proof (cases "ret = 0")
    case True
    then show ?thesis using assms ret by (simp add: idx_handle_zmq_msg_def Idx_client)
  next
    case False
    then obtain ret2 out where "idx_transfer_to_server qs vm msg f = Some (ret2, out, f')"
      using assms ret by (auto simp: idx_handle_zmq_msg_def Idx_client bind_eq_Some_conv split: if_splits)
    then have "f' = f \<or> (\<exists>url. idx_forward_to_service qs vm (Some msg) url f = Some (ret2, out, f'))"
      by (auto simp: idx_transfer_to_server_def bind_eq_Some_conv split: if_splits)
    then show ?thesis using idx_step.forward by blast
  qed
next
  case Idx_snapshot
  with assms obtain ret msg' out cout where "idx_transfer_to_client cf qs vm msg f = Some (ret, msg', out, cout, f')"
    by (auto simp: idx_handle_zmq_msg_def bind_eq_Some_conv split: if_splits)
  then have "f' = f \<or> (\<exists>ret msg' out. idx_service_request cf qs vm msg f = Some (ret, msg', out, f'))"
    by (auto simp: idx_transfer_to_client_def bind_eq_Some_conv split: if_splits)
  then show ?thesis using idx_step.request by blast
next
  case Idx_other
  then show ?thesis using assms by (auto simp: idx_handle_zmq_msg_def bind_eq_Some_conv)
qed


definition idx_sample_request :: zeromq_msg where
  "idx_sample_request = \<lparr>zm_body_index = 2, zm_parts = [''c1'', [], make_frame (tostring sample_uri) sample_content 0]\<rparr>"

lemma idx_sample_request_ok:
  "get_part 0 idx_sample_request = Some ''c1''" "body 0 idx_sample_request = Some (make_frame (tostring sample_uri) sample_content 0)"
  "frame_uri (make_frame (tostring sample_uri) sample_content 0) = Some (tostring sample_uri)"
  "uri_ctor (sort_key qi_key) (tostring sample_uri) = Some (Some sample_uri)" "body_data idx_sample_request \<noteq> None"
proof -
  show "uri_ctor (sort_key qi_key) (tostring sample_uri) = Some (Some sample_uri)" using sample_uri_load by (simp add: uri_ctor_def sample_uri_def)
  have "tostring sample_uri = ''http://bob:pw@h:80/a/b?k=%41&x=1''" by code_simp
  then show "frame_uri (make_frame (tostring sample_uri) sample_content 0) = Some (tostring sample_uri)" by (intro frame_uri_make) simp_all
qed (simp_all add: idx_sample_request_def get_part_def body_def body_data_def body_parts_def parts_def Let_def)


section \<open>Registration at the load balancer\<close>

lemma init_client_registers:
  assumes "length padding = 4" and "zm_parts msg = ident # map fst (idx_init_client padding)"
  shows "registration msg ident ''indexing-service''"
proof -
  let ?info = "le_bytes 4 0 @ padding @ le_bytes 8 16 @ ''indexing-service''"
  have len: "length ''indexing-service'' = 16" by simp
  have cp: "strncpy ''indexing-service'' 16 = ''indexing-service''" by code_simp
  have parts: "zm_parts msg = [ident, [], le_bytes 4 3, ?info]" using assms(2) unfolding idx_init_client_def worker_send_def Let_def len cp by simp
  have "read_at (le_bytes 4 3) 0 4 = Some (le_bytes 4 3)" using read_at_append [of "[]" 0 "le_bytes 4 3" 4 "[]"] by simp
  moreover have "read_at ((le_bytes 4 0 @ padding) @ le_bytes 8 16 @ ''indexing-service'') 8 8 = Some (le_bytes 8 16)"
    by (rule read_at_append) (simp_all add: assms(1))
  then have "read_at ?info 8 8 = Some (le_bytes 8 16)" by simp
  then have "register_name ?info = Some ''indexing-service''" by (simp add: register_name_def le_nat_bytes c_str_def assms(1))
  ultimately show ?thesis by (simp add: registration_def parts get_part_def le_nat_bytes)
qed

text \<open>
  C28: The indexing service registers at the load balancer. When its first message arrives, behind the identity that the socket of the load balancer puts in
  front, the load balancer takes it as a registration of \<^verbatim>\<open>indexing-service\<close>, whatever the bytes in the gap of the structure are: it answers with 0, and from
  then on has an endpoint with this identity for the service, unless the identity starts with NUL.
\<close>

theorem indexing_registers:
  assumes "fa_inv f" and "config_ok cf" and "lb_configured cf ''indexing-service''" and "length padding = 4"
    and "zm_parts msg = ident # map fst (idx_init_client padding)" and "c_str ident \<noteq> []"
  shows "\<exists>f' a it b. service_request cf qs msg f = Some (0, registration_reply msg, send (registration_reply msg), f') \<and> fa_inv f' \<and>
    em_items (fa_mgr f') a = Some it \<and> si_name it = ''indexing-service'' \<and> b \<in> members (fa_mgr f') a \<and> identity_of (fa_mgr f') b = c_str ident"
  using registration_ok [OF assms(1,2) init_client_registers [OF assms(4,5)], of qs] assms(3,6) by auto

theorem indexing_registers_witness:
  "\<exists>f f' a b. forward_arbitrate_ctor = Some f \<and>
     service_request \<lparr>cf_string = (\<lambda>_. 0), cf_number = (\<lambda>_ d. d)\<rparr> (sort_key qi_key)
       \<lparr>zm_body_index = 2, zm_parts = ''i1'' # map fst (idx_init_client ''abcd'')\<rparr> f =
       Some (0, registration_reply \<lparr>zm_body_index = 2, zm_parts = ''i1'' # map fst (idx_init_client ''abcd'')\<rparr>,
         send (registration_reply \<lparr>zm_body_index = 2, zm_parts = ''i1'' # map fst (idx_init_client ''abcd'')\<rparr>), f') \<and>
     b \<in> members (fa_mgr f') a \<and> identity_of (fa_mgr f') b = ''i1''"
proof -
  obtain f where f: "forward_arbitrate_ctor = Some f" "fa_inv f" using arbitrate_ctor by blast
  let ?cf = "\<lparr>cf_string = (\<lambda>_. 0), cf_number = (\<lambda>_ d. d)\<rparr>"
  have cf: "config_ok ?cf" "lb_configured ?cf ''indexing-service''" by (simp_all add: config_ok_def lb_configured_def)
  have "c_str ''i1'' = ''i1''" by (simp add: c_str_def)
  with indexing_registers [OF f(2) cf, of "''abcd''" "\<lparr>zm_body_index = 2, zm_parts = ''i1'' # map fst (idx_init_client ''abcd'')\<rparr>" "''i1''" "sort_key qi_key"] f(1)
  show ?thesis by auto
qed

end
