(* ===== verification/Spec2Isabelle.thy ===== *)
theory Spec2Isabelle
  imports Viterbi Civ_Map Hdmap_Lanes Hmm_Loc Fifo_Buffer Uri Json_Object Vehicle_Mgr Lb_Forward Timer Mem_Pools Indexing_Forward
begin

text \<open>
  \<^bold>\<open>Verification of the core of the V2I repository.\<close>

  The repository holds a vehicle-to-infrastructure system in C++. Two programs carry its own logic. Under
  \<^verbatim>\<open>src/modules\<close>, \<^verbatim>\<open>src/civmap\<close> and \<^verbatim>\<open>src/mec/mapcore\<close> a vehicle's trajectory is matched with the lanes of a
  map: a hidden Markov model has lanes as states, the distance of a point to a lane gives the probability
  of an observation, the topology of the map gives transitions, and the Viterbi algorithm decodes
  the lanes. Under \<^verbatim>\<open>src/mec\<close> services exchange messages: a load balancer routes requests of vehicles to
  the endpoints of services, and an indexing service registers vehicles and allots them to endpoints. Both
  rest on the libraries under \<^verbatim>\<open>src/mec/zsfd\<close>: intrusive lists and AVL trees, a FIFO
  buffer, URIs, JSON, multipart messages, timers and pools of memory.

  \<^bold>\<open>Conventions.\<close> Classes are records with the members the code has, functions keep their names, and
  a member function takes and returns the record. Pointers are optional addresses, and objects with embedded
  list and tree nodes have one heap for each such member, indexed by the address of the object; address 0 is
  the manager's own list head and the local variable of \<^verbatim>\<open>avl_remove\<close>. Error codes are negative integers as in the code. The
  result \<open>None\<close> of an operation means that the code fails: an assertion, an access to an invalid address
  or behind a buffer, an uncaught exception. Loops that a data structure bounds are structural recursions; loops on
  heaps are partial functions in the option monad, and the theorems show that they return. The recursive JSON
  reader has a fuel of twice the length of the text plus two, of which \<open>json_parse_terminates\<close> shows that it is
  enough. Machine integers are words where the code depends on their width: counts of endpoints, the 32-bit
  maximum of the indexing service, sizes of the FIFO buffer, ticks of the timers, sizes and indices of the pools. The theorems on
  timers are for a tick of at least 3 milliseconds and times below 2 to the 63 ticks, those on pools for objects of at most 64 MB and a
  maximum of objects that is not 1.

  \<^bold>\<open>Idealisations and parameters.\<close> Floating-point numbers are reals. Code that is not in the repository is an
  argument: the normal distribution of Boost (\<open>ncdf\<close>), \<^verbatim>\<open>stod\<close> and the conversion of coordinates, SHA-256,
  \<^verbatim>\<open>qsort\<close> with the C standard's contract \<open>qsort_ok\<close>, the format of numbers by \<^verbatim>\<open>sprintf\<close>, the system configuration as a
  function from paths to values, the identifiers drawn for vehicles, decoded protocol buffers, the time, and what the stack
  holds where the code leaves memory uninitialised, the sequence of operations that a timer's user performs in its call, and the results of
  \<^verbatim>\<open>malloc\<close>, which are null or apart from the blocks in use (\<open>room\<close>). Reference counts are unbounded integers.

  \<^bold>\<open>The theories.\<close>

  \<^item> \<open>V2I_Prelude\<close>: error codes, names of word types, C strings with \<^verbatim>\<open>strstr\<close> and \<^verbatim>\<open>strchr\<close>, decimal numbers.

  \<^item> \<open>Viterbi\<close>: the recursion, termination and backtracking loops that all decoders of \<^verbatim>\<open>modules/HMM\<close> share, and that they
  return a path of maximal score (\<open>viterbi_optimal\<close>).

  \<^item> \<open>Civ_Map\<close>: the line map and trajectory reader (\<^verbatim>\<open>civmap/map.cpp\<close>, \<^verbatim>\<open>trajectory_processor.cpp\<close>): reading, and
  distances to polylines, which are minimal.

  \<^item> \<open>Hdmap_Lanes\<close>: the queries of \<^verbatim>\<open>mapcore/hdmap-impl.cpp\<close> that localisation uses: lanes near points, and the transition matrix,
  whose rows are probabilities and which does not depend on the entries that its lookups insert.

  \<^item> \<open>Hmm_Loc\<close>: all decoders of \<^verbatim>\<open>hmm.cpp\<close> and \<^verbatim>\<open>hmm_loc.cpp\<close>: which return a most likely sequence, when they
  are safe, and where they differ from it.

  \<^item> \<open>Fifo_Buffer\<close>: \<^verbatim>\<open>utils/fifobuffer.cpp\<close> on an explicit store of chunks; sequences of operations
  refine a queue of bytes.

  \<^item> \<open>Uri\<close>: \<^verbatim>\<open>utils/uri.cpp\<close>: parsing, printing, queries; printing and loading are inverse. The copy constructor leaves one
  member uninitialised, which is 0 in the model.

  \<^item> \<open>Json\<close>, \<open>Json_Object\<close>: \<^verbatim>\<open>utils/json.cpp\<close>: reader, printer, the round trip, safety and termination of
  the reader, and objects as maps.

  \<^item> \<open>Avl_Tree\<close>, \<open>Avl_Ops\<close>: \<^verbatim>\<open>utils/avltree.cpp\<close>: the linked tree with parent pointers and balances; insertion,
  removal, search and iteration refine sorted lists and keep the tree balanced.

  \<^item> \<open>List_Node\<close>, \<open>List_Family\<close>: the macros of \<^verbatim>\<open>std/list.h\<close>; rings of nodes refine lists, and many rings in one heap
  refine a family of disjoint lists.

  \<^item> \<open>Timer_Wheel\<close>, \<open>Timer_Ops\<close>, \<open>Timer_Ticks\<close>, \<open>Timer\<close>: \<^verbatim>\<open>utils/timer.cpp\<close>: the wheel of lists with its five groups, the operations on
  timers, the tick and the periodic runner. The wheel refines a set of alarms, timers are called at their tick, once, and the ticks
  do not drift.

  \<^item> \<open>Mem_Cache\<close>, \<open>Mem_Cache_Ops\<close>, \<open>Mem_Pools\<close>: \<^verbatim>\<open>utils/mcache.cpp\<close>: pools of objects in slabs; sizes without wrap-around,
  allocation and release refine a set of objects in use, and these never overlap.

  \<^item> \<open>Name_Index\<close>: the locale \<open>three_way\<close>, the contract of the comparison that the managers hand to the tree, and what
  follows from it: a tree is an index by name. The interpretation \<open>names\<close> discharges it for the comparison of
  strings that all managers use.

  \<^item> \<open>Vehicle_Mgr\<close>: \<^verbatim>\<open>vehicle-indexing/src/vehicle-mgr.cpp\<close>: the registry of vehicles, as a map with two keys, and its
  reachable states.

  \<^item> \<open>Endpoint_Mgr\<close>, \<open>Endpoint_Ops\<close>: \<^verbatim>\<open>vehicle-indexing/src/server-endpoint-mgr.cpp\<close>: servers and endpoints, reference
  counts over all sequences of operations, allocation to the least loaded endpoint.

  \<^item> \<open>Load_Balance\<close>: \<^verbatim>\<open>load-balance/src/server-endpoint-mgr.cpp\<close>: the choice of endpoints of the load balancer,
  which takes turns.

  \<^item> \<open>Zmq_Msg\<close>: \<^verbatim>\<open>webcore/zeromq-msg.cpp\<close>: multipart messages; what is sent arrives.

  \<^item> \<open>Basicinfo\<close>: the first frame of a body (\<^verbatim>\<open>webcore/webapp.h\<close>) and the object \<^verbatim>\<open>uri\<close> that the handlers use.

  \<^item> \<open>Client_Mgr\<close>: \<^verbatim>\<open>load-balance/src/client-mgr.cpp\<close>: the set of known clients.

  \<^item> \<open>Forward_Arbitrate\<close>, \<open>Arbitrate_Ops\<close>: \<^verbatim>\<open>load-balance/src/forward_arbitrate.cpp\<close>: rules, routing and registration, on the
  list, the tree, the endpoint manager and the URI.

  \<^item> \<open>Lb_Forward\<close>: \<^verbatim>\<open>load-balance/src/forward.cpp\<close>: the handlers of messages, composed from all of these; the states of the
  running service, that distribution only reaches known clients, and that requests for the paths of a registered
  service are served.

  \<^item> \<open>Named_Kids\<close>: objects with a tree and a list of named children, a level of the indexing service's arbiter: search, new
  children and removal.

  \<^item> \<open>Indexing_Arbitrate\<close>, \<open>Indexing_Ops\<close>, \<open>Indexing_Service\<close>: \<^verbatim>\<open>vehicle-indexing/src/forward_arbitrate.cpp\<close>: rules, services and the nodes of
  vehicles on three such levels, with handles to the endpoints of \<open>Endpoint_Mgr\<close>. Requests refine a contract (\<open>idx_spec\<close>) on two
  tables, the services of each path and the seats of vehicles; vehicles keep their endpoints, and reference counts are those of the seats.

  \<^item> \<open>Indexing_Forward\<close>: \<^verbatim>\<open>vehicle-indexing/src/forward.cpp\<close>: the handlers of messages of the indexing service, and that the load balancer of
  \<open>Arbitrate_Ops\<close> understands its registration.

  \<^bold>\<open>Not modelled.\<close> Vendored libraries (libOpenDRIVE, pugixml, earcut, GeographicLib, RTKLIB); graphics, user interface and
  Java bindings; the event loop, threads, coroutines and sockets, whose behaviour is that of the operating system; the RPC
  middleware and its compiler, the expression machine and the map tools, which the two programs do not use; the
  binary map images and their readers; the fusion service, a separate program over numerical libraries; the
  snapshot service, which stores generated protocol buffers; in the indexing service the destructor of the arbiter, snapshots and the message queue; start-up
  code, build files and data.
\<close>

end
